(* ===== verification/FB_Prelude.thy ===== *)
theory FB_Prelude
  imports Main "HOL-Library.Word" "HOL-Library.Monad_Syntax"
begin

text \<open>
  Shared vocabulary of the development: bytes and buffers, checked memory accesses, C strings,
  the character classes of the C locale, and the generic lemmas the components use.

  A value of an \<open>option\<close> type that models running C code is \<open>None\<close> when the code has undefined
  behaviour (an access outside its object) or does not return; \<open>Some r\<close> is a normal return with
  result \<open>r\<close>.  A pointer that may be NULL is itself an \<open>option\<close>.  Plain \<open>char\<close> is signed, \<open>int\<close>
  has 32 bits, \<open>long\<close>, \<open>size_t\<close> and pointers have 64 bits (the platform the code is built for).
\<close>

unbundle bit_operations_syntax

named_theorems mem_simps

type_synonym byte = "8 word"
type_synonym buf = "byte list"
type_synonym u32 = "32 word"
type_synonym u64 = "64 word"

section \<open>Checked memory accesses\<close>

definition rd :: "'a list \<Rightarrow> nat \<Rightarrow> 'a option" where
  "rd b i = (if i < length b then Some (b ! i) else None)"

definition wr :: "'a list \<Rightarrow> nat \<Rightarrow> 'a \<Rightarrow> 'a list option" where
  "wr b i v = (if i < length b then Some (b[i := v]) else None)"

definition rdi :: "'a list \<Rightarrow> int \<Rightarrow> 'a option" where
  "rdi b i = (if 0 \<le> i then rd b (nat i) else None)"

definition wri :: "'a list \<Rightarrow> int \<Rightarrow> 'a \<Rightarrow> 'a list option" where
  "wri b i v = (if 0 \<le> i then wr b (nat i) v else None)"

definition mem_read :: "'a list \<Rightarrow> nat \<Rightarrow> nat \<Rightarrow> 'a list option" where
  "mem_read b i n = (if i + n \<le> length b then Some (take n (drop i b)) else None)"

definition mem_write :: "'a list \<Rightarrow> nat \<Rightarrow> 'a list \<Rightarrow> 'a list option" where
  "mem_write b i xs =
     (if i + length xs \<le> length b then Some (take i b @ xs @ drop (i + length xs) b) else None)"

definition mem_move :: "'a list \<Rightarrow> nat \<Rightarrow> nat \<Rightarrow> nat \<Rightarrow> 'a list option" where
  "mem_move b d s n = do { xs \<leftarrow> mem_read b s n; mem_write b d xs }"

lemma rd_Some [mem_simps]: "i < length b \<Longrightarrow> rd b i = Some (b ! i)"
  by (simp add: rd_def)

lemma rd_None [mem_simps]: "length b \<le> i \<Longrightarrow> rd b i = None"
  by (simp add: rd_def)

lemma wr_Some [mem_simps]: "i < length b \<Longrightarrow> wr b i v = Some (b[i := v])"
  by (simp add: wr_def)

lemma wr_None [mem_simps]: "length b \<le> i \<Longrightarrow> wr b i v = None"
  by (simp add: wr_def)

lemma rd_eq_Some_iff: "rd b i = Some v \<longleftrightarrow> i < length b \<and> b ! i = v"
  by (auto simp: rd_def)

lemma rd_drop: "drop i b = c # ys \<Longrightarrow> rd b i = Some c"
  by (metis drop_eq_Nil linorder_not_less list.distinct(1) nth_via_drop rd_def)

lemma drop_step: "drop i b = c # ys \<Longrightarrow> drop (Suc i) b = ys"
  by (metis drop_Suc list.sel(3) tl_drop)

lemma wr_eq_Some_iff: "wr b i v = Some b' \<longleftrightarrow> i < length b \<and> b' = b[i := v]"
  by (auto simp: wr_def)

lemma rdi_of_nat [mem_simps]: "rdi b (int i) = rd b i"
  by (simp add: rdi_def)

lemma rdi_neg [mem_simps]: "i < 0 \<Longrightarrow> rdi b i = None"
  by (simp add: rdi_def)

lemma wri_of_nat [mem_simps]: "wri b (int i) v = wr b i v"
  by (simp add: wri_def)

lemma wri_neg [mem_simps]: "i < 0 \<Longrightarrow> wri b i v = None"
  by (simp add: wri_def)

lemma mem_read_Some [mem_simps]: "i + n \<le> length b \<Longrightarrow> mem_read b i n = Some (take n (drop i b))"
  by (simp add: mem_read_def)

lemma mem_read_None [mem_simps]: "length b < i + n \<Longrightarrow> mem_read b i n = None"
  by (simp add: mem_read_def)

lemma mem_read_length: "mem_read b i n = Some xs \<Longrightarrow> length xs = n"
  by (auto simp: mem_read_def split: if_splits)

lemma mem_write_Some [mem_simps]:
  "i + length xs \<le> length b \<Longrightarrow> mem_write b i xs = Some (take i b @ xs @ drop (i + length xs) b)"
  by (simp add: mem_write_def)

lemma mem_write_length: "mem_write b i xs = Some b' \<Longrightarrow> length b' = length b"
  by (auto simp: mem_write_def split: if_splits)

lemma mem_move_Some [mem_simps]:
  "s + n \<le> length b \<Longrightarrow> d + n \<le> length b \<Longrightarrow>
   mem_move b d s n = Some (take d b @ take n (drop s b) @ drop (d + n) b)"
  by (simp add: mem_move_def mem_read_def mem_write_def min_absorb2)

lemma mem_move_None [mem_simps]: "length b < s + n \<Longrightarrow> mem_move b d s n = None"
  by (simp add: mem_move_def mem_simps)

lemma mem_move_length: "mem_move b d s n = Some b' \<Longrightarrow> length b' = length b"
  by (auto simp: mem_move_def dest: mem_write_length split: Option.bind_splits)

lemma take_snoc_update: "j < length b \<Longrightarrow> take (Suc j) (b[j := v]) = take j b @ [v]"
  by (simp add: take_Suc_conv_app_nth)

section \<open>C strings\<close>

text \<open>A pointer into a NUL-terminated string is the rest of its buffer from there on.\<close>

abbreviation cstr :: "buf \<Rightarrow> buf" where
  "cstr b \<equiv> takeWhile (\<lambda>c. c \<noteq> 0) b"

abbreviation terminated :: "buf \<Rightarrow> bool" where
  "terminated b \<equiv> 0 \<in> set b"

fun strlen :: "buf \<Rightarrow> nat option" where
  "strlen [] = None"
| "strlen (c # cs) = (if c = 0 then Some 0 else map_option Suc (strlen cs))"

lemma strlen_terminated: "terminated b \<Longrightarrow> strlen b = Some (length (cstr b))"
  by (induction b) auto

lemma strlen_Some_iff: "strlen b = Some n \<longleftrightarrow> terminated b \<and> n = length (cstr b)"
  by (induction b arbitrary: n) auto

lemma cstr_length_less: "terminated b \<Longrightarrow> length (cstr b) < length b"
  by (induction b) auto

lemma cstr_no_nul [simp]: "0 \<notin> set (cstr b)"
  by (auto dest: set_takeWhileD)

lemma cstr_append_nul [simp]: "0 \<notin> set xs \<Longrightarrow> cstr (xs @ 0 # ys) = xs"
  by (induction xs) auto

lemma cstr_id: "0 \<notin> set xs \<Longrightarrow> cstr xs = xs"
  by (induction xs) auto

lemma terminated_split: "terminated b \<Longrightarrow> b = cstr b @ 0 # drop (Suc (length (cstr b))) b"
  by (induction b) auto

lemma nth_cstr: "i < length (cstr b) \<Longrightarrow> b ! i = cstr b ! i \<and> b ! i \<noteq> 0"
  by (metis cstr_no_nul nth_mem takeWhile_nth)

lemma nth_length_cstr: "terminated b \<Longrightarrow> b ! length (cstr b) = 0"
  by (induction b) auto

section \<open>Characters: the classes of the C locale\<close>

abbreviation schar :: "byte \<Rightarrow> int" where
  "schar c \<equiv> sint c"

definition isprint :: "int \<Rightarrow> bool" where
  "isprint c \<longleftrightarrow> 32 \<le> c \<and> c \<le> 126"

definition isupper :: "int \<Rightarrow> bool" where
  "isupper c \<longleftrightarrow> 65 \<le> c \<and> c \<le> 90"

definition islower :: "int \<Rightarrow> bool" where
  "islower c \<longleftrightarrow> 97 \<le> c \<and> c \<le> 122"

definition isalpha :: "int \<Rightarrow> bool" where
  "isalpha c \<longleftrightarrow> isupper c \<or> islower c"

definition isdigit :: "int \<Rightarrow> bool" where
  "isdigit c \<longleftrightarrow> 48 \<le> c \<and> c \<le> 57"

definition isspace :: "int \<Rightarrow> bool" where
  "isspace c \<longleftrightarrow> c = 32 \<or> (9 \<le> c \<and> c \<le> 13)"

definition tolower :: "int \<Rightarrow> int" where
  "tolower c = (if isupper c then c + 32 else c)"

definition toupper :: "int \<Rightarrow> int" where
  "toupper c = (if islower c then c - 32 else c)"

lemmas ctype_defs = isprint_def isupper_def islower_def isalpha_def isdigit_def isspace_def
  tolower_def toupper_def

section \<open>Machine arithmetic\<close>

lemma word_eq_by_unat: "unat a = unat b \<Longrightarrow> a = b"
  by (rule unsigned_word_eqI)

lemma unat_u64: "unat (x::u64) < 2 ^ 64"
  using unsigned_less [where ?'a = nat, of x] by simp

lemma unat_u32: "unat (x::u32) < 2 ^ 32"
  using unsigned_less [where ?'a = nat, of x] by simp

lemma unat_byte: "unat (x::byte) < 256"
  using unsigned_less [where ?'a = nat, of x] by simp

lemma nat_int_mult [simp]: "nat (int a * int b) = a * b"
  by (simp add: nat_mult_distrib)

lemma int_mult_not_neg [simp]: "\<not> int a * int b < 0"
  by (simp add: not_less)

definition c_div :: "int \<Rightarrow> int \<Rightarrow> int" where
  "c_div a b = sgn a * sgn b * (\<bar>a\<bar> div \<bar>b\<bar>)"

definition c_mod :: "int \<Rightarrow> int \<Rightarrow> int" where
  "c_mod a b = a - c_div a b * b"

lemma c_div_nonneg: "0 \<le> a \<Longrightarrow> 0 < b \<Longrightarrow> c_div a b = a div b"
  by (auto simp: c_div_def sgn_if)

lemma c_mod_nonneg: "0 \<le> a \<Longrightarrow> 0 < b \<Longrightarrow> c_mod a b = a mod b"
  by (simp add: c_mod_def c_div_nonneg minus_div_mult_eq_mod)

section \<open>The heap\<close>

text \<open>
  What the allocator answers is not determined by the program: \<open>alloc_ok n\<close> says whether a request
  for \<open>n\<close> bytes succeeds and \<open>junk i\<close> is the byte found at offset \<open>i\<close> of fresh memory.
\<close>

record heap =
  alloc_ok :: "nat \<Rightarrow> bool"
  junk :: "nat \<Rightarrow> byte"

definition heap_total :: heap where
  "heap_total = \<lparr>alloc_ok = (\<lambda>_. True), junk = (\<lambda>_. 0)\<rparr>"

definition malloc :: "heap \<Rightarrow> nat \<Rightarrow> buf option" where
  "malloc h n = (if alloc_ok h n then Some (map (junk h) [0..<n]) else None)"

definition realloc :: "heap \<Rightarrow> buf option \<Rightarrow> nat \<Rightarrow> buf option" where
  "realloc h p n =
     (case p of
        None \<Rightarrow> malloc h n
      | Some d \<Rightarrow>
          if n = 0 then None
          else if alloc_ok h n then Some (take n d @ map (junk h) [length d..<n]) else None)"

lemma malloc_length: "malloc h n = Some d \<Longrightarrow> length d = n"
  by (auto simp: malloc_def split: if_splits)

lemma realloc_length: "realloc h p n = Some d \<Longrightarrow> length d = n"
  by (auto simp: realloc_def malloc_length split: option.splits if_splits)

lemma realloc_prefix:
  "realloc h (Some d) n = Some d' \<Longrightarrow> length d \<le> n \<Longrightarrow> take (length d) d' = d"
  by (auto simp: realloc_def split: if_splits)

lemma realloc_ok: "alloc_ok h n \<Longrightarrow> 0 < n \<Longrightarrow> \<exists>d. realloc h p n = Some d"
  by (auto simp: realloc_def malloc_def split: option.splits)

section \<open>Chunks of fixed width\<close>

text \<open>A flat byte array read as \<open>n\<close> records of \<open>w\<close> bytes each.\<close>

definition chunk :: "nat \<Rightarrow> 'a list \<Rightarrow> nat \<Rightarrow> 'a list" where
  "chunk w bs i = take w (drop (i * w) bs)"

definition chunks :: "nat \<Rightarrow> 'a list \<Rightarrow> nat \<Rightarrow> 'a list list" where
  "chunks w bs n = map (chunk w bs) [0..<n]"

lemma length_chunks [simp]: "length (chunks w bs n) = n"
  by (simp add: chunks_def)

lemma nth_chunks [simp]: "i < n \<Longrightarrow> chunks w bs n ! i = chunk w bs i"
  by (simp add: chunks_def)

lemma length_chunk: "Suc i * w \<le> length bs \<Longrightarrow> length (chunk w bs i) = w"
  by (simp add: chunk_def)

lemma chunks_Suc: "chunks w bs (Suc n) = chunks w bs n @ [chunk w bs n]"
  by (simp add: chunks_def)

lemma chunk_append1: "Suc i * w \<le> length xs \<Longrightarrow> chunk w (xs @ ys) i = chunk w xs i"
  by (simp add: chunk_def)

lemma chunk_append2: "length xs = m * w \<Longrightarrow> chunk w (xs @ ys) (m + i) = chunk w ys i"
  by (simp add: chunk_def algebra_simps)

lemma chunk_take: "Suc i * w \<le> m \<Longrightarrow> chunk w (take m xs) i = chunk w xs i"
  by (simp add: chunk_def drop_take min_absorb1 le_diff_conv2)

lemma chunk_drop: "chunk w (drop (m * w) xs) i = chunk w xs (m + i)"
  by (simp add: chunk_def algebra_simps)

lemma chunks_append:
  assumes "length xs = m * w"
  shows "chunks w (xs @ ys) (m + n) = chunks w xs m @ chunks w ys n"
proof (rule nth_equalityI)
  fix i assume i: "i < length (chunks w (xs @ ys) (m + n))"
  show "chunks w (xs @ ys) (m + n) ! i = (chunks w xs m @ chunks w ys n) ! i"
  proof (cases "i < m")
    case True
    then have "Suc i * w \<le> length xs" using assms by (simp add: mult_le_mono1 del: mult_Suc)
    with True i show ?thesis by (simp add: nth_append chunk_append1 del: mult_Suc)
  next
    case False
    then obtain j where j: "i = m + j" by (metis add.commute le_add_diff_inverse2 not_less)
    with i assms show ?thesis by (simp add: nth_append chunk_append2)
  qed
qed simp

lemma concat_chunks:
  "length bs = n * w \<Longrightarrow> concat (chunks w bs n) = bs"
proof (induction n arbitrary: bs)
  case 0
  then show ?case by (simp add: chunks_def)
next
  case (Suc n)
  define pre suf where "pre = take (n * w) bs" and "suf = drop (n * w) bs"
  have pre: "length pre = n * w" and suf: "length suf = w" and bs: "bs = pre @ suf"
    using Suc.prems by (simp_all add: pre_def suf_def)
  have "chunks w bs (n + 1) = chunks w pre n @ chunks w suf 1"
    unfolding bs by (rule chunks_append [OF pre])
  moreover have "chunks w suf 1 = [suf]"
    using suf by (simp add: chunks_def chunk_def)
  ultimately show ?case using Suc.IH [OF pre] bs by simp
qed

lemma chunks_concat:
  "(\<And>r. r \<in> set rs \<Longrightarrow> length r = w) \<Longrightarrow> chunks w (concat rs) (length rs) = rs"
proof (induction rs)
  case Nil
  then show ?case by (simp add: chunks_def)
next
  case (Cons r rs)
  then have r: "length r = 1 * w" by simp
  have "chunks w (r @ concat rs) (1 + length rs) = chunks w r 1 @ chunks w (concat rs) (length rs)"
    by (rule chunks_append [OF r])
  moreover have "chunks w r 1 = [r]" using Cons.prems by (simp add: chunks_def chunk_def)
  ultimately show ?case using Cons by simp
qed

lemma length_concat_const:
  "(\<And>r. r \<in> set rs \<Longrightarrow> length r = w) \<Longrightarrow> length (concat rs) = length rs * w"
  by (induction rs) auto

end
