(* ===== verification/FB_Vector.thy ===== *)
theory FB_Vector
  imports FB_Prelude
begin

text \<open>
  The growable array of \<open>lib/vector.c\<close>.  Sizes are \<open>unsigned int\<close> (32 bits, wrapping); the data block
  is the byte buffer the allocator returned, and an element pointer is a byte offset into it.
\<close>

record vector_t =
  vec_len :: u32       \<comment> \<open>bytes of one element\<close>
  vec_size :: u32      \<comment> \<open>elements in use\<close>
  vec_capacity :: u32  \<comment> \<open>elements allocated\<close>
  vec_data :: "buf option"

definition VECTOR_DEFAULT_CAPACITY :: u32 where
  "VECTOR_DEFAULT_CAPACITY = 8"

partial_function (option) grow_capacity_loop :: "u32 \<Rightarrow> u32 \<Rightarrow> u32 option" where
  "grow_capacity_loop val capacity =
     (if val < capacity then grow_capacity_loop (val * 2) capacity else Some val)"

definition grow_capacity :: "u32 \<Rightarrow> u32 option" where
  "grow_capacity capacity = grow_capacity_loop VECTOR_DEFAULT_CAPACITY capacity"

definition vector_reserve :: "heap \<Rightarrow> vector_t option \<Rightarrow> u32 \<Rightarrow> (vector_t option \<times> bool) option" where
  "vector_reserve h vp capacity =
     (case vp of
        None \<Rightarrow> Some (None, False)
      | Some v \<Rightarrow>
          if vec_capacity v < capacity then do {
            c \<leftarrow> grow_capacity capacity;
            let d = realloc h (vec_data v) (unat (vec_len v * c));
            Some (Some (v\<lparr>vec_capacity := c, vec_data := d\<rparr>), d \<noteq> None)
          } else Some (Some v, True))"

definition vector_init :: "heap \<Rightarrow> vector_t option \<Rightarrow> u32 \<Rightarrow> u32 \<Rightarrow> (vector_t option \<times> bool) option" where
  "vector_init h vp len capacity =
     (case vp of
        None \<Rightarrow> Some (None, False)
      | Some v \<Rightarrow>
          vector_reserve h
            (Some (v\<lparr>vec_len := len, vec_size := 0, vec_capacity := 0, vec_data := None\<rparr>)) capacity)"

definition vector_size :: "vector_t \<Rightarrow> u32" where
  "vector_size v = vec_size v"

definition vector_at :: "vector_t option \<Rightarrow> u32 \<Rightarrow> nat option" where
  "vector_at vp position =
     (case vp of
        None \<Rightarrow> None
      | Some v \<Rightarrow>
          if vec_data v \<noteq> None \<and> position < vec_size v then Some (unat (vec_len v * position)) else None)"

definition vector_grow_internal :: "heap \<Rightarrow> vector_t option \<Rightarrow> u32 \<Rightarrow> (vector_t option \<times> bool) option" where
  "vector_grow_internal h vp n =
     (case vp of
        None \<Rightarrow> Some (None, False)
      | Some v \<Rightarrow>
          let v' = v\<lparr>vec_size := vec_size v + n\<rparr> in vector_reserve h (Some v') (vec_size v'))"

definition vector_grow :: "heap \<Rightarrow> vector_t option \<Rightarrow> u32 \<Rightarrow> (vector_t option \<times> nat option) option" where
  "vector_grow h vp n =
     (case vp of
        None \<Rightarrow> Some (None, None)
      | Some _ \<Rightarrow> do {
          (vp', ok) \<leftarrow> vector_grow_internal h vp n;
          Some (vp',
            (case vp' of
               Some v' \<Rightarrow>
                 if ok \<and> n \<le> vec_size v' then Some (unat (vec_len v' * (vec_size v' - n))) else None
             | None \<Rightarrow> None))
        })"

definition vector_erase_range :: "vector_t option \<Rightarrow> u32 \<Rightarrow> u32 \<Rightarrow> (vector_t option \<times> bool) option" where
  "vector_erase_range vp first end_pos =
     (case vp of
        None \<Rightarrow> Some (None, False)
      | Some v \<Rightarrow>
          if first < end_pos \<and> first < vec_size v then
            if end_pos \<le> vec_size v then do {
              d \<leftarrow> vec_data v;
              d' \<leftarrow> mem_move d (unat (first * vec_len v)) (unat (end_pos * vec_len v))
                     (unat (vec_len v * (vec_size v - end_pos + 1)));
              Some (Some (v\<lparr>vec_data := Some d', vec_size := vec_size v - (end_pos - first)\<rparr>), True)
            } else Some (Some (v\<lparr>vec_size := first\<rparr>), True)
          else Some (vp, False))"

definition vector_erase :: "vector_t option \<Rightarrow> u32 \<Rightarrow> (vector_t option \<times> bool) option" where
  "vector_erase vp position = vector_erase_range vp position (position + 1)"

definition vector_free :: "vector_t option \<Rightarrow> vector_t option" where
  "vector_free vp = map_option (\<lambda>v. v\<lparr>vec_data := None, vec_capacity := 0, vec_size := 0\<rparr>) vp"

section \<open>Invariant and abstraction\<close>

definition vector_wf :: "vector_t \<Rightarrow> bool" where
  "vector_wf v \<longleftrightarrow>
     vec_size v \<le> vec_capacity v \<and> 0 < vec_len v \<and>
     unat (vec_len v) * unat (vec_capacity v) < 2 ^ 32 \<and>
     (case vec_data v of
        None \<Rightarrow> vec_capacity v = 0
      | Some d \<Rightarrow> length d = unat (vec_len v) * unat (vec_capacity v))"

text \<open>The abstract content: the list of elements, each a list of \<open>vec_len\<close> bytes.\<close>

definition vector_elems :: "vector_t \<Rightarrow> buf list" where
  "vector_elems v =
     (case vec_data v of
        None \<Rightarrow> []
      | Some d \<Rightarrow> chunks (unat (vec_len v)) d (unat (vec_size v)))"

section \<open>Growth of the capacity\<close>

lemma unat_pow2_32: "j < 32 \<Longrightarrow> unat (2 ^ j :: u32) = 2 ^ j"
proof -
  assume j: "j < 32"
  have "unat (word_of_nat (2 ^ j) :: u32) = 2 ^ j mod 2 ^ 32"
    by (simp only: unat_of_nat) simp
  also have "\<dots> = 2 ^ j" using j by (intro mod_less power_strict_increasing) simp_all
  finally show ?thesis by simp
qed

lemma grow_capacity_loop_pow2:
  assumes "unat capacity \<le> 2 ^ 31" and "j \<le> 31"
  shows "\<exists>k. j \<le> k \<and> k \<le> 31 \<and> grow_capacity_loop (2 ^ j) capacity = Some (2 ^ k) \<and>
             unat capacity \<le> 2 ^ k \<and> (k = j \<or> 2 ^ (k - 1) < unat capacity)"
  using assms(2)
proof (induction "31 - j" arbitrary: j)
  case 0
  then have j: "j = 31" by simp
  have "\<not> (2 ^ 31 :: u32) < capacity"
    using assms(1) unat_pow2_32 [of 31] by (simp add: word_less_nat_alt)
  then show ?case
    using assms(1) j by (intro exI [of _ 31]) (simp add: grow_capacity_loop.simps)
next
  case (Suc d)
  then have j: "j < 31" by simp
  show ?case
  proof (cases "(2 ^ j :: u32) < capacity")
    case True
    have "d = 31 - Suc j" and "Suc j \<le> 31" using Suc.hyps(2) j by simp_all
    from Suc.hyps(1) [OF this] obtain k where k: "Suc j \<le> k" "k \<le> 31"
      "grow_capacity_loop (2 ^ Suc j) capacity = Some (2 ^ k)" "unat capacity \<le> 2 ^ k"
      "k = Suc j \<or> 2 ^ (k - 1) < unat capacity" by blast
    have "2 ^ (k - 1) < unat capacity"
      using k(5) True j unat_pow2_32 [of j] by (auto simp: word_less_nat_alt)
    with k True show ?thesis
      by (intro exI [of _ k]) (simp add: grow_capacity_loop.simps [of "2 ^ j"] mult.commute)
  next
    case False
    with j show ?thesis
      by (intro exI [of _ j])
        (simp add: grow_capacity_loop.simps [of "2 ^ j"] word_less_nat_alt unat_pow2_32 not_less)
  qed
qed

lemma grow_capacity_bounds:
  assumes "unat capacity \<le> 2 ^ 31"
  obtains c where "grow_capacity capacity = Some c" "capacity \<le> c"
    "c = 8 \<or> unat c < 2 * unat capacity"
proof -
  obtain k where k: "3 \<le> k" "k \<le> 31" "grow_capacity_loop (2 ^ 3) capacity = Some (2 ^ k)"
    "unat capacity \<le> 2 ^ k" "k = 3 \<or> 2 ^ (k - 1) < unat capacity"
    using grow_capacity_loop_pow2 [OF assms, of 3] by auto
  have u: "unat (2 ^ k :: u32) = 2 ^ k" using k(2) by (intro unat_pow2_32) simp
  show thesis
  proof
    show "grow_capacity capacity = Some (2 ^ k)"
      using k(3) by (simp add: grow_capacity_def VECTOR_DEFAULT_CAPACITY_def)
    show "capacity \<le> 2 ^ k" using k(4) u by (simp add: word_le_nat_alt)
    show "2 ^ k = (8::u32) \<or> unat (2 ^ k :: u32) < 2 * unat capacity"
    proof (cases "k = 3")
      case False
      then have "(2::nat) ^ k = 2 * 2 ^ (k - 1)" using k(1) by (cases k) auto
      with False k(5) u show ?thesis by simp
    qed simp
  qed
qed

lemma grow_capacity_loop_result:
  assumes "grow_capacity_loop val capacity = Some r"
  shows "capacity \<le> r"
proof (rule grow_capacity_loop.raw_induct [where P = "\<lambda>_ c r. c \<le> r", OF _ assms])
  fix f :: "u32 \<Rightarrow> u32 \<Rightarrow> u32 option" and val capacity r
  assume "\<And>v c r. f v c = Some r \<Longrightarrow> c \<le> r"
    and "(if val < capacity then f (val * 2) capacity else Some val) = Some r"
  then show "capacity \<le> r" by (auto split: if_splits)
qed

text \<open>Every value the loop sees is a power of two below \<open>2 ^ 32\<close>, or 0 once the doubling has wrapped.\<close>

lemma grow_capacity_loop_values:
  assumes "grow_capacity_loop val capacity = Some r" and "val = 0 \<or> (\<exists>j\<le>31. val = 2 ^ j)"
  shows "r = 0 \<or> (\<exists>j\<le>31. r = (2::u32) ^ j)"
proof -
  have "val = 0 \<or> (\<exists>j\<le>31. val = 2 ^ j) \<longrightarrow> r = 0 \<or> (\<exists>j\<le>31. r = (2::u32) ^ j)"
  proof (rule grow_capacity_loop.raw_induct
      [where P = "\<lambda>v _ r. v = 0 \<or> (\<exists>j\<le>31. v = 2 ^ j) \<longrightarrow> r = 0 \<or> (\<exists>j\<le>31. r = (2::u32) ^ j)",
        OF _ assms(1)])
    fix f :: "u32 \<Rightarrow> u32 \<Rightarrow> u32 option" and v c r
    assume IH: "\<And>v c r. f v c = Some r \<Longrightarrow>
        v = 0 \<or> (\<exists>j\<le>31. v = 2 ^ j) \<longrightarrow> r = 0 \<or> (\<exists>j\<le>31. r = (2::u32) ^ j)"
      and eq: "(if v < c then f (v * 2) c else Some v) = Some r"
    have dbl: "v * 2 = 0 \<or> (\<exists>j\<le>31. v * 2 = (2::u32) ^ j)" if "v = 0 \<or> (\<exists>j\<le>31. v = 2 ^ j)"
    proof -
      have split: "j \<le> 31 \<Longrightarrow> j = 31 \<or> j \<le> 30" for j :: nat by linarith
      from that consider "v = 0" | "v = 2 ^ 31" | j where "j \<le> 30" "v = 2 ^ j"
        using split by blast
      then show ?thesis
      proof cases
        case (3 j)
        then have "v * 2 = 2 ^ Suc j" and "Suc j \<le> 31" by simp_all
        then show ?thesis by blast
      qed simp_all
    qed
    show "v = 0 \<or> (\<exists>j\<le>31. v = 2 ^ j) \<longrightarrow> r = 0 \<or> (\<exists>j\<le>31. r = (2::u32) ^ j)"
      using IH [of "v * 2" c r] dbl eq by (auto split: if_splits)
  qed
  with assms(2) show ?thesis by blast
qed

lemma grow_capacity_diverges:
  assumes "2 ^ 31 < unat capacity"
  shows "grow_capacity capacity = None"
proof (rule ccontr)
  assume "grow_capacity capacity \<noteq> None"
  then obtain r where r: "grow_capacity_loop 8 capacity = Some r"
    by (auto simp: grow_capacity_def VECTOR_DEFAULT_CAPACITY_def)
  have "(8::u32) = 2 ^ 3" and "(3::nat) \<le> 31" by simp_all
  then have "r = 0 \<or> (\<exists>j\<le>31. r = (2::u32) ^ j)"
    using grow_capacity_loop_values [OF r] by blast
  moreover have "capacity \<le> r" using grow_capacity_loop_result [OF r] .
  ultimately obtain j where j: "j \<le> 31" "unat capacity \<le> unat ((2::u32) ^ j)"
    using assms by (force simp: word_le_nat_alt)
  have "unat ((2::u32) ^ j) \<le> 2 ^ 31"
    using j(1) unat_pow2_32 [of j] power_increasing [of j 31 "2::nat"] by simp
  with j(2) assms show False by simp
qed

section \<open>Reserving, growing and erasing\<close>

text \<open>The part of the invariant that speaks of the data block only: it holds while the size is being raised.\<close>

definition vector_block :: "vector_t \<Rightarrow> bool" where
  "vector_block v \<longleftrightarrow>
     0 < vec_len v \<and> unat (vec_len v) * unat (vec_capacity v) < 2 ^ 32 \<and>
     (case vec_data v of
        None \<Rightarrow> vec_capacity v = 0
      | Some d \<Rightarrow> length d = unat (vec_len v) * unat (vec_capacity v))"

lemma vector_wf_block: "vector_wf v \<longleftrightarrow> vector_block v \<and> vec_size v \<le> vec_capacity v"
  by (auto simp: vector_wf_def vector_block_def)

text \<open>The allocator can serve the block a capacity rounds up to, and its byte count fits the multiplication.\<close>

definition vector_room :: "heap \<Rightarrow> vector_t \<Rightarrow> u32 \<Rightarrow> bool" where
  "vector_room h v capacity \<longleftrightarrow>
     (case grow_capacity capacity of
        None \<Rightarrow> False
      | Some c \<Rightarrow> unat (vec_len v) * unat c < 2 ^ 32 \<and> alloc_ok h (unat (vec_len v) * unat c))"

lemma vector_block_resize [simp]: "vector_block (v\<lparr>vec_size := s\<rparr>) \<longleftrightarrow> vector_block v"
  by (simp add: vector_block_def split: option.splits)

lemma vector_room_resize [simp]: "vector_room h (v\<lparr>vec_size := s\<rparr>) c \<longleftrightarrow> vector_room h v c"
  by (simp add: vector_room_def split: option.splits)

lemma unat_mult32: "unat (a::u32) * unat b < 2 ^ 32 \<Longrightarrow> unat (a * b) = unat a * unat b"
  using unat_mult_lem [of a b] by simp

lemma vector_reserve_block:
  assumes blk: "vector_block v" and room: "vec_capacity v < capacity \<Longrightarrow> vector_room h v capacity"
  shows "\<exists>v'. vector_reserve h (Some v) capacity = Some (Some v', True) \<and> vector_block v' \<and>
              capacity \<le> vec_capacity v' \<and> vec_len v' = vec_len v \<and> vec_size v' = vec_size v \<and>
              (\<forall>d. vec_data v = Some d \<longrightarrow> (\<exists>d'. vec_data v' = Some d' \<and> take (length d) d' = d))"
proof (cases "vec_capacity v < capacity")
  case False
  with blk show ?thesis by (auto simp: vector_reserve_def not_less)
next
  case True
  then obtain c where c: "grow_capacity capacity = Some c" "unat (vec_len v) * unat c < 2 ^ 32"
    "alloc_ok h (unat (vec_len v) * unat c)"
    using room by (auto simp: vector_room_def split: option.splits)
  have cap: "capacity \<le> c"
    using c(1) grow_capacity_loop_result by (auto simp: grow_capacity_def)
  have len: "unat (vec_len v * c) = unat (vec_len v) * unat c" by (rule unat_mult32 [OF c(2)])
  have "0 < unat (vec_len v)" using blk by (simp add: vector_block_def word_less_nat_alt)
  moreover have "0 < unat c" using cap True by (auto simp: word_less_nat_alt word_le_nat_alt)
  ultimately have pos: "0 < unat (vec_len v) * unat c" by simp
  then obtain d' where d': "realloc h (vec_data v) (unat (vec_len v) * unat c) = Some d'"
    using realloc_ok c(3) by blast
  let ?v' = "v\<lparr>vec_capacity := c, vec_data := Some d'\<rparr>"
  have grown: "vec_capacity v \<le> c" using cap True by simp
  have "vector_reserve h (Some v) capacity = Some (Some ?v', True)"
    using True c(1) d' len by (simp add: vector_reserve_def)
  moreover have "vector_block ?v'"
    using blk c(2) realloc_length [OF d'] by (simp add: vector_block_def)
  moreover have "take (length d) d' = d" if d: "vec_data v = Some d" for d
  proof -
    have "length d \<le> unat (vec_len v) * unat c"
      using blk d grown by (simp add: vector_block_def word_le_nat_alt)
    with d' d show ?thesis by (simp add: realloc_prefix)
  qed
  ultimately show ?thesis using cap by (intro exI [of _ ?v']) simp
qed

lemma vector_elems_length:
  "vector_wf v \<Longrightarrow> length (vector_elems v) = unat (vec_size v)"
  by (auto simp: vector_elems_def vector_wf_def split: option.splits)

text \<open>Claim C26: when the new size neither wraps nor exceeds what the allocator can serve, growing a
  well-formed vector by \<open>n\<close> keeps its old elements in order, adds \<open>n\<close> slots behind them, and returns
  the address of the first new slot.\<close>

theorem vector_grow_correct:
  assumes wf: "vector_wf v" and fit: "unat (vec_size v) + unat n < 2 ^ 32"
    and room: "vec_capacity v < vec_size v + n \<Longrightarrow> vector_room h v (vec_size v + n)"
    and some: "0 < n"
  shows "\<exists>v'. vector_grow h (Some v) n =
                Some (Some v', Some (unat (vec_len v) * unat (vec_size v))) \<and>
              vector_wf v' \<and> length (vector_elems v') = unat (vec_size v) + unat n \<and>
              take (unat (vec_size v)) (vector_elems v') = vector_elems v"
proof -
  let ?u = "v\<lparr>vec_size := vec_size v + n\<rparr>"
  have size: "unat (vec_size v + n) = unat (vec_size v) + unat n"
    using fit unat_add_lem [of "vec_size v" n] by simp
  have "vector_block ?u" and "vec_capacity ?u < vec_size v + n \<Longrightarrow> vector_room h ?u (vec_size v + n)"
    using wf room by (simp_all add: vector_wf_block)
  from vector_reserve_block [OF this] obtain v' where
    v': "vector_reserve h (Some ?u) (vec_size v + n) = Some (Some v', True)" "vector_block v'"
      "vec_size v + n \<le> vec_capacity v'" "vec_len v' = vec_len v" "vec_size v' = vec_size v + n"
      and keep: "\<forall>d. vec_data v = Some d \<longrightarrow> (\<exists>d'. vec_data v' = Some d' \<and> take (length d) d' = d)"
    by auto
  have wf': "vector_wf v'" using v' by (simp add: vector_wf_block)
  have "unat (vec_len v) * unat (vec_size v) \<le> unat (vec_len v) * unat (vec_capacity v)"
    using wf by (simp add: vector_wf_def word_le_nat_alt)
  moreover have "unat (vec_len v) * unat (vec_capacity v) < 2 ^ 32"
    using wf by (simp add: vector_wf_def)
  ultimately have off: "unat (vec_len v * vec_size v) = unat (vec_len v) * unat (vec_size v)"
    by (intro unat_mult32) (rule order_le_less_trans)
  have "n \<le> vec_size v + n" using size by (simp add: word_le_nat_alt)
  then have run: "vector_grow h (Some v) n =
      Some (Some v', Some (unat (vec_len v) * unat (vec_size v)))"
    using v' off by (simp add: vector_grow_def vector_grow_internal_def Let_def)
  have "take (unat (vec_size v)) (vector_elems v') = vector_elems v"
  proof (cases "vec_data v")
    case None
    then have "vec_size v = 0" using wf by (auto simp: vector_wf_def)
    with None show ?thesis by (simp add: vector_elems_def)
  next
    case (Some d)
    then obtain d' where d': "vec_data v' = Some d'" "take (length d) d' = d" using keep by blast
    show ?thesis
    proof (rule nth_equalityI)
      show "length (take (unat (vec_size v)) (vector_elems v')) = length (vector_elems v)"
        using Some d' v' size by (simp add: vector_elems_def)
      fix i assume "i < length (take (unat (vec_size v)) (vector_elems v'))"
      then have i: "i < unat (vec_size v)" by simp
      also have "\<dots> \<le> unat (vec_capacity v)" using wf by (simp add: vector_wf_def word_le_nat_alt)
      finally have "Suc i * unat (vec_len v) \<le> length d"
        using wf Some by (simp add: vector_wf_def mult.commute [of "unat (vec_len v)"] del: mult_Suc)
      then have "chunk (unat (vec_len v)) d' i = chunk (unat (vec_len v)) d i"
        using d'(2) chunk_take by metis
      with i Some d' v' size show "take (unat (vec_size v)) (vector_elems v') ! i = vector_elems v ! i"
        by (simp add: vector_elems_def)
    qed
  qed
  with run wf' v'(5) size vector_elems_length [OF wf'] show ?thesis by auto
qed

text \<open>Erasing inside the live range, on a vector that is not filled to its capacity.\<close>

lemma chunks_erase:
  assumes d: "length d = m * w" and f: "f < l" and l: "l \<le> n" and n: "n < m"
  shows "chunks w (take (f * w) d @ take (Suc n * w - l * w) (drop (l * w) d) @ ys) (n - (l - f)) =
         take f (chunks w d n) @ drop l (chunks w d n)"
proof -
  have fm: "f * w \<le> m * w" and lw: "l * w \<le> Suc n * w" and nm: "Suc n * w \<le> m * w"
    using f l n by (simp_all add: mult_le_mono1 del: mult_Suc)
  let ?mid = "take (Suc n * w - l * w) (drop (l * w) d) @ ys"
  have len: "length (take (f * w) d) = f * w" using d fm by simp
  have split: "n - (l - f) = f + (n - l)" using f l by simp
  have "chunks w (take (f * w) d @ ?mid) (f + (n - l)) =
        chunks w (take (f * w) d) f @ chunks w ?mid (n - l)"
    by (rule chunks_append [OF len])
  moreover have "chunks w (take (f * w) d) f = take f (chunks w d n)"
  proof (rule nth_equalityI)
    fix i assume "i < length (chunks w (take (f * w) d) f)"
    then have i: "i < f" by simp
    then have "Suc i * w \<le> f * w" by (simp add: mult_le_mono1 del: mult_Suc)
    with i f l show "chunks w (take (f * w) d) f ! i = take f (chunks w d n) ! i"
      by (simp add: chunk_take del: mult_Suc)
  qed (use f l in simp)
  moreover have "chunks w ?mid (n - l) = drop l (chunks w d n)"
  proof (rule nth_equalityI)
    fix i assume "i < length (chunks w ?mid (n - l))"
    then have i: "i < n - l" by simp
    then have si: "Suc i * w \<le> Suc n * w - l * w"
      unfolding diff_mult_distrib [symmetric] by (intro mult_le_mono1) simp
    have "length (take (Suc n * w - l * w) (drop (l * w) d)) = Suc n * w - l * w"
      unfolding length_take length_drop d by (intro min_absorb2 diff_le_mono nm)
    with si have "chunk w ?mid i = chunk w (take (Suc n * w - l * w) (drop (l * w) d)) i"
      by (intro chunk_append1) (simp del: mult_Suc)
    also have "\<dots> = chunk w d (l + i)" using si by (simp only: chunk_take chunk_drop)
    finally show "chunks w ?mid (n - l) ! i = drop l (chunks w d n) ! i"
      using i l by simp
  qed simp
  ultimately show ?thesis using split by simp
qed

text \<open>Erasing the positions from \<open>first\<close> up to but not including \<open>e\<close> of a well-formed vector whose
  size is below its capacity succeeds and removes exactly these elements, keeping the others in order.\<close>

theorem vector_erase_range_correct:
  assumes wf: "vector_wf v" and room: "vec_size v < vec_capacity v"
    and range: "first < e" "e \<le> vec_size v"
  shows "\<exists>v'. vector_erase_range (Some v) first e = Some (Some v', True) \<and> vector_wf v' \<and>
              vector_elems v' = take (unat first) (vector_elems v) @ drop (unat e) (vector_elems v)"
proof -
  let ?w = "unat (vec_len v)" and ?n = "unat (vec_size v)" and ?c = "unat (vec_capacity v)"
  obtain d where d: "vec_data v = Some d" "length d = ?c * ?w"
    using wf room by (auto simp: vector_wf_def mult.commute split: option.splits)
  have fl: "unat first < unat e" "unat e \<le> ?n" "?n < ?c"
    using range room by (simp_all add: word_less_nat_alt word_le_nat_alt)
  have cw: "?c * ?w < 2 ^ 32" using wf by (simp add: vector_wf_def mult.commute)
  have small: "k * ?w < 2 ^ 32" if "k \<le> ?c" for k
    using mult_le_mono1 [OF that, of ?w] cw by linarith
  have fw: "unat (first * vec_len v) = unat first * ?w"
    using fl small [of "unat first"] by (intro unat_mult32) simp
  have ew: "unat (e * vec_len v) = unat e * ?w"
    using fl small [of "unat e"] by (intro unat_mult32) simp
  have "?c < 2 ^ 32" by (rule unat_u32)
  then have cnt: "unat (vec_size v - e + 1) = Suc ?n - unat e"
    using fl range by (simp add: unat_plus_if' unat_sub Suc_diff_le)
  have nw: "unat (vec_len v * (vec_size v - e + 1)) = Suc ?n * ?w - unat e * ?w"
  proof -
    have "unat (vec_len v) * unat (vec_size v - e + 1) < 2 ^ 32"
      using small [of "Suc ?n - unat e"] fl cnt by (simp add: mult.commute)
    then show ?thesis
      by (simp add: unat_mult32 cnt diff_mult_distrib mult.commute [of ?w])
  qed
  have sn: "Suc ?n * ?w \<le> ?c * ?w" using fl by (simp add: mult_le_mono1 del: mult_Suc)
  have el: "unat e * ?w \<le> Suc ?n * ?w" and fe: "unat first * ?w \<le> unat e * ?w"
    using fl by (simp_all add: mult_le_mono1 del: mult_Suc)
  let ?d' = "take (unat first * ?w) d @ take (Suc ?n * ?w - unat e * ?w) (drop (unat e * ?w) d) @
             drop (unat first * ?w + (Suc ?n * ?w - unat e * ?w)) d"
  have move: "mem_move d (unat (first * vec_len v)) (unat (e * vec_len v))
      (unat (vec_len v * (vec_size v - e + 1))) = Some ?d'"
    unfolding fw ew nw using d(2) sn el fe by (intro mem_move_Some) linarith+
  let ?v' = "v\<lparr>vec_data := Some ?d', vec_size := vec_size v - (e - first)\<rparr>"
  have size: "unat (vec_size v - (e - first)) = ?n - (unat e - unat first)"
    using fl range by (simp add: unat_sub word_le_nat_alt)
  have "first < vec_size v" using range by simp
  then have run: "vector_erase_range (Some v) first e = Some (Some ?v', True)"
    using range d(1) move by (simp add: vector_erase_range_def)
  have "length ?d' = length d" by (rule mem_move_length [OF move])
  then have wf': "vector_wf ?v'"
    using wf d fl size by (simp add: vector_wf_def word_le_nat_alt mult.commute)
  have "vector_elems ?v' = take (unat first) (vector_elems v) @ drop (unat e) (vector_elems v)"
    using chunks_erase [OF d(2) fl(1) fl(2) fl(3)] d(1) size by (simp add: vector_elems_def)
  with run wf' show ?thesis by blast
qed

text \<open>On a vector filled to its capacity, erasing any range that ends inside it copies one element
  more than there is and so runs past the end of the data block.\<close>

theorem vector_erase_full_overrun:
  assumes wf: "vector_wf v" and full: "vec_size v = vec_capacity v"
    and nowrap: "unat (vec_len v) * Suc (unat (vec_capacity v)) < 2 ^ 32"
    and range: "first < e" "e \<le> vec_size v"
  shows "vector_erase_range (Some v) first e = None"
proof -
  let ?w = "unat (vec_len v)" and ?n = "unat (vec_size v)"
  have w: "0 < ?w" using wf by (simp add: vector_wf_def word_less_nat_alt)
  have fl: "unat first < unat e" "unat e \<le> ?n"
    using range by (simp_all add: word_less_nat_alt word_le_nat_alt)
  then obtain d where d: "vec_data v = Some d" "length d = ?w * ?n"
    using wf full by (fastforce simp: vector_wf_def split: option.splits)
  have small: "?w * k < 2 ^ 32" if "k \<le> Suc ?n" for k
    using mult_le_mono2 [OF that, of ?w] nowrap unfolding full by linarith
  have ew: "unat (e * vec_len v) = unat e * ?w"
    using fl small [of "unat e"] by (intro unat_mult32) (simp add: mult.commute)
  have "?n \<noteq> 2 ^ 32 - 1"
  proof
    assume n: "?n = 2 ^ 32 - 1"
    have "1 * Suc ?n \<le> ?w * Suc ?n" using w by (intro mult_le_mono1) simp
    with nowrap full n show False by simp
  qed
  moreover have "?n < 2 ^ 32" by (rule unat_u32)
  ultimately have cnt: "unat (vec_size v - e + 1) = Suc ?n - unat e"
    using fl range by (simp add: unat_plus_if' unat_sub Suc_diff_le)
  have nw: "unat (vec_len v * (vec_size v - e + 1)) = ?w * (Suc ?n - unat e)"
    using small [of "Suc ?n - unat e"] by (simp add: unat_mult32 cnt)
  have "unat e * ?w + ?w * (Suc ?n - unat e) = ?w * Suc ?n"
    using fl by (simp add: mult.commute [of _ ?w] add_mult_distrib2 [symmetric] del: mult_Suc_right)
  then have "length d < unat (e * vec_len v) + unat (vec_len v * (vec_size v - e + 1))"
    using d(2) w ew nw by simp
  moreover have "first < vec_size v" using range by simp
  ultimately show ?thesis using range d(1) by (simp add: vector_erase_range_def mem_move_None)
qed

text \<open>Rounding a requested capacity up terminates exactly for requests of at most \<open>2 ^ 31\<close>
  elements; the result then covers the request and, past the minimum of 8, is less than twice as large.
  Above that bound the doubling wraps to 0 and the loop never ends.\<close>

theorem grow_capacity_total:
  "case grow_capacity capacity of
     None \<Rightarrow> 2 ^ 31 < unat capacity
   | Some c \<Rightarrow> unat capacity \<le> 2 ^ 31 \<and> capacity \<le> c \<and> (c = 8 \<or> unat c < 2 * unat capacity)"
proof (cases "unat capacity \<le> 2 ^ 31")
  case True
  show ?thesis by (rule grow_capacity_bounds [OF True]) (use True in simp)
next
  case False
  then show ?thesis using grow_capacity_diverges [of capacity] by simp
qed

section \<open>Witnesses\<close>

text \<open>A vector of one-byte elements: empty, with three of eight slots in use, and full.\<close>

definition vec_empty :: vector_t where
  "vec_empty = \<lparr>vec_len = 1, vec_size = 0, vec_capacity = 0, vec_data = None\<rparr>"

definition vec_three :: vector_t where
  "vec_three = \<lparr>vec_len = 1, vec_size = 3, vec_capacity = 8, vec_data = Some [1, 2, 3, 0, 0, 0, 0, 0]\<rparr>"

definition vec_full :: vector_t where
  "vec_full = \<lparr>vec_len = 1, vec_size = 2, vec_capacity = 2, vec_data = Some [1, 2]\<rparr>"

theorem vector_grow_correct_witness:
  "\<exists>v'. vector_grow heap_total (Some vec_empty) 1 = Some (Some v', Some 0) \<and> vector_wf v' \<and>
        length (vector_elems v') = 1 \<and> take 0 (vector_elems v') = vector_elems vec_empty"
proof -
  have "grow_capacity 1 = Some 8"
    by (simp add: grow_capacity_def VECTOR_DEFAULT_CAPACITY_def grow_capacity_loop.simps)
  then have "vector_room heap_total vec_empty (vec_size vec_empty + 1)"
    by (simp add: vector_room_def vec_empty_def heap_total_def)
  then show ?thesis
    using vector_grow_correct [of vec_empty 1 heap_total] by (simp add: vec_empty_def vector_wf_def)
qed

theorem vector_erase_range_correct_witness:
  "\<exists>v'. vector_erase_range (Some vec_three) 0 2 = Some (Some v', True) \<and> vector_wf v' \<and>
        vector_elems v' = [[3]]"
  using vector_erase_range_correct [of vec_three 0 2]
  by (simp add: vec_three_def vector_wf_def vector_elems_def chunks_def chunk_def upt_rec)

theorem vector_erase_full_overrun_witness: "vector_erase_range (Some vec_full) 0 1 = None"
  using vector_erase_full_overrun [of vec_full 0 1] by (simp add: vec_full_def vector_wf_def)

end
