(* ===== verification/FB_Hash.thy ===== *)
theory FB_Hash
  imports FB_Prelude "HOL-Library.Multiset"
begin

text \<open>
  The chained hash table of \<open>lib/hash.c\<close>.  A slot of the array is the list of its entries; the list of
  recycled entries matters only through its length.  An entry keeps the bytes of its key.  A hash function
  gets the key and its length and gives the hash value and the length it has found; \<open>None\<close> stands for a
  read past the key.
\<close>

definition HASH_DEFAULT_MAX :: u32 where
  "HASH_DEFAULT_MAX = 15"

definition HASH_KEY_STRING :: u32 where
  "HASH_KEY_STRING = - 1"

type_synonym hash_func_t = "buf \<Rightarrow> u32 \<Rightarrow> (u32 \<times> u32) option"

record 'v hash_entry_t =
  e_key :: buf
  e_klen :: u32
  e_hash :: u32
  e_val :: 'v

record 'v hash_t =
  ht_count :: u32
  ht_max :: u32
  ht_array :: "'v hash_entry_t list list"
  ht_free :: nat
  ht_func :: hash_func_t

section \<open>The default hash function\<close>

definition djb_step :: "u32 \<Rightarrow> byte \<Rightarrow> u32" where
  "djb_step value' c = value' + (value' * 33 + of_int (schar c))"

fun djb_string :: "u32 \<Rightarrow> nat \<Rightarrow> buf \<Rightarrow> (u32 \<times> nat) option" where
  "djb_string value' n [] = None"
| "djb_string value' n (c # str) =
     (if c \<noteq> 0 then djb_string (djb_step value' c) (Suc n) str else Some (value', n))"

fun djb_bytes :: "u32 \<Rightarrow> nat \<Rightarrow> buf \<Rightarrow> u32 option" where
  "djb_bytes value' 0 key = Some value'"
| "djb_bytes value' (Suc len) key =
     (case key of [] \<Rightarrow> None | c # key \<Rightarrow> djb_bytes (djb_step value' c) len key)"

definition hash_func_default :: hash_func_t where
  "hash_func_default key klen =
     (if klen = HASH_KEY_STRING then do {
        (v, n) \<leftarrow> djb_string 0 0 key;
        Some (v, of_nat n)
      } else do {
        v \<leftarrow> djb_bytes 0 (unat klen) key;
        Some (v, klen)
      })"

section \<open>Creation\<close>

definition slots :: "u32 \<Rightarrow> nat" where
  "slots m = unat (m + 1)"

definition hash_create :: "heap \<Rightarrow> u32 \<Rightarrow> hash_func_t option \<Rightarrow> 'v hash_t option" where
  "hash_create h m func =
     (let m = (if m = 0 then HASH_DEFAULT_MAX else m) in
      if \<not> alloc_ok h (8 * slots m) then None
      else Some \<lparr>ht_count = 0, ht_max = m, ht_array = replicate (slots m) [], ht_free = 0,
        ht_func = (case func of None \<Rightarrow> hash_func_default | Some f \<Rightarrow> f)\<rparr>)"

section \<open>Expansion\<close>

definition slot_of :: "u32 \<Rightarrow> u32 \<Rightarrow> nat" where
  "slot_of m hash = unat (hash AND m)"

fun push_entries :: "u32 \<Rightarrow> 'v hash_entry_t list \<Rightarrow> 'v hash_entry_t list list \<Rightarrow> 'v hash_entry_t list list option" where
  "push_entries m [] array = Some array"
| "push_entries m (e # es) array = do {
     let i = slot_of m (e_hash e);
     chain \<leftarrow> rd array i;
     array \<leftarrow> wr array i (e # chain);
     push_entries m es array
   }"

text \<open>The loop over the slots; with the largest \<open>max\<close> its counter never exceeds it and it does not end.\<close>

fun expand_slots :: "u32 \<Rightarrow> 'v hash_entry_t list list \<Rightarrow> nat \<Rightarrow> nat \<Rightarrow> 'v hash_entry_t list list
    \<Rightarrow> 'v hash_entry_t list list option" where
  "expand_slots m old i 0 array = Some array"
| "expand_slots m old i (Suc n) array = do {
     chain \<leftarrow> rd old i;
     array \<leftarrow> push_entries m chain array;
     expand_slots m old (Suc i) n array
   }"

definition hash_expand :: "heap \<Rightarrow> 'v hash_t \<Rightarrow> (int \<times> 'v hash_t) option" where
  "hash_expand h ht =
     (let m = 2 * ht_max ht + 1 in
      if \<not> alloc_ok h (8 * slots m) then Some (-1, ht)
      else if ht_max ht = - 1 then None
      else do {
        array \<leftarrow> expand_slots m (ht_array ht) 0 (unat (ht_max ht) + 1) (replicate (slots m) []);
        Some (0, ht\<lparr>ht_max := m, ht_array := array\<rparr>)
      })"

section \<open>Finding an entry\<close>

text \<open>The position in a chain: of the entry with the key, or behind the last entry.\<close>

fun find_in_chain :: "buf \<Rightarrow> u32 \<Rightarrow> u32 \<Rightarrow> nat \<Rightarrow> 'v hash_entry_t list \<Rightarrow> nat option" where
  "find_in_chain key klen hash i [] = Some i"
| "find_in_chain key klen hash i (e # es) =
     (if e_klen e = klen \<and> e_hash e = hash then do {
        k \<leftarrow> mem_read key 0 (unat klen);
        (if e_key e = k then Some i else find_in_chain key klen hash (Suc i) es)
      } else find_in_chain key klen hash (Suc i) es)"

text \<open>
  The result is the slot and the position of the link that was found, \<open>None\<close> for the NULL pointer that
  reports a failed allocation.
\<close>

definition find_entry ::
  "heap \<Rightarrow> 'v hash_t \<Rightarrow> buf \<Rightarrow> u32 \<Rightarrow> 'v option \<Rightarrow> ('v hash_t \<times> (nat \<times> nat) option) option" where
  "find_entry h ht key klen val = do {
     (hash, klen) \<leftarrow> ht_func ht key klen;
     let i = slot_of (ht_max ht) hash;
     chain \<leftarrow> rd (ht_array ht) i;
     p \<leftarrow> find_in_chain key klen hash 0 chain;
     (case val of
        None \<Rightarrow> Some (ht, Some (i, p))
      | Some v \<Rightarrow>
          if p < length chain then Some (ht, Some (i, p))
          else if ht_free ht = 0 \<and> \<not> alloc_ok h 32 then Some (ht, None)
          else do {
            k \<leftarrow> mem_read key 0 (unat klen);
            let e = \<lparr>e_key = k, e_klen = klen, e_hash = hash, e_val = v\<rparr>;
            array \<leftarrow> wr (ht_array ht) i (chain @ [e]);
            Some (ht\<lparr>ht_free := ht_free ht - 1, ht_array := array, ht_count := ht_count ht + 1\<rparr>, Some (i, p))
          })
   }"

text \<open>The link is followed without a test for the NULL pointer.\<close>

definition hash_set :: "heap \<Rightarrow> 'v hash_t \<Rightarrow> buf \<Rightarrow> u32 \<Rightarrow> 'v option \<Rightarrow> (int \<times> 'v hash_t) option" where
  "hash_set h ht key klen val = do {
     (ht, ptr) \<leftarrow> find_entry h ht key klen val;
     (i, p) \<leftarrow> ptr;
     chain \<leftarrow> rd (ht_array ht) i;
     (case val of
        Some v \<Rightarrow>
          if \<not> p < length chain then Some (-1, ht)
          else do {
            array \<leftarrow> wr (ht_array ht) i (chain[p := (chain ! p)\<lparr>e_val := v\<rparr>]);
            let ht = ht\<lparr>ht_array := array\<rparr>;
            (if ht_count ht > ht_max ht then hash_expand h ht else Some (0, ht))
          }
      | None \<Rightarrow>
          if p < length chain then do {
            array \<leftarrow> wr (ht_array ht) i (take p chain @ drop (Suc p) chain);
            Some (0, ht\<lparr>ht_array := array, ht_free := ht_free ht + 1, ht_count := ht_count ht - 1\<rparr>)
          } else Some (0, ht))
   }"

definition hash_get :: "heap \<Rightarrow> 'v hash_t \<Rightarrow> buf \<Rightarrow> u32 \<Rightarrow> 'v option option" where
  "hash_get h ht key klen = do {
     (ht, ptr) \<leftarrow> find_entry h ht key klen None;
     (i, p) \<leftarrow> ptr;
     chain \<leftarrow> rd (ht_array ht) i;
     Some (if p < length chain then Some (e_val (chain ! p)) else None)
   }"

section \<open>Destruction and iteration\<close>

text \<open>The entries that \<open>hash_destroy\<close> releases: those of the slots below \<open>max\<close>, and the recycled ones.\<close>

definition hash_destroy :: "'v hash_t \<Rightarrow> ('v hash_entry_t list \<times> nat) option" where
  "hash_destroy ht =
     (if unat (ht_max ht) \<le> length (ht_array ht)
      then Some (concat (take (unat (ht_max ht)) (ht_array ht)), ht_free ht) else None)"

text \<open>An iterator: the entry it stands on, the entries behind it in the same chain, and the next slot.\<close>

record 'v hash_iter_t =
  it_entry :: "'v hash_entry_t option"
  it_next :: "'v hash_entry_t list"
  it_index :: nat

function next_slot :: "'v hash_t \<Rightarrow> nat \<Rightarrow> ('v hash_entry_t list \<times> nat) option option" where
  "next_slot ht index =
     (if index > unat (ht_max ht) then Some None
      else do {
        chain \<leftarrow> rd (ht_array ht) index;
        (if chain = [] then next_slot ht (Suc index) else Some (Some (chain, Suc index)))
      })"
  by pat_completeness auto
termination
  by (relation "measure (\<lambda>(ht, index). Suc (unat (ht_max ht)) - index)") auto

definition hash_next :: "'v hash_t \<Rightarrow> 'v hash_iter_t \<Rightarrow> 'v hash_iter_t option option" where
  "hash_next ht iter =
     (case it_next iter of
        e # es \<Rightarrow> Some (Some (iter\<lparr>it_entry := Some e, it_next := es\<rparr>))
      | [] \<Rightarrow> do {
          r \<leftarrow> next_slot ht (it_index iter);
          Some (case r of
              None \<Rightarrow> None
            | Some (chain, index) \<Rightarrow> Some \<lparr>it_entry = Some (hd chain), it_next = tl chain, it_index = index\<rparr>)
        })"

definition hash_begin :: "heap \<Rightarrow> 'v hash_t \<Rightarrow> 'v hash_iter_t option option" where
  "hash_begin h ht =
     (if \<not> alloc_ok h 32 then Some None
      else hash_next ht \<lparr>it_entry = None, it_next = [], it_index = 0\<rparr>)"

section \<open>The interface: a store of key-value pairs\<close>

locale store =
  fixes get :: "'s \<Rightarrow> 'k \<Rightarrow> 'v option option"
    and put :: "'s \<Rightarrow> 'k \<Rightarrow> 'v option \<Rightarrow> 's option"
    and ok :: "'s \<Rightarrow> bool"
    and key_ok :: "'k \<Rightarrow> bool"
  assumes get_total: "ok s \<Longrightarrow> key_ok k \<Longrightarrow> \<exists>v. get s k = Some v"
    and put_ok: "ok s \<Longrightarrow> key_ok k \<Longrightarrow> put s k v = Some s' \<Longrightarrow> ok s'"
    and put_get: "ok s \<Longrightarrow> key_ok k \<Longrightarrow> key_ok j \<Longrightarrow> put s k v = Some s' \<Longrightarrow>
      get s' j = (if j = k then Some v else get s j)"

fun run_puts :: "('s \<Rightarrow> 'k \<Rightarrow> 'v option \<Rightarrow> 's option) \<Rightarrow> 's \<Rightarrow> ('k \<times> 'v option) list \<Rightarrow> 's option" where
  "run_puts put s [] = Some s"
| "run_puts put s ((k, v) # ops) = do { s \<leftarrow> put s k v; run_puts put s ops }"

fun map_puts :: "('k \<Rightarrow> 'v option) \<Rightarrow> ('k \<times> 'v option) list \<Rightarrow> 'k \<Rightarrow> 'v option" where
  "map_puts m [] = m"
| "map_puts m ((k, v) # ops) = map_puts (m(k := v)) ops"

context store
begin

lemma run_puts_ok: "ok s \<Longrightarrow> \<forall>(k, v)\<in>set ops. key_ok k \<Longrightarrow> run_puts put s ops = Some s' \<Longrightarrow> ok s'"
proof (induction ops arbitrary: s)
  case (Cons kv ops)
  then obtain s1 where "put s (fst kv) (snd kv) = Some s1" "run_puts put s1 ops = Some s'"
    by (cases kv) (auto split: Option.bind_splits)
  with Cons show ?case using put_ok [of s "fst kv" "snd kv" s1] by (cases kv) auto
qed simp

lemma run_puts_get:
  "ok s \<Longrightarrow> \<forall>(k, v)\<in>set ops. key_ok k \<Longrightarrow> run_puts put s ops = Some s' \<Longrightarrow> (\<And>j. key_ok j \<Longrightarrow> get s j = Some (m j)) \<Longrightarrow>
   key_ok j \<Longrightarrow> get s' j = Some (map_puts m ops j)"
proof (induction ops arbitrary: s m)
  case (Cons kv ops)
  obtain k v where kv: "kv = (k, v)" by (cases kv)
  with Cons.prems obtain s1 where s1: "put s k v = Some s1" "run_puts put s1 ops = Some s'"
    by (auto split: Option.bind_splits)
  have k: "key_ok k" using Cons.prems(2) kv by simp
  have "get s1 i = Some ((m(k := v)) i)" if "key_ok i" for i
    using put_get [OF Cons.prems(1) k that s1(1)] Cons.prems(4) [OF that] by simp
  moreover have "\<forall>(k, v)\<in>set ops. key_ok k" using Cons.prems(2) by simp
  ultimately have "get s' j = Some (map_puts (m(k := v)) ops j)"
    using Cons.IH [OF put_ok [OF Cons.prems(1) k s1(1)] _ s1(2), of "m(k := v)"] Cons.prems(5) by blast
  then show ?case using kv by simp
qed simp

end

section \<open>The table as a map\<close>

locale hash_function =
  fixes func :: hash_func_t and H :: "buf \<Rightarrow> u32"
  assumes func_reads: "func key klen = Some (h, l) \<Longrightarrow> length key < 2 ^ 32 \<Longrightarrow>
    unat l \<le> length key \<and> h = H (take (unat l) key)"

definition djb :: "buf \<Rightarrow> u32" where
  "djb bs = foldl djb_step 0 bs"

lemma djb_string_spec:
  "djb_string v n s = Some (v', m) \<Longrightarrow> \<exists>k. m = n + k \<and> k < length s \<and> v' = foldl djb_step v (take k s)"
proof (induction v n s rule: djb_string.induct)
  case (2 v n c str)
  show ?case
  proof (cases "c = 0")
    case True
    with 2 show ?thesis by (intro exI [of _ 0]) simp
  next
    case False
    with 2 obtain k where "m = Suc n + k" "k < length str" "v' = foldl djb_step (djb_step v c) (take k str)" by auto
    then show ?thesis by (intro exI [of _ "Suc k"]) simp
  qed
qed simp

lemma djb_bytes_spec:
  "djb_bytes v n s = Some v' \<Longrightarrow> n \<le> length s \<and> v' = foldl djb_step v (take n s)"
  by (induction v n s rule: djb_bytes.induct) (auto split: list.splits)

interpretation djb_function: hash_function hash_func_default djb
proof
  fix key klen h l
  assume run: "hash_func_default key klen = Some (h, l)" and len: "length key < 2 ^ 32"
  show "unat l \<le> length key \<and> h = djb (take (unat l) key)"
  proof (cases "klen = HASH_KEY_STRING")
    case True
    with run obtain n where n: "djb_string 0 0 key = Some (h, n)" "l = of_nat n"
      by (auto simp: hash_func_default_def split: Option.bind_splits)
    from djb_string_spec [OF n(1)] have k: "n < length key" "h = foldl djb_step 0 (take n key)" by auto
    then have "unat l = n" using n(2) len by (simp add: unat_of_nat)
    with k show ?thesis by (simp add: djb_def)
  next
    case False
    with run have "djb_bytes 0 (unat klen) key = Some h" "l = klen"
      by (auto simp: hash_func_default_def split: Option.bind_splits)
    with djb_bytes_spec [of 0 "unat klen" key h] show ?thesis by (simp add: djb_def)
  qed
qed

definition entries :: "'v hash_t \<Rightarrow> 'v hash_entry_t list" where
  "entries ht = concat (ht_array ht)"

definition pair_of :: "'v hash_entry_t \<Rightarrow> buf \<times> 'v" where
  "pair_of e = (e_key e, e_val e)"

definition hash_map :: "'v hash_t \<Rightarrow> buf \<Rightarrow> 'v option" where
  "hash_map ht = map_of (map pair_of (entries ht))"

definition entry_ok :: "(buf \<Rightarrow> u32) \<Rightarrow> u32 \<Rightarrow> nat \<Rightarrow> 'v hash_entry_t \<Rightarrow> bool" where
  "entry_ok H m i e \<longleftrightarrow> slot_of m (e_hash e) = i \<and> e_hash e = H (e_key e) \<and> length (e_key e) = unat (e_klen e)"

definition chains_ok :: "(buf \<Rightarrow> u32) \<Rightarrow> u32 \<Rightarrow> 'v hash_entry_t list list \<Rightarrow> bool" where
  "chains_ok H m array \<longleftrightarrow> length array = unat m + 1 \<and> (\<forall>i<length array. \<forall>e\<in>set (array ! i). entry_ok H m i e)"

definition hash_ok :: "(buf \<Rightarrow> u32) \<Rightarrow> 'v hash_t \<Rightarrow> bool" where
  "hash_ok H ht \<longleftrightarrow> chains_ok H (ht_max ht) (ht_array ht) \<and> distinct (map e_key (entries ht))"

lemma entry_ok_val [simp]: "entry_ok H m i (e\<lparr>e_val := v\<rparr>) \<longleftrightarrow> entry_ok H m i e"
  by (simp add: entry_ok_def)

lemma slot_of_le: "slot_of m h \<le> unat m"
  by (simp add: slot_of_def word_and_le1 flip: word_le_nat_alt)

lemma mset_concat_update:
  "i < length xs \<Longrightarrow> mset (concat (xs[i := ys])) + mset (xs ! i) = mset (concat xs) + mset ys"
proof (induction xs arbitrary: i)
  case (Cons x xs)
  then show ?case by (cases i) auto
qed simp

lemma mem_entries: "chains_ok H m array \<Longrightarrow> e \<in> set (concat array) \<Longrightarrow> e \<in> set (array ! slot_of m (e_hash e)) \<and> entry_ok H m (slot_of m (e_hash e)) e"
proof -
  assume ok: "chains_ok H m array" and e: "e \<in> set (concat array)"
  from e obtain i where i: "i < length array" "e \<in> set (array ! i)" by (metis UN_E in_set_conv_nth set_concat)
  with ok have eok: "entry_ok H m i e" by (simp add: chains_ok_def)
  then have "slot_of m (e_hash e) = i" unfolding entry_ok_def by blast
  with i eok show ?thesis by simp
qed

section \<open>Looking up\<close>

lemma find_in_chain_spec:
  assumes "unat klen \<le> length key"
  shows "\<forall>e\<in>set chain. entry_ok H m i e \<Longrightarrow> h = H (take (unat klen) key) \<Longrightarrow>
    find_in_chain key klen h n chain = Some (n + length (takeWhile (\<lambda>e. e_key e \<noteq> take (unat klen) key) chain))"
proof (induction chain arbitrary: n)
  case (Cons e chain)
  have k: "mem_read key 0 (unat klen) = Some (take (unat klen) key)" using assms by (simp add: mem_read_def)
  have e: "e_hash e = H (e_key e)" "length (e_key e) = unat (e_klen e)" using Cons.prems(1) by (auto simp: entry_ok_def)
  have "e_klen e = klen" if "e_key e = take (unat klen) key"
    using that e(2) assms by (metis length_take min_absorb2 word_eq_by_unat)
  with Cons k e show ?case by auto
qed simp

lemma takeWhile_key:
  "(\<exists>e\<in>set chain. e_key e = k) \<longleftrightarrow> length (takeWhile (\<lambda>e. e_key e \<noteq> k) chain) < length chain"
  by (induction chain) auto

lemma map_of_entries:
  assumes "hash_ok H ht" and "e \<in> set (entries ht)"
  shows "hash_map ht (e_key e) = Some (e_val e)"
proof -
  have "distinct (map fst (map pair_of (entries ht)))"
    using assms(1) by (simp add: hash_ok_def pair_of_def comp_def)
  moreover have "(e_key e, e_val e) \<in> set (map pair_of (entries ht))" using assms(2) by (auto simp: pair_of_def)
  ultimately show ?thesis unfolding hash_map_def by (rule map_of_is_SomeI)
qed

lemma hash_map_None: "hash_map ht k = None \<longleftrightarrow> (\<forall>e\<in>set (entries ht). e_key e \<noteq> k)"
  by (force simp: hash_map_def map_of_eq_None_iff pair_of_def)

context hash_function
begin

lemma find_link:
  assumes "hash_ok H ht" and "func key klen = Some (h, l)" and "length key < 2 ^ 32"
  defines "k \<equiv> take (unat l) key" and "i \<equiv> slot_of (ht_max ht) h"
  shows "i < length (ht_array ht)" and "h = H k" and "length k = unat l"
    and "find_in_chain key l h 0 (ht_array ht ! i) = Some (length (takeWhile (\<lambda>e. e_key e \<noteq> k) (ht_array ht ! i)))"
    and "(\<exists>e\<in>set (entries ht). e_key e = k) \<longleftrightarrow> (\<exists>e\<in>set (ht_array ht ! i). e_key e = k)"
proof -
  have ok: "chains_ok H (ht_max ht) (ht_array ht)" using assms(1) by (simp add: hash_ok_def)
  have fr: "unat l \<le> length key" "h = H k" using func_reads [OF assms(2,3)] by (simp_all add: k_def)
  then show h: "h = H k" and "length k = unat l" by (simp_all add: k_def)
  show i: "i < length (ht_array ht)" using ok slot_of_le [of "ht_max ht" h] by (simp add: i_def chains_ok_def)
  then have es: "\<forall>e\<in>set (ht_array ht ! i). entry_ok H (ht_max ht) i e" using ok by (simp add: chains_ok_def)
  show "find_in_chain key l h 0 (ht_array ht ! i) = Some (length (takeWhile (\<lambda>e. e_key e \<noteq> k) (ht_array ht ! i)))"
    using find_in_chain_spec [OF fr(1) es, of h 0] h by (simp add: k_def)
  show "(\<exists>e\<in>set (entries ht). e_key e = k) \<longleftrightarrow> (\<exists>e\<in>set (ht_array ht ! i). e_key e = k)"
  proof
    assume "\<exists>e\<in>set (entries ht). e_key e = k"
    then obtain e where e: "e \<in> set (concat (ht_array ht))" "e_key e = k" by (auto simp: entries_def)
    from mem_entries [OF ok e(1)] have "e \<in> set (ht_array ht ! i)" using e(2) h by (auto simp: entry_ok_def i_def)
    with e show "\<exists>e\<in>set (ht_array ht ! i). e_key e = k" by blast
  qed (use i in \<open>auto simp: entries_def\<close>)
qed

lemma hash_get_map:
  assumes "hash_ok H ht" and "ht_func ht = func" and "func key klen = Some (h, l)" and "length key < 2 ^ 32"
  shows "hash_get hp ht key klen = Some (hash_map ht (take (unat l) key))"
proof -
  let ?k = "take (unat l) key" and ?i = "slot_of (ht_max ht) h"
  let ?chain = "ht_array ht ! ?i" and ?p = "length (takeWhile (\<lambda>e. e_key e \<noteq> ?k) (ht_array ht ! ?i))"
  note link = find_link [OF assms(1,3,4)]
  have get: "hash_get hp ht key klen = Some (if ?p < length ?chain then Some (e_val (?chain ! ?p)) else None)"
    using assms(2,3) link(1,4) by (simp add: hash_get_def find_entry_def Let_def rd_Some)
  show ?thesis
  proof (cases "?p < length ?chain")
    case True
    then have "e_key (?chain ! ?p) = ?k" using nth_length_takeWhile [of "\<lambda>e. e_key e \<noteq> ?k" ?chain] by simp
    moreover have "?chain ! ?p \<in> set (entries ht)"
      unfolding entries_def set_concat using nth_mem [OF True] nth_mem [OF link(1)] by blast
    ultimately have "hash_map ht ?k = Some (e_val (?chain ! ?p))" using map_of_entries [OF assms(1)] by metis
    with True get show ?thesis by simp
  next
    case False
    then have "hash_map ht ?k = None" using link(5) takeWhile_key [of ?chain ?k] by (auto simp: hash_map_None)
    with False get show ?thesis by simp
  qed
qed

end

section \<open>Updating\<close>

lemma distinct_mset_keys: "mset (map e_key xs) = mset (map e_key ys) \<Longrightarrow> distinct (map e_key xs) \<longleftrightarrow> distinct (map e_key ys)"
  by (rule mset_eq_imp_distinct_iff)

abbreviation pairs_map :: "'v hash_entry_t list \<Rightarrow> buf \<Rightarrow> 'v option" where
  "pairs_map xs \<equiv> map_of (map pair_of xs)"

lemma pairs_map_perm:
  assumes "mset xs = mset ys" and "distinct (map e_key xs)"
  shows "pairs_map xs = pairs_map ys \<and> distinct (map e_key ys)"
proof -
  have "mset (map e_key xs) = mset (map e_key ys)" using assms(1) by simp
  then have d: "distinct (map e_key ys)" using assms(2) distinct_mset_keys by blast
  have iff: "pairs_map zs k = Some v \<longleftrightarrow> (k, v) \<in> set (map pair_of zs)" if "distinct (map e_key zs)" for zs :: "'a hash_entry_t list" and k v
    using that by (intro map_of_eq_Some_iff) (simp add: pair_of_def comp_def)
  have "set (map pair_of xs) = set (map pair_of ys)" using mset_eq_setD [OF assms(1)] by simp
  then have "pairs_map xs k = Some v \<longleftrightarrow> pairs_map ys k = Some v" for k v
    using iff [OF d] iff [OF assms(2)] by metis
  then have "pairs_map xs k = pairs_map ys k" for k by (metis option.exhaust)
  with d show ?thesis by blast
qed

lemma hash_map_cong:
  assumes "mset (entries ht') = mset (entries ht)" and "distinct (map e_key (entries ht))"
  shows "hash_map ht' = hash_map ht \<and> distinct (map e_key (entries ht'))"
  using pairs_map_perm [of "entries ht" "entries ht'"] assms by (simp add: hash_map_def)

text \<open>Replacing, adding and removing one entry of a slot.\<close>

lemma entry_replaced:
  assumes "mset xs = add_mset a R" and "mset ys = add_mset b R" and "e_key b = e_key a" and "distinct (map e_key xs)"
  shows "distinct (map e_key ys) \<and> pairs_map ys = (pairs_map xs)(e_key a \<mapsto> e_val b)"
proof -
  obtain rs where rs: "mset rs = R" using ex_mset by blast
  have x: "pairs_map xs = pairs_map (a # rs)" "distinct (map e_key (a # rs))"
    using pairs_map_perm [of xs "a # rs"] assms(1,4) rs by auto
  then have "distinct (map e_key (b # rs))" using assms(3) by simp
  moreover have "mset (b # rs) = mset ys" using assms(2) rs by simp
  ultimately have "pairs_map ys = pairs_map (b # rs)" "distinct (map e_key ys)"
    using pairs_map_perm [of "b # rs" ys] by auto
  then show ?thesis using x(1) assms(3) by (simp add: pair_of_def)
qed

lemma entry_added:
  assumes "mset ys = add_mset b (mset xs)" and "distinct (map e_key xs)" and "\<forall>e\<in>set xs. e_key e \<noteq> e_key b"
  shows "distinct (map e_key ys) \<and> pairs_map ys = (pairs_map xs)(e_key b \<mapsto> e_val b)"
proof -
  have "distinct (map e_key (b # xs))" using assms(2,3) by auto
  moreover have "mset (b # xs) = mset ys" using assms(1) by simp
  ultimately show ?thesis using pairs_map_perm [of "b # xs" ys] by (simp add: pair_of_def)
qed

lemma entry_removed:
  assumes "mset xs = add_mset a (mset ys)" and "distinct (map e_key xs)"
  shows "distinct (map e_key ys) \<and> pairs_map ys = (pairs_map xs)(e_key a := None)"
proof -
  have x: "pairs_map xs = pairs_map (a # ys)" "distinct (map e_key (a # ys))"
    using pairs_map_perm [of xs "a # ys"] assms by auto
  then have "e_key a \<notin> set (map e_key ys)" by simp
  then have "pairs_map ys (e_key a) = None" by (force simp: map_of_eq_None_iff pair_of_def)
  then show ?thesis using x by (auto simp: pair_of_def)
qed

lemma chains_ok_update:
  "chains_ok H m array \<Longrightarrow> i < length array \<Longrightarrow> \<forall>e\<in>set ys. entry_ok H m i e \<Longrightarrow> chains_ok H m (array[i := ys])"
  by (auto simp: chains_ok_def nth_list_update)

lemma push_entries_spec:
  assumes "\<forall>e\<in>set es. e_hash e = H (e_key e) \<and> length (e_key e) = unat (e_klen e)"
  shows "chains_ok H m array \<Longrightarrow> \<exists>array'. push_entries m es array = Some array' \<and> chains_ok H m array' \<and>
    mset (concat array') = mset es + mset (concat array)"
  using assms
proof (induction es arbitrary: array)
  case (Cons e es)
  let ?i = "slot_of m (e_hash e)"
  let ?a = "array[?i := e # array ! ?i]"
  have i: "?i < length array" using Cons.prems(1) slot_of_le [of m "e_hash e"] by (simp add: chains_ok_def)
  have "chains_ok H m ?a"
    using Cons.prems i by (intro chains_ok_update) (auto simp: chains_ok_def, simp add: entry_ok_def)
  with Cons obtain array' where a: "push_entries m es ?a = Some array'" "chains_ok H m array'"
      "mset (concat array') = mset es + mset (concat ?a)" by auto
  have "mset (concat ?a) = add_mset e (mset (concat array))"
    using mset_concat_update [OF i, of "e # array ! ?i"] by simp
  then show ?case using a i by (simp add: rd_Some wr_Some Let_def)
qed simp

lemma expand_slots_spec:
  assumes "\<forall>e\<in>set (concat old). e_hash e = H (e_key e) \<and> length (e_key e) = unat (e_klen e)"
  shows "chains_ok H m array \<Longrightarrow> i + n = length old \<Longrightarrow>
    \<exists>array'. expand_slots m old i n array = Some array' \<and> chains_ok H m array' \<and>
      mset (concat array') = mset (concat (drop i old)) + mset (concat array)"
proof (induction n arbitrary: i array)
  case (Suc n)
  have i: "i < length old" using Suc.prems(2) by simp
  have "\<forall>e\<in>set (old ! i). e_hash e = H (e_key e) \<and> length (e_key e) = unat (e_klen e)"
    using assms nth_mem [OF i] by auto
  from push_entries_spec [OF this Suc.prems(1)] obtain a1 where
    a1: "push_entries m (old ! i) array = Some a1" "chains_ok H m a1" "mset (concat a1) = mset (old ! i) + mset (concat array)"
    by blast
  from Suc.IH [OF a1(2), of "Suc i"] Suc.prems(2) obtain a2 where
    a2: "expand_slots m old (Suc i) n a1 = Some a2" "chains_ok H m a2"
      "mset (concat a2) = mset (concat (drop (Suc i) old)) + mset (concat a1)" by auto
  have "drop i old = old ! i # drop (Suc i) old" by (rule Cons_nth_drop_Suc [OF i, symmetric])
  with a1 a2 i show ?case by (simp add: rd_Some)
qed simp

lemma chains_ok_empty: "m \<noteq> - 1 \<Longrightarrow> chains_ok H m (replicate (slots m) [])"
proof -
  assume "m \<noteq> - 1"
  then have "unat (m + 1) = unat m + 1" by (metis Suc_eq_plus1 add.commute add_eq_0_iff unatSuc)
  then show ?thesis by (simp add: chains_ok_def slots_def del: replicate_Suc)
qed

lemma expand_overflow: "array = [] \<Longrightarrow> es \<noteq> [] \<Longrightarrow> push_entries m es array = None"
  by (cases es) (simp_all add: rd_def)

lemma hash_expand_spec:
  assumes "hash_ok H ht" and "ht_max ht < 2 ^ 31 - 1"
  shows "\<exists>r ht'. hash_expand hp ht = Some (r, ht') \<and> hash_ok H ht' \<and> hash_map ht' = hash_map ht \<and> ht_func ht' = ht_func ht"
proof (cases "alloc_ok hp (8 * slots (2 * ht_max ht + 1))")
  case False
  then show ?thesis using assms(1) by (simp add: hash_expand_def Let_def)
next
  case True
  let ?m = "2 * ht_max ht + 1"
  have ok: "chains_ok H (ht_max ht) (ht_array ht)" using assms(1) by (simp add: hash_ok_def)
  have small: "unat (ht_max ht) < 2 ^ 31 - 1" using assms(2) by (simp add: word_less_nat_alt)
  have m: "?m \<noteq> - 1" "ht_max ht \<noteq> - 1"
  proof -
    have "unat ?m = 2 * unat (ht_max ht) + 1"
      using small by (simp add: unat_word_ariths unat_mult_lem mod_less)
    moreover have mn: "unat (- 1 :: u32) = 4294967295" by (simp add: unsigned_minus_1_eq_mask mask_eq_exp_minus_1)
    ultimately have "unat ?m \<noteq> unat (- 1 :: u32)" "unat (ht_max ht) \<noteq> unat (- 1 :: u32)" using small by simp_all
    then show "?m \<noteq> - 1" "ht_max ht \<noteq> - 1" by metis+
  qed
  have es: "\<forall>e\<in>set (concat (ht_array ht)). e_hash e = H (e_key e) \<and> length (e_key e) = unat (e_klen e)"
    using mem_entries [OF ok] by (auto simp: entry_ok_def)
  obtain array where a: "expand_slots ?m (ht_array ht) 0 (unat (ht_max ht) + 1) (replicate (slots ?m) []) = Some array"
      "chains_ok H ?m array" "mset (concat array) = mset (concat (ht_array ht))"
    using expand_slots_spec [OF es chains_ok_empty [OF m(1)], of 0 "unat (ht_max ht) + 1"] ok
    by (auto simp: chains_ok_def)
  let ?ht = "ht\<lparr>ht_max := ?m, ht_array := array\<rparr>"
  have "hash_map ?ht = hash_map ht \<and> distinct (map e_key (entries ?ht))"
    by (rule hash_map_cong) (use a(3) assms(1) in \<open>auto simp: entries_def hash_ok_def\<close>)
  then show ?thesis using True m(2) a(1,2) by (simp add: hash_expand_def Let_def hash_ok_def)
qed

lemma key_split:
  assumes "length (takeWhile (\<lambda>e. e_key e \<noteq> k) chain) < length chain"
  defines "p \<equiv> length (takeWhile (\<lambda>e. e_key e \<noteq> k) chain)"
  shows "chain = take p chain @ chain ! p # drop (Suc p) chain" and "e_key (chain ! p) = k"
  using assms id_take_nth_drop nth_length_takeWhile [of "\<lambda>e. e_key e \<noteq> k" chain] by auto

context hash_function
begin

lemma hash_delete_map:
  assumes "hash_ok H ht" and "ht_func ht = func" and "func key klen = Some (h, l)" and "length key < 2 ^ 32"
  shows "\<exists>ht'. hash_set hp ht key klen None = Some (0, ht') \<and> hash_ok H ht' \<and> ht_func ht' = func \<and>
    hash_map ht' = (hash_map ht)(take (unat l) key := None)"
proof -
  let ?k = "take (unat l) key" and ?i = "slot_of (ht_max ht) h"
  let ?chain = "ht_array ht ! ?i" and ?p = "length (takeWhile (\<lambda>e. e_key e \<noteq> ?k) (ht_array ht ! ?i))"
  note link = find_link [OF assms(1,3,4)]
  have ok: "chains_ok H (ht_max ht) (ht_array ht)" "distinct (map e_key (entries ht))"
    using assms(1) by (auto simp: hash_ok_def)
  show ?thesis
  proof (cases "?p < length ?chain")
    case False
    then have "hash_map ht ?k = None" using link(5) takeWhile_key [of ?chain ?k] by (auto simp: hash_map_None)
    then show ?thesis using False assms link(1,4)
      by (simp add: hash_set_def find_entry_def Let_def rd_Some fun_upd_idem)
  next
    case True
    note ks = key_split [OF True]
    let ?new = "take ?p ?chain @ drop (Suc ?p) ?chain"
    let ?ht = "ht\<lparr>ht_array := (ht_array ht)[?i := ?new], ht_free := ht_free ht + 1, ht_count := ht_count ht - 1\<rparr>"
    have "mset ?chain = add_mset (?chain ! ?p) (mset ?new)" by (subst ks(1)) simp
    then have "mset (entries ht) = add_mset (?chain ! ?p) (mset (entries ?ht))"
      using mset_concat_update [OF link(1), of ?new] by (simp add: entries_def)
    from entry_removed [OF this ok(2)] have
      m: "distinct (map e_key (entries ?ht))" "hash_map ?ht = (hash_map ht)(?k := None)"
      using ks(2) by (simp_all add: hash_map_def)
    have "chains_ok H (ht_max ht) ((ht_array ht)[?i := ?new])"
      using ok(1) link(1) by (intro chains_ok_update) (auto simp: chains_ok_def dest: in_set_takeD in_set_dropD)
    with m True assms(2,3) link(1,4) show ?thesis
      by (simp add: hash_set_def find_entry_def Let_def rd_Some wr_Some hash_ok_def)
  qed
qed

lemma hash_insert_map:
  assumes "hash_ok H ht" and "ht_func ht = func" and "func key klen = Some (h, l)" and "length key < 2 ^ 32"
    and "alloc_ok hp 32" and "ht_max ht < 2 ^ 31 - 1"
  shows "\<exists>r ht'. hash_set hp ht key klen (Some v) = Some (r, ht') \<and> hash_ok H ht' \<and> ht_func ht' = func \<and>
    hash_map ht' = (hash_map ht)(take (unat l) key \<mapsto> v)"
proof -
  let ?k = "take (unat l) key" and ?i = "slot_of (ht_max ht) h"
  let ?chain = "ht_array ht ! ?i" and ?p = "length (takeWhile (\<lambda>e. e_key e \<noteq> ?k) (ht_array ht ! ?i))"
  note link = find_link [OF assms(1,3,4)]
  have ok: "chains_ok H (ht_max ht) (ht_array ht)" "distinct (map e_key (entries ht))"
    using assms(1) by (auto simp: hash_ok_def)
  have es: "\<forall>e\<in>set ?chain. entry_ok H (ht_max ht) ?i e" using ok(1) link(1) by (simp add: chains_ok_def)
  obtain ht1 where run: "hash_set hp ht key klen (Some v) =
      (if ht_count ht1 > ht_max ht1 then hash_expand hp ht1 else Some (0, ht1))"
    and ht1: "hash_ok H ht1" "ht_func ht1 = func" "hash_map ht1 = (hash_map ht)(?k \<mapsto> v)" "ht_max ht1 = ht_max ht"
  proof (cases "?p < length ?chain")
    case True
    note ks = key_split [OF True]
    let ?e = "(?chain ! ?p)\<lparr>e_val := v\<rparr>"
    let ?new = "?chain[?p := ?e]"
    let ?ht = "ht\<lparr>ht_array := (ht_array ht)[?i := ?new]\<rparr>"
    have new: "?new = take ?p ?chain @ ?e # drop (Suc ?p) ?chain" using True by (rule upd_conv_take_nth_drop)
    define R where "R = mset (take ?p ?chain @ drop (Suc ?p) ?chain)"
    have mn: "mset ?new = add_mset ?e R" unfolding new R_def by simp
    have mc: "mset ?chain = add_mset (?chain ! ?p) R" unfolding R_def by (subst ks(1)) simp
    have tot: "mset (entries ?ht) + mset ?chain = mset (entries ht) + mset ?new"
      using mset_concat_update [OF link(1), of ?new] by (simp add: entries_def)
    have "?chain ! ?p \<in># mset (entries ht)"
      using nth_mem [OF True] nth_mem [OF link(1)] by (auto simp: entries_def)
    then obtain Q where q: "mset (entries ht) = add_mset (?chain ! ?p) Q" by (rule mset_add)
    then have q': "mset (entries ?ht) = add_mset ?e Q" using tot mn mc by simp
    have m: "distinct (map e_key (entries ?ht))" "hash_map ?ht = (hash_map ht)(?k \<mapsto> v)"
      using entry_replaced [OF q q' _ ok(2)] ks(2) by (simp_all add: hash_map_def)
    have "chains_ok H (ht_max ht) ((ht_array ht)[?i := ?new])"
    proof (rule chains_ok_update [OF ok(1) link(1)])
      have "entry_ok H (ht_max ht) ?i ?e" using es nth_mem [OF True] by simp
      then show "\<forall>e\<in>set ?new. entry_ok H (ht_max ht) ?i e" using es set_update_subset_insert [of ?chain ?p ?e] by blast
    qed
    with m True assms(2,3) link(1,4) show ?thesis
      by (intro that [of ?ht]) (simp_all add: hash_set_def find_entry_def Let_def rd_Some wr_Some hash_ok_def)
  next
    case False
    then have absent: "\<forall>e\<in>set (entries ht). e_key e \<noteq> ?k" using link(5) takeWhile_key [of ?chain ?k] by auto
    have pl: "?p = length ?chain" using False length_takeWhile_le [of "\<lambda>e. e_key e \<noteq> ?k" ?chain] by linarith
    let ?e = "\<lparr>e_key = ?k, e_klen = l, e_hash = h, e_val = v\<rparr>"
    let ?new = "?chain @ [?e]"
    let ?ht = "ht\<lparr>ht_free := ht_free ht - 1, ht_count := ht_count ht + 1, ht_array := (ht_array ht)[?i := ?new]\<rparr>"
    have "mset (entries ?ht) = add_mset ?e (mset (entries ht))"
      using mset_concat_update [OF link(1), of ?new] by (simp add: entries_def)
    from entry_added [OF this ok(2)] absent have
      m: "distinct (map e_key (entries ?ht))" "hash_map ?ht = (hash_map ht)(?k \<mapsto> v)" by (simp_all add: hash_map_def)
    have "chains_ok H (ht_max ht) ((ht_array ht)[?i := ?new])"
      using es link(2,3) by (intro chains_ok_update [OF ok(1) link(1)]) (auto simp: entry_ok_def)
    moreover have "mem_read key 0 (unat l) = Some ?k" using func_reads [OF assms(3,4)] by (simp add: mem_read_def)
    ultimately show ?thesis using m assms(2,3,5) link(1,4) pl
      by (intro that [of ?ht]) (simp_all add: hash_set_def find_entry_def Let_def rd_Some wr_Some hash_ok_def)
  qed
  show ?thesis
  proof (cases "ht_count ht1 > ht_max ht1")
    case True
    then show ?thesis using run hash_expand_spec [of H ht1 hp] ht1 assms(6) by auto
  qed (use run ht1 in auto)
qed

end

text \<open>Setting a key of a well-formed table to a value makes the table, read as a map, the old map with the
  key bound to the value, and setting it to no value removes the key; the table stays well-formed.  This holds
  whether or not the table could be enlarged, as long as one entry can be allocated and the table is below 2^31
  slots.\<close>

theorem hash_set_refines_update:
  assumes "hash_ok djb ht" and "ht_func ht = hash_func_default" and "hash_func_default key klen = Some (h, l)"
    and "length key < 2 ^ 32" and "alloc_ok hp 32" and "ht_max ht < 2 ^ 31 - 1"
  shows "\<exists>r ht'. hash_set hp ht key klen val = Some (r, ht') \<and> hash_ok djb ht' \<and> ht_func ht' = hash_func_default \<and>
    hash_map ht' = (hash_map ht)(take (unat l) key := val)"
  using djb_function.hash_delete_map [OF assms(1-4), of hp] djb_function.hash_insert_map [OF assms]
  by (cases val) blast+

theorem hash_set_refines_update_witness:
  "\<exists>r ht'. hash_set heap_total \<lparr>ht_count = 0, ht_max = 0, ht_array = [[]], ht_free = 0, ht_func = hash_func_default\<rparr>
      [97, 0] HASH_KEY_STRING (Some (5 :: int)) = Some (r, ht') \<and>
    hash_ok djb ht' \<and> ht_func ht' = hash_func_default \<and> hash_map ht' = [[97] \<mapsto> 5]"
proof -
  have run: "hash_func_default [97, 0] HASH_KEY_STRING = Some (djb_step 0 97, 1)"
    by (simp add: hash_func_default_def)
  show ?thesis
    using hash_set_refines_update [OF _ _ run, of
        "\<lparr>ht_count = 0, ht_max = 0, ht_array = [[]], ht_free = 0, ht_func = hash_func_default\<rparr>" heap_total "Some (5 :: int)"]
    by (simp add: hash_ok_def chains_ok_def entries_def hash_map_def heap_total_def)
qed

text \<open>The operations on keys given by their bytes, on tables below the size at which an expansion would wrap.\<close>

definition hash_put :: "heap \<Rightarrow> 'v hash_t \<Rightarrow> buf \<Rightarrow> 'v option \<Rightarrow> 'v hash_t option" where
  "hash_put hp ht k v =
     (if ht_max ht < 2 ^ 31 - 1 then map_option snd (hash_set hp ht k (of_nat (length k)) v) else None)"

definition hash_lookup :: "heap \<Rightarrow> 'v hash_t \<Rightarrow> buf \<Rightarrow> 'v option option" where
  "hash_lookup hp ht k = hash_get hp ht k (of_nat (length k))"

definition key_fits :: "buf \<Rightarrow> bool" where
  "key_fits k \<longleftrightarrow> length k < 2 ^ 32 - 1"

definition table_ok :: "'v hash_t \<Rightarrow> bool" where
  "table_ok ht \<longleftrightarrow> hash_ok djb ht \<and> ht_func ht = hash_func_default"

lemma djb_bytes_total: "n \<le> length k \<Longrightarrow> \<exists>v. djb_bytes a n k = Some v"
  by (induction a n k rule: djb_bytes.induct) (auto split: list.splits)

lemma default_on_bytes:
  assumes "key_fits k"
  shows "\<exists>h. hash_func_default k (of_nat (length k)) = Some (h, of_nat (length k))"
    and "unat (of_nat (length k) :: u32) = length k" and "length k < 2 ^ 32"
proof -
  show u: "unat (of_nat (length k) :: u32) = length k" using assms by (simp add: key_fits_def unat_of_nat)
  show "length k < 2 ^ 32" using assms by (simp add: key_fits_def)
  have "unat (- 1 :: u32) = 4294967295" by (simp add: unsigned_minus_1_eq_mask mask_eq_exp_minus_1)
  then have "of_nat (length k) \<noteq> HASH_KEY_STRING" using u assms by (auto simp: HASH_KEY_STRING_def key_fits_def)
  then show "\<exists>h. hash_func_default k (of_nat (length k)) = Some (h, of_nat (length k))"
    using djb_bytes_total [of "length k" k 0] u by (auto simp: hash_func_default_def)
qed

lemma hash_lookup_map: "table_ok ht \<Longrightarrow> key_fits k \<Longrightarrow> hash_lookup hp ht k = Some (hash_map ht k)"
  using default_on_bytes [of k] djb_function.hash_get_map [of ht k "of_nat (length k)" _ "of_nat (length k)" hp]
  by (auto simp: hash_lookup_def table_ok_def)

lemma hash_put_map:
  assumes "table_ok ht" and "key_fits k" and "hash_put heap_total ht k v = Some ht'"
  shows "table_ok ht' \<and> hash_map ht' = (hash_map ht)(k := v)"
proof -
  obtain h where h: "hash_func_default k (of_nat (length k)) = Some (h, of_nat (length k))"
    using default_on_bytes(1) [OF assms(2)] by blast
  have small: "ht_max ht < 2 ^ 31 - 1" using assms(3) by (auto simp: hash_put_def split: if_splits)
  have "\<exists>r ht'. hash_set heap_total ht k (of_nat (length k)) v = Some (r, ht') \<and> table_ok ht' \<and>
      hash_map ht' = (hash_map ht)(k := v)"
    using djb_function.hash_delete_map [OF _ _ h default_on_bytes(3) [OF assms(2)], of ht heap_total]
      djb_function.hash_insert_map [OF _ _ h default_on_bytes(3) [OF assms(2)], of ht heap_total] assms(1) small
      default_on_bytes(2) [OF assms(2)]
    by (cases v) (force simp: table_ok_def heap_total_def)+
  then show ?thesis using assms(3) small by (auto simp: hash_put_def)
qed

interpretation hash_store: store "hash_lookup heap_total" "hash_put heap_total" table_ok key_fits
proof
  fix s :: "'a hash_t" and k v s' j
  assume s: "table_ok s" "key_fits k"
  show "\<exists>v. hash_lookup heap_total s k = Some v" using hash_lookup_map [OF s] by blast
  assume p: "hash_put heap_total s k v = Some s'"
  show "table_ok s'" using hash_put_map [OF s p] by blast
  assume j: "key_fits j"
  show "hash_lookup heap_total s' j = (if j = k then Some v else hash_lookup heap_total s j)"
    using hash_put_map [OF s p] hash_lookup_map [of s' j heap_total] hash_lookup_map [of s j heap_total] j s(1) by auto
qed

text \<open>Claim C1: a table that is created and then goes through any sequence of insertions, replacements and deletions,
  with the expansions they cause, answers every lookup as a map does that goes through the same sequence.\<close>

theorem hash_table_is_map:
  assumes "hash_create heap_total m None = Some ht" and "m \<noteq> - 1"
    and "run_puts (hash_put heap_total) ht ops = Some ht'" and "\<forall>(k, v)\<in>set ops. key_fits k" and "key_fits k"
  shows "hash_lookup heap_total ht' k = Some (map_puts Map.empty ops k)"
proof (rule hash_store.run_puts_get [OF _ assms(4,3) _ assms(5)])
  let ?m = "if m = 0 then HASH_DEFAULT_MAX else m"
  have ht: "ht = \<lparr>ht_count = 0, ht_max = ?m, ht_array = replicate (slots ?m) [], ht_free = 0, ht_func = hash_func_default\<rparr>"
    using assms(1) by (auto simp: hash_create_def Let_def heap_total_def)
  have "?m \<noteq> - 1" using assms(2) by (simp add: HASH_DEFAULT_MAX_def)
  from chains_ok_empty [OF this] show t: "table_ok ht" unfolding ht
    by (auto simp: table_ok_def hash_ok_def entries_def split del: if_split)
  have "hash_map ht = Map.empty" unfolding ht by (simp add: hash_map_def entries_def)
  then show "hash_lookup heap_total ht j = Some (Map.empty j)" if "key_fits j" for j
    using hash_lookup_map [OF t that] by simp
qed

theorem hash_table_is_map_witness:
  "\<exists>ht ht'. hash_create heap_total 1 None = Some ht \<and>
    run_puts (hash_put heap_total) ht [([1], Some True), ([2], Some False), ([1], None)] = Some ht' \<and>
    hash_lookup heap_total ht' [2] = Some (Some False)"
proof -
  let ?ht = "\<lparr>ht_count = 0, ht_max = 1, ht_array = [[], []], ht_free = 0, ht_func = hash_func_default\<rparr> :: bool hash_t"
  let ?ops = "[([1], Some True), ([2], Some False), ([1], None)] :: (buf \<times> bool option) list"
  have ht: "hash_create heap_total 1 None = Some ?ht"
  proof -
    have "replicate 2 [] = [[], [] :: bool hash_entry_t list]" by (simp add: eval_nat_numeral)
    then show ?thesis by (simp add: hash_create_def slots_def heap_total_def Let_def)
  qed
  have four: "replicate 4 [] = [[], [], [], [] :: bool hash_entry_t list]" by (simp add: eval_nat_numeral)
  have two: "expand_slots m (old :: bool hash_entry_t list list) i 2 a = expand_slots m old i (Suc (Suc 0)) a" for m old i a
    by (simp only: numeral_2_eq_2)
  have "\<exists>ht'. run_puts (hash_put heap_total) ?ht ?ops = Some ht'"
    by (simp add: four two hash_expand_def slots_def hash_put_def hash_set_def find_entry_def hash_func_default_def HASH_KEY_STRING_def djb_step_def
        slot_of_def Let_def heap_total_def rd_def wr_def mem_read_def)
  then obtain ht' where "run_puts (hash_put heap_total) ?ht ?ops = Some ht'" by blast
  with ht hash_table_is_map [OF ht _ this, of "[2]"] show ?thesis
    by (intro exI [of _ ?ht] exI [of _ ht']) (simp add: key_fits_def)
qed

text \<open>Destroying a table releases the entries of all slots but the last, whose entries are lost.\<close>

theorem hash_destroy_leaks:
  assumes "hash_ok H ht" and "hash_destroy ht = Some (freed, n)"
  shows "mset (entries ht) = mset freed + mset (ht_array ht ! unat (ht_max ht))"
proof -
  have len: "length (ht_array ht) = unat (ht_max ht) + 1" using assms(1) by (simp add: hash_ok_def chains_ok_def)
  then have "ht_array ht = take (unat (ht_max ht)) (ht_array ht) @ [ht_array ht ! unat (ht_max ht)]"
    by (metis Suc_eq_plus1 lessI take_Suc_conv_app_nth take_all le_refl)
  then have "entries ht = concat (take (unat (ht_max ht)) (ht_array ht)) @ ht_array ht ! unat (ht_max ht)"
    unfolding entries_def by (metis concat.simps(1) concat.simps(2) concat_append self_append_conv)
  then show ?thesis using assms(2) len by (simp add: hash_destroy_def)
qed

theorem hash_destroy_leaks_witness:
  "mset (entries \<lparr>ht_count = 1, ht_max = 1, ht_array = [[], [\<lparr>e_key = [1], e_klen = 1, e_hash = 1, e_val = True\<rparr>]],
      ht_free = 0, ht_func = hash_func_default\<rparr>) =
    mset [] + mset [\<lparr>e_key = [1], e_klen = 1, e_hash = 1, e_val = True\<rparr>]"
proof -
  let ?ht = "\<lparr>ht_count = 1, ht_max = 1, ht_array = [[], [\<lparr>e_key = [1], e_klen = 1, e_hash = 1, e_val = True\<rparr>]],
      ht_free = 0, ht_func = hash_func_default\<rparr>"
  have "hash_ok (\<lambda>_. 1) ?ht"
    by (auto simp: hash_ok_def chains_ok_def entries_def entry_ok_def slot_of_def less_Suc_eq)
  moreover have "hash_destroy ?ht = Some ([], 0)" by (simp add: hash_destroy_def)
  ultimately show ?thesis using hash_destroy_leaks [of "\<lambda>_. 1" ?ht "[]" 0] by simp
qed

end
