(* ===== verification/FB_File.thy ===== *)
theory FB_File
  imports FB_Prelude
begin

text \<open>
  Files as \<open>lib/fileio.c\<close> and \<open>lib/mmap.c\<close> use them.  An open file is its bytes and an offset; what
  the operating system answers during one operation is a value of \<open>os\<close>: for the calls that the code
  repeats when interrupted, the list of errors before the call succeeds, for the others whether they
  succeed.  A mapped file is not a copy: memory accesses through the mapping are accesses to the bytes of
  the file, and an access behind its end is undefined.
\<close>

section \<open>The operating system\<close>

datatype errno = EINTR | EOTHER

record os =
  can_open :: bool
  can_lock :: bool
  can_stat :: bool
  can_map :: bool
  can_seek :: bool
  os_read :: "errno list"
  os_write :: "errno list"
  os_truncate :: "errno list"
  os_close :: "errno list"

definition os_fine :: os where
  "os_fine = \<lparr>can_open = True, can_lock = True, can_stat = True, can_map = True, can_seek = True,
     os_read = [], os_write = [], os_truncate = [], os_close = []\<rparr>"

text \<open>The loop around a system call: repeat while it fails with EINTR.\<close>

fun retry :: "errno list \<Rightarrow> bool" where
  "retry [] \<longleftrightarrow> True"
| "retry (EINTR # es) \<longleftrightarrow> retry es"
| "retry (EOTHER # es) \<longleftrightarrow> False"

record ofile =
  bytes :: buf
  pos :: nat

text \<open>Writing at an offset fills a gap behind the end with zero bytes.\<close>

definition put_bytes :: "buf \<Rightarrow> nat \<Rightarrow> buf \<Rightarrow> buf" where
  "put_bytes b i xs =
     (if xs = [] then b else take i b @ replicate (i - length b) 0 @ xs @ drop (i + length xs) b)"

definition set_length :: "buf \<Rightarrow> nat \<Rightarrow> buf" where
  "set_length b n = take n b @ replicate (n - length b) 0"

text \<open>Signed arithmetic on \<open>int\<close> is undefined outside its range; a conversion to \<open>int\<close> wraps.\<close>

definition cint :: "int \<Rightarrow> int option" where
  "cint x = (if - (2 ^ 31) \<le> x \<and> x < 2 ^ 31 then Some x else None)"

definition to_int :: "int \<Rightarrow> int" where
  "to_int x = sint (word_of_int x :: u32)"

lemma to_int_id: "- (2 ^ 31) \<le> x \<Longrightarrow> x < 2 ^ 31 \<Longrightarrow> to_int x = x"
  by (simp add: to_int_def signed_of_int signed_take_bit_int_eq_self)

lemma to_int_nat: "n < 2147483648 \<Longrightarrow> to_int (int n) = int n"
  by (rule to_int_id) auto

section \<open>lib/fileio.c\<close>

definition file_read :: "os \<Rightarrow> buf option \<Rightarrow> nat \<Rightarrow> ofile \<Rightarrow> (int \<times> buf option \<times> ofile) option" where
  "file_read os dst n f =
     (case dst of
        None \<Rightarrow> Some (-1, None, f)
      | Some d \<Rightarrow>
          if retry (os_read os) then do {
            let xs = take n (drop (pos f) (bytes f));
            d' \<leftarrow> mem_write d 0 xs;
            Some (to_int (int (length xs)), Some d', f\<lparr>pos := pos f + length xs\<rparr>)
          } else Some (-1, Some d, f))"

definition file_write :: "os \<Rightarrow> buf option \<Rightarrow> ofile \<Rightarrow> int \<times> ofile" where
  "file_write os src f =
     (case src of
        None \<Rightarrow> (-1, f)
      | Some xs \<Rightarrow>
          if retry (os_write os)
          then (to_int (int (length xs)),
                f\<lparr>bytes := put_bytes (bytes f) (pos f) xs, pos := pos f + length xs\<rparr>)
          else (-1, f))"

definition file_close :: "os \<Rightarrow> int" where
  "file_close os = (case os_close os of [] \<Rightarrow> 0 | e # _ \<Rightarrow> if e = EINTR then 0 else -1)"

definition file_truncate :: "os \<Rightarrow> nat \<Rightarrow> ofile \<Rightarrow> int \<times> ofile" where
  "file_truncate os n f =
     (if retry (os_truncate os) then (0, f\<lparr>bytes := set_length (bytes f) n\<rparr>) else (-1, f))"

text \<open>Named files: a path leads to nothing, a regular file or a directory (of the size \<open>stat\<close> reports).\<close>

datatype node = Regular buf | Directory nat

type_synonym fs = "string \<Rightarrow> node option"

definition file_append :: "os \<Rightarrow> fs \<Rightarrow> string option \<Rightarrow> buf option \<Rightarrow> (int \<times> fs) option" where
  "file_append os fs file msg =
     (case (file, msg) of
        (Some p, Some m) \<Rightarrow>
          (case fs p of
             Some (Directory _) \<Rightarrow> Some (-1, fs)
           | n \<Rightarrow>
               if \<not> can_open os then Some (-1, fs)
               else do {
                 let old = (case n of Some (Regular b) \<Rightarrow> b | _ \<Rightarrow> []);
                 (if can_lock os then do {
                    len \<leftarrow> strlen m;
                    let (ret, f) = file_write os (Some (take len m)) \<lparr>bytes = old, pos = length old\<rparr>;
                    Some (ret, fs(p \<mapsto> Regular (bytes f)))
                  } else Some (-1, fs(p \<mapsto> Regular old)))
               })
      | _ \<Rightarrow> Some (-1, fs))"

definition file_read_all :: "os \<Rightarrow> heap \<Rightarrow> fs \<Rightarrow> string option \<Rightarrow> buf option option" where
  "file_read_all os h fs file =
     (case file of
        None \<Rightarrow> Some None
      | Some p \<Rightarrow>
          (case fs p of
             None \<Rightarrow> Some None
           | Some n \<Rightarrow>
               let size' = (case n of Regular b \<Rightarrow> length b | Directory k \<Rightarrow> k) in
               if \<not> can_open os \<or> \<not> can_stat os then Some None
               else (case malloc h (size' + 1) of
                   None \<Rightarrow> Some None
                 | Some str \<Rightarrow> do {
                     str \<leftarrow> (case n of
                        Regular b \<Rightarrow> do {
                          (_, dst, _) \<leftarrow> file_read os (Some str) size' \<lparr>bytes = b, pos = 0\<rparr>;
                          dst
                        }
                      | Directory _ \<Rightarrow> Some str);
                     str \<leftarrow> wr str size' 0;
                     Some (Some str)
                   })))"

definition dashf :: "fs \<Rightarrow> string option \<Rightarrow> bool" where
  "dashf fs file = (case file of None \<Rightarrow> False | Some p \<Rightarrow> (case fs p of Some (Regular _) \<Rightarrow> True | _ \<Rightarrow> False))"

definition dashd :: "fs \<Rightarrow> string option \<Rightarrow> bool" where
  "dashd fs file = (case file of None \<Rightarrow> False | Some p \<Rightarrow> (case fs p of Some (Directory _) \<Rightarrow> True | _ \<Rightarrow> False))"

fun valid_fname :: "buf \<Rightarrow> bool option" where
  "valid_fname [] = None"
| "valid_fname (c # cs) =
     (let ch = schar c in
      if ch = 0 then Some True
      else if (ch \<ge> 65 \<and> ch \<le> 90) \<or> (ch \<ge> 97 \<and> ch \<le> 122) \<or> (ch \<ge> 48 \<and> ch \<le> 57) \<or> ch = 45 \<or> ch = 95
      then valid_fname cs else Some False)"

section \<open>Copying an article without its quoted head\<close>

text \<open>One call of \<open>fgets\<close>: at most \<open>n - 1\<close> bytes up to and with the line feed, then a NUL.\<close>

fun fgets_take :: "nat \<Rightarrow> buf \<Rightarrow> buf \<times> buf" where
  "fgets_take 0 s = ([], s)"
| "fgets_take (Suc n) [] = ([], [])"
| "fgets_take (Suc n) (c # s) =
     (if c = 10 then ([c], s) else let (l, r) = fgets_take n s in (c # l, r))"

lemma fgets_take_append: "fgets_take n s = (l, r) \<Longrightarrow> s = l @ r"
  by (induction n s arbitrary: l r rule: fgets_take.induct) (auto split: if_splits prod.splits)

lemma fgets_take_progress: "fgets_take (Suc n) (c # s) = (l, r) \<Longrightarrow> length r < length (c # s)"
  using fgets_take_append [of "Suc n" "c # s" l r] by (auto split: if_splits prod.splits)

text \<open>\<open>strncmp (buf, lit, n) = 0\<close> for a literal of \<open>n\<close> bytes, and \<open>fputs\<close> of a buffer (up to its NUL).\<close>

definition starts_with :: "buf \<Rightarrow> buf \<Rightarrow> bool" where
  "starts_with lit b \<longleftrightarrow> take (length lit) (cstr b) = lit"

text \<open>The literals as GBK bytes: ``xinren: '', the same behind a colour code, ``biaoti: '', ``faxinzhan: ''.\<close>

definition part_cp_sender :: buf where
  "part_cp_sender = [0xd0, 0xc5, 0xc8, 0xcb, 0x3a, 0x20]"

definition part_cp_colour :: buf where
  "part_cp_colour = [27, 0x5b, 0x31, 0x3b, 0x34, 0x31, 0x3b, 0x33, 0x33, 0x6d,
     0xb7, 0xa2, 0xd0, 0xc5, 0xc8, 0xcb, 0x3a, 0x20]"

definition part_cp_title :: buf where
  "part_cp_title = [0xb1, 0xea, 0x20, 0x20, 0xcc, 0xe2, 0x3a, 0x20]"

definition part_cp_site :: buf where
  "part_cp_site = [0xb7, 0xa2, 0xd0, 0xc5, 0xd5, 0xbe, 0x3a, 0x20]"

text \<open>
  The copy loop: the bytes still to be read, the flag, the bytes written.  \<open>buf + 2\<close> of a line with fewer
  than two bytes before its NUL reads what the buffer held before; the stale bytes are passed along.
\<close>

lemma fgets_shorter: "(l, r) = fgets_take 255 src \<Longrightarrow> src \<noteq> [] \<Longrightarrow> length r < length src"
  using fgets_take_progress [of 254 "hd src" "tl src" l r] by (cases src) auto

function part_cp_loop :: "buf \<Rightarrow> buf \<Rightarrow> bool \<Rightarrow> buf \<Rightarrow> buf" where
  "part_cp_loop stale src flag out =
     (if src = [] then out
      else
        let (line, src') = fgets_take 255 src;
            b = line @ 0 # drop (Suc (length line)) stale in
        if flag \<and> cstr b = [0x2d, 0x2d, 0x0a] then out @ cstr b
        else if \<not> flag \<and> (starts_with part_cp_sender (drop 2 b) \<or> starts_with part_cp_colour b)
        then part_cp_loop b src' flag (out @ cstr b)
        else if \<not> flag \<and> (take 1 b = [0] \<or> take 1 b = [0x0a] \<or> starts_with part_cp_title b \<or>
          starts_with part_cp_site b)
        then part_cp_loop b src' flag out
        else part_cp_loop b src' True (out @ cstr b))"
  by pat_completeness auto
termination
  by (relation "measure (\<lambda>(stale, src, flag, out). length src)") (auto dest: fgets_shorter)

text \<open>Opening a directory for reading succeeds, reading from it does not.\<close>

definition part_cp :: "fs \<Rightarrow> string \<Rightarrow> string \<Rightarrow> bool \<Rightarrow> buf \<Rightarrow> int \<times> fs" where
  "part_cp fs src dst append_mode stale =
     (case fs src of
        None \<Rightarrow> (0, fs)
      | Some n \<Rightarrow>
          (case fs dst of
             Some (Directory _) \<Rightarrow> (0, fs)
           | d \<Rightarrow>
               let old = (case d of Some (Regular o') \<Rightarrow> if append_mode then o' else [] | _ \<Rightarrow> []);
                   b = (if src = dst then old else case n of Regular b \<Rightarrow> b | Directory _ \<Rightarrow> []) in
               (1, fs(dst \<mapsto> Regular (old @ part_cp_loop stale b False [])))))"

section \<open>Copying a whole file\<close>

text \<open>\<open>BUFSIZ\<close> of the C library.\<close>

definition BUFSIZ :: nat where
  "BUFSIZ = 8192"

function f_cp_loop :: "os \<Rightarrow> ofile \<Rightarrow> ofile \<Rightarrow> int \<times> ofile" where
  "f_cp_loop os src dst =
     (if \<not> retry (os_read os) then (-1, dst)
      else
        let xs = take BUFSIZ (drop (pos src) (bytes src)); ret = int (length xs) in
        if xs = [] then (ret, dst)
        else
          let (w, dst') = file_write os (Some xs) dst in
          if w > 0 then f_cp_loop os (src\<lparr>pos := pos src + length xs\<rparr>) dst' else (ret, dst'))"
  by pat_completeness auto
termination
  by (relation "measure (\<lambda>(os, src, dst). length (bytes src) - pos src)") auto

datatype cp_mode = O_EXCL | O_APPEND | O_TRUNC

text \<open>The destination must not exist when the mode is \<open>O_EXCL\<close>; when it cannot be opened the result is 0.
  Source and destination are different files.\<close>

definition f_cp :: "os \<Rightarrow> fs \<Rightarrow> string \<Rightarrow> string \<Rightarrow> cp_mode \<Rightarrow> int \<times> fs" where
  "f_cp os fs src dst mode =
     (case fs src of
        None \<Rightarrow> (-1, fs)
      | Some n \<Rightarrow>
          if \<not> can_open os \<or> dashd fs (Some dst) \<or> (mode = O_EXCL \<and> fs dst \<noteq> None) then (0, fs)
          else
            let old = (case fs dst of Some (Regular o') \<Rightarrow> if mode = O_TRUNC then [] else o' | _ \<Rightarrow> []);
                p = (if mode = O_APPEND then length old else 0);
                (ret, f) =
                  (case n of
                     Regular b \<Rightarrow> f_cp_loop os \<lparr>bytes = b, pos = 0\<rparr> \<lparr>bytes = old, pos = p\<rparr>
                   | Directory _ \<Rightarrow> (-1, \<lparr>bytes = old, pos = p\<rparr>)) in
            (ret, fs(dst \<mapsto> Regular (bytes f))))"

section \<open>lib/mmap.c\<close>

datatype file_lock_e = FILE_RDLCK | FILE_WRLCK | FILE_UNLCK

datatype oflag = RDONLY | WRONLY | RDWR

definition MMAP_MINSIZE :: nat where
  "MMAP_MINSIZE = 4096"

record mmap_t =
  m_oflag :: oflag
  m_lock :: file_lock_e
  m_readable :: bool
  m_writable :: bool
  m_size :: nat
  m_msize :: nat

text \<open>The result is the error, or the mapping; the file is closed on an error.\<close>

definition mmap_open_fd :: "os \<Rightarrow> oflag \<Rightarrow> ofile \<Rightarrow> mmap_t option" where
  "mmap_open_fd os flag f =
     (let lock = (if flag = RDONLY then FILE_RDLCK else FILE_WRLCK);
          n = length (bytes f) in
      if \<not> can_lock os then None
      else if \<not> can_stat os then None
      else if \<not> can_map os then None
      else Some \<lparr>m_oflag = flag, m_lock = lock, m_readable = (flag \<noteq> WRONLY), m_writable = (flag \<noteq> RDONLY),
        m_size = n, m_msize = (if n > MMAP_MINSIZE then n else MMAP_MINSIZE)\<rparr>)"

definition mmap_open :: "os \<Rightarrow> fs \<Rightarrow> string \<Rightarrow> oflag \<Rightarrow> (mmap_t \<times> ofile) option" where
  "mmap_open os fs file flag =
     (case fs file of
        Some (Regular b) \<Rightarrow>
          if can_open os
          then (let f = \<lparr>bytes = b, pos = 0\<rparr> in map_option (\<lambda>m. (m, f)) (mmap_open_fd os flag f))
          else None
      | _ \<Rightarrow> None)"

text \<open>Extending a file remaps it when the old mapping is too short.\<close>

definition mmap_truncate :: "os \<Rightarrow> nat \<Rightarrow> mmap_t \<Rightarrow> ofile \<Rightarrow> mmap_t option \<times> ofile" where
  "mmap_truncate os n m f =
     (let (r, f') = file_truncate os n f in
      if r < 0 then (None, f)
      else if n > m_msize m then
        (if can_map os then (Some (m\<lparr>m_size := n, m_msize := n\<rparr>), f') else (None, f'))
      else (Some (m\<lparr>m_size := n\<rparr>), f'))"

definition mmap_shrink :: "os \<Rightarrow> nat \<Rightarrow> mmap_t \<Rightarrow> ofile \<Rightarrow> int \<times> mmap_t \<times> ofile" where
  "mmap_shrink os n m f =
     (if n \<ge> m_msize m then (-1, m, f)
      else
        let (r, f') = file_truncate os n f in
        if r < 0 then (-1, m, f) else (0, m\<lparr>m_size := n\<rparr>, f'))"

definition mmap_lock :: "os \<Rightarrow> file_lock_e \<Rightarrow> mmap_t \<Rightarrow> int \<times> mmap_t" where
  "mmap_lock os lock m =
     (if lock = m_lock m then (0, m)
      else ((if can_lock os then 0 else -1), m\<lparr>m_lock := lock\<rparr>))"

section \<open>Copying keeps the bytes\<close>

declare f_cp_loop.simps [simp del] part_cp_loop.simps [simp del]

lemma drop_block: "drop p b = take n (drop p b) @ drop (p + length (take n (drop p b))) b"
proof -
  have "drop (length (take n (drop p b))) (drop p b) = drop n (drop p b)" by (simp add: min_def)
  then show ?thesis by (metis append_take_drop_id drop_drop add.commute)
qed

lemma f_cp_loop_copies:
  "retry (os_read os) \<Longrightarrow> retry (os_write os) \<Longrightarrow> pos dst = length (bytes dst) \<Longrightarrow>
   \<exists>f. f_cp_loop os src dst = (0, f) \<and> bytes f = bytes dst @ drop (pos src) (bytes src)"
proof (induction os src dst rule: f_cp_loop.induct)
  case (1 os src dst)
  define xs where "xs = take BUFSIZ (drop (pos src) (bytes src))"
  show ?case
  proof (cases "xs = []")
    case True
    then have "drop (pos src) (bytes src) = []" by (simp add: xs_def BUFSIZ_def)
    with True "1.prems" show ?thesis
      by (simp add: f_cp_loop.simps [of os src dst] xs_def [symmetric])
  next
    case False
    have len: "0 < length xs" "length xs \<le> 8192" using False by (auto simp: xs_def BUFSIZ_def)
    let ?d = "dst\<lparr>bytes := bytes dst @ xs, pos := pos dst + length xs\<rparr>"
    let ?s = "src\<lparr>pos := pos src + length xs\<rparr>"
    have w: "file_write os (Some xs) dst = (int (length xs), ?d)"
      using "1.prems" len by (simp add: file_write_def put_bytes_def to_int_id)
    have rest: "drop (pos src) (bytes src) = xs @ drop (pos src + length xs) (bytes src)"
      unfolding xs_def by (rule drop_block)
    have "\<exists>f. f_cp_loop os ?s ?d = (0, f) \<and> bytes f = bytes ?d @ drop (pos ?s) (bytes ?s)"
      using "1.IH" [OF _ xs_def refl False w [symmetric] refl] "1.prems" len by simp
    moreover have "f_cp_loop os src dst = f_cp_loop os ?s ?d"
      using "1.prems"(1) False w len by (simp add: f_cp_loop.simps [of os src dst] xs_def [symmetric])
    ultimately show ?thesis using rest by simp
  qed
qed

text \<open>With working reads and writes, copying in exclusive mode creates the destination with the bytes of
  the source when the destination does not exist; when it exists nothing is copied, and the result is 0 all the
  same, the value that stands for success.\<close>

theorem f_cp_exclusive:
  assumes "retry (os_read os)" and "retry (os_write os)" and "can_open os" and "fs src = Some (Regular b)"
  shows "f_cp os fs src dst O_EXCL = (0, if fs dst = None then fs(dst \<mapsto> Regular b) else fs)"
proof (cases "fs dst = None")
  case True
  obtain f where "f_cp_loop os \<lparr>bytes = b, pos = 0\<rparr> \<lparr>bytes = [], pos = 0\<rparr> = (0, f)" "bytes f = b"
    using f_cp_loop_copies [OF assms(1,2), of "\<lparr>bytes = [], pos = 0\<rparr>" "\<lparr>bytes = b, pos = 0\<rparr>"] by auto
  with True assms show ?thesis by (simp add: f_cp_def dashd_def)
next
  case False
  with assms show ?thesis by (auto simp: f_cp_def)
qed

theorem f_cp_exclusive_witness:
  "f_cp os_fine [''a'' \<mapsto> Regular [1, 2], ''b'' \<mapsto> Regular [9]] ''a'' ''b'' O_EXCL =
    (0, [''a'' \<mapsto> Regular [1, 2], ''b'' \<mapsto> Regular [9]])"
  using f_cp_exclusive [of os_fine "[''a'' \<mapsto> Regular [1, 2], ''b'' \<mapsto> Regular [9]]" "''a''" "[1, 2]" "''b''"]
  by (simp add: os_fine_def)

end
