(* ===== verification/FB_Record.thy ===== *)
theory FB_Record
  imports FB_File "HOL-Library.Multiset"
begin

text \<open>
  Files of fixed-length records: \<open>lib/record.c\<close>.  The descriptor of a \<open>record_t\<close> is an open file passed
  along; a record is a list of \<open>rlen\<close> bytes.  A callback is a function from its argument block (any
  state), the record and its offset to the answer, the record as the callback leaves it, and the argument
  block afterwards.  Products of a count and the record length are \<open>int\<close>s: beyond the range of \<open>int\<close>
  the code is undefined.
\<close>

section \<open>Descriptors and single transfers\<close>

datatype record_whence_e = RECORD_SET | RECORD_CUR | RECORD_END

record record_t =
  rlen :: nat
  cmp :: "buf \<Rightarrow> buf \<Rightarrow> int"

type_synonym 's record_callback_t = "'s \<Rightarrow> buf \<Rightarrow> int \<Rightarrow> int \<times> buf \<times> 's"

abbreviation (input) RECORD_CALLBACK_MATCH :: int where
  "RECORD_CALLBACK_MATCH \<equiv> 0"

abbreviation (input) RECORD_CALLBACK_BREAK :: int where
  "RECORD_CALLBACK_BREAK \<equiv> 1"

definition RECORD_BUFFER_SIZE :: nat where
  "RECORD_BUFFER_SIZE = 8192"

text \<open>\<open>record_open\<close> on a named file: the mode decides whether a missing file is created.\<close>

definition record_open ::
  "os \<Rightarrow> fs \<Rightarrow> string option \<Rightarrow> (buf \<Rightarrow> buf \<Rightarrow> int) \<Rightarrow> nat \<Rightarrow> bool \<Rightarrow> (record_t \<times> ofile) option \<times> fs" where
  "record_open os fs file c len rdonly =
     (case file of
        None \<Rightarrow> (None, fs)
      | Some p \<Rightarrow>
          let r = \<lparr>rlen = len, cmp = c\<rparr> in
          (case fs p of
             Some (Regular b) \<Rightarrow> if can_open os then (Some (r, \<lparr>bytes = b, pos = 0\<rparr>), fs) else (None, fs)
           | Some (Directory _) \<Rightarrow>
               if rdonly \<and> can_open os then (Some (r, \<lparr>bytes = [], pos = 0\<rparr>), fs) else (None, fs)
           | None \<Rightarrow>
               if rdonly \<or> \<not> can_open os then (None, fs)
               else (Some (r, \<lparr>bytes = [], pos = 0\<rparr>), fs(p \<mapsto> Regular []))))"

definition record_count :: "os \<Rightarrow> record_t option \<Rightarrow> ofile \<Rightarrow> int option" where
  "record_count os rec f =
     (case rec of
        None \<Rightarrow> Some 0
      | Some r \<Rightarrow>
          if \<not> can_stat os then Some 0
          else if rlen r = 0 then None
          else Some (to_int (int (length (bytes f) div rlen r))))"

definition record_seek :: "os \<Rightarrow> record_t option \<Rightarrow> int \<Rightarrow> record_whence_e \<Rightarrow> ofile \<Rightarrow> (int \<times> ofile) option" where
  "record_seek os rec offset whence f =
     (case rec of
        None \<Rightarrow> Some (-1, f)
      | Some r \<Rightarrow> do {
          delta \<leftarrow> cint (offset * int (rlen r));
          let base = (case whence of RECORD_SET \<Rightarrow> 0 | RECORD_CUR \<Rightarrow> int (pos f) | RECORD_END \<Rightarrow> int (length (bytes f)));
          let off = base + delta;
          (if \<not> can_seek os \<or> off < 0 then Some (-1, f)
           else if rlen r = 0 then None
           else Some (to_int (off div int (rlen r)), f\<lparr>pos := nat off\<rparr>))
        })"

definition record_read ::
  "os \<Rightarrow> record_t option \<Rightarrow> buf option \<Rightarrow> int \<Rightarrow> ofile \<Rightarrow> (int \<times> buf option \<times> ofile) option" where
  "record_read os rec ptr cnt f =
     (case rec of
        None \<Rightarrow> Some (-1, ptr, f)
      | Some r \<Rightarrow>
          if ptr = None \<or> cnt < 0 then Some (-1, ptr, f)
          else do {
            n \<leftarrow> cint (cnt * int (rlen r));
            (b, ptr, f) \<leftarrow> file_read os ptr (nat n) f;
            (if b < 0 then Some (-1, ptr, f)
             else if rlen r = 0 then None
             else Some (b div int (rlen r), ptr, f))
          })"

definition record_read_after ::
  "os \<Rightarrow> record_t option \<Rightarrow> buf option \<Rightarrow> int \<Rightarrow> int \<Rightarrow> ofile \<Rightarrow> (int \<times> buf option \<times> ofile) option" where
  "record_read_after os rec ptr cnt offset f =
     (if ptr = None \<or> cnt < 0 then Some (0, ptr, f)
      else do {
        (o', f) \<leftarrow> record_seek os rec offset RECORD_SET f;
        (if o' < 0 then Some (0, ptr, f)
         else do {
           (c, ptr, f) \<leftarrow> record_read os rec ptr cnt f;
           Some (if c < 0 then 0 else c, ptr, f)
         })
      })"

text \<open>The buffer that is written is given by its first \<open>cnt * rlen\<close> bytes.\<close>

definition record_write ::
  "os \<Rightarrow> record_t option \<Rightarrow> buf option \<Rightarrow> int \<Rightarrow> int \<Rightarrow> ofile \<Rightarrow> (int \<times> ofile) option" where
  "record_write os rec ptr cnt offset f =
     (if ptr = None \<or> cnt < 0 then Some (0, f)
      else do {
        (o', f) \<leftarrow> record_seek os rec offset RECORD_SET f;
        (if o' < 0 then Some (0, f)
         else do {
           r \<leftarrow> rec;
           n \<leftarrow> cint (cnt * int (rlen r));
           p \<leftarrow> ptr;
           xs \<leftarrow> mem_read p 0 (nat n);
           let (b, f) = file_write os (Some xs) f;
           (if b < 0 then Some (0, f)
            else if rlen r = 0 then None
            else Some (b div int (rlen r), f))
         })
      })"

text \<open>The result is the number of bytes that \<open>file_write\<close> returns.\<close>

definition record_append :: "os \<Rightarrow> record_t option \<Rightarrow> buf option \<Rightarrow> int \<Rightarrow> ofile \<Rightarrow> (int \<times> ofile) option" where
  "record_append os rec ptr cnt f =
     (case (rec, ptr) of
        (Some r, Some p) \<Rightarrow>
          if cnt < 0 \<or> \<not> can_seek os then Some (-1, f)
          else do {
            n \<leftarrow> cint (cnt * int (rlen r));
            xs \<leftarrow> mem_read p 0 (nat n);
            Some (file_write os (Some xs) (f\<lparr>pos := length (bytes f)\<rparr>))
          }
      | _ \<Rightarrow> Some (-1, f))"

definition record_append_locked ::
  "os \<Rightarrow> record_t \<Rightarrow> buf option \<Rightarrow> int \<Rightarrow> ofile \<Rightarrow> (int \<times> ofile) option" where
  "record_append_locked os rec ptr cnt f =
     (if \<not> can_lock os then Some (-1, f) else record_append os (Some rec) ptr cnt f)"

definition record_truncate :: "os \<Rightarrow> record_t option \<Rightarrow> int \<Rightarrow> ofile \<Rightarrow> (int \<times> ofile) option" where
  "record_truncate os rec cnt f =
     (case rec of
        None \<Rightarrow> Some (-1, f)
      | Some r \<Rightarrow> do {
          n \<leftarrow> cint (cnt * int (rlen r));
          (if n < 0 \<or> os_truncate os \<noteq> [] then Some (-1, f)
           else Some (0, f\<lparr>bytes := set_length (bytes f) (nat n)\<rparr>))
        })"

section \<open>Applying a callback in the mapped file\<close>

text \<open>The comparison of the offset with the 64-bit unsigned size refuses negative offsets.\<close>

definition check_offset :: "record_t \<Rightarrow> mmap_t \<Rightarrow> buf \<Rightarrow> buf option \<Rightarrow> int \<Rightarrow> int option" where
  "check_offset r m mem ptr offset =
     (case ptr of
        None \<Rightarrow> Some offset
      | Some p \<Rightarrow>
          if offset = 0 then Some 0
          else do {
            o' \<leftarrow> cint (offset * int (rlen r));
            (if 0 \<le> o' \<and> o' < int (m_size m) then do {
               x \<leftarrow> mem_read mem (nat o') (rlen r);
               Some (if cmp r x p \<le> 0 then offset else 0)
             } else Some 0)
          })"

text \<open>
  The loop: position \<open>p\<close> in the mapped bytes, offset, number of matches.  A record that is kept in delete
  mode is moved down over the deleted ones (on top of itself when there are none).
\<close>

definition move_down :: "buf \<Rightarrow> nat \<Rightarrow> int \<Rightarrow> nat \<Rightarrow> buf option" where
  "move_down mem p affected len =
     (let d = int p - affected * int len in
      if d < 0 then None else if nat d = p then Some mem else mem_move mem (nat d) p len)"

lemma move_down_length: "move_down mem p affected len = Some mem' \<Longrightarrow> length mem' = length mem"
  by (auto simp: move_down_def Let_def dest: mem_move_length split: if_splits)

function apply_loop ::
  "record_t \<Rightarrow> 's record_callback_t \<Rightarrow> bool \<Rightarrow> buf \<Rightarrow> nat \<Rightarrow> int \<Rightarrow> 's \<Rightarrow> int \<Rightarrow> (buf \<times> int \<times> 's) option" where
  "apply_loop r cb del mem p offset args affected =
     (if \<not> p < length mem then Some (mem, affected, args)
      else if rlen r = 0 then None
      else do {
        x \<leftarrow> mem_read mem p (rlen r);
        let (ret, x', args) = cb args x offset;
        mem \<leftarrow> (if length x' = rlen r then mem_write mem p x' else None);
        (if ret = RECORD_CALLBACK_MATCH
         then apply_loop r cb del mem (p + rlen r) (offset + 1) args (affected + 1)
         else if del then do {
           mem \<leftarrow> move_down mem p affected (rlen r);
           apply_loop r cb del mem (p + rlen r) (offset + 1) args affected
         } else if ret = RECORD_CALLBACK_BREAK then Some (mem, affected, args)
         else apply_loop r cb del mem (p + rlen r) (offset + 1) args affected)
      })"
  by pat_completeness auto
termination
  by (relation "measure (\<lambda>(r, cb, del, mem, p, offset, args, affected). length mem - p)")
    (auto dest!: mem_write_length move_down_length split: if_splits)

definition record_apply ::
  "os \<Rightarrow> record_t option \<Rightarrow> buf option \<Rightarrow> int \<Rightarrow> 's record_callback_t option \<Rightarrow> 's \<Rightarrow> bool \<Rightarrow> ofile
    \<Rightarrow> (int \<times> 's \<times> ofile) option" where
  "record_apply os rec ptr offset callback args del f =
     (case (rec, callback) of
        (Some r, Some cb) \<Rightarrow>
          (case mmap_open_fd os RDWR f of
             None \<Rightarrow> Some (-1, args, f)
           | Some m \<Rightarrow> do {
               offset \<leftarrow> check_offset r m (bytes f) ptr offset;
               start \<leftarrow> cint (offset * int (rlen r));
               (mem, affected, args) \<leftarrow>
                 (if start < 0 then None else apply_loop r cb del (bytes f) (nat start) offset args 0);
               let f = f\<lparr>bytes := mem\<rparr>;
               let f = (if affected \<noteq> 0 \<and> del
                 then snd (file_truncate os (m_size m - nat (affected * int (rlen r))) f) else f);
               Some (affected, args, f)
             })
      | _ \<Rightarrow> Some (0, args, f))"

section \<open>Visiting records through a buffer\<close>

text \<open>Visiting the first \<open>n\<close> records of a buffer: the matches, the state, and whether a callback broke off.
  The buffer is a copy, so what a callback writes into its record is lost.\<close>

fun visit_forward ::
  "record_t \<Rightarrow> 's record_callback_t \<Rightarrow> buf \<Rightarrow> nat \<Rightarrow> nat \<Rightarrow> int \<Rightarrow> 's \<Rightarrow> int \<Rightarrow> (bool \<times> int \<times> int \<times> 's) option" where
  "visit_forward r cb b i 0 offset args matched = Some (False, offset, matched, args)"
| "visit_forward r cb b i (Suc n) offset args matched = do {
     x \<leftarrow> mem_read b (i * rlen r) (rlen r);
     let (ret, _, args) = cb args x offset;
     (if ret = RECORD_CALLBACK_MATCH then visit_forward r cb b (Suc i) n (offset + 1) args (matched + 1)
      else if ret = RECORD_CALLBACK_BREAK then Some (True, offset + 1, matched, args)
      else visit_forward r cb b (Suc i) n (offset + 1) args matched)
   }"

lemma record_read_bytes:
  "record_read os rec ptr cnt f = Some (n, ptr', f') \<Longrightarrow> bytes f' = bytes f \<and> pos f \<le> pos f'"
  by (auto simp: record_read_def file_read_def Let_def split: option.splits if_splits Option.bind_splits)

lemma record_read_count_bound:
  assumes "record_read os (Some r) ptr cnt f = Some (n, ptr', f')" "0 < n"
  shows "pos f < length (bytes f) \<and> pos f < pos f'"
proof -
  have nonzero: "m \<noteq> 0" if "0 < to_int (int m) div k" for m k
    using that by (cases m) (auto simp: to_int_def)
  with assms show ?thesis
    by (auto simp: record_read_def file_read_def Let_def dest!: nonzero
        split: option.splits if_splits Option.bind_splits)
qed

lemma record_seek_bytes: "record_seek os rec off w f = Some (n, f') \<Longrightarrow> bytes f' = bytes f"
  by (auto simp: record_seek_def Let_def split: option.splits if_splits Option.bind_splits)

text \<open>
  \<open>continue\<close> in the \<open>do\<close> loop jumps to its condition: after going back to the start of the file the loop
  goes on only when the first read filled the buffer.
\<close>

function foreach_loop ::
  "os \<Rightarrow> record_t \<Rightarrow> buf option \<Rightarrow> 's record_callback_t \<Rightarrow> bool \<Rightarrow> buf \<Rightarrow> int \<Rightarrow> 's \<Rightarrow> int \<Rightarrow> ofile
    \<Rightarrow> (int \<times> 's \<times> ofile) option" where
  "foreach_loop os r ptr cb checked b offset args matched f =
     (if rlen r = 0 \<or> RECORD_BUFFER_SIZE div rlen r = 0 then None
      else do {
        let block = RECORD_BUFFER_SIZE div rlen r;
        (cnt, b', f') \<leftarrow> record_read os (Some r) (Some b) (int block) f;
        b' \<leftarrow> b';
        (if cnt < 0 then Some (matched, args, f')
         else if \<not> checked \<and> (cnt = 0 \<or> (case ptr of None \<Rightarrow> False | Some p \<Rightarrow> cmp r (take (rlen r) b') p > 0))
         then do {
           (_, f') \<leftarrow> record_seek os (Some r) 0 RECORD_SET f';
           (if cnt = int block then foreach_loop os r ptr cb True b' 0 args matched f'
            else Some (matched, args, f'))
         }
         else do {
           (stop, offset, matched, args) \<leftarrow> visit_forward r cb b' 0 (nat cnt) offset args matched;
           (if stop then Some (matched, args, f')
            else if cnt = int block
            then foreach_loop os r ptr cb True b' offset args matched f'
            else Some (matched, args, f'))
         })
      })"
  by pat_completeness auto

termination
proof (relation "measure (\<lambda>(os, r, ptr, cb, checked, b, offset, args, matched, f).
    (if checked then 0 else Suc (length (bytes f))) + (length (bytes f) - pos f))", goal_cases)
  case (2 os r ptr cb checked b offset args matched f block x cnt y b' f' z w u f'')
  then have "bytes f'' = bytes f" by (auto dest!: record_read_bytes record_seek_bytes)
  with 2 show ?case by auto
next
  case (3 os r ptr cb checked b offset args matched f block x cnt y b' f' z w u v stop offset' matched' args')
  then have "bytes f' = bytes f" by (auto dest!: record_read_bytes)
  moreover have "pos f < length (bytes f) \<and> pos f < pos f'"
    using 3 record_read_count_bound [of os r "Some b" "int block" f cnt] by (auto simp: Suc_le_eq)
  ultimately show ?case using 3 by auto
qed simp

definition record_foreach ::
  "os \<Rightarrow> record_t option \<Rightarrow> buf option \<Rightarrow> int \<Rightarrow> 's record_callback_t option \<Rightarrow> 's \<Rightarrow> ofile
    \<Rightarrow> (int \<times> 's \<times> ofile) option" where
  "record_foreach os rec ptr offset callback args f =
     (case (rec, callback) of
        (Some r, Some cb) \<Rightarrow> do {
          (_, f) \<leftarrow> record_seek os (Some r) offset RECORD_SET f;
          foreach_loop os r ptr cb (ptr = None) (replicate RECORD_BUFFER_SIZE 0) offset args 0 f
        }
      | _ \<Rightarrow> Some (0, args, f))"

fun visit_backward ::
  "record_t \<Rightarrow> 's record_callback_t \<Rightarrow> buf \<Rightarrow> nat \<Rightarrow> int \<Rightarrow> 's \<Rightarrow> int \<Rightarrow> (bool \<times> int \<times> 's) option" where
  "visit_backward r cb b 0 offset args matched = Some (False, matched, args)"
| "visit_backward r cb b (Suc i) offset args matched = do {
     x \<leftarrow> mem_read b (i * rlen r) (rlen r);
     let (ret, _, args) = cb args x (offset + int i);
     (if ret = RECORD_CALLBACK_MATCH then visit_backward r cb b i offset args (matched + 1)
      else if ret = RECORD_CALLBACK_BREAK then Some (True, matched, args)
      else visit_backward r cb b i offset args matched)
   }"

function reverse_loop ::
  "os \<Rightarrow> record_t \<Rightarrow> 's record_callback_t \<Rightarrow> buf \<Rightarrow> int \<Rightarrow> 's \<Rightarrow> int \<Rightarrow> ofile \<Rightarrow> (int \<times> 's \<times> ofile) option" where
  "reverse_loop os r cb b offset args matched f =
     (if rlen r = 0 then None
      else do {
        let block = RECORD_BUFFER_SIZE div rlen r;
        let offset' = (if offset - int block < 0 then 0 else offset - int block);
        (cnt, b', f) \<leftarrow> record_read_after os (Some r) (Some b) (int block) offset' f;
        b' \<leftarrow> b';
        (if cnt \<le> 0 then Some (matched, args, f)
         else do {
           (stop, matched, args) \<leftarrow> visit_backward r cb b' (nat cnt) offset' args matched;
           (if stop then Some (matched, args, f)
            else if offset' > 0
            then (if block = 0 then None else reverse_loop os r cb b' offset' args matched f)
            else Some (matched, args, f))
         })
      })"
  by pat_completeness auto
termination
  by (relation "measure (\<lambda>(os, r, cb, b, offset, args, matched, f). nat offset)") (auto split: if_splits)

definition record_reverse_foreach ::
  "os \<Rightarrow> record_t option \<Rightarrow> 's record_callback_t option \<Rightarrow> 's \<Rightarrow> ofile \<Rightarrow> (int \<times> 's \<times> ofile) option" where
  "record_reverse_foreach os rec callback args f =
     (case (rec, callback) of
        (Some r, Some cb) \<Rightarrow> do {
          n \<leftarrow> record_count os (Some r) f;
          reverse_loop os r cb (replicate RECORD_BUFFER_SIZE 0) n args 0 f
        }
      | _ \<Rightarrow> Some (0, args, f))"

section \<open>Merging new records into a sorted file\<close>

text \<open>\<open>qsort\<close> of the C library is a parameter: it gets the comparison function and the records.\<close>

function merge_loop :: "record_t \<Rightarrow> buf \<Rightarrow> buf \<Rightarrow> int \<Rightarrow> int \<Rightarrow> int \<Rightarrow> buf option" where
  "merge_loop r mem ptr src dst p2 =
     (if rlen r = 0 then None
      else if 0 \<le> p2 then do {
        y \<leftarrow> mem_read ptr (nat p2) (rlen r);
        x \<leftarrow> (if src < 0 then Some [] else mem_read mem (nat src) (rlen r));
        (if src < 0 \<or> cmp r x y \<le> 0 then do {
           mem \<leftarrow> (if dst < 0 then None else mem_write mem (nat dst) y);
           merge_loop r mem ptr src (dst - int (rlen r)) (p2 - int (rlen r))
         } else do {
           mem \<leftarrow> (if dst < 0 then None else mem_write mem (nat dst) x);
           merge_loop r mem ptr (src - int (rlen r)) (dst - int (rlen r)) p2
         })
      } else Some mem)"
  by pat_completeness auto
termination
  by (relation "measure (\<lambda>(r, mem, ptr, src, dst, p2). nat (p2 + 1) + nat (src + 1))") auto

definition record_merge ::
  "((buf \<Rightarrow> buf \<Rightarrow> int) \<Rightarrow> buf list \<Rightarrow> buf list) \<Rightarrow> os \<Rightarrow> record_t option \<Rightarrow> buf option \<Rightarrow> int \<Rightarrow> ofile
    \<Rightarrow> (int \<times> buf option \<times> ofile) option" where
  "record_merge qsort os rec ptr cnt f =
     (case (rec, ptr) of
        (Some r, Some p) \<Rightarrow>
          if cnt \<le> 0 then Some (0, ptr, f)
          else do {
            n \<leftarrow> cint (cnt * int (rlen r));
            xs \<leftarrow> mem_read p 0 (nat n);
            let p = concat (qsort (cmp r) (chunks (rlen r) xs (nat cnt))) @ drop (nat n) p;
            (case mmap_open_fd os RDWR f of
               None \<Rightarrow> Some (-1, Some p, f)
             | Some m \<Rightarrow>
                 if rlen r = 0 then None
                 else do {
                   let sz = m_size m div rlen r;
                   (case mmap_truncate os (m_size m + nat n) m f of
                      (None, f) \<Rightarrow> Some (-1, Some p, f)
                    | (Some m, f) \<Rightarrow> do {
                        mem \<leftarrow> merge_loop r (bytes f) p ((int sz - 1) * int (rlen r))
                          ((int sz + cnt - 1) * int (rlen r)) ((cnt - 1) * int (rlen r));
                        Some (0, Some p, f\<lparr>bytes := mem\<rparr>)
                      })
                 })
          }
      | _ \<Rightarrow> Some (0, ptr, f))"

section \<open>Searching\<close>

text \<open>The outcome of looking through one buffer: found at an index, given up, or not found there.\<close>

datatype found = Found nat | Quit | Absent

fun search_down :: "record_t \<Rightarrow> 's record_callback_t \<Rightarrow> buf \<Rightarrow> nat \<Rightarrow> int \<Rightarrow> 's \<Rightarrow> (found \<times> 's) option" where
  "search_down r flt b 0 base args = Some (Absent, args)"
| "search_down r flt b (Suc j) base args = do {
     x \<leftarrow> mem_read b (j * rlen r) (rlen r);
     let (ret, _, args) = flt args x (base + int j);
     (if ret = RECORD_CALLBACK_MATCH then Some (Found j, args)
      else if ret = RECORD_CALLBACK_BREAK then Some (Quit, args)
      else search_down r flt b j base args)
   }"

fun search_up :: "record_t \<Rightarrow> 's record_callback_t \<Rightarrow> buf \<Rightarrow> nat \<Rightarrow> nat \<Rightarrow> int \<Rightarrow> 's \<Rightarrow> (found \<times> 's) option" where
  "search_up r flt b j 0 base args = Some (Absent, args)"
| "search_up r flt b j (Suc n) base args = do {
     x \<leftarrow> mem_read b (j * rlen r) (rlen r);
     let (ret, _, args) = flt args x (base + int j);
     (if ret = 0 then Some (Found j, args)
      else if ret > 0 then Some (Quit, args)
      else search_up r flt b (Suc j) n base args)
   }"

definition copy_out :: "record_t \<Rightarrow> buf \<Rightarrow> nat \<Rightarrow> buf option \<Rightarrow> buf option option" where
  "copy_out r b j out =
     (case out of
        None \<Rightarrow> Some None
      | Some o' \<Rightarrow> do { x \<leftarrow> mem_read b (j * rlen r) (rlen r); o' \<leftarrow> mem_write o' 0 x; Some (Some o') })"

text \<open>\<open>k\<close> rounds are left; \<open>i\<close> counts the forward rounds.\<close>

fun search_reverse ::
  "os \<Rightarrow> record_t \<Rightarrow> 's record_callback_t \<Rightarrow> int \<Rightarrow> int \<Rightarrow> nat \<Rightarrow> buf \<Rightarrow> 's \<Rightarrow> buf option \<Rightarrow> ofile
    \<Rightarrow> (int \<times> buf option \<times> 's \<times> ofile) option" where
  "search_reverse os r flt cap all 0 b args out f = Some (-1, out, args, f)"
| "search_reverse os r flt cap all (Suc k) b args out f = do {
     let base = int k * cap;
     (_, f) \<leftarrow> record_seek os (Some r) base RECORD_SET f;
     (cnt, b, f) \<leftarrow> record_read os (Some r) (Some b) cap f;
     b \<leftarrow> b;
     (if cnt \<le> 0 then Some (-1, out, args, f)
      else do {
        let cnt = (if all - base < cnt then all - base else cnt);
        (res, args) \<leftarrow> search_down r flt b (nat cnt) base args;
        (case res of
           Found j \<Rightarrow> do { out \<leftarrow> copy_out r b j out; Some (base + int j, out, args, f) }
         | Quit \<Rightarrow> Some (-1, out, args, f)
         | Absent \<Rightarrow> search_reverse os r flt cap all k b args out f)
      })
   }"

fun search_forward ::
  "os \<Rightarrow> record_t \<Rightarrow> 's record_callback_t \<Rightarrow> int \<Rightarrow> int \<Rightarrow> nat \<Rightarrow> nat \<Rightarrow> buf \<Rightarrow> 's \<Rightarrow> buf option \<Rightarrow> ofile
    \<Rightarrow> (int \<times> buf option \<times> 's \<times> ofile) option" where
  "search_forward os r flt cap offset i 0 b args out f = Some (-1, out, args, f)"
| "search_forward os r flt cap offset i (Suc k) b args out f = do {
     let base = int i * cap + offset;
     (cnt, b, f) \<leftarrow> record_read os (Some r) (Some b) cap f;
     b \<leftarrow> b;
     (if cnt \<le> 0 then Some (-1, out, args, f)
      else do {
        (res, args) \<leftarrow> search_up r flt b 0 (nat cnt) base args;
        (case res of
           Found j \<Rightarrow> do { out \<leftarrow> copy_out r b j out; Some (base + int j, out, args, f) }
         | Quit \<Rightarrow> Some (-1, out, args, f)
         | Absent \<Rightarrow> search_forward os r flt cap offset (Suc i) k b args out f)
      })
   }"

definition record_search_copy ::
  "os \<Rightarrow> record_t option \<Rightarrow> 's record_callback_t option \<Rightarrow> 's \<Rightarrow> int \<Rightarrow> bool \<Rightarrow> buf option \<Rightarrow> ofile
    \<Rightarrow> (int \<times> buf option \<times> 's \<times> ofile) option" where
  "record_search_copy os rec flt args offset reverse out f =
     (case (rec, flt) of
        (Some r, Some flt) \<Rightarrow>
          if rlen r = 0 then None
          else do {
            let capacity = int (RECORD_BUFFER_SIZE div rlen r);
            n \<leftarrow> record_count os (Some r) f;
            let all = (if offset \<ge> 0 then (if reverse then offset else n - offset - 1) else n);
            (if all \<le> 0 then Some (-1, out, args, f)
             else if capacity = 0 then None
             else do {
               s \<leftarrow> cint (all + capacity - 1);
               let rounds = nat (s div capacity);
               let b = replicate RECORD_BUFFER_SIZE 0;
               (if reverse then search_reverse os r flt capacity all rounds b args out f
                else do {
                  let offset = (if offset + 1 < 0 then 0 else offset + 1);
                  (_, f) \<leftarrow> record_seek os (Some r) offset RECORD_SET f;
                  search_forward os r flt capacity offset 0 rounds b args out f
                })
             })
          }
      | _ \<Rightarrow> Some (-1, out, args, f))"

section \<open>Updating and deleting: the specification\<close>

text \<open>On lists of records: what is left, the number of matches, the state afterwards.\<close>

fun delete_spec :: "'s record_callback_t \<Rightarrow> int \<Rightarrow> 's \<Rightarrow> buf list \<Rightarrow> buf list \<times> nat \<times> 's" where
  "delete_spec cb off args [] = ([], 0, args)"
| "delete_spec cb off args (x # xs) =
     (let (ret, x', args) = cb args x off; (ys, n, args) = delete_spec cb (off + 1) args xs in
      if ret = RECORD_CALLBACK_MATCH then (ys, Suc n, args) else (x' # ys, n, args))"

fun update_spec :: "'s record_callback_t \<Rightarrow> int \<Rightarrow> 's \<Rightarrow> buf list \<Rightarrow> buf list \<times> nat \<times> 's" where
  "update_spec cb off args [] = ([], 0, args)"
| "update_spec cb off args (x # xs) =
     (let (ret, x', args) = cb args x off in
      if ret = RECORD_CALLBACK_BREAK then (x' # xs, 0, args)
      else let (ys, n, args) = update_spec cb (off + 1) args xs in
        (x' # ys, if ret = RECORD_CALLBACK_MATCH then Suc n else n, args))"

definition keeps_length :: "nat \<Rightarrow> 's record_callback_t \<Rightarrow> bool" where
  "keeps_length w cb \<longleftrightarrow> (\<forall>args x off. length x = w \<longrightarrow> length (fst (snd (cb args x off))) = w)"

definition records_ok :: "nat \<Rightarrow> buf list \<Rightarrow> bool" where
  "records_ok w xs \<longleftrightarrow> (\<forall>x\<in>set xs. length x = w)"

declare apply_loop.simps [simp del] foreach_loop.simps [simp del] reverse_loop.simps [simp del]
  merge_loop.simps [simp del]

lemma records_ok_simps [simp]:
  "records_ok w []"
  "records_ok w (x # xs) \<longleftrightarrow> length x = w \<and> records_ok w xs"
  "records_ok w (xs @ ys) \<longleftrightarrow> records_ok w xs \<and> records_ok w ys"
  by (auto simp: records_ok_def)

lemma length_concat_records: "records_ok w xs \<Longrightarrow> length (concat xs) = length xs * w"
  by (simp add: records_ok_def length_concat_const)

lemma mem_read_at [simp]: "length x = n \<Longrightarrow> mem_read (a @ x @ b) (length a) n = Some x"
  by (simp add: mem_read_def)

lemma mem_write_at [simp]: "length x = length y \<Longrightarrow> mem_write (a @ x @ b) (length a) y = Some (a @ y @ b)"
  by (simp add: mem_write_def)

lemma apply_loop_delete:
  assumes w: "rlen r = w" "0 < w" and keep: "keeps_length w cb"
  shows "records_ok w rs \<Longrightarrow> length gap = k * w \<Longrightarrow>
    \<exists>gap'. apply_loop r cb True (front @ gap @ concat rs) (length front + length gap) off args (int k) =
      Some (front @ concat (fst (delete_spec cb off args rs)) @ gap',
        int (k + fst (snd (delete_spec cb off args rs))), snd (snd (delete_spec cb off args rs))) \<and>
      length gap' = (k + fst (snd (delete_spec cb off args rs))) * w"
proof (induction rs arbitrary: front gap k off args)
  case Nil
  then show ?case by (simp add: apply_loop.simps)
next
  case (Cons x rs)
  obtain ret x' args' where c: "cb args x off = (ret, x', args')" by (cases "cb args x off")
  have x: "length x = w" "length x' = w" "records_ok w rs"
    using Cons.prems(1) keep c unfolding keeps_length_def by (simp, metis Cons.prems(1) fst_conv records_ok_simps(2) snd_conv, simp)
  let ?mem = "front @ gap @ x @ concat rs" and ?p = "length front + length gap"
  let ?mem' = "front @ gap @ x' @ concat rs"
  have rd: "mem_read ?mem ?p w = Some x" using mem_read_at [of x w "front @ gap"] x by simp
  have wr: "mem_write ?mem ?p x' = Some ?mem'" using mem_write_at [of x x' "front @ gap"] x by simp
  have lt: "?p < length ?mem" using x w by simp
  show ?case
  proof (cases "ret = 0")
    case True
    have step: "apply_loop r cb True ?mem ?p off args (int k) =
        apply_loop r cb True ?mem' (?p + w) (off + 1) args' (int k + 1)"
      using lt rd wr c x w True by (subst apply_loop.simps) (simp add: Let_def)
    have "length (gap @ x') = Suc k * w" using Cons.prems(2) x by simp
    from Cons.IH [OF x(3) this, of front "off + 1" args'] step c True x show ?thesis
      by (auto simp: Let_def split_beta add.assoc add.commute add.left_commute)
  next
    case False
    have d: "int ?p - int k * int w = int (length front)" using Cons.prems(2) by simp
    have mv: "move_down ?mem' ?p (int k) w = Some (front @ x' @ drop w (gap @ x') @ concat rs)"
    proof (cases "k = 0")
      case True
      then show ?thesis using Cons.prems(2) x d by (simp add: move_down_def)
    next
      case False
      then have "gap \<noteq> []" "w \<le> length gap" using Cons.prems(2) w(2) by auto
      then show ?thesis using x d by (simp add: move_down_def mem_move_def mem_read_def mem_write_def Let_def)
    qed
    have step: "apply_loop r cb True ?mem ?p off args (int k) =
        apply_loop r cb True (front @ x' @ drop w (gap @ x') @ concat rs) (?p + w) (off + 1) args' (int k)"
      using lt rd wr c x w False mv by (subst apply_loop.simps) (simp add: Let_def)
    have gl: "length (drop w (gap @ x')) = k * w" using Cons.prems(2) x by simp
    have pl: "length (front @ x') + length (drop w (gap @ x')) = ?p + w" using x Cons.prems(2) by simp
    from Cons.IH [OF x(3) gl, of "front @ x'" "off + 1" args', unfolded pl] step c False x show ?thesis
      by (simp add: Let_def split_beta)
  qed
qed

lemma apply_loop_update:
  assumes w: "rlen r = w" "0 < w" and keep: "keeps_length w cb"
  shows "records_ok w rs \<Longrightarrow>
    apply_loop r cb False (front @ concat rs) (length front) off args k =
      Some (front @ concat (fst (update_spec cb off args rs)),
        k + int (fst (snd (update_spec cb off args rs))), snd (snd (update_spec cb off args rs)))"
proof (induction rs arbitrary: front off args k)
  case Nil
  then show ?case by (simp add: apply_loop.simps)
next
  case (Cons x rs)
  obtain ret x' args' where c: "cb args x off = (ret, x', args')" by (cases "cb args x off")
  have x: "length x = w" "length x' = w" "records_ok w rs"
    using Cons.prems keep c unfolding keeps_length_def by (simp, metis Cons.prems fst_conv records_ok_simps(2) snd_conv, simp)
  let ?mem = "front @ x @ concat rs" and ?mem' = "front @ x' @ concat rs"
  have "apply_loop r cb False ?mem (length front) off args k =
      (if ret = 0 then apply_loop r cb False ?mem' (length front + w) (off + 1) args' (k + 1)
       else if ret = 1 then Some (?mem', k, args')
       else apply_loop r cb False ?mem' (length front + w) (off + 1) args' k)"
    using c x w by (subst apply_loop.simps) (simp add: Let_def)
  then show ?case using c x Cons.IH [OF x(3), of "front @ x'"]
    by (auto simp: Let_def split_beta)
qed

definition mappable :: "os \<Rightarrow> bool" where
  "mappable os \<longleftrightarrow> can_lock os \<and> can_stat os \<and> can_map os"

lemma mmap_open_fd_mappable:
  "mappable os \<Longrightarrow> \<exists>m. mmap_open_fd os flag f = Some m \<and> m_size m = length (bytes f) \<and>
     m_msize m = max (length (bytes f)) MMAP_MINSIZE"
  by (auto simp: mappable_def mmap_open_fd_def Let_def)

lemma delete_spec_length:
  assumes "keeps_length w cb" "records_ok w rs" "delete_spec cb off args rs = (ys, n, args')"
  shows "records_ok w ys \<and> length ys + n = length rs"
  using assms(2,3)
proof (induction rs arbitrary: off args ys n args')
  case (Cons x rs)
  obtain ret x' a where c: "cb args x off = (ret, x', a)" by (cases "cb args x off")
  then have "length x' = w" using assms(1) Cons.prems(1) unfolding keeps_length_def
    by (metis fst_conv records_ok_simps(2) snd_conv)
  with c Cons show ?case by (fastforce simp: Let_def split: prod.splits if_splits)
qed simp

text \<open>A file that holds a list of whole records, small enough for \<open>int\<close> arithmetic.\<close>

definition record_file :: "record_t \<Rightarrow> ofile \<Rightarrow> buf list \<Rightarrow> bool" where
  "record_file r f rs \<longleftrightarrow>
     0 < rlen r \<and> records_ok (rlen r) rs \<and> bytes f = concat rs \<and> length (concat rs) < 2 ^ 31"

lemma record_file_start:
  assumes "record_file r f rs" and "off \<le> length rs"
  shows "cint (int off * int (rlen r)) = Some (int (off * rlen r)) \<and>
    length (concat (take off rs)) = off * rlen r \<and> off * rlen r < 2 ^ 31"
proof -
  have ok: "records_ok (rlen r) (take off rs)"
    using assms(1) by (auto simp: record_file_def records_ok_def dest: in_set_takeD)
  then have len: "length (concat (take off rs)) = off * rlen r"
    using assms(2) by (simp add: length_concat_records min_absorb2)
  have "length (concat (take off rs)) \<le> length (concat rs)"
    by (metis append_take_drop_id concat_append length_append le_add1)
  then have "off * rlen r < 2 ^ 31" using len assms(1) by (simp add: record_file_def)
  moreover have "int off * int (rlen r) = int (off * rlen r)" by simp
  ultimately show ?thesis using len
    by (simp add: cint_def flip: of_nat_mult)
qed





section \<open>Merging: the specification\<close>

text \<open>The merge works from the end, so the specification takes both lists reversed.\<close>

fun merge_back :: "(buf \<Rightarrow> buf \<Rightarrow> int) \<Rightarrow> buf list \<Rightarrow> buf list \<Rightarrow> buf list" where
  "merge_back c xs [] = xs"
| "merge_back c [] (y # ys) = y # merge_back c [] ys"
| "merge_back c (x # xs) (y # ys) =
     (if c x y \<le> 0 then y # merge_back c (x # xs) ys else x # merge_back c xs (y # ys))"

lemma mset_merge_back: "mset (merge_back c xs ys) = mset xs + mset ys"
  by (induction c xs ys rule: merge_back.induct) auto

definition preorder_cmp :: "(buf \<Rightarrow> buf \<Rightarrow> int) \<Rightarrow> bool" where
  "preorder_cmp c \<longleftrightarrow>
     (\<forall>x y. c x y \<le> 0 \<or> c y x \<le> 0) \<and> (\<forall>x y z. c x y \<le> 0 \<longrightarrow> c y z \<le> 0 \<longrightarrow> c x z \<le> 0)"

abbreviation sorted_by :: "(buf \<Rightarrow> buf \<Rightarrow> int) \<Rightarrow> buf list \<Rightarrow> bool" where
  "sorted_by c \<equiv> sorted_wrt (\<lambda>x y. c x y \<le> 0)"

lemma set_merge_back: "set (merge_back c xs ys) = set xs \<union> set ys"
  using mset_eq_setD [of "merge_back c xs ys" "xs @ ys"] by (simp add: mset_merge_back)

lemma sorted_merge_back:
  assumes "preorder_cmp c"
  shows "sorted_wrt (\<lambda>x y. c y x \<le> 0) xs \<Longrightarrow> sorted_wrt (\<lambda>x y. c y x \<le> 0) ys \<Longrightarrow>
    sorted_wrt (\<lambda>x y. c y x \<le> 0) (merge_back c xs ys)"
  using assms
proof (induction c xs ys rule: merge_back.induct)
  case (2 c y ys)
  then show ?case by (simp add: set_merge_back)
next
  case (3 c x xs y ys)
  have total: "c y x \<le> 0" if "\<not> c x y \<le> 0" using that "3.prems"(3) unfolding preorder_cmp_def by blast
  have trans: "c u w \<le> 0" if "c u v \<le> 0" "c v w \<le> 0" for u v w
    using that "3.prems"(3) unfolding preorder_cmp_def by blast
  show ?case
  proof (cases "c x y \<le> 0")
    case True
    have "c z y \<le> 0" if "z \<in> set (x # xs) \<union> set ys" for z using that "3.prems"(1,2) True trans by auto
    with True "3.IH"(1) "3.prems" show ?thesis by (simp add: set_merge_back)
  next
    case False
    have "c z x \<le> 0" if "z \<in> set xs \<union> set (y # ys)" for z using that "3.prems"(1,2) total [OF False] trans by auto
    with False "3.IH"(2) "3.prems" show ?thesis by (simp add: set_merge_back)
  qed
qed simp

lemma merge_step_new:
  assumes "0 < rlen r" "0 \<le> p2" "mem_read ptr (nat p2) (rlen r) = Some y"
    "src < 0 \<or> mem_read mem (nat src) (rlen r) = Some x \<and> cmp r x y \<le> 0"
    "0 \<le> dst" "mem_write mem (nat dst) y = Some mem'"
  shows "merge_loop r mem ptr src dst p2 = merge_loop r mem' ptr src (dst - int (rlen r)) (p2 - int (rlen r))"
  using assms by (subst merge_loop.simps) auto

lemma merge_step_old:
  assumes "0 < rlen r" "0 \<le> p2" "mem_read ptr (nat p2) (rlen r) = Some y"
    "0 \<le> src" "mem_read mem (nat src) (rlen r) = Some x" "\<not> cmp r x y \<le> 0"
    "0 \<le> dst" "mem_write mem (nat dst) x = Some mem'"
  shows "merge_loop r mem ptr src dst p2 = merge_loop r mem' ptr (src - int (rlen r)) (dst - int (rlen r)) p2"
  using assms by (subst merge_loop.simps) auto

abbreviation at_record :: "nat \<Rightarrow> nat \<Rightarrow> int" where
  "at_record w n \<equiv> (int n - 1) * int w"

lemma at_record_Suc:
  "at_record w (Suc n) = int (n * w)" "at_record w (Suc n) - int w = at_record w n" "0 < w \<Longrightarrow> at_record w 0 < 0"
  by (simp_all add: algebra_simps)

lemma merge_loop_spec:
  assumes w: "rlen r = w" "0 < w"
  shows "records_ok w xs \<Longrightarrow> records_ok w ys \<Longrightarrow> length gap = length ys * w \<Longrightarrow>
    merge_loop r (concat (rev xs) @ gap @ tail) (concat (rev ys) @ rest)
      (at_record w (length xs)) (at_record w (length xs + length ys)) (at_record w (length ys)) =
    Some (concat (rev (merge_back (cmp r) xs ys)) @ tail)"
proof (induction "cmp r" xs ys arbitrary: gap tail rest rule: merge_back.induct)
  case (1 xs)
  have "at_record w 0 < 0" using w(2) by (rule at_record_Suc(3))
  with 1 w show ?case by (subst merge_loop.simps) simp
next
  case (2 y ys)
  define g1 g2 where "g1 = take (length ys * w) gap" and "g2 = drop (length ys * w) gap"
  have g: "gap = g1 @ g2" "length g1 = length ys * w" "length g2 = w"
    using "2.prems"(3) by (simp_all add: g1_def g2_def)
  have y: "length y = w" "records_ok w ys" using "2.prems"(2) by auto
  have ly: "length (concat (rev ys)) = length ys * w"
    using y(2) by (simp add: length_concat_records records_ok_def)
  have "merge_loop r (g1 @ g2 @ tail) (concat (rev ys) @ y @ rest) (at_record w 0)
      (at_record w (Suc (length ys))) (at_record w (Suc (length ys))) =
      merge_loop r (g1 @ y @ tail) (concat (rev ys) @ y @ rest) (at_record w 0)
        (at_record w (Suc (length ys)) - int (rlen r)) (at_record w (Suc (length ys)) - int (rlen r))"
  proof (rule merge_step_new)
    show "mem_read (concat (rev ys) @ y @ rest) (nat (at_record w (Suc (length ys)))) (rlen r) = Some y"
      using mem_read_at [of y w "concat (rev ys)" rest] ly y w by (simp only: at_record_Suc nat_int)
    show "mem_write (g1 @ g2 @ tail) (nat (at_record w (Suc (length ys)))) y = Some (g1 @ y @ tail)"
      using mem_write_at [of g2 y g1 tail] g y by (simp only: at_record_Suc nat_int)
  qed (use w in \<open>auto simp: at_record_Suc(1,3) simp del: of_nat_Suc\<close>)
  also have "\<dots> = Some (concat (rev (merge_back (cmp r) [] ys)) @ y @ tail)"
    using "2.hyps" [of g1 "y @ tail" "y @ rest"] y(2) g(2) w(1) by (simp add: at_record_Suc(2) del: of_nat_Suc)
  finally show ?case using g(1) by simp
next
  case (3 x xs y ys)
  define g1 g2 where "g1 = take (length ys * w) gap" and "g2 = drop (length ys * w) gap"
  have g: "gap = g1 @ g2" "length g1 = length ys * w" "length g2 = w"
    using "3.prems"(3) by (simp_all add: g1_def g2_def)
  have y: "length y = w" "records_ok w ys" and x: "length x = w" "records_ok w xs" using "3.prems" by auto
  have ly: "length (concat (rev ys)) = length ys * w" and lx: "length (concat (rev xs)) = length xs * w"
    using x(2) y(2) by (simp_all add: length_concat_records records_ok_def)
  let ?mem = "concat (rev xs) @ x @ g1 @ g2 @ tail" and ?ptr = "concat (rev ys) @ y @ rest"
  let ?s = "at_record w (Suc (length xs))" and ?p = "at_record w (Suc (length ys))"
  let ?d = "at_record w (Suc (Suc (length xs) + length ys))"
  have rdy: "mem_read ?ptr (nat ?p) (rlen r) = Some y"
    using mem_read_at [of y w "concat (rev ys)" rest] ly y w by (simp only: at_record_Suc nat_int)
  have rdx: "mem_read ?mem (nat ?s) (rlen r) = Some x"
    using mem_read_at [of x w "concat (rev xs)" "g1 @ g2 @ tail"] lx x w by (simp only: at_record_Suc nat_int)
  have wr: "mem_write ?mem (nat ?d) z = Some (concat (rev xs) @ x @ g1 @ z @ tail)" if "length z = w" for z
  proof -
    have "length (concat (rev xs) @ x @ g1) = (Suc (length xs) + length ys) * w" using g x lx by (simp add: algebra_simps)
    then show ?thesis
      using mem_write_at [of g2 z "concat (rev xs) @ x @ g1" tail] g that
      by (simp only: at_record_Suc nat_int append.assoc)
  qed
  have pos: "0 \<le> ?s" "0 \<le> ?p" "0 \<le> ?d" by (simp_all only: at_record_Suc(1) of_nat_0_le_iff)
  show ?case
  proof (cases "cmp r x y \<le> 0")
    case True
    have "merge_loop r ?mem ?ptr ?s ?d ?p =
        merge_loop r (concat (rev xs) @ x @ g1 @ y @ tail) ?ptr ?s (?d - int (rlen r)) (?p - int (rlen r))"
      by (rule merge_step_new) (use w pos rdy rdx True wr [OF y(1)] in auto)
    also have "\<dots> = Some (concat (rev (merge_back (cmp r) (x # xs) ys)) @ y @ tail)"
      using "3.hyps"(1) [of g1 "y @ tail" "y @ rest"] True x y g(2) w(1) by (simp add: at_record_Suc(2) del: of_nat_Suc)
    finally show ?thesis using g(1) True by simp
  next
    case False
    have "merge_loop r ?mem ?ptr ?s ?d ?p =
        merge_loop r (concat (rev xs) @ x @ g1 @ x @ tail) ?ptr (?s - int (rlen r)) (?d - int (rlen r)) ?p"
      by (rule merge_step_old) (use w pos rdy rdx False wr [OF x(1)] in auto)
    also have "\<dots> = Some (concat (rev (merge_back (cmp r) xs (y # ys))) @ x @ tail)"
      using "3.hyps"(2) [of "x @ g1" "x @ tail" rest] False x y g(2) w(1)
      by (simp add: at_record_Suc(2) del: of_nat_Suc)
    finally show ?thesis using g(1) False by simp
  qed
qed

text \<open>What \<open>qsort\<close> promises for a comparison function that orders the records.\<close>

definition qsort_sorts :: "((buf \<Rightarrow> buf \<Rightarrow> int) \<Rightarrow> buf list \<Rightarrow> buf list) \<Rightarrow> (buf \<Rightarrow> buf \<Rightarrow> int) \<Rightarrow> bool" where
  "qsort_sorts qsort c \<longleftrightarrow> (\<forall>xs. mset (qsort c xs) = mset xs \<and> sorted_by c (qsort c xs))"

lemma mset_records_ok: "mset xs = mset ys \<Longrightarrow> records_ok w xs \<longleftrightarrow> records_ok w ys"
  using mset_eq_setD [of xs ys] by (simp add: records_ok_def)

lemma mmap_truncate_grow:
  "retry (os_truncate os) \<Longrightarrow> can_map os \<Longrightarrow> \<exists>m'. mmap_truncate os n m f = (Some m', f\<lparr>bytes := set_length (bytes f) n\<rparr>)"
  by (simp add: mmap_truncate_def file_truncate_def)

text \<open>Claim C11: merging new records into a sorted record file leaves a sorted file with exactly the old and the new
  records, whatever their order in the buffer.\<close>

theorem record_merge_sorted:
  assumes "mappable os" and "retry (os_truncate os)" and "preorder_cmp (cmp r)" and "qsort_sorts qsort (cmp r)"
    and "record_file r f rs" and "sorted_by (cmp r) rs"
    and "records_ok (rlen r) new" and "new \<noteq> []" and "length new * rlen r < 2 ^ 31"
  shows "\<exists>p out. record_merge qsort os (Some r) (Some (concat new @ rest)) (int (length new)) f =
      Some (0, p, f\<lparr>bytes := concat out\<rparr>) \<and>
    records_ok (rlen r) out \<and> sorted_by (cmp r) out \<and> mset out = mset rs + mset new"
proof -
  let ?w = "rlen r" and ?q = "qsort (cmp r) new"
  let ?out = "rev (merge_back (cmp r) (rev rs) (rev ?q))"
  have w: "0 < ?w" "records_ok ?w rs" "bytes f = concat rs" using assms(5) by (auto simp: record_file_def)
  have q: "mset ?q = mset new" "sorted_by (cmp r) ?q" using assms(4) by (auto simp: qsort_sorts_def)
  have qok: "records_ok ?w ?q" using mset_records_ok [OF q(1)] assms(7) by simp
  have qlen: "length ?q = length new" using q(1) by (metis size_mset)
  have ln: "length (concat new) = length new * ?w" using assms(7) by (rule length_concat_records)
  have lr: "length (concat rs) = length rs * ?w" using w(2) by (rule length_concat_records)
  have n: "cint (int (length new) * int ?w) = Some (int (length new * ?w))"
    using assms(9) by (simp add: cint_def flip: of_nat_mult)
  have ch: "chunks ?w (concat new) (length new) = new"
    using assms(7) by (intro chunks_concat) (simp add: records_ok_def)
  obtain m where m: "mmap_open_fd os RDWR f = Some m" "m_size m = length rs * ?w"
    using mmap_open_fd_mappable [OF assms(1), of RDWR f] w(3) lr by auto
  let ?f = "f\<lparr>bytes := set_length (bytes f) (length rs * ?w + length new * ?w)\<rparr>"
  obtain m' where m': "mmap_truncate os (length rs * ?w + length new * ?w) m f = (Some m', ?f)"
    using mmap_truncate_grow [OF assms(2), of "length rs * ?w + length new * ?w" m f] assms(1)
    by (auto simp: mappable_def)
  have gap: "set_length (bytes f) (length rs * ?w + length new * ?w) = concat rs @ replicate (length new * ?w) 0"
    using w(3) lr by (simp add: set_length_def)
  have loop: "merge_loop r (concat rs @ replicate (length new * ?w) 0) (concat ?q @ rest)
      (at_record ?w (length rs)) (at_record ?w (length rs + length new)) (at_record ?w (length new)) = Some (concat ?out)"
    using merge_loop_spec [OF refl w(1), of "rev rs" "rev ?q" "replicate (length new * ?w) 0" "[]" rest] w(2) qok qlen
    by (simp add: records_ok_def)
  have "record_merge qsort os (Some r) (Some (concat new @ rest)) (int (length new)) f =
      Some (0, Some (concat ?q @ rest), f\<lparr>bytes := concat ?out\<rparr>)"
    using assms(8) n ln ch m m' w(1) gap loop
    by (simp add: record_merge_def mem_read_def Let_def)
  moreover have "records_ok ?w ?out"
    using w(2) qok by (auto simp: records_ok_def set_merge_back)
  moreover have "sorted_by (cmp r) ?out"
    using sorted_merge_back [OF assms(3), of "rev rs" "rev ?q"] assms(6) q(2) by (simp add: sorted_wrt_rev)
  moreover have "mset ?out = mset rs + mset new" using q(1) by (simp add: mset_merge_back)
  ultimately show ?thesis by blast
qed

text \<open>An insertion sort is one of the functions \<open>qsort\<close> may be.\<close>

fun insert_by :: "(buf \<Rightarrow> buf \<Rightarrow> int) \<Rightarrow> buf \<Rightarrow> buf list \<Rightarrow> buf list" where
  "insert_by c x [] = [x]"
| "insert_by c x (y # ys) = (if c x y \<le> 0 then x # y # ys else y # insert_by c x ys)"

definition insertion_sort :: "(buf \<Rightarrow> buf \<Rightarrow> int) \<Rightarrow> buf list \<Rightarrow> buf list" where
  "insertion_sort c xs = foldr (insert_by c) xs []"

lemma insert_by_mset: "mset (insert_by c x ys) = add_mset x (mset ys)"
  by (induction ys) auto

lemma insert_by_sorted:
  assumes "preorder_cmp c"
  shows "sorted_by c ys \<Longrightarrow> sorted_by c (insert_by c x ys)"
proof (induction ys)
  case (Cons y ys)
  have set: "set (insert_by c x ys) = insert x (set ys)"
    using insert_by_mset [of c x ys] by (metis set_mset_add_mset_insert set_mset_mset)
  have "c y x \<le> 0" if "\<not> c x y \<le> 0" using that assms unfolding preorder_cmp_def by blast
  moreover have "c x z \<le> 0" if "c x y \<le> 0" "c y z \<le> 0" for z using that assms unfolding preorder_cmp_def by blast
  ultimately show ?case using Cons set by auto
qed simp

lemma insertion_sort_sorts: "preorder_cmp c \<Longrightarrow> qsort_sorts insertion_sort c"
proof -
  assume c: "preorder_cmp c"
  have "mset (insertion_sort c xs) = mset xs \<and> sorted_by c (insertion_sort c xs)" for xs
    unfolding insertion_sort_def by (induction xs) (auto simp: insert_by_mset insert_by_sorted [OF c])
  then show ?thesis by (simp add: qsort_sorts_def)
qed

definition byte_cmp :: "buf \<Rightarrow> buf \<Rightarrow> int" where
  "byte_cmp x y = int (unat (hd x)) - int (unat (hd y))"

theorem record_merge_sorted_witness:
  "\<exists>p out. record_merge insertion_sort os_fine (Some \<lparr>rlen = 1, cmp = byte_cmp\<rparr>) (Some [5, 2]) 2
      \<lparr>bytes = [1, 4, 9], pos = 0\<rparr> = Some (0, p, \<lparr>bytes = concat out, pos = 0\<rparr>) \<and>
    records_ok 1 out \<and> sorted_by byte_cmp out \<and> mset out = mset [[1], [4], [9]] + mset [[5], [2]]"
proof -
  have c: "preorder_cmp byte_cmp" by (auto simp: preorder_cmp_def byte_cmp_def)
  show ?thesis
    using record_merge_sorted [of os_fine "\<lparr>rlen = 1, cmp = byte_cmp\<rparr>" insertion_sort
        "\<lparr>bytes = [1, 4, 9], pos = 0\<rparr>" "[[1], [4], [9]]" "[[5], [2]]" "[]"]
      c insertion_sort_sorts [OF c]
    by (simp add: mappable_def os_fine_def record_file_def byte_cmp_def)
qed

section \<open>Visiting: the specification\<close>

text \<open>The calls a callback gets, as a fold over records with their offsets; a break ends it.\<close>

fun visit_spec :: "'s record_callback_t \<Rightarrow> (int \<times> buf) list \<Rightarrow> 's \<Rightarrow> nat \<Rightarrow> bool \<times> nat \<times> 's" where
  "visit_spec cb [] args n = (False, n, args)"
| "visit_spec cb ((off, x) # xs) args n =
     (let (ret, _, args) = cb args x off in
      if ret = RECORD_CALLBACK_MATCH then visit_spec cb xs args (Suc n)
      else if ret = RECORD_CALLBACK_BREAK then (True, n, args)
      else visit_spec cb xs args n)"

definition numbered :: "int \<Rightarrow> buf list \<Rightarrow> (int \<times> buf) list" where
  "numbered off xs = zip (map (\<lambda>i. off + int i) [0..<length xs]) xs"

lemma numbered_Nil [simp]: "numbered off [] = []"
  by (simp add: numbered_def)

lemma numbered_Cons: "numbered off (x # xs) = (off, x) # numbered (off + 1) xs"
proof -
  have "[0..<length (x # xs)] = 0 # map Suc [0..<length xs]" by (simp add: upt_conv_Cons map_Suc_upt del: upt_Suc)
  then show ?thesis by (simp add: numbered_def comp_def algebra_simps)
qed

lemma numbered_append: "numbered off (xs @ ys) = numbered off xs @ numbered (off + int (length xs)) ys"
  by (induction xs arbitrary: off) (simp_all add: numbered_Cons algebra_simps)

lemma visit_spec_append:
  "visit_spec cb (xs @ ys) args n =
     (case visit_spec cb xs args n of (stop, n, args) \<Rightarrow> if stop then (stop, n, args) else visit_spec cb ys args n)"
  by (induction cb xs args n rule: visit_spec.induct) (auto simp: Let_def split: prod.splits)

lemma visit_forward_spec:
  assumes "records_ok (rlen r) xs" and "length pre = i * rlen r"
  shows "\<exists>off'. visit_forward r cb (pre @ concat xs @ rest) i (length xs) off args (int n) =
    (case visit_spec cb (numbered off xs) args n of (stop, n, args) \<Rightarrow> Some (stop, off', int n, args)) \<and>
    (\<not> fst (visit_spec cb (numbered off xs) args n) \<longrightarrow> off' = off + int (length xs))"
  using assms
proof (induction xs arbitrary: pre i off args n)
  case (Cons x xs)
  have x: "length x = rlen r" "records_ok (rlen r) xs" using Cons.prems(1) by auto
  have rd: "mem_read (pre @ x @ concat xs @ rest) (i * rlen r) (rlen r) = Some x"
    using mem_read_at [of x "rlen r" pre "concat xs @ rest"] x Cons.prems(2) by simp
  have pre: "length (pre @ x) = Suc i * rlen r" using Cons.prems(2) x by simp
  obtain ret x' a where c: "cb args x off = (ret, x', a)" by (cases "cb args x off")
  show ?case using Cons.IH [OF x(2) pre, of "off + 1" a] Cons.IH [OF x(2) pre, of "off + 1" a n] rd c
    Cons.IH [OF x(2) pre, of "off + 1" a "Suc n"]
    by (auto simp: Let_def numbered_Cons algebra_simps split: prod.splits)
qed simp

lemma visit_backward_spec:
  assumes "records_ok (rlen r) xs"
  shows "visit_backward r cb (concat xs @ rest) (length xs) off args (int n) =
    (case visit_spec cb (rev (numbered off xs)) args n of (stop, n, args) \<Rightarrow> Some (stop, int n, args))"
  using assms
proof (induction xs arbitrary: args n rest rule: rev_induct)
  case (snoc x xs)
  have x: "length x = rlen r" "records_ok (rlen r) xs" using snoc.prems by auto
  have rd: "mem_read (concat xs @ x @ rest) (length xs * rlen r) (rlen r) = Some x"
    using mem_read_at [of x "rlen r" "concat xs" rest] x by (simp add: length_concat_records)
  obtain ret x' a where c: "cb args x (off + int (length xs)) = (ret, x', a)" by (cases "cb args x (off + int (length xs))")
  show ?case using snoc.IH [OF x(2), of "x @ rest" a n] snoc.IH [OF x(2), of "x @ rest" a "Suc n"] rd c
    by (auto simp: Let_def numbered_append numbered_Cons algebra_simps split: prod.splits)
qed simp

lemma records_ok_take: "records_ok w xs \<Longrightarrow> records_ok w (take n xs)"
  by (auto simp: records_ok_def dest: in_set_takeD)

lemma records_ok_drop: "records_ok w xs \<Longrightarrow> records_ok w (drop n xs)"
  by (auto simp: records_ok_def dest: in_set_dropD)

lemma drop_concat_records: "records_ok w xs \<Longrightarrow> drop (k * w) (concat xs) = concat (drop k xs)"
proof (induction xs arbitrary: k)
  case (Cons x xs)
  then show ?case by (cases k) auto
qed simp

lemma take_concat_records: "records_ok w xs \<Longrightarrow> take (k * w) (concat xs) = concat (take k xs)"
proof (induction xs arbitrary: k)
  case (Cons x xs)
  then show ?case by (cases k) auto
qed simp

lemma record_read_any:
  assumes "record_file r f rs" and "retry (os_read os)" and "pos f = k * rlen r"
    and "n * rlen r \<le> length b" and "n * rlen r < 2 ^ 31"
  defines "ys \<equiv> take n (drop k rs)"
  shows "record_read os (Some r) (Some b) (int n) f =
    Some (int (length ys), Some (concat ys @ drop (length (concat ys)) b), f\<lparr>pos := (k + length ys) * rlen r\<rparr>)"
proof -
  have w: "0 < rlen r" "records_ok (rlen r) rs" "bytes f = concat rs" using assms(1) by (auto simp: record_file_def)
  have xs: "take (n * rlen r) (drop (pos f) (bytes f)) = concat ys"
    using w assms(3) by (simp add: drop_concat_records take_concat_records records_ok_drop ys_def)
  have len: "length (concat ys) = length ys * rlen r"
    unfolding ys_def by (intro length_concat_records records_ok_take records_ok_drop w(2))
  have le: "length ys * rlen r \<le> n * rlen r" by (rule mult_le_mono1) (simp add: ys_def)
  have c: "cint (int n * int (rlen r)) = Some (int (n * rlen r))"
    using assms(5) by (simp add: cint_def flip: of_nat_mult)
  have wr: "mem_write b 0 (concat ys) = Some (concat ys @ drop (length (concat ys)) b)"
    using order_trans [OF le assms(4)] len by (simp add: mem_write_def)
  have ti: "to_int (int (length ys * rlen r)) = int (length ys * rlen r)"
    using order_le_less_trans [OF le assms(5)] by (intro to_int_nat) simp
  have "file_read os (Some b) (n * rlen r) f =
      Some (int (length ys * rlen r), Some (concat ys @ drop (length (concat ys)) b), f\<lparr>pos := pos f + length ys * rlen r\<rparr>)"
    unfolding file_read_def using assms(2) xs wr len ti by (simp add: Let_def del: of_nat_mult)
  then show ?thesis using c w(1) assms(3)
    by (simp add: record_read_def add_mult_distrib del: of_nat_mult) simp
qed

lemma record_read_file:
  assumes "record_file r f rs" and "retry (os_read os)" and "pos f = k * rlen r"
    and "length b = RECORD_BUFFER_SIZE" and "n * rlen r \<le> RECORD_BUFFER_SIZE"
  defines "ys \<equiv> take n (drop k rs)"
  shows "record_read os (Some r) (Some b) (int n) f =
    Some (int (length ys), Some (concat ys @ drop (length (concat ys)) b), f\<lparr>pos := (k + length ys) * rlen r\<rparr>)"
  unfolding ys_def using assms(4,5) by (intro record_read_any assms(1-3)) (simp_all add: RECORD_BUFFER_SIZE_def)

definition block_of :: "record_t \<Rightarrow> nat" where
  "block_of r = RECORD_BUFFER_SIZE div rlen r"

lemma block_of_bound: "block_of r * rlen r \<le> RECORD_BUFFER_SIZE"
  by (simp add: block_of_def)

lemma foreach_loop_spec:
  assumes "retry (os_read os)" and "0 < block_of r"
  shows "record_file r f rs \<Longrightarrow> pos f = k * rlen r \<Longrightarrow> length b = RECORD_BUFFER_SIZE \<Longrightarrow>
    \<exists>f'. foreach_loop os r ptr cb True b off args (int n) f =
      (case visit_spec cb (numbered off (drop k rs)) args n of (_, n, args) \<Rightarrow> Some (int n, args, f'))"
proof (induction "length rs - k" arbitrary: k b off args n f rule: less_induct)
  case less
  let ?m = "block_of r"
  let ?ys = "take ?m (drop k rs)"
  let ?b = "concat ?ys @ drop (length (concat ?ys)) b" and ?f = "f\<lparr>pos := (k + length ?ys) * rlen r\<rparr>"
  have w: "0 < rlen r" "records_ok (rlen r) rs" using less.prems(1) by (auto simp: record_file_def)
  have rd: "record_read os (Some r) (Some b) (int ?m) f = Some (int (length ?ys), Some ?b, ?f)"
    by (rule record_read_file [OF less.prems(1) assms(1) less.prems(2,3) block_of_bound])
  have ok: "records_ok (rlen r) ?ys" by (intro records_ok_take records_ok_drop w(2))
  obtain off' where vf: "visit_forward r cb ?b 0 (length ?ys) off args (int n) =
      (case visit_spec cb (numbered off ?ys) args n of (stop, n, args) \<Rightarrow> Some (stop, off', int n, args))"
      and off': "\<not> fst (visit_spec cb (numbered off ?ys) args n) \<longrightarrow> off' = off + int (length ?ys)"
    using visit_forward_spec [OF ok, of "[]" 0 cb "drop (length (concat ?ys)) b" off args n] by auto
  obtain stop n' args' where vs: "visit_spec cb (numbered off ?ys) args n = (stop, n', args')"
    by (cases "visit_spec cb (numbered off ?ys) args n")
  have split: "drop k rs = ?ys @ drop (k + length ?ys) rs" by (rule drop_block)
  have spec: "visit_spec cb (numbered off (drop k rs)) args n =
      (if stop then (stop, n', args') else visit_spec cb (numbered (off + int (length ?ys)) (drop (k + length ?ys) rs)) args' n')"
    by (subst split) (simp add: numbered_append visit_spec_append vs)
  have step: "foreach_loop os r ptr cb True b off args (int n) f =
      (if stop then Some (int n', args', ?f)
       else if length ?ys = ?m then foreach_loop os r ptr cb True ?b off' args' (int n') ?f
       else Some (int n', args', ?f))"
    using w(1) assms(2) rd vf vs
    by (subst foreach_loop.simps) (simp add: Let_def block_of_def del: length_take)
  show ?case
  proof (cases "stop \<or> length ?ys \<noteq> ?m")
    case True
    then have "drop (k + length ?ys) rs = []" if "\<not> stop" using that by (auto simp: min_def split: if_splits)
    then show ?thesis using step spec True by auto
  next
    case False
    have "length ?ys \<le> length rs - k" by simp
    then have "length rs - (k + length ?ys) < length rs - k" using False assms(2) by linarith
    moreover have "record_file r ?f rs" using less.prems(1) by (simp add: record_file_def)
    moreover have "length ?b = RECORD_BUFFER_SIZE"
    proof -
      have "length ?ys * rlen r \<le> RECORD_BUFFER_SIZE"
        by (rule order_trans [OF mult_le_mono1 block_of_bound]) simp
      then show ?thesis using less.prems(3) length_concat_records [OF ok] by (simp del: length_take)
    qed
    ultimately obtain f' where "foreach_loop os r ptr cb True ?b off' args' (int n') ?f =
        (case visit_spec cb (numbered off' (drop (k + length ?ys) rs)) args' n' of (_, n, args) \<Rightarrow> Some (int n, args, f'))"
      using less.hyps [of "k + length ?ys" ?f ?b off' args' n'] by auto
    then show ?thesis using step spec False off' vs by auto
  qed
qed

lemma record_seek_file:
  assumes "record_file r f rs" and "can_seek os" and "off \<le> length rs"
  shows "record_seek os (Some r) (int off) RECORD_SET f = Some (int off, f\<lparr>pos := off * rlen r\<rparr>)"
proof -
  note st = record_file_start [OF assms(1,3)]
  have w: "0 < rlen r" using assms(1) by (simp add: record_file_def)
  have "off \<le> off * rlen r" using w by simp
  with st have "off < 2 ^ 31" by linarith
  then have "to_int (int off) = int off" by (intro to_int_id) auto
  then show ?thesis using st w assms(2) by (simp add: record_seek_def Let_def)
qed

text \<open>Claim C23: without a current record, visiting from an offset offers every record from there on to the
  callback, once and in file order, with its offset, until the callback breaks off, and returns the number of
  matches; reading block by block is not observable.\<close>

theorem record_foreach_correct:
  assumes "record_file r f rs" and "can_seek os" and "retry (os_read os)" and "rlen r \<le> RECORD_BUFFER_SIZE"
    and "off \<le> length rs"
  shows "\<exists>f'. record_foreach os (Some r) None (int off) (Some cb) args f =
    (case visit_spec cb (numbered (int off) (drop off rs)) args 0 of (_, n, args') \<Rightarrow> Some (int n, args', f'))"
proof -
  have "0 < block_of r"
    using assms(1,4) by (simp add: block_of_def record_file_def div_greater_zero_iff)
  moreover have "record_file r (f\<lparr>pos := off * rlen r\<rparr>) rs" using assms(1) by (simp add: record_file_def)
  ultimately show ?thesis
    using foreach_loop_spec [OF assms(3), of r "f\<lparr>pos := off * rlen r\<rparr>" rs off
        "replicate RECORD_BUFFER_SIZE 0" None cb "int off" args 0]
    by (simp add: record_foreach_def record_seek_file [OF assms(1,2,5)])
qed

theorem record_foreach_correct_witness:
  "\<exists>f'. record_foreach os_fine (Some \<lparr>rlen = 2, cmp = \<lambda>_ _. 0\<rparr>) None 1
      (Some (\<lambda>s x off. (if off = 2 then 0 else -1, x, s @ x))) [] \<lparr>bytes = [1, 2, 3, 4, 5, 6], pos = 0\<rparr> =
    Some (1, [3, 4, 5, 6], f')"
  using record_foreach_correct [of "\<lparr>rlen = 2, cmp = \<lambda>_ _. 0\<rparr>" "\<lparr>bytes = [1, 2, 3, 4, 5, 6], pos = 0\<rparr>"
      "[[1, 2], [3, 4], [5, 6]]" os_fine 1 "\<lambda>s x off. (if off = 2 then 0 else -1, x, s @ x)" "[]"]
  by (simp add: record_file_def os_fine_def RECORD_BUFFER_SIZE_def numbered_Cons)

text \<open>With a current record that lies behind the given offset, the code means to start again at the
  beginning of the file, but the jump to the loop condition ends the visit when the first block was not full: no
  record is visited at all.\<close>

theorem record_foreach_gives_up:
  assumes "record_file r f rs" and "can_seek os" and "retry (os_read os)" and "rlen r \<le> RECORD_BUFFER_SIZE"
    and "off < length rs" and "length rs - off < block_of r" and "cmp r (rs ! off) p > 0"
  shows "\<exists>f'. record_foreach os (Some r) (Some p) (int off) (Some cb) args f = Some (0, args, f')"
proof -
  let ?f = "f\<lparr>pos := off * rlen r\<rparr>" and ?b = "replicate RECORD_BUFFER_SIZE 0"
  let ?ys = "take (block_of r) (drop off rs)"
  have f: "record_file r ?f rs" using assms(1) by (simp add: record_file_def)
  have w: "0 < rlen r" "records_ok (rlen r) rs" using assms(1) by (auto simp: record_file_def)
  have ys: "?ys = rs ! off # drop (Suc off) rs" using assms(5,6) by (simp add: Cons_nth_drop_Suc)
  have len: "length (rs ! off) = rlen r" using w(2) assms(5) by (simp add: records_ok_def)
  have rd: "record_read os (Some r) (Some ?b) (int (block_of r)) ?f =
      Some (int (length ?ys), Some (concat ?ys @ drop (length (concat ?ys)) ?b), ?f\<lparr>pos := (off + length ?ys) * rlen r\<rparr>)"
    by (rule record_read_file [OF f assms(3) _ _ block_of_bound]) simp_all
  have head: "take (rlen r) (concat ?ys @ drop (length (concat ?ys)) ?b) = rs ! off" unfolding ys using len by simp
  have short: "length ?ys \<noteq> block_of r" using assms(6) by simp
  have "\<exists>f'. foreach_loop os r (Some p) cb False ?b (int off) args 0 ?f = Some (0, args, f')"
    using w(1) assms(2,4,7) rd head short
    by (subst foreach_loop.simps)
      (simp add: Let_def block_of_def record_seek_def cint_def div_greater_zero_iff del: length_take)
  then show ?thesis
    by (simp add: record_foreach_def record_seek_file [OF assms(1,2)] less_imp_le [OF assms(5)])
qed

theorem record_foreach_gives_up_witness:
  "\<exists>f'. record_foreach os_fine (Some \<lparr>rlen = 1, cmp = byte_cmp\<rparr>) (Some [2]) 1
      (Some (\<lambda>s x off. (0, x, Suc s))) 0 \<lparr>bytes = [1, 5], pos = 0\<rparr> = Some (0, 0, f')"
  using record_foreach_gives_up [of "\<lparr>rlen = 1, cmp = byte_cmp\<rparr>" "\<lparr>bytes = [1, 5], pos = 0\<rparr>" "[[1], [5]]"
      os_fine 1 "[2]" "\<lambda>s x off. (0, x, Suc s)" 0]
  by (simp add: record_file_def os_fine_def RECORD_BUFFER_SIZE_def block_of_def byte_cmp_def)

lemma record_count_file:
  assumes "record_file r f rs" and "can_stat os"
  shows "record_count os (Some r) f = Some (int (length rs))"
proof -
  have w: "0 < rlen r" "length (bytes f) = length rs * rlen r" "length rs * rlen r < 2147483648"
    using assms(1) length_concat_records [of "rlen r" rs] by (auto simp: record_file_def)
  then have "length rs < 2147483648" by (metis le_less_trans mult_le_mono2 nat_mult_1_right Suc_leI One_nat_def)
  then show ?thesis using assms(2) w by (simp add: record_count_def to_int_nat)
qed

lemma reverse_step:
  assumes "record_file r f rs" and "can_seek os" and "retry (os_read os)" and "length b = RECORD_BUFFER_SIZE"
    and "0 < block_of r" and "rs \<noteq> []" and "n \<le> length rs"
  defines "o' \<equiv> n - block_of r"
  shows "\<exists>b' f'. length b' = RECORD_BUFFER_SIZE \<and> record_file r f' rs \<and>
    reverse_loop os r cb b (int n) args (int m) f =
      (case visit_spec cb (rev (numbered (int o') (take (block_of r) (drop o' rs)))) args m of (stop, m', args') \<Rightarrow>
         if stop \<or> o' = 0 then Some (int m', args', f') else reverse_loop os r cb b' (int o') args' (int m') f')"
proof -
  let ?ys = "take (block_of r) (drop o' rs)"
  let ?b = "concat ?ys @ drop (length (concat ?ys)) b" and ?f = "f\<lparr>pos := (o' + length ?ys) * rlen r\<rparr>"
  have w: "0 < rlen r" "records_ok (rlen r) rs" using assms(1) by (auto simp: record_file_def)
  have lt: "o' < length rs" using assms(5-7) unfolding o'_def by (cases rs) auto
  have off: "(if int n - int (block_of r) < 0 then 0 else int n - int (block_of r)) = int o'" by (simp add: o'_def)
  have f1: "record_file r (f\<lparr>pos := o' * rlen r\<rparr>) rs" using assms(1) by (simp add: record_file_def)
  have rd: "record_read os (Some r) (Some b) (int (block_of r)) (f\<lparr>pos := o' * rlen r\<rparr>) = Some (int (length ?ys), Some ?b, ?f)"
    using record_read_file [OF f1 assms(3) _ assms(4) block_of_bound, of o'] by simp
  have ra: "record_read_after os (Some r) (Some b) (int (block_of r)) (int o') f = Some (int (length ?ys), Some ?b, ?f)"
    using record_seek_file [OF assms(1,2), of o'] lt rd by (simp add: record_read_after_def del: length_take)
  have pos: "0 < length ?ys" using lt assms(5) by simp
  have vb: "visit_backward r cb ?b (length ?ys) (int o') args (int m) =
      (case visit_spec cb (rev (numbered (int o') ?ys)) args m of (stop, m, args) \<Rightarrow> Some (stop, int m, args))"
    by (intro visit_backward_spec records_ok_take records_ok_drop w(2))
  have "reverse_loop os r cb b (int n) args (int m) f =
      (case visit_spec cb (rev (numbered (int o') ?ys)) args m of (stop, m', args') \<Rightarrow>
         if stop \<or> o' = 0 then Some (int m', args', ?f) else reverse_loop os r cb ?b (int o') args' (int m') ?f)"
    using w(1) ra pos vb assms(5)
    by (subst reverse_loop.simps, simp only: Let_def block_of_def [symmetric] off)
      (simp split: prod.splits del: length_take)
  moreover have "length ?b = RECORD_BUFFER_SIZE"
  proof -
    have "length ?ys * rlen r \<le> RECORD_BUFFER_SIZE" by (rule order_trans [OF mult_le_mono1 block_of_bound]) simp
    moreover have "length (concat ?ys) = length ?ys * rlen r"
      by (intro length_concat_records records_ok_take records_ok_drop w(2))
    ultimately show ?thesis using assms(4) by (simp del: length_take)
  qed
  moreover have "record_file r ?f rs" using assms(1) by (simp add: record_file_def)
  ultimately show ?thesis by blast
qed

lemma numbered_split: "m \<le> length rs \<Longrightarrow> numbered 0 (take (m + k) rs) = numbered 0 (take m rs) @ numbered (int m) (take k (drop m rs))"
  by (simp add: take_add numbered_append)

lemma reverse_loop_blocks:
  assumes "can_seek os" and "retry (os_read os)" and "0 < block_of r"
  shows "record_file r f rs \<Longrightarrow> length b = RECORD_BUFFER_SIZE \<Longrightarrow> Suc j * block_of r \<le> length rs \<Longrightarrow>
    \<exists>f'. reverse_loop os r cb b (int (Suc j * block_of r)) args (int m) f =
      (case visit_spec cb (rev (numbered 0 (take (Suc j * block_of r) rs))) args m of (_, m', args') \<Rightarrow>
         Some (int m', args', f'))"
proof (induction j arbitrary: b args m f)
  case 0
  then have "rs \<noteq> []" using assms(3) by auto
  with 0 show ?case
    using reverse_step [OF 0(1) assms(1,2) 0(2) assms(3), of "block_of r" cb args m] by auto
next
  case (Suc j)
  let ?k = "block_of r"
  have ne: "rs \<noteq> []" "Suc (Suc j) * ?k - ?k = Suc j * ?k" using Suc.prems(3) assms(3) by auto
  obtain b' f' where b': "length b' = RECORD_BUFFER_SIZE" "record_file r f' rs" and
    step: "reverse_loop os r cb b (int (Suc (Suc j) * ?k)) args (int m) f =
      (case visit_spec cb (rev (numbered (int (Suc j * ?k)) (take ?k (drop (Suc j * ?k) rs)))) args m of (stop, m', args') \<Rightarrow>
         if stop \<or> Suc j * ?k = 0 then Some (int m', args', f')
         else reverse_loop os r cb b' (int (Suc j * ?k)) args' (int m') f')"
    using reverse_step [OF Suc.prems(1) assms(1,2) Suc.prems(2) assms(3) ne(1) Suc.prems(3), of cb args m]
    unfolding ne(2) by blast
  have le: "Suc j * ?k \<le> length rs" using Suc.prems(3) by simp
  have "numbered 0 (take (Suc (Suc j) * ?k) rs) =
      numbered 0 (take (Suc j * ?k) rs) @ numbered (int (Suc j * ?k)) (take ?k (drop (Suc j * ?k) rs))"
    using numbered_split [OF le, of ?k] by (simp add: add.commute)
  moreover obtain stop m' args' where
    "visit_spec cb (rev (numbered (int (Suc j * ?k)) (take ?k (drop (Suc j * ?k) rs)))) args m = (stop, m', args')"
    using prod_cases3 by blast
  ultimately show ?case
    using step Suc.IH [OF b'(2,1) le, of args' m'] assms(3)
    by (auto simp: visit_spec_append simp del: mult_Suc of_nat_mult)
qed

text \<open>Visiting from the end offers every record to the callback once, last record first, when the number
  of records is at most one buffer or a multiple of it.\<close>

theorem record_reverse_once:
  assumes "record_file r f rs" and "can_stat os" and "can_seek os" and "retry (os_read os)"
    and "rlen r \<le> RECORD_BUFFER_SIZE" and "length rs \<le> block_of r \<or> block_of r dvd length rs" and "rs \<noteq> []"
  shows "\<exists>f'. record_reverse_foreach os (Some r) (Some cb) args f =
    (case visit_spec cb (rev (numbered 0 rs)) args 0 of (_, n, args') \<Rightarrow> Some (int n, args', f'))"
proof -
  have b: "0 < block_of r" using assms(1,5) by (simp add: block_of_def record_file_def div_greater_zero_iff)
  let ?b = "replicate RECORD_BUFFER_SIZE 0 :: buf"
  have "\<exists>f'. reverse_loop os r cb ?b (int (length rs)) args (int 0) f =
      (case visit_spec cb (rev (numbered 0 rs)) args 0 of (_, n, args') \<Rightarrow> Some (int n, args', f'))"
  proof (cases "length rs \<le> block_of r")
    case True
    then show ?thesis
      using reverse_step [OF assms(1,3,4) _ b assms(7), of ?b "length rs" cb args 0] True by auto
  next
    case False
    then obtain j where j: "length rs = Suc j * block_of r"
      using assms(6,7) b by (metis dvdE length_greater_0_conv mult.commute mult_0 not0_implies_Suc less_numeral_extra(3))
    then show ?thesis using reverse_loop_blocks [OF assms(3,4) b assms(1), of ?b j cb args 0] by (simp del: mult_Suc)
  qed
  then show ?thesis by (simp add: record_reverse_foreach_def record_count_file [OF assms(1,2)])
qed

theorem record_reverse_once_witness:
  "\<exists>f'. record_reverse_foreach os_fine (Some \<lparr>rlen = 2, cmp = \<lambda>_ _. 0\<rparr>)
      (Some (\<lambda>s x off. (0, x, s @ x))) [] \<lparr>bytes = [1, 2, 3, 4], pos = 0\<rparr> = Some (2, [3, 4, 1, 2], f')"
  using record_reverse_once [of "\<lparr>rlen = 2, cmp = \<lambda>_ _. 0\<rparr>" "\<lparr>bytes = [1, 2, 3, 4], pos = 0\<rparr>"
      "[[1, 2], [3, 4]]" os_fine "\<lambda>s x off. (0, x, s @ x)" "[]"]
  by (simp add: record_file_def os_fine_def RECORD_BUFFER_SIZE_def block_of_def numbered_Cons)

text \<open>With more than one and less than two buffers of records, and a callback that does not break off, the
  second round reads a whole buffer from the start of the file, so the records that both rounds cover are offered
  to the callback twice.\<close>

theorem record_reverse_twice:
  assumes "record_file r f rs" and "can_stat os" and "can_seek os" and "retry (os_read os)"
    and "rlen r \<le> RECORD_BUFFER_SIZE" and "block_of r < length rs" and "length rs < 2 * block_of r"
    and "\<forall>args x off. fst (cb args x off) \<noteq> 1"
  shows "\<exists>f'. record_reverse_foreach os (Some r) (Some cb) args f =
    (case visit_spec cb (rev (numbered (int (length rs - block_of r)) (drop (length rs - block_of r) rs)) @
        rev (numbered 0 (take (block_of r) rs))) args 0 of (_, n, args') \<Rightarrow> Some (int n, args', f'))"
proof -
  have b: "0 < block_of r" and ne: "rs \<noteq> []" using assms(6,7) by auto
  let ?b = "replicate RECORD_BUFFER_SIZE 0 :: buf" and ?o = "length rs - block_of r"
  have nobreak: "\<not> fst (visit_spec cb xs a n)" for xs a n
    using assms(8) by (induction cb xs a n rule: visit_spec.induct) (auto simp: Let_def split: prod.splits, metis fst_conv)
  obtain n1 a1 where v1: "visit_spec cb (rev (numbered (int ?o) (drop ?o rs))) args 0 = (False, n1, a1)"
    using nobreak [of "rev (numbered (int ?o) (drop ?o rs))" args 0] by (cases "visit_spec cb (rev (numbered (int ?o) (drop ?o rs))) args 0") auto
  obtain b' f' where b': "length b' = RECORD_BUFFER_SIZE" "record_file r f' rs" and
    s1: "reverse_loop os r cb ?b (int (length rs)) args (int 0) f = reverse_loop os r cb b' (int ?o) a1 (int n1) f'"
    using reverse_step [OF assms(1,3,4) _ b ne, of ?b "length rs" cb args 0] v1 assms(6) by auto
  obtain b2 f2 where
    s2: "reverse_loop os r cb b' (int ?o) a1 (int n1) f' =
      (case visit_spec cb (rev (numbered 0 (take (block_of r) rs))) a1 n1 of (_, m', args') \<Rightarrow> Some (int m', args', f2))"
    using reverse_step [OF b'(2) assms(3,4) b'(1) b ne, of ?o cb a1 n1] assms(7) by auto
  show ?thesis
    using s1 s2 v1 by (intro exI [of _ f2])
      (simp add: record_reverse_foreach_def record_count_file [OF assms(1,2)] visit_spec_append)
qed

definition page :: "byte \<Rightarrow> buf" where
  "page c = replicate 4096 c"

lemma length_page [simp]: "length (page c) = 4096"
  by (simp add: page_def)

theorem record_reverse_twice_witness:
  "\<exists>f'. record_reverse_foreach os_fine (Some \<lparr>rlen = 4096, cmp = \<lambda>_ _. 0\<rparr>)
      (Some (\<lambda>s x off. (0, x, s @ [off]))) []
      \<lparr>bytes = page 1 @ page 2 @ page 3, pos = 0\<rparr> = Some (4, [2, 1, 1, 0], f')"
  using record_reverse_twice [of "\<lparr>rlen = 4096, cmp = \<lambda>_ _. 0\<rparr>"
      "\<lparr>bytes = page 1 @ page 2 @ page 3, pos = 0\<rparr>"
      "[page 1, page 2, page 3]" os_fine "\<lambda>s x off. (0, x, s @ [off])" "[]"]
  by (simp add: record_file_def os_fine_def RECORD_BUFFER_SIZE_def block_of_def numbered_Cons)

end
