(* ===== verification/FB_RecordSearch.thy ===== *)
theory FB_RecordSearch
  imports FB_Record
begin

text \<open>
  Searching a record file, single transfers, and the second interface of \<open>lib/record.c\<close>, which names the
  file in every call: \<open>append_record\<close>, \<open>get_record\<close>, \<open>apply_record\<close>, \<open>search_record\<close>,
  \<open>substitute_record\<close>, \<open>delete_record\<close> and \<open>insert_record\<close>.
\<close>

section \<open>The buffered search finds the first match\<close>

text \<open>The search on a list of records with their offsets; \<open>brk\<close> says which answers give up.\<close>

fun search_spec :: "(int \<Rightarrow> bool) \<Rightarrow> 's record_callback_t \<Rightarrow> (int \<times> buf) list \<Rightarrow> 's \<Rightarrow> (int \<times> buf) option option \<times> 's" where
  "search_spec brk flt [] args = (None, args)"
| "search_spec brk flt ((off, x) # xs) args =
     (let (ret, _, args) = flt args x off in
      if ret = RECORD_CALLBACK_MATCH then (Some (Some (off, x)), args)
      else if brk ret then (Some None, args)
      else search_spec brk flt xs args)"

lemma search_spec_append:
  "search_spec brk flt (xs @ ys) args =
     (case search_spec brk flt xs args of (None, args) \<Rightarrow> search_spec brk flt ys args | r \<Rightarrow> r)"
  by (induction brk flt xs args rule: search_spec.induct) (auto simp: Let_def split: prod.splits option.splits)

definition found_in :: "int \<Rightarrow> buf list \<Rightarrow> (int \<times> buf) option option \<Rightarrow> found \<Rightarrow> bool" where
  "found_in base xs res fd \<longleftrightarrow>
     (case res of
        None \<Rightarrow> fd = Absent
      | Some None \<Rightarrow> fd = Quit
      | Some (Some (off, x)) \<Rightarrow> (\<exists>j<length xs. fd = Found j \<and> off = base + int j \<and> x = xs ! j))"

lemma search_up_spec:
  assumes "records_ok (rlen r) ys"
  shows "records_ok (rlen r) xs \<Longrightarrow> \<exists>fd.
    search_up r flt (concat ys @ concat xs @ rest) (length ys) (length xs) base args =
      Some (fd, snd (search_spec (\<lambda>ret. ret > 0) flt (numbered (base + int (length ys)) xs) args)) \<and>
    found_in base (ys @ xs) (fst (search_spec (\<lambda>ret. ret > 0) flt (numbered (base + int (length ys)) xs) args)) fd"
  using assms
proof (induction xs arbitrary: ys args)
  case (Cons x xs)
  have x: "length x = rlen r" "records_ok (rlen r) xs" "records_ok (rlen r) (ys @ [x])" using Cons.prems by auto
  have rd: "mem_read (concat ys @ x @ concat xs @ rest) (length ys * rlen r) (rlen r) = Some x"
    using mem_read_at [of x "rlen r" "concat ys" "concat xs @ rest"] x length_concat_records [OF Cons.prems(2)] by simp
  obtain ret x' a where c: "flt args x (base + int (length ys)) = (ret, x', a)"
    by (cases "flt args x (base + int (length ys))")
  show ?case
    using Cons.IH [OF x(2,3), of a] rd c
    by (auto simp: Let_def numbered_Cons found_in_def ac_simps nth_append)
qed (simp add: found_in_def)

lemma search_down_spec:
  "records_ok (rlen r) xs \<Longrightarrow> \<exists>fd.
    search_down r flt (concat xs @ rest) (length xs) base args =
      Some (fd, snd (search_spec (\<lambda>ret. ret = 1) flt (rev (numbered base xs)) args)) \<and>
    found_in base xs (fst (search_spec (\<lambda>ret. ret = 1) flt (rev (numbered base xs)) args)) fd"
proof (induction xs arbitrary: args rest rule: rev_induct)
  case (snoc x xs)
  have x: "length x = rlen r" "records_ok (rlen r) xs" using snoc.prems by auto
  have rd: "mem_read (concat xs @ x @ rest) (length xs * rlen r) (rlen r) = Some x"
    using mem_read_at [of x "rlen r" "concat xs" rest] x by (simp add: length_concat_records)
  obtain ret x' a where c: "flt args x (base + int (length xs)) = (ret, x', a)"
    by (cases "flt args x (base + int (length xs))")
  obtain fd where fd: "search_down r flt (concat xs @ x @ rest) (length xs) base a =
      Some (fd, snd (search_spec (\<lambda>ret. ret = 1) flt (rev (numbered base xs)) a))"
      "found_in base xs (fst (search_spec (\<lambda>ret. ret = 1) flt (rev (numbered base xs)) a)) fd"
    using snoc.IH [OF x(2)] by blast
  have mono: "found_in base (xs @ [x]) res fd" if "found_in base xs res fd" for res fd
    using that unfolding found_in_def by (auto simp: nth_append split: option.splits)
  show ?case
    using fd mono rd c
    by (auto simp: Let_def numbered_append numbered_Cons found_in_def split: option.splits)
qed (simp add: found_in_def)

text \<open>The result of a search: the offset and the copied record, or -1.\<close>

definition search_result :: "buf option \<Rightarrow> (int \<times> buf) option option \<Rightarrow> int \<times> buf option" where
  "search_result out res =
     (case res of Some (Some (off, x)) \<Rightarrow> (off, map_option (\<lambda>_. x) out) | _ \<Rightarrow> (-1, out))"

definition out_ok :: "record_t \<Rightarrow> buf option \<Rightarrow> bool" where
  "out_ok r out \<longleftrightarrow> (case out of None \<Rightarrow> True | Some o' \<Rightarrow> length o' = rlen r)"

lemma copy_out_record:
  assumes "records_ok (rlen r) xs" and "j < length xs" and "out_ok r out"
  shows "copy_out r (concat xs @ rest) j out = Some (map_option (\<lambda>_. xs ! j) out)"
proof -
  have split: "concat xs @ rest = concat (take j xs) @ xs ! j @ concat (drop (Suc j) xs) @ rest"
    using assms(2) by (metis append.assoc concat.simps(2) concat_append id_take_nth_drop)
  have len: "length (xs ! j) = rlen r" using assms(1,2) by (simp add: records_ok_def)
  have pre: "length (concat (take j xs)) = j * rlen r"
    using length_concat_records [OF records_ok_take [OF assms(1)], of j] assms(2) by (simp add: min_absorb2)
  have rd: "mem_read (concat xs @ rest) (j * rlen r) (rlen r) = Some (xs ! j)"
    using mem_read_at [OF len, of "concat (take j xs)"] pre split by simp
  show ?thesis
    using rd assms(3) len by (auto simp: copy_out_def out_ok_def mem_write_def split: option.splits)
qed

lemma buffer_after_read:
  assumes "records_ok (rlen r) ys" and "length ys \<le> block_of r" and "length b = RECORD_BUFFER_SIZE"
  shows "length (concat ys @ drop (length (concat ys)) b) = RECORD_BUFFER_SIZE"
proof -
  have "length ys * rlen r \<le> RECORD_BUFFER_SIZE"
    by (rule order_trans [OF mult_le_mono1 [OF assms(2)] block_of_bound])
  then show ?thesis using assms(3) length_concat_records [OF assms(1)] by simp
qed

lemma search_forward_spec:
  assumes "retry (os_read os)" and "out_ok r out" and "0 < block_of r"
  shows "record_file r f rs \<Longrightarrow> pos f = p * rlen r \<Longrightarrow> length b = RECORD_BUFFER_SIZE \<Longrightarrow>
    length rs - p \<le> k * block_of r \<Longrightarrow> int i * int (block_of r) + off = int p \<Longrightarrow>
    \<exists>f'. search_forward os r flt (int (block_of r)) off i k b args out f =
      (case search_spec (\<lambda>ret. ret > 0) flt (numbered (int p) (drop p rs)) args of (res, args') \<Rightarrow>
         case search_result out res of (n, out') \<Rightarrow> Some (n, out', args', f'))"
proof (induction k arbitrary: p b i args f)
  case 0
  then have "drop p rs = []" by simp
  then show ?case by (simp add: search_result_def)
next
  case (Suc k)
  let ?m = "block_of r"
  let ?ys = "take ?m (drop p rs)"
  let ?b = "concat ?ys @ drop (length (concat ?ys)) b" and ?f = "f\<lparr>pos := (p + length ?ys) * rlen r\<rparr>"
  have w: "0 < rlen r" "records_ok (rlen r) rs" using Suc.prems(1) by (auto simp: record_file_def)
  have ok: "records_ok (rlen r) ?ys" by (intro records_ok_take records_ok_drop w(2))
  have rd: "record_read os (Some r) (Some b) (int ?m) f = Some (int (length ?ys), Some ?b, ?f)"
    by (rule record_read_file [OF Suc.prems(1) assms(1) Suc.prems(2,3) block_of_bound])
  have bl: "length ?b = RECORD_BUFFER_SIZE" by (rule buffer_after_read [OF ok _ Suc.prems(3)]) simp
  have f2: "record_file r ?f rs" using Suc.prems(1) by (simp add: record_file_def)
  show ?case
  proof (cases "drop p rs = []")
    case True
    then show ?thesis using rd by (simp add: search_result_def)
  next
    case False
    then have pos: "0 < length ?ys" using assms(3) by simp
    obtain res a where sp: "search_spec (\<lambda>ret. ret > 0) flt (numbered (int p) ?ys) args = (res, a)"
      by (cases "search_spec (\<lambda>ret. ret > 0) flt (numbered (int p) ?ys) args")
    obtain fd where up: "search_up r flt ?b 0 (length ?ys) (int p) args = Some (fd, a)" "found_in (int p) ?ys res fd"
      using search_up_spec [of r "[]" ?ys flt "drop (length (concat ?ys)) b" "int p" args] ok sp by auto
    have spec: "search_spec (\<lambda>ret. ret > 0) flt (numbered (int p) (drop p rs)) args =
        (case res of None \<Rightarrow> search_spec (\<lambda>ret. ret > 0) flt (numbered (int (p + length ?ys)) (drop (p + length ?ys) rs)) a
         | _ \<Rightarrow> (res, a))"
      by (subst drop_block [of p rs ?m]) (simp add: numbered_append search_spec_append sp split: option.splits del: length_take)
    have step: "search_forward os r flt (int ?m) off i (Suc k) b args out f =
        (case fd of
           Found j \<Rightarrow> do { out \<leftarrow> copy_out r ?b j out; Some (int p + int j, out, a, ?f) }
         | Quit \<Rightarrow> Some (-1, out, a, ?f)
         | Absent \<Rightarrow> search_forward os r flt (int ?m) off (Suc i) k ?b a out ?f)"
      using rd up(1) pos Suc.prems(5) by (simp add: Let_def del: length_take)
    show ?thesis
    proof (cases res)
      case None
      then have fd: "fd = Absent" using up(2) by (simp add: found_in_def)
      show ?thesis
      proof (cases "length ?ys = ?m")
        case True
        have "\<exists>f'. search_forward os r flt (int ?m) off (Suc i) k ?b a out ?f =
            (case search_spec (\<lambda>ret. ret > 0) flt (numbered (int (p + length ?ys)) (drop (p + length ?ys) rs)) a of (res, args') \<Rightarrow>
               case search_result out res of (n, out') \<Rightarrow> Some (n, out', args', f'))"
          by (rule Suc.IH [OF f2 _ bl]) (use Suc.prems True in \<open>auto simp: algebra_simps simp del: length_take\<close>)
        then show ?thesis using step fd spec None by simp
      next
        case False
        then have e: "drop (p + length ?ys) rs = []" by (auto simp: min_def split: if_splits)
        have "record_read os (Some r) (Some ?b) (int ?m) ?f = Some (0, Some ?b, ?f)"
          using record_read_file [OF f2 assms(1) _ bl block_of_bound, of "p + length ?ys", unfolded e]
          by (simp del: length_take)
        then have "search_forward os r flt (int ?m) off (Suc i) k ?b a out ?f = Some (-1, out, a, ?f)"
          by (cases k) (simp_all add: Let_def)
        then show ?thesis using step fd spec None e by (simp add: search_result_def del: length_take)
      qed
    next
      case (Some hit)
      then show ?thesis
        using up(2) step spec copy_out_record [OF ok _ assms(2)]
        by (auto simp: found_in_def search_result_def split: option.splits)
    qed
  qed
qed

lemma clip_count:
  "p < a \<Longrightarrow> nat (if int a - int p < int l then int a - int p else int l) = min l (a - p)"
  by auto

lemma search_reverse_Suc:
  assumes "int p = int k * cap" "record_seek os (Some r) (int p) RECORD_SET f = Some (x, f1)"
    "record_read os (Some r) (Some b) cap f1 = Some (int n, Some b', f2)" "0 < n"
    "nat (if all - int p < int n then all - int p else int n) = l"
    "search_down r flt b' l (int p) args = Some (fd, a)"
  shows "search_reverse os r flt cap all (Suc k) b args out f =
    (case fd of
       Found j \<Rightarrow> do { out \<leftarrow> copy_out r b' j out; Some (int p + int j, out, a, f2) }
     | Quit \<Rightarrow> Some (-1, out, a, f2)
     | Absent \<Rightarrow> search_reverse os r flt cap all k b' a out f2)"
proof -
  have "(if all - int p < int n then all - int p else int n) = (if all - int k * cap < int n then all - int k * cap else int n)"
    using assms(1) by simp
  then show ?thesis
    using assms(2-6) unfolding search_reverse.simps Let_def assms(1) [symmetric] by simp
qed

lemma search_reverse_spec:
  assumes "retry (os_read os)" and "can_seek os" and "out_ok r out" and "0 < block_of r"
  shows "record_file r f rs \<Longrightarrow> length b = RECORD_BUFFER_SIZE \<Longrightarrow> all \<le> length rs \<Longrightarrow>
    (0 < k \<longrightarrow> (k - 1) * block_of r < all) \<Longrightarrow>
    \<exists>f'. search_reverse os r flt (int (block_of r)) (int all) k b args out f =
      (case search_spec (\<lambda>ret. ret = 1) flt (rev (numbered 0 (take (min all (k * block_of r)) rs))) args of (res, args') \<Rightarrow>
         case search_result out res of (n, out') \<Rightarrow> Some (n, out', args', f'))"
proof (induction k arbitrary: b args f)
  case 0
  then show ?case by (simp add: search_result_def)
next
  case (Suc k)
  let ?m = "block_of r" and ?p = "k * block_of r"
  let ?ys = "take ?m (drop ?p rs)" and ?zs = "take (all - ?p) (take ?m (drop ?p rs))"
  let ?f1 = "f\<lparr>pos := ?p * rlen r\<rparr>" and ?f = "f\<lparr>pos := (?p + length ?ys) * rlen r\<rparr>"
  let ?b = "concat ?ys @ drop (length (concat ?ys)) b"
  have w: "0 < rlen r" "records_ok (rlen r) rs" using Suc.prems(1) by (auto simp: record_file_def)
  have base: "?p < all" using Suc.prems(4) by simp
  have ok: "records_ok (rlen r) ?ys" by (intro records_ok_take records_ok_drop w(2))
  have f1: "record_file r ?f1 rs" and f2: "record_file r ?f rs" using Suc.prems(1) by (simp_all add: record_file_def)
  have sk: "record_seek os (Some r) (int ?p) RECORD_SET f = Some (int ?p, ?f1)"
    using record_seek_file [OF Suc.prems(1) assms(2), of ?p] base Suc.prems(3) by simp
  have rd: "record_read os (Some r) (Some b) (int ?m) ?f1 = Some (int (length ?ys), Some ?b, ?f)"
    using record_read_file [OF f1 assms(1) _ Suc.prems(2) block_of_bound, of ?p] by simp
  have bl: "length ?b = RECORD_BUFFER_SIZE" by (rule buffer_after_read [OF ok _ Suc.prems(2)]) simp
  have pos: "0 < length ?ys" using base Suc.prems(3) assms(4) by simp
  have cnt: "nat (if int all - int ?p < int (length ?ys) then int all - int ?p else int (length ?ys)) = length ?zs"
    using clip_count [OF base, of "length ?ys"] by (simp only: length_take)
  have bz: "?b = concat ?zs @ concat (drop (all - ?p) ?ys) @ drop (length (concat ?ys)) b"
    by (metis append.assoc append_take_drop_id concat_append)
  obtain res a where sp: "search_spec (\<lambda>ret. ret = 1) flt (rev (numbered (int ?p) ?zs)) args = (res, a)"
    by (cases "search_spec (\<lambda>ret. ret = 1) flt (rev (numbered (int ?p) ?zs)) args")
  obtain fd where dn: "search_down r flt ?b (length ?zs) (int ?p) args = Some (fd, a)" "found_in (int ?p) ?zs res fd"
    using search_down_spec [of r ?zs flt
        "concat (drop (all - ?p) ?ys) @ drop (length (concat ?ys)) b" "int ?p" args] records_ok_take [OF ok, of "all - ?p"] sp bz by auto
  have zs: "take (min all (Suc k * ?m)) rs = take ?p rs @ ?zs"
  proof -
    have "min all (Suc k * ?m) = ?p + min (all - ?p) ?m" using base by simp
    then show ?thesis using take_add [of ?p "min (all - ?p) ?m" rs] by (simp add: min.commute)
  qed
  have "length (take ?p rs) = ?p" using base Suc.prems(3) by simp
  then have spec: "search_spec (\<lambda>ret. ret = 1) flt (rev (numbered 0 (take (min all (Suc k * ?m)) rs))) args =
      (case res of None \<Rightarrow> search_spec (\<lambda>ret. ret = 1) flt (rev (numbered 0 (take ?p rs))) a | _ \<Rightarrow> (res, a))"
    unfolding zs by (simp only: numbered_append rev_append search_spec_append add_0 sp) (simp split: option.splits)
  have step: "search_reverse os r flt (int ?m) (int all) (Suc k) b args out f =
      (case fd of
         Found j \<Rightarrow> do { out \<leftarrow> copy_out r ?b j out; Some (int ?p + int j, out, a, ?f) }
       | Quit \<Rightarrow> Some (-1, out, a, ?f)
       | Absent \<Rightarrow> search_reverse os r flt (int ?m) (int all) k ?b a out ?f)"
    by (rule search_reverse_Suc [OF of_nat_mult sk rd pos cnt dn(1)])
  show ?case
  proof (cases res)
    case None
    then have fd: "fd = Absent" using dn(2) by (simp add: found_in_def)
    have "min all ?p = ?p" using base by simp
    moreover have "0 < k \<longrightarrow> (k - 1) * ?m < all"
      using base by (cases k) auto
    ultimately show ?thesis using step fd spec None Suc.IH [OF f2 bl Suc.prems(3), of a] by (simp del: length_take)
  next
    case (Some hit)
    have "copy_out r ?b j out = Some (map_option (\<lambda>_. ?zs ! j) out)" if "j < length ?zs" for j
      unfolding bz by (rule copy_out_record [OF records_ok_take [OF ok] that assms(3)])
    then show ?thesis using Some dn(2) step spec
      by (auto simp: found_in_def search_result_def split: option.splits)
  qed
qed

lemma rounds_cover:
  assumes "0 < (m::nat)" and "0 < a"
  defines "k \<equiv> (a + m - 1) div m"
  shows "a \<le> k * m \<and> (0 < k \<longrightarrow> (k - 1) * m < a)"
proof -
  have "a + m - 1 < (k + 1) * m"
    unfolding k_def using assms(1) dividend_less_div_times [of m "a + m - 1"] by simp
  moreover have "k * m \<le> a + m - 1" unfolding k_def by simp
  ultimately show ?thesis using assms(1,2) by (cases k) auto
qed

lemma search_arith:
  assumes "0 < m" "0 < a" "a < 2147483648 - 8192" "m \<le> 8192"
  shows "cint (int a + int m - 1) = Some (int (a + m - 1)) \<and> nat (int (a + m - 1) div int m) = (a + m - 1) div m"
proof -
  have "int (a + m - 1) = int a + int m - 1" using assms by simp
  moreover have "- 2147483648 \<le> int a + int m - 1 \<and> int a + int m - 1 < 2147483648" using assms by linarith
  ultimately have "cint (int a + int m - 1) = Some (int (a + m - 1))" by (simp add: cint_def)
  moreover have "nat (int (a + m - 1) div int m) = (a + m - 1) div m" by (simp only: zdiv_int [symmetric] nat_int)
  ultimately show ?thesis by simp
qed



section \<open>Records of a named file\<close>

definition node_size :: "node \<Rightarrow> nat" where
  "node_size n = (case n of Regular b \<Rightarrow> length b | Directory k \<Rightarrow> k)"

definition get_num_records :: "os \<Rightarrow> fs \<Rightarrow> string \<Rightarrow> nat \<Rightarrow> nat option" where
  "get_num_records os fs file sz =
     (if \<not> can_stat os then Some 0
      else case fs file of
        None \<Rightarrow> Some 0
      | Some n \<Rightarrow> if sz = 0 then None else Some (node_size n div sz))"

text \<open>The result of \<open>append_record\<close> is that of \<open>file_write\<close>; the answers to the lock requests are ignored.\<close>

definition append_record :: "os \<Rightarrow> fs \<Rightarrow> string \<Rightarrow> buf \<Rightarrow> nat \<Rightarrow> (int \<times> fs) option" where
  "append_record os fs file rec sz =
     (if \<not> can_open os \<or> dashd fs (Some file) then Some (-1, fs)
      else do {
        let old = (case fs file of Some (Regular b) \<Rightarrow> b | _ \<Rightarrow> []);
        xs \<leftarrow> mem_read rec 0 sz;
        let (ret, f) = file_write os (Some xs) \<lparr>bytes = old, pos = length old\<rparr>;
        Some (ret, fs(file \<mapsto> Regular (bytes f)))
      })"

definition get_record_handle :: "os \<Rightarrow> ofile \<Rightarrow> buf \<Rightarrow> int \<Rightarrow> int \<Rightarrow> (int \<times> buf) option" where
  "get_record_handle os f rptr sz num = do {
     o' \<leftarrow> cint (sz * (num - 1));
     (if \<not> can_seek os \<or> o' < 0 then Some (-1, rptr)
      else if os_read os \<noteq> [] then Some (-1, rptr)
      else do {
        let xs = take (nat sz) (drop (nat o') (bytes f));
        rptr \<leftarrow> mem_write rptr 0 xs;
        Some (if int (length xs) \<noteq> sz then -1 else 0, rptr)
      })
   }"

definition get_record :: "os \<Rightarrow> fs \<Rightarrow> string \<Rightarrow> buf \<Rightarrow> int \<Rightarrow> int \<Rightarrow> (int \<times> buf) option" where
  "get_record os fs file rptr sz num =
     (case fs file of
        Some (Regular b) \<Rightarrow>
          if can_open os then get_record_handle os \<lparr>bytes = b, pos = 0\<rparr> rptr sz num else Some (-1, rptr)
      | _ \<Rightarrow> Some (-1, rptr))"

definition get_records :: "os \<Rightarrow> fs \<Rightarrow> string \<Rightarrow> buf \<Rightarrow> int \<Rightarrow> int \<Rightarrow> int \<Rightarrow> (int \<times> buf) option" where
  "get_records os fs file rptr sz num number =
     (case fs file of
        Some (Regular b) \<Rightarrow>
          if \<not> can_open os then Some (-1, rptr)
          else do {
            o' \<leftarrow> cint (sz * (num - 1));
            (if \<not> can_seek os \<or> o' < 0 then Some (0, rptr)
             else do {
               n \<leftarrow> cint (sz * number);
               (if os_read os \<noteq> [] then Some (-1, rptr)
                else do {
                  let xs = take (nat n) (drop (nat o') b);
                  rptr \<leftarrow> mem_write rptr 0 xs;
                  (if sz = 0 then None else Some (int (length xs) div sz, rptr))
                })
             })
          }
      | _ \<Rightarrow> Some (-1, rptr))"

definition QUIT :: int where
  "QUIT = 0x666"

text \<open>
  The mapping is read-only: without \<open>copy\<close> a callback that changes its record faults.  Records are visited
  first to last or last to first; the callback gets the record number, counted from 1.
\<close>

fun apply_record_loop ::
  "'s record_callback_t \<Rightarrow> bool \<Rightarrow> bool \<Rightarrow> nat \<Rightarrow> buf \<Rightarrow> nat \<Rightarrow> nat \<Rightarrow> 's \<Rightarrow> 's option" where
  "apply_record_loop func copy reverse sz mem cnt 0 args = Some args"
| "apply_record_loop func copy reverse sz mem cnt (Suc left) args = do {
     let i = cnt - Suc left;
     x \<leftarrow> mem_read mem ((if reverse then cnt - 1 - i else i) * sz) sz;
     let (ret, x', args) = func args x (if reverse then int cnt - int i else int i + 1);
     (if \<not> copy \<and> x' \<noteq> x then None
      else if ret = QUIT then Some args
      else apply_record_loop func copy reverse sz mem cnt left args)
   }"

definition apply_record ::
  "os \<Rightarrow> heap \<Rightarrow> fs \<Rightarrow> string \<Rightarrow> 's record_callback_t \<Rightarrow> nat \<Rightarrow> 's \<Rightarrow> bool \<Rightarrow> bool \<Rightarrow> (int \<times> 's) option" where
  "apply_record os h fs file func sz args copy reverse =
     (if copy \<and> malloc h sz = None then Some (-1, args)
      else case mmap_open os fs file RDONLY of
        None \<Rightarrow> Some (-1, args)
      | Some (m, f) \<Rightarrow>
          if sz = 0 then None
          else do {
            let cnt = m_size m div sz;
            args \<leftarrow> apply_record_loop func copy reverse sz (bytes f) cnt cnt args;
            Some (0, args)
          })"

fun search_record_loop :: "(buf \<Rightarrow> bool) \<Rightarrow> nat \<Rightarrow> buf \<Rightarrow> nat \<Rightarrow> nat \<Rightarrow> (nat \<times> buf) option option" where
  "search_record_loop func sz mem i 0 = Some None"
| "search_record_loop func sz mem i (Suc left) = do {
     x \<leftarrow> mem_read mem (i * sz) sz;
     (if func x then Some (Some (i, x)) else search_record_loop func sz mem (Suc i) left)
   }"

definition search_record ::
  "os \<Rightarrow> fs \<Rightarrow> string \<Rightarrow> buf option \<Rightarrow> nat \<Rightarrow> (buf \<Rightarrow> bool) \<Rightarrow> (int \<times> buf option) option" where
  "search_record os fs file rptr sz func =
     (case mmap_open os fs file RDONLY of
        None \<Rightarrow> Some (0, rptr)
      | Some (m, f) \<Rightarrow>
          if sz = 0 then None
          else do {
            r \<leftarrow> search_record_loop func sz (bytes f) 0 (m_size m div sz);
            (case r of
               None \<Rightarrow> Some (0, rptr)
             | Some (i, x) \<Rightarrow>
                 (case rptr of
                    None \<Rightarrow> Some (int i + 1, None)
                  | Some p \<Rightarrow> do { p \<leftarrow> mem_write p 0 x; Some (int i + 1, Some p) }))
          })"

text \<open>The result does not depend on the outcome of the write.\<close>

definition substitute_record :: "os \<Rightarrow> fs \<Rightarrow> string \<Rightarrow> buf \<Rightarrow> nat \<Rightarrow> int \<Rightarrow> (int \<times> fs) option" where
  "substitute_record os fs file rptr sz num =
     (if \<not> can_open os \<or> dashd fs (Some file) then Some (-1, fs)
      else do {
        let old = (case fs file of Some (Regular b) \<Rightarrow> b | _ \<Rightarrow> []);
        let fs = fs(file \<mapsto> Regular old);
        o' \<leftarrow> cint (int sz * (num - 1));
        (if \<not> can_lock os then Some (-1, fs)
         else if \<not> can_seek os \<or> o' < 0 then Some (-1, fs)
         else do {
           xs \<leftarrow> mem_read rptr 0 sz;
           let (_, f) = file_write os (Some xs) \<lparr>bytes = old, pos = nat o'\<rparr>;
           Some (0, fs(file \<mapsto> Regular (bytes f)))
         })
      })"

fun first_record :: "(buf \<Rightarrow> bool) \<Rightarrow> nat \<Rightarrow> buf \<Rightarrow> nat \<Rightarrow> nat \<Rightarrow> nat option" where
  "first_record check sz mem num 0 = Some num"
| "first_record check sz mem num (Suc left) = do {
     x \<leftarrow> mem_read mem ((num - 1) * sz) sz;
     (if check x then Some num else first_record check sz mem (Suc num) left)
   }"

text \<open>
  Without a check the record with the given number goes; with one, the first record that satisfies it when
  the one with the given number does not.  The fault handler around the code is not entered while the file
  keeps its length.
\<close>

definition delete_record ::
  "os \<Rightarrow> fs \<Rightarrow> string \<Rightarrow> nat \<Rightarrow> int \<Rightarrow> (buf \<Rightarrow> bool) option \<Rightarrow> (int \<times> fs) option" where
  "delete_record os fs file sz num check =
     (if num \<le> 0 then Some (0, fs)
      else case mmap_open os fs file RDWR of
        None \<Rightarrow> Some (-1, fs)
      | Some (m, f) \<Rightarrow>
          if sz = 0 then None
          else do {
            let cnt = m_size m div sz;
            target \<leftarrow> cint (num * int sz);
            found \<leftarrow>
              (if target > int (m_size m) then Some None
               else case check of
                 None \<Rightarrow> Some (Some (nat num))
               | Some chk \<Rightarrow> do {
                   x \<leftarrow> mem_read (bytes f) ((nat num - 1) * sz) sz;
                   (if chk x then Some (Some (nat num))
                    else do {
                      k \<leftarrow> first_record chk sz (bytes f) 1 cnt;
                      Some (if k > cnt then None else Some k)
                    })
                 });
            (case found of
               None \<Rightarrow> Some (-2, fs)
             | Some k \<Rightarrow> do {
                 mem \<leftarrow> mem_move (bytes f) ((k - 1) * sz) (k * sz) (m_size m - sz * k);
                 let (_, f) = mmap_truncate os (m_size m - sz) m (f\<lparr>bytes := mem\<rparr>);
                 Some (0, fs(file \<mapsto> Regular (bytes f)))
               })
          })"

text \<open>The place to insert: the iterator runs until it meets the end exactly.\<close>

function insert_place :: "(buf \<Rightarrow> bool) \<Rightarrow> nat \<Rightarrow> buf \<Rightarrow> nat \<Rightarrow> nat \<Rightarrow> nat option" where
  "insert_place check sz mem iter fin =
     (if iter = fin then Some iter
      else if sz = 0 then None
      else do {
        x \<leftarrow> mem_read mem iter sz;
        (if check x then Some iter else insert_place check sz mem (iter + sz) fin)
      })"
  by pat_completeness auto
termination
  by (relation "measure (\<lambda>(check, sz, mem, iter, fin). Suc (length mem) - iter)")
    (auto simp: mem_read_def split: if_splits)

definition insert_record ::
  "os \<Rightarrow> fs \<Rightarrow> string \<Rightarrow> nat \<Rightarrow> (buf \<Rightarrow> bool) option \<Rightarrow> buf option \<Rightarrow> (int \<times> fs) option" where
  "insert_record os fs file sz check arg =
     (case (check, arg) of
        (Some chk, Some a) \<Rightarrow>
          (case mmap_open os fs file RDWR of
             None \<Rightarrow> Some (-1, fs)
           | Some (m, f) \<Rightarrow>
               (case mmap_truncate os (m_size m + sz) m f of
                  (None, f) \<Rightarrow> Some (-1, fs(file \<mapsto> Regular (bytes f)))
                | (Some m, f) \<Rightarrow> do {
                    let fin = m_size m - sz;
                    iter \<leftarrow> insert_place chk sz (bytes f) 0 fin;
                    mem \<leftarrow> (if iter \<noteq> fin then mem_move (bytes f) (iter + sz) iter (m_size m - sz - iter)
                      else Some (bytes f));
                    x \<leftarrow> mem_read a 0 sz;
                    mem \<leftarrow> mem_write mem iter x;
                    Some (0, fs(file \<mapsto> Regular mem))
                  }))
      | _ \<Rightarrow> Some (-1, fs))"

section \<open>Deleting and inserting a record of a named file\<close>

declare insert_place.simps [simp del]

lemma mmap_open_mappable:
  "mappable os \<Longrightarrow> can_open os \<Longrightarrow> fs file = Some (Regular b) \<Longrightarrow>
   \<exists>m. mmap_open os fs file flag = Some (m, \<lparr>bytes = b, pos = 0\<rparr>) \<and> m_size m = length b \<and>
     m_msize m = max (length b) MMAP_MINSIZE"
  using mmap_open_fd_mappable [of os flag "\<lparr>bytes = b, pos = 0\<rparr>"] by (auto simp: mmap_open_def Let_def)

lemma insert_place_spec:
  assumes "0 < sz" and "records_ok sz ys"
  shows "records_ok sz xs \<Longrightarrow>
    insert_place chk sz (concat ys @ concat xs @ rest) (length ys * sz) ((length ys + length xs) * sz) =
      Some ((length ys + length (takeWhile (\<lambda>x. \<not> chk x) xs)) * sz)"
  using assms(2)
proof (induction xs arbitrary: ys)
  case Nil
  then show ?case by (simp add: insert_place.simps)
next
  case (Cons x xs)
  have x: "length x = sz" "records_ok sz xs" "records_ok sz (ys @ [x])" using Cons.prems by auto
  have rd: "mem_read (concat ys @ x @ concat xs @ rest) (length ys * sz) sz = Some x"
    using mem_read_at [of x sz "concat ys" "concat xs @ rest"] x length_concat_records [OF Cons.prems(2)] by simp
  have ne: "length ys * sz \<noteq> (length ys + length (x # xs)) * sz" using assms(1) by (simp add: add_mult_distrib)
  show ?case
    using Cons.IH [OF x(2,3)] rd ne assms(1)
    by (subst insert_place.simps) (simp add: algebra_simps)
qed

text \<open>Inserting into a file of whole records puts the new record in front of the first record that the
  check accepts, or at the end, and keeps all other records in their order.\<close>

theorem insert_record_correct:
  assumes "mappable os" and "can_open os" and "retry (os_truncate os)" and "0 < sz"
    and "fs file = Some (Regular (concat rs))" and "records_ok sz rs" and "length arg = sz"
  shows "insert_record os fs file sz (Some chk) (Some arg) =
    Some (0, fs(file \<mapsto> Regular (concat (takeWhile (\<lambda>x. \<not> chk x) rs @ arg # dropWhile (\<lambda>x. \<not> chk x) rs))))"
proof -
  define t where "t = takeWhile (\<lambda>x. \<not> chk x) rs"
  define d where "d = dropWhile (\<lambda>x. \<not> chk x) rs"
  have rs: "rs = t @ d" by (simp add: t_def d_def)
  have len: "length (concat rs) = length rs * sz" by (rule length_concat_records [OF assms(6)])
  obtain m where m: "mmap_open os fs file RDWR = Some (m, \<lparr>bytes = concat rs, pos = 0\<rparr>)" "m_size m = length rs * sz"
    using mmap_open_mappable [of os fs "file" "concat rs" RDWR] assms(1,2,5) len by auto
  have ext: "set_length (concat rs) (length rs * sz + sz) = concat rs @ replicate sz 0"
    using len by (simp add: set_length_def)
  obtain m' where m': "mmap_truncate os (length rs * sz + sz) m \<lparr>bytes = concat rs, pos = 0\<rparr> =
      (Some m', \<lparr>bytes = concat rs @ replicate sz 0, pos = 0\<rparr>)" "m_size m' = length rs * sz + sz"
    using assms(1,3) ext
    by (cases "length rs * sz + sz > m_msize m") (auto simp: mmap_truncate_def file_truncate_def mappable_def)
  have split: "concat rs = concat t @ concat d" by (simp add: rs)
  have tok: "records_ok sz t" "records_ok sz d"
    using assms(6) by (simp_all add: rs)
  have lt: "length (concat t) = length t * sz" "length (concat d) = length d * sz"
    using tok by (simp_all add: length_concat_records)
  have lsum: "length rs = length t + length d" by (simp add: rs)
  have place: "insert_place chk sz (concat rs @ replicate sz 0) 0 (length rs * sz) = Some (length t * sz)"
    using insert_place_spec [OF assms(4), of "[]" rs chk "replicate sz 0"] assms(6) by (simp add: t_def)
  have mv: "(if length t * sz \<noteq> length rs * sz
      then mem_move (concat rs @ replicate sz 0) (length t * sz + sz) (length t * sz) (length rs * sz - length t * sz)
      else Some (concat rs @ replicate sz 0)) = Some (concat t @ take sz (concat d @ replicate sz 0) @ concat d)"
  proof (cases "d = []")
    case True
    then show ?thesis using split lsum by simp
  next
    case False
    have "length rs * sz - length t * sz = length d * sz" using lsum by (simp add: add_mult_distrib)
    then show ?thesis using False lsum assms(4) lt
      unfolding split by (simp add: mem_move_def mem_read_def mem_write_def)
  qed
  have wr: "mem_write (concat t @ take sz (concat d @ replicate sz 0) @ concat d) (length t * sz) arg =
      Some (concat t @ arg @ concat d)"
    using mem_write_at [of "take sz (concat d @ replicate sz 0)" arg "concat t" "concat d"] assms(7) lt by simp
  show ?thesis
    using m m' place mv wr assms(7)
    by (simp add: insert_record_def Let_def mem_read_def split del: if_split cong: if_cong flip: t_def d_def)
qed

theorem insert_record_correct_witness:
  "insert_record os_fine [''f'' \<mapsto> Regular [1, 0, 5, 0]] ''f'' 2 (Some (\<lambda>x. 3 < hd x)) (Some [3, 0]) =
    Some (0, [''f'' \<mapsto> Regular [1, 0, 3, 0, 5, 0]])"
  using insert_record_correct [of os_fine 2 "[''f'' \<mapsto> Regular [1, 0, 5, 0]]" "''f''" "[[1, 0], [5, 0]]" "[3, 0]"
      "\<lambda>x. 3 < hd x"]
  by (simp add: os_fine_def mappable_def)

lemma first_record_spec:
  "records_ok sz ys \<Longrightarrow> records_ok sz xs \<Longrightarrow>
   first_record chk sz (concat ys @ concat xs) (Suc (length ys)) (length xs) =
     Some (Suc (length ys + length (takeWhile (\<lambda>x. \<not> chk x) xs)))"
proof (induction xs arbitrary: ys)
  case (Cons x xs)
  have x: "length x = sz" "records_ok sz xs" "records_ok sz (ys @ [x])" using Cons.prems by auto
  have rd: "mem_read (concat ys @ x @ concat xs) (length ys * sz) sz = Some x"
    using mem_read_at [of x sz "concat ys" "concat xs"] x length_concat_records [OF Cons.prems(1)] by simp
  show ?case using Cons.IH [OF x(3,2)] rd by simp
qed simp

lemma takeWhile_less_iff: "length (takeWhile P xs) < length xs \<longleftrightarrow> (\<exists>x\<in>set xs. \<not> P x)"
  by (induction xs) auto

text \<open>The index of the record that goes: the one asked for, or the first that satisfies the check.\<close>

definition victim :: "(buf \<Rightarrow> bool) option \<Rightarrow> nat \<Rightarrow> buf list \<Rightarrow> nat option" where
  "victim check k rs =
     (if length rs < k then None
      else case check of
        None \<Rightarrow> Some (k - 1)
      | Some chk \<Rightarrow>
          if chk (rs ! (k - 1)) then Some (k - 1)
          else if list_ex chk rs then Some (length (takeWhile (\<lambda>x. \<not> chk x) rs)) else None)"

lemma remove_record:
  assumes "records_ok sz rs" and "j < length rs"
  shows "mem_move (concat rs) (j * sz) (Suc j * sz) (length (concat rs) - sz * Suc j) =
    Some (concat (take j rs) @ concat (drop (Suc j) rs) @ drop (length (concat rs) - sz) (concat rs))"
proof -
  have lt: "length (concat (take j rs)) = j * sz"
    using length_concat_records [OF records_ok_take [OF assms(1)], of j] assms(2) by (simp add: min_absorb2)
  have len: "length (concat rs) = length rs * sz" by (rule length_concat_records [OF assms(1)])
  have le: "Suc j * sz \<le> length rs * sz" using assms(2) by (intro mult_le_mono1) simp
  have tk: "take (j * sz) (concat rs) = concat (take j rs)" by (rule take_concat_records [OF assms(1)])
  have dr: "drop (Suc j * sz) (concat rs) = concat (drop (Suc j) rs)" by (rule drop_concat_records [OF assms(1)])
  have "mem_move (concat rs) (j * sz) (Suc j * sz) (length rs * sz - Suc j * sz) =
      Some (take (j * sz) (concat rs) @ take (length rs * sz - Suc j * sz) (drop (Suc j * sz) (concat rs)) @
        drop (j * sz + (length rs * sz - Suc j * sz)) (concat rs))"
    using le len by (intro mem_move_Some) auto
  moreover have "take (length rs * sz - Suc j * sz) (drop (Suc j * sz) (concat rs)) = concat (drop (Suc j) rs)"
    unfolding dr using length_concat_records [OF records_ok_drop [OF assms(1)], of "Suc j"]
    by (simp add: diff_mult_distrib)
  moreover have "j * sz + (length rs * sz - Suc j * sz) = length rs * sz - sz" using le by simp
  ultimately show ?thesis using tk len by (simp add: mult.commute)
qed

text \<open>Deleting a record of a file of whole records removes exactly one record, the one with the given
  number, or, when a check is given and refuses that one, the first that satisfies the check; it reports -2 and
  leaves the file alone when the number is too large or no record satisfies the check.\<close>

theorem delete_record_correct:
  assumes "mappable os" and "can_open os" and "retry (os_truncate os)" and "0 < sz"
    and "fs file = Some (Regular (concat rs))" and "records_ok sz rs" and "0 < k" and "k * sz < 2147483648"
  shows "delete_record os fs file sz (int k) check =
    (case victim check k rs of
       None \<Rightarrow> Some (-2, fs)
     | Some j \<Rightarrow> Some (0, fs(file \<mapsto> Regular (concat (take j rs @ drop (Suc j) rs)))))"
proof -
  have len: "length (concat rs) = length rs * sz" by (rule length_concat_records [OF assms(6)])
  obtain m where m: "mmap_open os fs file RDWR = Some (m, \<lparr>bytes = concat rs, pos = 0\<rparr>)" "m_size m = length rs * sz"
      "m_msize m = max (length rs * sz) MMAP_MINSIZE"
    using mmap_open_mappable [of os fs "file" "concat rs" RDWR] assms(1,2,5) len by auto
  have c: "cint (int k * int sz) = Some (int (k * sz))" using assms(8) by (simp add: cint_def flip: of_nat_mult)
  have big: "int (length rs * sz) < int (k * sz) \<longleftrightarrow> length rs < k" using assms(4) by (simp del: of_nat_mult)
  define found where "found = (if length rs < k then Some None
      else case check of
        None \<Rightarrow> Some (Some k)
      | Some chk \<Rightarrow> do {
          x \<leftarrow> mem_read (concat rs) ((k - 1) * sz) sz;
          (if chk x then Some (Some k)
           else do {
             i \<leftarrow> first_record chk sz (concat rs) 1 (length rs);
             Some (if i > length rs then None else Some i)
           })
        })"
  have fv: "found = Some (map_option Suc (victim check k rs))"
  proof (cases "length rs < k")
    case False
    have split: "concat rs = concat (take (k - 1) rs) @ rs ! (k - 1) @ concat (drop k rs)"
      using False assms(7) id_take_nth_drop [of "k - 1" rs] by (metis Suc_pred' Suc_le_lessD concat.simps(2) concat_append not_less)
    have "length (concat (take (k - 1) rs)) = (k - 1) * sz"
      using length_concat_records [OF records_ok_take [OF assms(6)], of "k - 1"] False by (simp add: min_absorb2)
    moreover have "length (rs ! (k - 1)) = sz" using assms(6,7) False by (simp add: records_ok_def)
    ultimately have "mem_read (concat rs) ((k - 1) * sz) sz = Some (rs ! (k - 1))"
      using mem_read_at [of "rs ! (k - 1)" sz "concat (take (k - 1) rs)" "concat (drop k rs)"] split by (simp only:)
    moreover have "length rs < Suc (length (takeWhile (\<lambda>x. \<not> chk x) rs)) \<longleftrightarrow> \<not> list_ex chk rs" for chk
      using takeWhile_less_iff [of "\<lambda>x. \<not> chk x" rs] by (auto simp: list_ex_iff not_less_eq)
    ultimately show ?thesis using False assms(7) first_record_spec [OF records_ok_simps(1) assms(6)]
      by (auto simp: found_def victim_def split: option.splits)
  qed (simp add: found_def victim_def)
  have run: "delete_record os fs file sz (int k) check =
      (do { fd \<leftarrow> found;
        (case fd of
           None \<Rightarrow> Some (-2, fs)
         | Some i \<Rightarrow> do {
             mem \<leftarrow> mem_move (concat rs) ((i - 1) * sz) (i * sz) (length rs * sz - sz * i);
             let (_, f) = mmap_truncate os (length rs * sz - sz) m \<lparr>bytes = mem, pos = 0\<rparr>;
             Some (0, fs(file \<mapsto> Regular (bytes f)))
           }) })"
    using m(1,2) c big assms(4,7)
    by (simp add: delete_record_def Let_def found_def del: of_nat_mult split del: if_split cong: if_cong option.case_cong)
  show ?thesis
  proof (cases "victim check k rs")
    case None
    then show ?thesis using run fv by simp
  next
    case (Some j)
    have j: "j < length rs"
      using Some assms(7) unfolding victim_def
      by (auto split: if_splits option.splits simp: list_ex_iff takeWhile_less_iff)
    let ?new = "concat (take j rs) @ concat (drop (Suc j) rs)"
    obtain e where e: "length rs = Suc (j + e)" using less_imp_Suc_add [OF j] by blast
    have nl: "length ?new = length rs * sz - sz"
      using e length_concat_records [OF records_ok_take [OF assms(6)], of j]
        length_concat_records [OF records_ok_drop [OF assms(6)], of "Suc j"]
      by (simp add: min_absorb2 add_mult_distrib)
    have "mmap_truncate os (length rs * sz - sz) m \<lparr>bytes = ?new @ drop (length rs * sz - sz) (concat rs), pos = 0\<rparr> =
        (Some (m\<lparr>m_size := length rs * sz - sz\<rparr>), \<lparr>bytes = ?new, pos = 0\<rparr>)"
    proof -
      have "\<not> m_msize m < length rs * sz - sz" using m(3) by simp
      then show ?thesis using assms(3) nl by (simp add: mmap_truncate_def file_truncate_def set_length_def)
    qed
    then show ?thesis using run fv Some remove_record [OF assms(6) j] len by (simp add: Let_def mult.commute)
  qed
qed

theorem delete_record_correct_witness:
  "delete_record os_fine [''f'' \<mapsto> Regular [1, 0, 5, 0, 6, 0]] ''f'' 2 1 (Some (\<lambda>x. 3 < hd x)) =
    Some (0, [''f'' \<mapsto> Regular [1, 0, 6, 0]])"
  using delete_record_correct [of os_fine 2 "[''f'' \<mapsto> Regular [1, 0, 5, 0, 6, 0]]" "''f''"
      "[[1, 0], [5, 0], [6, 0]]" 1 "Some (\<lambda>x. 3 < hd x)"]
  by (simp add: os_fine_def mappable_def victim_def)

end
