(* ===== verification/FB_String.thy ===== *)
theory FB_String
  imports FB_Prelude
begin

text \<open>
  The string routines of \<open>lib/string.c\<close> that work byte by byte: case folding, GBK-aware comparison and
  search, trimming and truncation, bounded copying, URL escaping, and the repair of broken GBK text.
  A read-only string argument is the rest of its buffer; a string that is written is a buffer with an
  index.  A source that may be the destination itself is of type \<open>source\<close>.
\<close>

datatype source = Same | Other buf

fun src_at :: "source \<Rightarrow> buf \<Rightarrow> nat \<Rightarrow> byte option" where
  "src_at Same dst i = rd dst i"
| "src_at (Other b) dst i = rd b i"

fun src_buf :: "source \<Rightarrow> buf \<Rightarrow> buf" where
  "src_buf Same dst = dst"
| "src_buf (Other b) dst = b"

abbreviation to_char :: "int \<Rightarrow> byte" where
  "to_char c \<equiv> word_of_int c"

section \<open>Case folding\<close>

function strmap_loop :: "(int \<Rightarrow> int) \<Rightarrow> source \<Rightarrow> buf \<Rightarrow> nat \<Rightarrow> buf option" where
  "strmap_loop f src dst i = do {
     c \<leftarrow> src_at src dst i;
     (if c \<noteq> 0 then do {
        dst' \<leftarrow> wr dst i (to_char (f (schar c)));
        strmap_loop f src dst' (Suc i)
      } else wr dst i 0)
   }"
  by pat_completeness auto
termination
  by (relation "measure (\<lambda>(f, src, dst, i). length dst - i)") (auto simp: wr_eq_Some_iff)

text \<open>NULL arguments give a NULL result and no write.\<close>

definition strtolower :: "buf option \<Rightarrow> source option \<Rightarrow> buf option option" where
  "strtolower dst src =
     (case (dst, src) of
        (Some d, Some s) \<Rightarrow> map_option Some (strmap_loop tolower s d 0)
      | _ \<Rightarrow> Some None)"

definition strtoupper :: "buf option \<Rightarrow> source option \<Rightarrow> buf option option" where
  "strtoupper dst src =
     (case (dst, src) of
        (Some d, Some s) \<Rightarrow> map_option Some (strmap_loop toupper s d 0)
      | _ \<Rightarrow> Some None)"

section \<open>Comparison and search that step over GBK pairs\<close>

fun strncasecmp_gbk :: "buf \<Rightarrow> buf \<Rightarrow> int \<Rightarrow> int \<Rightarrow> int option" where
  "strncasecmp_gbk (c1 # s1) s2 n l =
     (if c1 = 0 then Some (if l = n then 0 else -1)
      else case s2 of
        [] \<Rightarrow> None
      | c2 # s2 \<Rightarrow>
          if c2 = 0 \<or> \<not> l < n then Some (if l = n then 0 else -1)
          else let k1 = tolower (schar c1); k2 = tolower (schar c2) in
            if k1 \<noteq> k2 then Some (k1 - k2)
            else if k1 AND 0x80 \<noteq> 0 then
              (case (s1, s2) of
                 (d1 # t1, d2 # t2) \<Rightarrow>
                   if d1 = d2 then strncasecmp_gbk t1 t2 n (l + 2) else Some (schar d1 - schar d2)
               | _ \<Rightarrow> None)
            else strncasecmp_gbk s1 s2 n (l + 1))"
| "strncasecmp_gbk [] s2 n l = None"

function strcasestr_gbk_loop :: "buf \<Rightarrow> buf \<Rightarrow> nat \<Rightarrow> nat \<Rightarrow> nat \<Rightarrow> nat option option" where
  "strcasestr_gbk_loop haystack needle hlength nlength i =
     (if i \<le> hlength - nlength then do {
        r \<leftarrow> strncasecmp_gbk (drop i haystack) needle (int nlength) 0;
        (if r = 0 then Some (Some i)
         else do {
           c \<leftarrow> rd haystack i;
           strcasestr_gbk_loop haystack needle hlength nlength (if c AND 0x80 \<noteq> 0 then i + 2 else i + 1)
         })
      } else Some None)"
  by pat_completeness auto
termination
  by (relation "measure (\<lambda>(h, n, hl, nl, i). Suc (hl - nl) - i)") auto

definition strcasestr_gbk :: "buf option \<Rightarrow> buf option \<Rightarrow> nat option option" where
  "strcasestr_gbk haystack needle =
     (case (haystack, needle) of
        (Some h, Some n) \<Rightarrow> do {
          nlength \<leftarrow> strlen n;
          hlength \<leftarrow> strlen h;
          (if hlength < nlength then Some None
           else if hlength = 0 then Some None
           else if nlength = 0 then Some (Some 0)
           else strcasestr_gbk_loop h n hlength nlength 0)
        }
      | _ \<Rightarrow> Some None)"

section \<open>Removing ANSI control codes\<close>

function remove_ansi_loop :: "source \<Rightarrow> buf \<Rightarrow> nat \<Rightarrow> nat \<Rightarrow> bool \<Rightarrow> buf option" where
  "remove_ansi_loop src dst i j flag = do {
     c \<leftarrow> src_at src dst i;
     (if c = 0 then wr dst j 0
      else if c = 27 then remove_ansi_loop src dst (Suc i) j True
      else if \<not> flag then do { dst' \<leftarrow> wr dst j c; remove_ansi_loop src dst' (Suc i) (Suc j) False }
      else if isalpha (schar c) then remove_ansi_loop src dst (Suc i) j False
      else remove_ansi_loop src dst (Suc i) j True)
   }"
  by pat_completeness auto
termination
proof (relation "measure (\<lambda>(src, dst, i, j, flag). length (src_buf src dst) - i)", goal_cases)
  case (2 src dst i j flag c) then show ?case by (cases src) (auto simp: rd_eq_Some_iff)
next
  case (3 src dst i j flag c dst') then show ?case by (cases src) (auto simp: rd_eq_Some_iff wr_eq_Some_iff)
next
  case (4 src dst i j flag c) then show ?case by (cases src) (auto simp: rd_eq_Some_iff)
next
  case (5 src dst i j flag c) then show ?case by (cases src) (auto simp: rd_eq_Some_iff)
qed simp

definition string_remove_ansi_control_code :: "buf option \<Rightarrow> source option \<Rightarrow> buf option option" where
  "string_remove_ansi_control_code dst src =
     (case (dst, src) of
        (Some d, Some s) \<Rightarrow> map_option Some (remove_ansi_loop s d 0 0 False)
      | _ \<Rightarrow> Some None)"

section \<open>Truncation with dots\<close>

fun ellipsis_scan :: "buf \<Rightarrow> nat \<Rightarrow> nat \<Rightarrow> bool \<Rightarrow> (nat \<times> bool) option" where
  "ellipsis_scan str ptr i inGBK = do {
     c \<leftarrow> rd str ptr;
     (if c \<noteq> 0 \<and> 0 < i
      then ellipsis_scan str (Suc ptr) (i - 1) (if inGBK then False else c AND 0x80 \<noteq> 0)
      else Some (ptr, inGBK))
   }"

fun ellipsis_tail :: "buf \<Rightarrow> nat \<Rightarrow> nat \<Rightarrow> (nat \<times> nat) option" where
  "ellipsis_tail str ptr i = do {
     c \<leftarrow> rd str (Suc ptr);
     (if c = 0 then Some (Suc ptr, i)
      else if i - 1 = 0 then Some (Suc ptr, 0)
      else ellipsis_tail str (Suc ptr) (i - 1))
   }"

definition ellipsis :: "buf option \<Rightarrow> int \<Rightarrow> (buf option \<times> int) option" where
  "ellipsis sp len =
     (case sp of
        None \<Rightarrow> Some (None, 0)
      | Some str \<Rightarrow>
          if len < 0 then Some (Some str, 0)
          else if len < 3 then do { str \<leftarrow> wr str (nat len) 0; Some (Some str, 1) }
          else do {
            (ptr, inGBK) \<leftarrow> ellipsis_scan str 0 (nat len - 3) False;
            (ptr, i) \<leftarrow> ellipsis_tail str ptr 3;
            c \<leftarrow> rd str ptr;
            (if c \<noteq> 0 \<and> i = 0 then do {
               str \<leftarrow> wr str (nat len) 0;
               str \<leftarrow> wri str (int ptr - 1) 46;
               str \<leftarrow> wri str (int ptr - 2) 46;
               (if inGBK then Some (Some str, 1)
                else do {
                  d \<leftarrow> rdi str (int ptr - 3);
                  str \<leftarrow> (if d AND 0x80 \<noteq> 0 then wri str (int ptr - 3) 46 else Some str);
                  Some (Some str, 1)
                })
             } else Some (Some str, 1))
          })"

section \<open>Trimming\<close>

text \<open>The pointer may step to before the first byte; the byte is read before the bound is tested.\<close>

function trim_right :: "buf \<Rightarrow> int \<Rightarrow> int option" where
  "trim_right str ptr = do {
     c \<leftarrow> rdi str ptr;
     (if c \<le> 0x20 \<and> 0 \<le> ptr then trim_right str (ptr - 1) else Some ptr)
   }"
  by pat_completeness auto
termination
  by (relation "measure (\<lambda>(str, ptr). nat (ptr + 1))") auto

definition rtrim :: "buf option \<Rightarrow> buf option option" where
  "rtrim sp =
     (case sp of
        None \<Rightarrow> Some None
      | Some str \<Rightarrow> do {
          len \<leftarrow> strlen str;
          ptr \<leftarrow> trim_right str (int len);
          str \<leftarrow> wri str (ptr + 1) 0;
          Some (Some str)
        })"

function trim_left :: "buf \<Rightarrow> nat \<Rightarrow> nat option" where
  "trim_left str left = do {
     c \<leftarrow> rd str left;
     (if c \<le> 0x20 \<and> c \<noteq> 0 then trim_left str (Suc left) else Some left)
   }"
  by pat_completeness auto
termination
  by (relation "measure (\<lambda>(str, left). length str - left)") (auto simp: rd_eq_Some_iff)

definition trim :: "buf option \<Rightarrow> buf option option" where
  "trim sp =
     (case sp of
        None \<Rightarrow> Some None
      | Some str \<Rightarrow> do {
          len \<leftarrow> strlen str;
          right \<leftarrow> trim_right str (int len);
          let right = right + 1;
          str \<leftarrow> wri str right 0;
          left \<leftarrow> trim_left str 0;
          str \<leftarrow> (if left \<noteq> 0 then mem_move str 0 left (nat (right - int left + 1)) else Some str);
          Some (Some str)
        })"

section \<open>Bounded copies\<close>

fun strlcpy_copy :: "buf \<Rightarrow> nat \<Rightarrow> buf \<Rightarrow> nat \<Rightarrow> (buf \<times> nat \<times> buf \<times> nat) option" where
  "strlcpy_copy dst d s 0 = Some (dst, d, s, 0)"
| "strlcpy_copy dst d s (Suc n) =
     (if n = 0 then Some (dst, d, s, 0)
      else case s of
        [] \<Rightarrow> None
      | c # s' \<Rightarrow> do {
          dst' \<leftarrow> wr dst d c;
          (if c = 0 then Some (dst', Suc d, s', n) else strlcpy_copy dst' (Suc d) s' n)
        })"

fun strlcpy_skip :: "buf \<Rightarrow> buf option" where
  "strlcpy_skip [] = None"
| "strlcpy_skip (c # s) = (if c = 0 then Some s else strlcpy_skip s)"

definition strlcpy :: "buf \<Rightarrow> buf \<Rightarrow> nat \<Rightarrow> (buf \<times> nat) option" where
  "strlcpy dst src siz = do {
     (dst, d, s, n) \<leftarrow> strlcpy_copy dst 0 src siz;
     (if n = 0 then do {
        dst \<leftarrow> (if siz \<noteq> 0 then wr dst d 0 else Some dst);
        s \<leftarrow> strlcpy_skip s;
        Some (dst, length src - length s - 1)
      } else Some (dst, length src - length s - 1))
   }"

text \<open>The destination cursor is an offset into its buffer; \<open>sz\<close> is the room behind it.\<close>

definition strappend :: "buf \<Rightarrow> nat \<Rightarrow> nat \<Rightarrow> buf \<Rightarrow> (buf \<times> nat \<times> nat) option" where
  "strappend b off sz src = do {
     (tail, len) \<leftarrow> strlcpy (drop off b) src sz;
     let len = (if sz \<le> len then sz else len);
     Some (take off b @ tail, off + len, sz - len)
   }"

definition string_copy_allow_null :: "buf \<Rightarrow> buf option \<Rightarrow> nat \<Rightarrow> (buf \<times> nat) option" where
  "string_copy_allow_null dst src sz =
     (case src of
        None \<Rightarrow> do { dst \<leftarrow> wr dst 0 0; Some (dst, 0) }
      | Some s \<Rightarrow> strlcpy dst s sz)"

section \<open>URL escaping\<close>

definition hex_digit :: "int \<Rightarrow> byte" where
  "hex_digit h = to_char (if h > 9 then 65 - 10 + h else 48 + h)"

fun strtourl :: "buf \<Rightarrow> nat \<Rightarrow> buf \<Rightarrow> buf option" where
  "strtourl url j [] = None"
| "strtourl url j (b # str) =
     (let c = schar b in
      if c = 0 then wr url j 0
      else if isprint c \<and> c \<noteq> 32 \<and> c \<noteq> 37 then do {
        url \<leftarrow> wr url j b;
        strtourl url (j + 1) str
      } else do {
        url \<leftarrow> wr url j 37;
        url \<leftarrow> wr url (j + 1) (hex_digit (c_div c 16));
        url \<leftarrow> wr url (j + 2) (hex_digit (c_mod c 16));
        strtourl url (j + 3) str
      })"

section \<open>Printable characters and GBK repair\<close>

definition isprint2 :: "byte \<Rightarrow> bool" where
  "isprint2 c \<longleftrightarrow> (c AND 0x80 \<noteq> 0 \<and> c \<noteq> 0xFF) \<or> isprint (uint c)"

function non_printable_gbk_loop :: "buf \<Rightarrow> nat \<Rightarrow> nat \<Rightarrow> buf option" where
  "non_printable_gbk_loop b i j = do {
     c \<leftarrow> rd b i;
     (if c \<noteq> 0 then
        (if isprint2 c then do { b \<leftarrow> wr b j c; non_printable_gbk_loop b (Suc i) (Suc j) }
         else non_printable_gbk_loop b (Suc i) j)
      else wr b j 0)
   }"
  by pat_completeness auto
termination
  by (relation "measure (\<lambda>(b, i, j). length b - i)") (auto simp: rd_eq_Some_iff wr_eq_Some_iff)

definition string_remove_non_printable_gbk :: "buf option \<Rightarrow> buf option option" where
  "string_remove_non_printable_gbk sp =
     (case sp of None \<Rightarrow> Some None | Some b \<Rightarrow> map_option Some (non_printable_gbk_loop b 0 0))"

datatype gbk_state = GBK_FIRST | GBK_SECOND

function valid_gbk_loop :: "byte \<Rightarrow> buf \<Rightarrow> nat \<Rightarrow> nat \<Rightarrow> gbk_state \<Rightarrow> nat \<Rightarrow> (buf \<times> nat \<times> gbk_state \<times> nat) option" where
  "valid_gbk_loop rep b s len st count =
     (if len = 0 then Some (b, s, st, count)
      else do {
        c \<leftarrow> rd b s;
        (case st of
           GBK_FIRST \<Rightarrow>
             if c = 0x80 \<or> c = 0xff then do {
               b \<leftarrow> wr b s rep;
               valid_gbk_loop rep b (Suc s) (len - 1) GBK_FIRST count
             } else if c AND 0x80 \<noteq> 0 then valid_gbk_loop rep b (Suc s) (len - 1) GBK_SECOND count
             else valid_gbk_loop rep b (Suc s) (len - 1) GBK_FIRST count
         | GBK_SECOND \<Rightarrow>
             if c < 0x40 \<or> c = 0x7f then do {
               b \<leftarrow> wri b (int s - 1) rep;
               valid_gbk_loop rep b s len GBK_FIRST (Suc count)
             } else valid_gbk_loop rep b (Suc s) (len - 1) GBK_FIRST count)
      })"
  by pat_completeness auto
termination
  by (relation "measure (\<lambda>(rep, b, s, len, st, count). 2 * len + (if st = GBK_SECOND then 1 else 0))") auto

definition valid_gbk :: "buf \<Rightarrow> nat \<Rightarrow> byte \<Rightarrow> (buf \<times> nat) option" where
  "valid_gbk str len rep = do {
     (b, s, st, count) \<leftarrow> valid_gbk_loop rep str 0 len GBK_FIRST 0;
     b \<leftarrow> (if st = GBK_SECOND then wri b (int s - 1) rep else Some b);
     Some (b, count)
   }"

fun check_gbk_loop :: "buf \<Rightarrow> nat \<Rightarrow> bool \<Rightarrow> nat option" where
  "check_gbk_loop [] i gbk = None"
| "check_gbk_loop (c # title) i gbk =
     (if c = 0 then Some (if gbk then i - 1 else i)
      else check_gbk_loop title (Suc i) (\<not> gbk \<and> c AND 0x80 \<noteq> 0))"

definition check_gbk :: "buf \<Rightarrow> nat option" where
  "check_gbk title = check_gbk_loop title 0 False"

definition valid_title_gbk :: "buf \<Rightarrow> buf option" where
  "valid_title_gbk title = do {
     e \<leftarrow> check_gbk title;
     title \<leftarrow> wr title e 0;
     n \<leftarrow> strlen title;
     (title, _) \<leftarrow> valid_gbk title n 63;
     Some title
   }"

fun get_line_end :: "buf \<Rightarrow> nat" where
  "get_line_end [] = 0"
| "get_line_end (c # s) = (if c = 10 then 1 else Suc (get_line_end s))"

section \<open>Bounded copy: what ends up in the buffer\<close>

lemma strlcpy_copy_short:
  "terminated s \<Longrightarrow> Suc (length (cstr s)) < n \<Longrightarrow> d + n \<le> length dst \<Longrightarrow>
   strlcpy_copy dst d s n =
     Some (take d dst @ cstr s @ 0 # drop (Suc (d + length (cstr s))) dst,
           Suc (d + length (cstr s)), drop (Suc (length (cstr s))) s, n - Suc (length (cstr s)))"
proof (induction dst d s n rule: strlcpy_copy.induct)
  case (2 dst d s n)
  then obtain c s' where s: "s = c # s'" and n: "n \<noteq> 0" by (cases s) auto
  have d: "d < length dst" using "2.prems"(3) n by simp
  show ?case
  proof (cases "c = 0")
    case True
    with s n d show ?thesis by (simp add: wr_Some upd_conv_take_nth_drop)
  next
    case False
    have "strlcpy_copy (dst[d := c]) (Suc d) s' n =
      Some (take (Suc d) (dst[d := c]) @ cstr s' @ 0 # drop (Suc (Suc d + length (cstr s'))) (dst[d := c]),
        Suc (Suc d + length (cstr s')), drop (Suc (length (cstr s'))) s', n - Suc (length (cstr s')))"
      using False s n d "2.prems" by (intro "2.IH") (simp_all add: wr_Some)
    with False s n d show ?thesis by (simp add: wr_Some take_snoc_update)
  qed
qed simp

lemma strlcpy_copy_long:
  "terminated s \<Longrightarrow> 0 < n \<Longrightarrow> n \<le> Suc (length (cstr s)) \<Longrightarrow> d + n \<le> length dst \<Longrightarrow>
   strlcpy_copy dst d s n =
     Some (take d dst @ take (n - 1) (cstr s) @ drop (d + (n - 1)) dst, d + (n - 1), drop (n - 1) s, 0)"
proof (induction dst d s n rule: strlcpy_copy.induct)
  case (2 dst d s n)
  show ?case
  proof (cases n)
    case (Suc m)
    then obtain c s' where s: "s = c # s'" "c \<noteq> 0" using "2.prems" by (cases s) (auto split: if_splits)
    have d: "d < length dst" using "2.prems"(4) Suc by simp
    have "strlcpy_copy (dst[d := c]) (Suc d) s' n =
      Some (take (Suc d) (dst[d := c]) @ take (n - 1) (cstr s') @ drop (Suc d + (n - 1)) (dst[d := c]),
        Suc d + (n - 1), drop (n - 1) s', 0)"
      using s Suc d "2.prems" by (intro "2.IH") (simp_all add: wr_Some)
    with s Suc d show ?thesis by (simp add: wr_Some take_snoc_update)
  qed simp
qed simp

lemma strlcpy_skip_spec: "terminated s \<Longrightarrow> strlcpy_skip s = Some (drop (Suc (length (cstr s))) s)"
  by (induction s) auto

lemma cstr_drop: "n \<le> length (cstr s) \<Longrightarrow> cstr (drop n s) = drop n (cstr s) \<and> (terminated s \<longrightarrow> terminated (drop n s))"
proof (induction s arbitrary: n)
  case (Cons c s)
  then show ?case by (cases n) (auto split: if_splits)
qed simp

lemma strlcpy_value:
  assumes "terminated src" and "siz \<le> length dst"
  shows "strlcpy dst src siz =
    Some (if siz = 0 then dst
          else let xs = take (siz - 1) (cstr src) in xs @ 0 # drop (Suc (length xs)) dst,
          length (cstr src))"
proof -
  let ?x = "cstr src"
  have len: "length ?x < length src" by (rule cstr_length_less [OF assms(1)])
  consider "siz = 0" | "Suc (length ?x) < siz" | "0 < siz" "siz \<le> Suc (length ?x)" by linarith
  then show ?thesis
  proof cases
    case 1
    then show ?thesis using assms len by (simp add: strlcpy_def strlcpy_skip_spec)
  next
    case 2
    then show ?thesis
      using assms strlcpy_copy_short [of src siz 0 dst] len by (simp add: strlcpy_def Let_def)
  next
    case 3
    have copy: "strlcpy_copy dst 0 src siz =
        Some (take (siz - 1) ?x @ drop (siz - 1) dst, siz - 1, drop (siz - 1) src, 0)"
      using assms 3 strlcpy_copy_long [of src siz 0 dst] by simp
    have lt: "length (take (siz - 1) ?x) = siz - 1" using 3 by simp
    have tl: "cstr (drop (siz - 1) src) = drop (siz - 1) ?x" "terminated (drop (siz - 1) src)"
      using cstr_drop [of "siz - 1" src] 3 assms(1) by auto
    have "wr (take (siz - 1) ?x @ drop (siz - 1) dst) (siz - 1) 0 =
        Some (take (siz - 1) ?x @ 0 # drop siz dst)"
      using 3 assms(2) lt by (simp add: wr_def list_update_append drop_Suc [symmetric] Cons_nth_drop_Suc [symmetric] min_def split: if_splits)
    with copy tl 3 len lt show ?thesis
      by (simp add: strlcpy_def strlcpy_skip_spec Let_def)
  qed
qed

text \<open>Copying a NUL-terminated string into a buffer with room for \<open>siz\<close> bytes writes at most \<open>siz\<close>
  of them: the longest prefix of the string that leaves room for the terminator, and the terminator.  The bytes
  behind it are untouched, and the result is the length of the source, so that truncation can be detected.\<close>

theorem strlcpy_spec:
  assumes "terminated src" and "siz \<le> length dst"
  shows "strlcpy dst src siz =
    Some (if siz = 0 then dst
          else let xs = take (siz - 1) (cstr src) in xs @ 0 # drop (Suc (length xs)) dst,
          length (cstr src))"
  by (rule strlcpy_value [OF assms])

theorem strlcpy_spec_witness:
  "strlcpy [9, 9, 9, 9] [65, 66, 67, 68, 0] 3 = Some ([65, 66, 0, 9], 4)"
  using strlcpy_spec [of "[65, 66, 67, 68, 0]" 3 "[9, 9, 9, 9]"] by simp

section \<open>Loops over a source that may be the destination\<close>

lemma src_at_drop: "drop i (src_buf src dst) = c # ys \<Longrightarrow> src_at src dst i = Some c"
  by (cases src) (auto simp: rd_drop)

lemma src_buf_step:
  assumes "drop i (src_buf src dst) = c # ys" and "src = Same \<Longrightarrow> j \<le> i"
  shows "drop (Suc i) (src_buf src (dst[j := v])) = ys"
proof -
  have "drop (Suc i) (src_buf src dst) = ys"
    using assms(1) by (rule drop_step)
  then show ?thesis using assms(2) by (cases src) auto
qed

declare strmap_loop.simps [simp del] remove_ansi_loop.simps [simp del]

lemma strmap_loop_spec:
  "drop i (src_buf src dst) = xs @ 0 # ys \<Longrightarrow> 0 \<notin> set xs \<Longrightarrow> i + length xs < length dst \<Longrightarrow>
   strmap_loop f src dst i =
     Some (take i dst @ map (\<lambda>c. to_char (f (schar c))) xs @ 0 # drop (Suc (i + length xs)) dst)"
proof (induction xs arbitrary: i dst)
  case Nil
  then have "src_at src dst i = Some 0" by (simp add: src_at_drop)
  with Nil show ?case
    by (simp add: strmap_loop.simps [of f src dst i] wr_Some upd_conv_take_nth_drop)
next
  case (Cons c xs)
  let ?v = "to_char (f (schar c))"
  have c: "src_at src dst i = Some c" using Cons.prems(1) by (simp add: src_at_drop)
  have "drop (Suc i) (src_buf src (dst[i := ?v])) = xs @ 0 # ys"
    using Cons.prems(1) by (intro src_buf_step) auto
  then have "strmap_loop f src (dst[i := ?v]) (Suc i) =
      Some (take (Suc i) (dst[i := ?v]) @ map (\<lambda>c. to_char (f (schar c))) xs @
        0 # drop (Suc (Suc i + length xs)) (dst[i := ?v]))"
    using Cons.prems by (intro Cons.IH) auto
  with c Cons.prems show ?case
    by (simp add: strmap_loop.simps [of f src dst i] wr_Some take_snoc_update)
qed

text \<open>What removing the control codes means: an escape starts one, the next letter ends it.\<close>

fun strip_ansi :: "bool \<Rightarrow> buf \<Rightarrow> buf" where
  "strip_ansi flag [] = []"
| "strip_ansi flag (c # cs) =
     (if c = 27 then strip_ansi True cs
      else if \<not> flag then c # strip_ansi False cs
      else strip_ansi (\<not> isalpha (schar c)) cs)"

lemma strip_ansi_length: "length (strip_ansi flag xs) \<le> length xs"
  by (induction flag xs rule: strip_ansi.induct) auto

lemma strip_ansi_set: "set (strip_ansi flag xs) \<subseteq> set xs - {27}"
  by (induction flag xs rule: strip_ansi.induct) auto

lemma strip_ansi_id: "27 \<notin> set xs \<Longrightarrow> strip_ansi False xs = xs"
  by (induction xs) auto

lemma remove_ansi_loop_spec:
  "drop i (src_buf src dst) = xs @ 0 # ys \<Longrightarrow> 0 \<notin> set xs \<Longrightarrow>
   j + length (strip_ansi flag xs) < length dst \<Longrightarrow> (src = Same \<Longrightarrow> j \<le> i) \<Longrightarrow>
   remove_ansi_loop src dst i j flag =
     Some (take j dst @ strip_ansi flag xs @ 0 # drop (Suc (j + length (strip_ansi flag xs))) dst)"
proof (induction xs arbitrary: i j dst flag)
  case Nil
  then have "src_at src dst i = Some 0" by (simp add: src_at_drop)
  with Nil show ?case
    by (simp add: remove_ansi_loop.simps [of src dst i] wr_Some upd_conv_take_nth_drop)
next
  case (Cons c xs)
  have c: "src_at src dst i = Some c" "c \<noteq> 0" using Cons.prems(1,2) by (auto simp: src_at_drop)
  have next1: "drop (Suc i) (src_buf src dst) = xs @ 0 # ys"
    using Cons.prems(1) by (simp add: drop_step)
  show ?case
  proof (cases "c \<noteq> 27 \<and> \<not> flag")
    case True
    have nx: "drop (Suc i) (src_buf src (dst[j := c])) = xs @ 0 # ys"
      using Cons.prems(1,4) by (intro src_buf_step) auto
    have jl: "j < length dst" using Cons.prems(3) True by simp
    have "remove_ansi_loop src (dst[j := c]) (Suc i) (Suc j) False =
        Some (take (Suc j) (dst[j := c]) @ strip_ansi False xs @
          0 # drop (Suc (Suc j + length (strip_ansi False xs))) (dst[j := c]))"
      using Cons.prems True nx by (intro Cons.IH) auto
    with True c jl show ?thesis
      by (simp add: remove_ansi_loop.simps [of src dst i] wr_Some take_snoc_update)
  next
    case False
    let ?fl = "if c = 27 then True else \<not> isalpha (schar c)"
    have "remove_ansi_loop src dst (Suc i) j ?fl =
        Some (take j dst @ strip_ansi ?fl xs @ 0 # drop (Suc (j + length (strip_ansi ?fl xs))) dst)"
      using Cons.prems False next1 by (intro Cons.IH) (auto split: if_splits)
    with False c show ?thesis
      by (auto simp: remove_ansi_loop.simps [of src dst i] split: if_splits)
  qed
qed

text \<open>Removing the ANSI control codes of a NUL-terminated string writes exactly its characters outside
  the codes and a terminator, whether the destination is another buffer that is large enough or the string
  itself; no escape character is left.\<close>

theorem remove_ansi_correct:
  assumes "terminated (src_buf src dst)" and "length (strip_ansi False (cstr (src_buf src dst))) < length dst"
  shows "\<exists>dst'. string_remove_ansi_control_code (Some dst) (Some src) = Some (Some dst') \<and>
    terminated dst' \<and> cstr dst' = strip_ansi False (cstr (src_buf src dst)) \<and> 27 \<notin> set (cstr dst')"
proof -
  let ?xs = "cstr (src_buf src dst)"
  have "drop 0 (src_buf src dst) = ?xs @ 0 # drop (Suc (length ?xs)) (src_buf src dst)"
    using terminated_split [OF assms(1)] by simp
  from remove_ansi_loop_spec [OF this] assms(2)
  have run: "remove_ansi_loop src dst 0 0 False =
      Some (strip_ansi False ?xs @ 0 # drop (Suc (length (strip_ansi False ?xs))) dst)" by simp
  have "0 \<notin> set (strip_ansi False ?xs)" and esc: "27 \<notin> set (strip_ansi False ?xs)"
    using strip_ansi_set [of False ?xs] cstr_no_nul [of "src_buf src dst"] by blast+
  with run show ?thesis by (simp add: string_remove_ansi_control_code_def)
qed

theorem remove_ansi_correct_witness:
  "\<exists>dst'. string_remove_ansi_control_code (Some [65, 27, 91, 109, 66, 0]) (Some Same) = Some (Some dst') \<and>
    terminated dst' \<and> cstr dst' = [65, 66] \<and> 27 \<notin> set (cstr dst')"
  using remove_ansi_correct [of Same "[65, 27, 91, 109, 66, 0]"]
  by (simp add: isalpha_def isupper_def islower_def)

section \<open>Trimming: the result, and where it is undefined\<close>

declare trim_right.simps [simp del] trim_left.simps [simp del]

abbreviation blank :: "byte \<Rightarrow> bool" where
  "blank c \<equiv> c \<le> 0x20"

definition strip_right :: "buf \<Rightarrow> buf" where
  "strip_right xs = rev (dropWhile blank (rev xs))"

lemma strip_right_split: "\<not> blank c \<Longrightarrow> \<forall>z\<in>set zs. blank z \<Longrightarrow> strip_right (ys @ c # zs) = ys @ [c]"
  unfolding strip_right_def by (simp add: dropWhile_append)

lemma trim_right_hit:
  "n < length str \<Longrightarrow> k \<le> n \<Longrightarrow> \<not> blank (str ! k) \<Longrightarrow> (\<And>i. k < i \<Longrightarrow> i \<le> n \<Longrightarrow> blank (str ! i)) \<Longrightarrow>
   trim_right str (int n) = Some (int k)"
proof (induction n)
  case 0
  then show ?case by (simp add: trim_right.simps [of str 0] rdi_def rd_def)
next
  case (Suc n)
  show ?case
  proof (cases "k = Suc n")
    case True
    with Suc.prems show ?thesis
      by (simp add: trim_right.simps [of str "1 + int n"] rdi_def rd_def nat_add_distrib)
  next
    case False
    then have "blank (str ! Suc n)" and "k \<le> n" using Suc.prems by auto
    moreover have "trim_right str (int n) = Some (int k)"
      using Suc \<open>k \<le> n\<close> by auto
    ultimately show ?thesis
      using Suc.prems by (simp add: trim_right.simps [of str "1 + int n"] rdi_def rd_def nat_add_distrib)
  qed
qed

lemma trim_right_underrun:
  "n < length str \<Longrightarrow> (\<And>i. i \<le> n \<Longrightarrow> blank (str ! i)) \<Longrightarrow> trim_right str (int n) = None"
proof (induction n)
  case 0
  then show ?case by (simp add: trim_right.simps [of str] rdi_def rd_def)
next
  case (Suc n)
  then have "trim_right str (int n) = None" by simp
  with Suc.prems show ?case
    by (simp add: trim_right.simps [of str "1 + int n"] rdi_def rd_def nat_add_distrib)
qed

lemma trim_left_spec:
  "drop i str = bs @ c # ys \<Longrightarrow> \<forall>b\<in>set bs. blank b \<and> b \<noteq> 0 \<Longrightarrow> c = 0 \<or> \<not> blank c \<Longrightarrow>
   trim_left str i = Some (i + length bs)"
proof (induction bs arbitrary: i)
  case Nil
  then have "rd str i = Some c" by (simp add: rd_drop)
  with Nil show ?case by (auto simp: trim_left.simps [of str i])
next
  case (Cons b bs)
  then have "rd str i = Some b" by (simp add: rd_drop)
  moreover have "drop (Suc i) str = bs @ c # ys"
    using Cons.prems(1) by (simp add: drop_step)
  ultimately show ?case using Cons by (simp add: trim_left.simps [of str i])
qed


lemma strip_right_nonblank:
  assumes "\<exists>c\<in>set xs. \<not> blank c"
  shows "\<exists>ys c zs. xs = ys @ c # zs \<and> \<not> blank c \<and> (\<forall>z\<in>set zs. blank z) \<and> strip_right xs = ys @ [c]"
proof -
  obtain ys c zs where xs: "xs = ys @ c # zs" and c: "\<not> blank c" and zs: "\<forall>z\<in>set zs. \<not> \<not> blank z"
    using assms split_list_last_prop [of xs "\<lambda>c. \<not> blank c"] by auto
  then show ?thesis using strip_right_split [of c zs ys] by blast
qed

lemma trim_right_string:
  assumes "terminated str" "cstr str = ys @ c # zs" "\<not> blank c" "\<forall>z\<in>set zs. blank z"
  shows "trim_right str (int (length (cstr str))) = Some (int (length ys))"
proof (rule trim_right_hit)
  have len: "length (cstr str) < length str" by (rule cstr_length_less [OF assms(1)])
  then show "length (cstr str) < length str" .
  show "length ys \<le> length (cstr str)" using assms(2) by simp
  have "str ! length ys = c" using assms(2) nth_cstr [of "length ys" str] by simp
  with assms(3) show "\<not> blank (str ! length ys)" by simp
  fix i assume i: "length ys < i" "i \<le> length (cstr str)"
  show "blank (str ! i)"
  proof (cases "i = length (cstr str)")
    case True
    then show ?thesis using nth_length_cstr [OF assms(1)] by simp
  next
    case False
    then have "str ! i = cstr str ! i" using i nth_cstr [of i str] by simp
    also have "\<dots> = zs ! (i - Suc (length ys))" using assms(2) i by (simp add: nth_append)
    also have "\<dots> \<in> set zs" using assms(2) i False by auto
    finally show ?thesis using assms(4) by blast
  qed
qed

lemma trim_right_blank:
  assumes "terminated str" "\<forall>c\<in>set (cstr str). blank c"
  shows "trim_right str (int (length (cstr str))) = None"
proof (rule trim_right_underrun)
  show "length (cstr str) < length str" by (rule cstr_length_less [OF assms(1)])
  fix i assume "i \<le> length (cstr str)"
  then show "blank (str ! i)"
    using assms nth_cstr [of i str] nth_length_cstr [OF assms(1)] nth_mem [of i "cstr str"]
    by (cases "i = length (cstr str)") auto
qed

lemma strip_right_length: "length (strip_right xs) \<le> length xs"
  unfolding strip_right_def using length_dropWhile_le [of blank "rev xs"] by simp

lemma rtrim_string:
  assumes "terminated str" "\<exists>c\<in>set (cstr str). \<not> blank c"
  shows "trim_right str (int (length (cstr str))) = Some (int (length (strip_right (cstr str))) - 1)"
    and "wri str (int (length (strip_right (cstr str)))) 0 =
      Some (strip_right (cstr str) @ 0 # drop (Suc (length (strip_right (cstr str)))) str)"
proof -
  obtain ys c zs where xs: "cstr str = ys @ c # zs" "\<not> blank c" "\<forall>z\<in>set zs. blank z"
      and st: "strip_right (cstr str) = ys @ [c]"
    using strip_right_nonblank [OF assms(2)] by blast
  show "trim_right str (int (length (cstr str))) = Some (int (length (strip_right (cstr str))) - 1)"
    using trim_right_string [OF assms(1) xs] st by simp
  have "take (Suc (length ys)) str = ys @ [c]"
    using arg_cong [OF terminated_split [OF assms(1)], of "take (Suc (length ys))"] xs(1) by simp
  moreover have "Suc (length ys) < length str"
    using xs(1) cstr_length_less [OF assms(1)] by simp
  ultimately show "wri str (int (length (strip_right (cstr str)))) 0 =
      Some (strip_right (cstr str) @ 0 # drop (Suc (length (strip_right (cstr str)))) str)"
    using st by (simp only: wri_of_nat) (simp add: wr_Some upd_conv_take_nth_drop)
qed

lemma dropWhile_blank_split:
  assumes "\<exists>c\<in>set xs. \<not> blank c"
  shows "\<exists>c rest. xs = takeWhile blank xs @ c # rest \<and> \<not> blank c \<and> dropWhile blank xs = c # rest"
proof -
  from assms have "dropWhile blank xs \<noteq> []" by (simp add: dropWhile_eq_Nil_conv)
  then obtain c rest where d: "dropWhile blank xs = c # rest" by (cases "dropWhile blank xs") auto
  then have "\<not> blank c" using hd_dropWhile [of blank xs] by simp
  with d show ?thesis using takeWhile_dropWhile_id [of blank xs] by metis
qed

text \<open>On a NUL-terminated string with a character above the blank, trimming removes exactly the leading
  and the trailing characters of code at most 0x20, in place; on a string with no such character (the empty string
  too) the scan from the right reads the byte before the buffer, which is undefined.\<close>

theorem trim_correct:
  assumes "terminated str"
  shows "if \<exists>c\<in>set (cstr str). \<not> blank c
    then \<exists>b. trim (Some str) = Some (Some b) \<and> length b = length str \<and> terminated b \<and>
      cstr b = dropWhile blank (strip_right (cstr str))
    else trim (Some str) = None"
proof (cases "\<exists>c\<in>set (cstr str). \<not> blank c")
  case False
  then have "trim_right str (int (length (cstr str))) = None"
    using trim_right_blank [OF assms] by auto
  with False show ?thesis by (simp add: trim_def strlen_terminated [OF assms])
next
  case True
  let ?r = "strip_right (cstr str)"
  let ?b = "?r @ 0 # drop (Suc (length ?r)) str"
  have len: "length ?b = length str"
    using strip_right_length [of "cstr str"] cstr_length_less [OF assms] by simp
  have sub: "set ?r \<subseteq> set (cstr str)"
    unfolding strip_right_def using set_dropWhileD [of _ blank "rev (cstr str)"] by auto
  then have nul: "0 \<notin> set ?r" using cstr_no_nul [of str] by blast
  obtain ys c zs where "?r = ys @ [c]" "\<not> blank c" using strip_right_nonblank [OF True] by blast
  then have "\<exists>c\<in>set ?r. \<not> blank c" by simp
  from dropWhile_blank_split [OF this] obtain d rest where
    d: "?r = takeWhile blank ?r @ d # rest" "\<not> blank d" "dropWhile blank ?r = d # rest" by blast
  let ?l = "length (takeWhile blank ?r)"
  have "trim_left ?b 0 = Some (0 + ?l)"
  proof (rule trim_left_spec [where ys = "rest @ 0 # drop (Suc (length ?r)) str"])
    show "drop 0 ?b = takeWhile blank ?r @ d # rest @ 0 # drop (Suc (length ?r)) str"
      using d(1) by (metis append.assoc append_Cons drop0)
    show "\<forall>b\<in>set (takeWhile blank ?r). blank b \<and> b \<noteq> 0"
      using nul set_takeWhileD [of _ blank ?r] by blast
  qed (use d in simp)
  then have left: "trim_left ?b 0 = Some ?l" by simp
  have drl: "drop ?l ?r = d # rest" using d(3) by (metis dropWhile_eq_drop)
  have le: "?l \<le> length ?r" by (rule length_takeWhile_le)
  have lr: "length ?r = ?l + Suc (length rest)"
    using arg_cong [OF drl, of length] le by simp
  have "nat (int (length ?r) - int ?l + 1) = Suc (Suc (length rest))" using lr by simp
  then have mv: "mem_move ?b 0 ?l (nat (int (length ?r) - int ?l + 1)) =
      Some (d # rest @ 0 # drop (Suc (Suc (length rest))) ?b)"
    using le drl len lr by (simp add: mem_move_Some)
  have base: "trim (Some str) =
      (if ?l \<noteq> 0 then map_option Some (mem_move ?b 0 ?l (nat (int (length ?r) - int ?l + 1))) else Some (Some ?b))"
    using rtrim_string [OF assms True] left
    by (simp add: trim_def strlen_terminated [OF assms] Let_def map_conv_bind_option comp_def algebra_simps cong: if_cong)
  show ?thesis
  proof (cases "?l = 0")
    case True
    then have "dropWhile blank ?r = ?r" by (metis dropWhile_eq_drop drop0)
    with True base len nul \<open>\<exists>c\<in>set (cstr str). \<not> blank c\<close> show ?thesis by simp
  next
    case False
    have dr: "d \<noteq> 0" "0 \<notin> set rest" using nul d(1) by (metis Un_iff list.set_intros set_append)+
    have "length (d # rest @ 0 # drop (Suc (Suc (length rest))) ?b) = length str"
      using mem_move_length [OF mv] len by simp
    with False base mv dr d(3) True show ?thesis by simp
  qed
qed

theorem trim_correct_witness:
  "\<exists>b. trim (Some [32, 65, 32, 66, 10, 0]) = Some (Some b) \<and>
    length b = length [32 :: byte, 65, 32, 66, 10, 0] \<and> terminated b \<and> cstr b = [65, 32, 66]"
  using trim_correct [of "[32, 65, 32, 66, 10, 0]"] by (simp add: strip_right_def)

section \<open>GBK repair\<close>

text \<open>A text is GBK when every byte with the high bit set leads a pair whose second byte is in range.\<close>

fun gbk_ok :: "buf \<Rightarrow> bool" where
  "gbk_ok [] \<longleftrightarrow> True"
| "gbk_ok (c # cs) \<longleftrightarrow>
     (if c AND 0x80 = 0 then gbk_ok cs
      else c \<noteq> 0x80 \<and> c \<noteq> 0xff \<and>
        (case cs of [] \<Rightarrow> False | d # ds \<Rightarrow> \<not> (d < 0x40 \<or> d = 0x7f) \<and> gbk_ok ds))"

fun gbk_repair :: "byte \<Rightarrow> buf \<Rightarrow> buf" where
  "gbk_repair rep [] = []"
| "gbk_repair rep (c # cs) =
     (if c = 0x80 \<or> c = 0xff then rep # gbk_repair rep cs
      else if c AND 0x80 = 0 then c # gbk_repair rep cs
      else case cs of
        [] \<Rightarrow> [rep]
      | d # ds \<Rightarrow> if d < 0x40 \<or> d = 0x7f then rep # gbk_repair rep cs else c # d # gbk_repair rep ds)"

lemma gbk_repair_ok: "rep AND 0x80 = 0 \<Longrightarrow> gbk_ok (gbk_repair rep xs)"
proof (induction rep xs rule: gbk_repair.induct)
  case (2 rep c cs)
  then show ?case by (cases cs) auto
qed simp

lemma gbk_repair_id: "gbk_ok xs \<Longrightarrow> gbk_repair rep xs = xs"
proof (induction xs rule: gbk_ok.induct)
  case (2 c cs)
  then show ?case by (cases cs) (auto split: if_splits)
qed simp

lemma gbk_repair_length [simp]: "length (gbk_repair rep xs) = length xs"
proof (induction rep xs rule: gbk_repair.induct)
  case (2 rep c cs)
  then show ?case by (cases cs) auto
qed simp

definition gbk_finish :: "byte \<Rightarrow> (buf \<times> nat \<times> gbk_state \<times> nat) option \<Rightarrow> (buf \<times> nat) option" where
  "gbk_finish rep r = do {
     (b, s, st, count) \<leftarrow> r;
     b \<leftarrow> (if st = GBK_SECOND then wri b (int s - 1) rep else Some b);
     Some (b, count)
   }"

declare valid_gbk_loop.simps [simp del]

lemmas valid_gbk_unroll =
  valid_gbk_loop.simps [of rep b s "Suc len" GBK_FIRST count for rep b s len count]
  valid_gbk_loop.simps [of rep b s "Suc len" GBK_SECOND count for rep b s len count]
  valid_gbk_loop.simps [of rep b s 0 st count for rep b s st count]

lemma gbk_finish_loop:
  "\<exists>n. gbk_finish rep (valid_gbk_loop rep (pre @ xs @ post) (length pre) (length xs) GBK_FIRST count) =
     Some (pre @ gbk_repair rep xs @ post, n)"
proof (induction rep xs arbitrary: pre count rule: gbk_repair.induct)
  case (1 rep)
  then show ?case by (simp add: valid_gbk_unroll gbk_finish_def)
next
  case (2 rep c cs)
  note at = wr_def wri_def rd_def nth_append list_update_append nat_add_distrib nat_diff_distrib
  consider "c = 0x80 \<or> c = 0xff" | "c \<noteq> 0x80" "c \<noteq> 0xff" "c AND 0x80 = 0"
    | "c \<noteq> 0x80" "c \<noteq> 0xff" "c AND 0x80 \<noteq> 0" by blast
  then show ?case
  proof cases
    case 1
    then show ?thesis using "2.IH"(1) [of "pre @ [rep]" count] by (simp add: valid_gbk_unroll at)
  next
    case 2
    then show ?thesis using "2.IH"(2) [of "pre @ [c]" count] by (simp add: valid_gbk_unroll at)
  next
    case 3
    show ?thesis
    proof (cases cs)
      case Nil
      with 3 show ?thesis by (simp add: valid_gbk_unroll at gbk_finish_def)
    next
      case (Cons d ds)
      show ?thesis
      proof (cases "d < 0x40 \<or> d = 0x7f")
        case True
        then show ?thesis using 3 Cons "2.IH"(3) [of d ds "pre @ [rep]" "Suc count"]
          by (simp add: valid_gbk_unroll at)
      next
        case False
        then show ?thesis using 3 Cons "2.IH"(4) [of d ds "pre @ [c, d]" count]
          by (simp add: valid_gbk_unroll at)
      qed
    qed
  qed
qed

text \<open>Repairing the first \<open>len\<close> bytes of a buffer with an ASCII replacement leaves them well-formed GBK
  of the same length, keeps a text that was well-formed already, and does not touch the bytes behind.\<close>

theorem valid_gbk_repairs:
  assumes "len \<le> length str" and "rep AND 0x80 = 0"
  shows "\<exists>xs n. valid_gbk str len rep = Some (xs @ drop len str, n) \<and> length xs = len \<and> gbk_ok xs \<and>
    (gbk_ok (take len str) \<longrightarrow> xs = take len str)"
proof -
  have "valid_gbk str len rep = gbk_finish rep (valid_gbk_loop rep str 0 len GBK_FIRST 0)"
    by (simp add: valid_gbk_def gbk_finish_def)
  with gbk_finish_loop [of rep "[]" "take len str" "drop len str" 0] assms(1)
  obtain n where "valid_gbk str len rep = Some (gbk_repair rep (take len str) @ drop len str, n)"
    by (auto simp: min_absorb2)
  then show ?thesis using assms by (auto simp: gbk_repair_ok gbk_repair_id)
qed

theorem valid_gbk_repairs_witness:
  "\<exists>xs n. valid_gbk [0xB0, 0x20, 0x41, 0xB0, 0] 4 63 = Some (xs @ [0], n) \<and> length xs = 4 \<and> gbk_ok xs \<and>
    (gbk_ok [0xB0, 0x20, 0x41, 0xB0] \<longrightarrow> xs = [0xB0, 0x20, 0x41, 0xB0])"
  using valid_gbk_repairs [of 4 "[0xB0, 0x20, 0x41, 0xB0, 0]" 63] by (simp add: eval_nat_numeral)

section \<open>URL escaping\<close>

text \<open>Decoding percent escapes, as a receiver does.\<close>

definition hex_value :: "byte \<Rightarrow> nat" where
  "hex_value c = (if 48 \<le> c \<and> c \<le> 57 then unat c - 48 else if 65 \<le> c \<and> c \<le> 70 then unat c - 55 else 0)"

fun url_decode :: "buf \<Rightarrow> buf" where
  "url_decode (c # h # l # cs) =
     (if c = 37 then of_nat (16 * hex_value h + hex_value l) # url_decode cs else c # url_decode (h # l # cs))"
| "url_decode (c # cs) = c # url_decode cs"
| "url_decode [] = []"

definition url_escape :: "byte \<Rightarrow> buf" where
  "url_escape b = (let c = schar b in
     if isprint c \<and> c \<noteq> 32 \<and> c \<noteq> 37 then [b] else [37, hex_digit (c_div c 16), hex_digit (c_mod c 16)])"


lemma strtourl_spec:
  "0 \<notin> set xs \<Longrightarrow> j + length (concat (map url_escape xs)) < length url \<Longrightarrow>
   strtourl url j (xs @ 0 # ys) = Some (take j url @ concat (map url_escape xs) @
     0 # drop (Suc (j + length (concat (map url_escape xs)))) url)"
proof (induction xs arbitrary: url j)
  case Nil
  then show ?case by (simp add: wr_Some upd_conv_take_nth_drop)
next
  case (Cons b xs)
  let ?rest = "concat (map url_escape xs)"
  have b: "schar b \<noteq> 0" using Cons.prems(1) by (auto simp: signed_eq_0_iff)
  have esc: "length (url_escape b) = 1 \<or> length (url_escape b) = 3"
    by (simp add: url_escape_def Let_def)
  show ?case
  proof (cases "isprint (schar b) \<and> schar b \<noteq> 32 \<and> schar b \<noteq> 37")
    case True
    then have e: "url_escape b = [b]" by (simp add: url_escape_def)
    have "strtourl (url[j := b]) (j + 1) (xs @ 0 # ys) =
        Some (take (j + 1) (url[j := b]) @ ?rest @ 0 # drop (Suc (j + 1 + length ?rest)) (url[j := b]))"
      using Cons.prems e by (intro Cons.IH) auto
    with True b e Cons.prems(2) show ?thesis by (simp add: Let_def wr_Some take_snoc_update)
  next
    case False
    then have e: "url_escape b = [37, hex_digit (c_div (schar b) 16), hex_digit (c_mod (schar b) 16)]"
      by (auto simp: url_escape_def Let_def)
    let ?u = "url[j := 37, j + 1 := hex_digit (c_div (schar b) 16), j + 2 := hex_digit (c_mod (schar b) 16)]"
    have "strtourl ?u (j + 3) (xs @ 0 # ys) =
        Some (take (j + 3) ?u @ ?rest @ 0 # drop (Suc (j + 3 + length ?rest)) ?u)"
      using Cons.prems e by (intro Cons.IH) auto
    moreover have "take (j + 3) ?u = take j url @ url_escape b"
      using Cons.prems(2) e by (simp add: take_Suc_conv_app_nth eval_nat_numeral)
    ultimately show ?thesis using False b e Cons.prems(2) by (auto simp: Let_def wr_Some eval_nat_numeral)
  qed
qed

lemma hex_value_digit:
  assumes "0 \<le> h" and "h < 16"
  shows "hex_value (hex_digit h) = nat h"
proof -
  from assms have "h \<in> {0, 1, 2, 3, 4, 5, 6, 7, 8, 9, 10, 11, 12, 13, 14, 15}"
    by (simp only: insert_iff empty_iff) presburger
  then show ?thesis by (auto simp: hex_value_def hex_digit_def)
qed

lemma schar_ascii:
  assumes "b < 0x80"
  shows "schar b = int (unat b)"
proof -
  have "unat b < 128" using assms by (simp add: word_less_nat_alt)
  moreover have "n < 128 \<Longrightarrow> signed_take_bit 7 (int n) = int n" for n
    by (intro signed_take_bit_int_eq_self) auto
  ultimately have "signed_take_bit 7 (int (unat b)) = int (unat b)" by blast
  then show ?thesis by (simp add: sint_uint)
qed

lemma url_decode_hex:
  assumes "b < 0x80"
  shows "of_nat (16 * hex_value (hex_digit (c_div (schar b) 16)) + hex_value (hex_digit (c_mod (schar b) 16))) =
    (b::byte)"
proof -
  have lt: "unat b < 128" using assms by (simp add: word_less_nat_alt)
  have "c_div (schar b) 16 = int (unat b div 16)" "c_mod (schar b) 16 = int (unat b mod 16)"
    by (simp_all add: schar_ascii [OF assms] c_div_nonneg c_mod_nonneg zdiv_int zmod_int)
  moreover have "hex_value (hex_digit (int (unat b div 16))) = unat b div 16"
    using lt by (subst hex_value_digit) auto
  moreover have "hex_value (hex_digit (int (unat b mod 16))) = unat b mod 16"
    by (subst hex_value_digit) auto
  ultimately show ?thesis by (simp only: mult_div_mod_eq) simp
qed

lemma url_decode_Cons: "c \<noteq> 37 \<Longrightarrow> url_decode (c # cs) = c # url_decode cs"
proof (cases cs)
  case (Cons h t)
  assume "c \<noteq> 37"
  with Cons show ?thesis by (cases t) auto
qed simp

lemma url_decode_escape: "b < 0x80 \<Longrightarrow> url_decode (url_escape b @ cs) = b # url_decode cs"
proof (cases "isprint (schar b) \<and> schar b \<noteq> 32 \<and> schar b \<noteq> 37")
  case True
  then have "b \<noteq> 37" by auto
  with True show ?thesis by (simp add: url_escape_def Let_def url_decode_Cons)
next
  case False
  assume "b < 0x80"
  with False show ?thesis using url_decode_hex [of b] by (auto simp: url_escape_def Let_def)
qed

lemma url_escape_length: "length (concat (map url_escape xs)) \<le> 3 * length xs"
  by (induction xs) (auto simp: url_escape_def Let_def)

lemma url_decode_escapes: "\<forall>b\<in>set xs. b < 0x80 \<Longrightarrow> url_decode (concat (map url_escape xs)) = xs"
  by (induction xs) (auto simp: url_decode_escape)

text \<open>Escaping an ASCII string for a URL into a buffer of three bytes per character and a terminator
  stays inside the buffer, and decoding the escapes gives the string back.\<close>

theorem strtourl_round_trip:
  assumes "terminated str" and "\<forall>b\<in>set (cstr str). b < 0x80" and "3 * length (cstr str) < length url"
  shows "\<exists>enc rest. strtourl url 0 str = Some (enc @ 0 # rest) \<and> url_decode enc = cstr str"
proof -
  let ?e = "concat (map url_escape (cstr str))"
  have "length ?e \<le> 3 * length (cstr str)"
    by (rule url_escape_length)
  with assms(3) have "0 + length ?e < length url" by simp
  from strtourl_spec [OF cstr_no_nul this, of "drop (Suc (length (cstr str))) str"]
  show ?thesis
    using url_decode_escapes [OF assms(2)] terminated_split [OF assms(1)] by auto
qed

theorem strtourl_round_trip_witness:
  "\<exists>enc rest. strtourl (replicate 8 0) 0 [65, 32, 0] = Some (enc @ 0 # rest) \<and> url_decode enc = [65, 32]"
  using strtourl_round_trip [of "[65, 32, 0]" "replicate 8 0"] by simp

end
