(* ===== verification/FB_Helper.thy ===== *)
theory FB_Helper
  imports FB_String FB_File
begin

text \<open>
  The helpers of \<open>lib/helper.c\<close> on text: paths of users and boards, token and line searches in
  configuration files, the two editors of line files (\<open>add_to_file\<close>, \<open>del_from_file\<close>), the masking of
  host addresses and the repair of titles and files in GBK.

  A C string argument is a buffer that holds its NUL.  A path is a HOL string.  What the file system
  answers is a value of \<open>fs_answers\<close>.
\<close>

section \<open>Literals, formatted output and tokens of the C library\<close>

definition lit :: "string \<Rightarrow> buf" where
  "lit s = map (\<lambda>c. word_of_nat (of_char c)) s"

definition c_str :: "buf \<Rightarrow> buf option" where
  "c_str b = (if terminated b then Some (cstr b) else None)"

text \<open>\<open>sprintf\<close> and \<open>strcpy\<close> write the text and a NUL; behind the end of the buffer that is undefined.\<close>

definition put_text :: "buf \<Rightarrow> buf \<Rightarrow> buf option" where
  "put_text dst xs = mem_write dst 0 (xs @ [0])"

definition path_of :: "buf \<Rightarrow> string" where
  "path_of b = map (\<lambda>c. char_of (unat c)) (cstr b)"

fun digits :: "nat \<Rightarrow> string" where
  "digits n = (if n < 10 then [char_of (48 + n)] else digits (n div 10) @ [char_of (48 + n mod 10)])"

lemma lit_append: "lit (a @ b) = lit a @ lit b"
  by (simp add: lit_def)

lemma length_lit: "length (lit s) = length s"
  by (simp add: lit_def)

lemma lit_digit: "d < 10 \<Longrightarrow> lit [char_of (48 + d)] = [of_nat (48 + d)]"
  by (simp add: lit_def of_char_of)

lemma digits_bytes: "\<forall>c\<in>set (lit (digits n)). 48 \<le> c \<and> c \<le> 57"
proof (induction n rule: digits.induct)
  case (1 n)
  have d: "\<forall>c\<in>set (lit [char_of (48 + d)]). 48 \<le> c \<and> c \<le> 57" if "d < 10" for d :: nat
    using that unfolding lit_digit [OF that] by (auto simp: word_le_nat_alt unat_of_nat simp del: of_nat_add)
  show ?case
    using 1 d [of n] d [of "n mod 10"] by (subst digits.simps) (auto simp: lit_append simp del: digits.simps)
qed

text \<open>The number that decimal digits stand for.\<close>

definition dec_value :: "buf \<Rightarrow> nat" where
  "dec_value ds = foldl (\<lambda>n d. 10 * n + (unat d - 48)) 0 ds"

lemma dec_value_snoc: "dec_value (ds @ [d]) = 10 * dec_value ds + (unat d - 48)"
  by (simp add: dec_value_def)

lemma dec_value_digits: "dec_value (lit (digits n)) = n"
proof (induction n rule: digits.induct)
  case (1 n)
  have d: "dec_value (ds @ lit [char_of (48 + d)]) = 10 * dec_value ds + d" if "d < 10" for d :: nat and ds
    using that unfolding lit_digit [OF that] dec_value_snoc by (simp add: unat_of_nat del: of_nat_add)
  show ?case
  proof (cases "n < 10")
    case True
    then show ?thesis using d [of n "[]"] by (subst digits.simps) (simp add: dec_value_def del: digits.simps)
  next
    case False
    then show ?thesis
      using 1 d [of "n mod 10" "lit (digits (n div 10))"] by (subst digits.simps) (simp add: lit_append del: digits.simps)
  qed
qed

text \<open>The conversions \<open>%d\<close> and \<open>%0wd\<close> of \<open>printf\<close>.\<close>

definition decimal :: "int \<Rightarrow> buf" where
  "decimal n = (if n < 0 then lit ''-'' @ lit (digits (nat (- n))) else lit (digits (nat n)))"

definition decimal_width :: "nat \<Rightarrow> char \<Rightarrow> int \<Rightarrow> buf" where
  "decimal_width w pad n = (let s = decimal n in lit (replicate (w - length s) pad) @ s)"

definition lower :: "byte \<Rightarrow> byte" where
  "lower c = word_of_int (tolower (uint c))"

definition strcaseeq :: "buf \<Rightarrow> buf \<Rightarrow> bool" where
  "strcaseeq a b \<longleftrightarrow> map lower (cstr a) = map lower (cstr b)"

text \<open>\<open>strtok\<close>: the next token of the rest of a string and what follows its delimiter.\<close>

definition strtok :: "buf \<Rightarrow> buf \<Rightarrow> (buf \<times> buf) option" where
  "strtok delims s =
     (let s' = dropWhile (\<lambda>c. c \<in> set delims) (cstr s) in
      if s' = [] then None
      else Some (takeWhile (\<lambda>c. c \<notin> set delims) s', drop 1 (dropWhile (\<lambda>c. c \<notin> set delims) s')))"

text \<open>\<open>fgets\<close> into an array of \<open>n\<close> bytes: the line, a NUL, and what the array held before behind it.\<close>

definition fgets :: "nat \<Rightarrow> buf \<Rightarrow> buf \<Rightarrow> (buf \<times> buf) option" where
  "fgets n b src =
     (if src = [] then None
      else let (line, src') = fgets_take (n - 1) src in
        Some (line @ 0 # drop (Suc (length line)) b, src'))"

lemma fgets_take_length: "fgets_take n s = (l, r) \<Longrightarrow> length l \<le> n"
  by (induction n s arbitrary: l r rule: fgets_take.induct) (auto split: if_splits prod.splits)

lemma fgets_length:
  assumes "fgets n b src = Some (b', src')" and "length b = n" and "0 < n"
  shows "length b' = n"
proof -
  obtain l where "fgets_take (n - 1) src = (l, src')" "b' = l @ 0 # drop (Suc (length l)) b"
    using assms by (auto simp: fgets_def split: if_splits prod.splits)
  then show ?thesis using assms fgets_take_length [of "n - 1" src l src'] by simp
qed

lemma fgets_shrinks: "fgets n b src = Some (b', src') \<Longrightarrow> 1 < n \<Longrightarrow> length src' < length src"
  using fgets_take_progress [of "n - 2" "hd src" "tl src"]
  by (cases src) (auto simp: fgets_def numeral_2_eq_2 Suc_diff_Suc split: if_splits prod.splits)

section \<open>Paths\<close>

definition sethomefile :: "buf \<Rightarrow> buf \<Rightarrow> buf \<Rightarrow> buf option" where
  "sethomefile b userid filename = do {
     u \<leftarrow> c_str userid;
     f \<leftarrow> c_str filename;
     c \<leftarrow> rd userid 0;
     put_text b (lit ''home/'' @ [word_of_int (toupper (schar c))] @ lit ''/'' @ u @ lit ''/'' @ f)
   }"

definition setbpath :: "buf \<Rightarrow> buf \<Rightarrow> buf option" where
  "setbpath b boardname = do {
     b \<leftarrow> put_text b (lit ''boards/'');
     n \<leftarrow> c_str boardname;
     put_text b (cstr b @ n)
   }"

definition setbfile :: "buf \<Rightarrow> buf \<Rightarrow> buf \<Rightarrow> buf option" where
  "setbfile b boardname filename = do {
     n \<leftarrow> c_str boardname;
     f \<leftarrow> c_str filename;
     put_text b (lit ''boards/'' @ n @ lit ''/'' @ f)
   }"

definition setmfile :: "buf \<Rightarrow> buf \<Rightarrow> buf \<Rightarrow> buf option" where
  "setmfile b userid filename = do {
     u \<leftarrow> c_str userid;
     f \<leftarrow> c_str filename;
     c \<leftarrow> rd userid 0;
     put_text b (lit ''mail/'' @ [word_of_int (toupper (schar c))] @ lit ''/'' @ u @ lit ''/'' @ f)
   }"

definition setmdir :: "buf \<Rightarrow> buf \<Rightarrow> buf option" where
  "setmdir b userid = do {
     u \<leftarrow> c_str userid;
     c \<leftarrow> rd userid 0;
     put_text b (lit ''mail/'' @ [word_of_int (toupper (schar c))] @ lit ''/'' @ u @ lit ''/.DIR'')
   }"

section \<open>Searching configuration files\<close>

text \<open>A stream opened for reading: the bytes of a regular file; a directory can be opened but not read.\<close>

definition open_stream :: "fs \<Rightarrow> string \<Rightarrow> buf option" where
  "open_stream fs p = map_option (\<lambda>n. case n of Regular b \<Rightarrow> b | Directory _ \<Rightarrow> []) (fs p)"

definition STRLEN :: nat where
  "STRLEN = 80"

function special_loop :: "buf \<Rightarrow> buf \<Rightarrow> buf \<Rightarrow> buf \<Rightarrow> nat \<Rightarrow> buf option" where
  "special_loop line src uid host len =
     (case fgets STRLEN line src of
        None \<Rightarrow> Some host
      | Some (line, src) \<Rightarrow>
          (case strtok [32, 13, 10, 9] line of
             None \<Rightarrow> special_loop line src uid host len
           | Some (special, rest) \<Rightarrow>
               if strcaseeq uid special then
                 (case strtok [32, 13, 10, 9] rest of
                    None \<Rightarrow> Some host
                  | Some (special, _) \<Rightarrow> map_option fst (strlcpy host (special @ [0]) len))
               else special_loop line src uid host len))"
  by pat_completeness auto
termination
  by (relation "measure (\<lambda>(line, src, _). length src)") (auto simp: STRLEN_def dest: fgets_shrinks)

definition SpecialID :: "fs \<Rightarrow> buf \<Rightarrow> buf \<Rightarrow> buf \<Rightarrow> nat \<Rightarrow> buf option" where
  "SpecialID fs line uid host len =
     (case open_stream fs ''etc/special.ini'' of
        None \<Rightarrow> Some host
      | Some src \<Rightarrow> special_loop line src uid host len)"


function seek_loop :: "buf \<Rightarrow> buf \<Rightarrow> buf \<Rightarrow> bool" where
  "seek_loop b src seekstr =
     (case fgets STRLEN b src of
        None \<Rightarrow> False
      | Some (b, src) \<Rightarrow>
          (case strtok [58, 32, 10, 13, 9] b of
             None \<Rightarrow> seek_loop b src seekstr
           | Some (namep, _) \<Rightarrow> if strcaseeq namep seekstr then True else seek_loop b src seekstr))"
  by pat_completeness auto
termination
  by (relation "measure (\<lambda>(b, src, _). length src)") (auto simp: STRLEN_def dest: fgets_shrinks)

definition seek_in_file :: "fs \<Rightarrow> buf \<Rightarrow> string \<Rightarrow> buf \<Rightarrow> bool" where
  "seek_in_file fs b filename seekstr =
     (case open_stream fs filename of None \<Rightarrow> False | Some src \<Rightarrow> seek_loop b src seekstr)"

section \<open>Editing line files\<close>

definition HOMELEN :: nat where
  "HOMELEN = 80"

definition LINE_BUFSIZE :: nat where
  "LINE_BUFSIZE = 256"

definition BBS_ELEXIST :: int where
  "BBS_ELEXIST = -24"

text \<open>What the file system answers to the calls of one operation.\<close>

record fs_answers =
  can_create :: bool
  can_rename :: bool
  can_unlink :: bool

definition fs_fine :: fs_answers where
  "fs_fine = \<lparr>can_create = True, can_rename = True, can_unlink = True\<rparr>"

lemma fs_fine_answers [simp]: "can_create fs_fine" "can_rename fs_fine" "can_unlink fs_fine"
  by (simp_all add: fs_fine_def)

definition unlink :: "fs_answers \<Rightarrow> fs \<Rightarrow> string \<Rightarrow> int \<times> fs" where
  "unlink ans fs p =
     (case fs p of
        Some (Regular _) \<Rightarrow> if can_unlink ans then (0, fs(p := None)) else (-1, fs)
      | _ \<Rightarrow> (-1, fs))"

definition rename :: "fs_answers \<Rightarrow> fs \<Rightarrow> string \<Rightarrow> string \<Rightarrow> int \<times> fs" where
  "rename ans fs old new =
     (case (fs old, fs new) of
        (Some (Regular b), Some (Directory _)) \<Rightarrow> (-1, fs)
      | (Some (Regular b), _) \<Rightarrow>
          if can_rename ans then (0, fs(old := None, new \<mapsto> Regular b)) else (-1, fs)
      | _ \<Rightarrow> (-1, fs))"

text \<open>
  The loop of \<open>add_to_file\<close>: the line buffer, the bytes to read, the bytes written so far.  The
  comparison is a callback on the line and the string with their lengths, or NULL.
\<close>

type_synonym line_eq = "buf \<Rightarrow> nat \<Rightarrow> buf \<Rightarrow> nat \<Rightarrow> bool"

function add_loop :: "line_eq option \<Rightarrow> buf \<Rightarrow> nat \<Rightarrow> bool \<Rightarrow> buf \<Rightarrow> buf \<Rightarrow> bool \<Rightarrow> buf \<Rightarrow> bool \<times> buf" where
  "add_loop equal str len overwrite b src exist out =
     (case fgets LINE_BUFSIZE b src of
        None \<Rightarrow> (exist, out)
      | Some (b, src) \<Rightarrow>
          if \<not> exist \<and> (case equal of None \<Rightarrow> False | Some eq \<Rightarrow> eq b LINE_BUFSIZE str len) then
            (if overwrite then add_loop equal str len overwrite b src True (out @ cstr str)
             else (True, out))
          else add_loop equal str len overwrite b src exist (out @ cstr b))"
  by pat_completeness auto
termination
  by (relation "measure (\<lambda>(_, _, _, _, b, src, _). length src)")
    (auto simp: LINE_BUFSIZE_def dest: fgets_shrinks)

definition new_name :: "string \<Rightarrow> nat \<Rightarrow> string" where
  "new_name p pid = p @ ''.'' @ digits pid"

definition add_to_file ::
  "fs_answers \<Rightarrow> nat \<Rightarrow> fs \<Rightarrow> buf \<Rightarrow> string \<Rightarrow> buf \<Rightarrow> nat \<Rightarrow> bool \<Rightarrow> line_eq option \<Rightarrow> int \<times> fs" where
  "add_to_file ans pid fs b path str len overwrite equal =
     (let fnew = new_name path pid in
      if length fnew \<ge> HOMELEN then (-1, fs)
      else
        let fpr = open_stream fs path in
        if \<not> can_create ans \<or> dashd fs (Some fnew) then (-1, fs)
        else
          let (exist, out) = (case fpr of
                None \<Rightarrow> (False, [])
              | Some src \<Rightarrow> add_loop equal str len overwrite b src False []);
              out = (if exist then out else out @ cstr str);
              fs = fs(fnew \<mapsto> Regular out) in
          if \<not> overwrite \<and> exist then (BBS_ELEXIST, snd (unlink ans fs fnew))
          else rename ans fs fnew path)"

text \<open>
  The loop of \<open>del_from_file\<close>.  The byte \<open>buf[len]\<close> is read whatever the length of the line; behind the
  array that is undefined.
\<close>

function del_loop :: "buf \<Rightarrow> nat \<Rightarrow> buf \<Rightarrow> buf \<Rightarrow> bool \<Rightarrow> buf \<Rightarrow> (bool \<times> buf) option" where
  "del_loop str len b src deleted out =
     (case fgets 1024 b src of
        None \<Rightarrow> Some (deleted, out)
      | Some (b, src) \<Rightarrow>
          if deleted then del_loop str len b src deleted (out @ cstr b)
          else (case rd b len of
              None \<Rightarrow> None
            | Some c \<Rightarrow>
                if (c = 0 \<or> c = 32 \<or> c = 10) \<and> take len (cstr b) = take len (cstr str)
                then del_loop str len b src True out
                else del_loop str len b src deleted (out @ cstr b)))"
  by pat_completeness auto
termination
  by (relation "measure (\<lambda>(_, _, b, src, _). length src)") (auto dest: fgets_shrinks)

definition del_from_file :: "fs_answers \<Rightarrow> nat \<Rightarrow> fs \<Rightarrow> buf \<Rightarrow> string \<Rightarrow> buf \<Rightarrow> (int \<times> fs) option" where
  "del_from_file ans pid fs b path str =
     (case open_stream fs path of
        None \<Rightarrow> Some (-1, fs)
      | Some src \<Rightarrow>
          let fnew = take (HOMELEN - 1) (new_name path pid) in
          if \<not> can_create ans \<or> dashd fs (Some fnew) then Some (-1, fs)
          else do {
            len \<leftarrow> strlen str;
            let src = (if fnew = path then [] else src);
            (deleted, out) \<leftarrow> del_loop str len b src False [];
            let fs = fs(fnew \<mapsto> Regular out);
            Some (if deleted then
                    (if out = [] then unlink ans fs path else rename ans fs fnew path)
                  else (-1, snd (unlink ans fs fnew)))
          })"

section \<open>Masking addresses and repairing text\<close>

definition IP_LEN :: nat where
  "IP_LEN = 40"

text \<open>\<open>strrchr\<close>: the offset of the last occurrence of a character in a string.\<close>

fun strrchr :: "buf \<Rightarrow> byte \<Rightarrow> nat option" where
  "strrchr [] ch = None"
| "strrchr (c # s) ch =
     (if c = 0 then None
      else case strrchr s ch of Some i \<Rightarrow> Some (Suc i) | None \<Rightarrow> if c = ch then Some 0 else None)"

definition mask_host :: "buf \<Rightarrow> buf \<Rightarrow> buf option" where
  "mask_host masked host = do {
     (masked, _) \<leftarrow> strlcpy masked host IP_LEN;
     masked \<leftarrow> (case strrchr masked 46 of
         Some last' \<Rightarrow>
           let l = Suc last' in
           if l < IP_LEN then do {
             c \<leftarrow> rd masked l;
             (if schar c \<ge> 48 \<and> schar c \<le> 57 then do {
                masked \<leftarrow> wr masked l 42;
                (if Suc l < IP_LEN then wr masked (Suc l) 0 else Some masked)
              } else Some masked)
           } else Some masked
       | None \<Rightarrow>
           (case strrchr masked 58 of
              Some last' \<Rightarrow>
                let l = Suc last' in do {
                  masked \<leftarrow> (if l < IP_LEN then wr masked l 42 else Some masked);
                  (if Suc l < IP_LEN then wr masked (Suc l) 0 else Some masked)
                }
            | None \<Rightarrow> Some masked));
     wr masked (IP_LEN - 1) 0
   }"

definition valid_gbk_file :: "os \<Rightarrow> fs \<Rightarrow> string \<Rightarrow> (int \<times> fs) option" where
  "valid_gbk_file os fs path =
     (case mmap_open os fs path RDWR of
        None \<Rightarrow> Some (-1, fs)
      | Some (m, f) \<Rightarrow> do {
          (b, n) \<leftarrow> valid_gbk (bytes f) (m_size m) 63;
          Some (to_int (int n), fs(path \<mapsto> Regular b))
        })"


section \<open>Line files\<close>

text \<open>A text of lines that fit the line buffer of \<open>n\<close> bytes, each with its line feed.\<close>

definition text_line :: "nat \<Rightarrow> buf \<Rightarrow> bool" where
  "text_line n l \<longleftrightarrow> (\<exists>x. l = x @ [10] \<and> 10 \<notin> set x \<and> 0 \<notin> set x \<and> length l < n)"

declare add_loop.simps [simp del] del_loop.simps [simp del]

lemma fgets_take_line:
  "10 \<notin> set x \<Longrightarrow> length x < n \<Longrightarrow> fgets_take n (x @ 10 # rest) = (x @ [10], rest)"
proof (induction x arbitrary: n)
  case Nil
  then show ?case by (cases n) auto
next
  case (Cons a x)
  then show ?case by (cases n) auto
qed

lemma fgets_line:
  "text_line n l \<Longrightarrow> fgets n b (l @ rest) = Some (l @ 0 # drop (Suc (length l)) b, rest)"
  by (auto simp: text_line_def fgets_def fgets_take_line)

lemma text_line_no_nul: "text_line n l \<Longrightarrow> 0 \<notin> set l"
  by (auto simp: text_line_def)

lemma text_line_nonempty: "text_line n l \<Longrightarrow> l \<noteq> []"
  by (auto simp: text_line_def)

lemma fgets_end: "fgets n b [] = None"
  by (simp add: fgets_def)

text \<open>The line matches when it starts with the string and goes on with a blank, a line feed or not at all.\<close>

definition line_matches :: "buf \<Rightarrow> buf \<Rightarrow> bool" where
  "line_matches s l \<longleftrightarrow>
     take (length s) l = s \<and> (length l = length s \<or> l ! length s = 32 \<or> l ! length s = 10)"

fun remove_first :: "('a \<Rightarrow> bool) \<Rightarrow> 'a list \<Rightarrow> 'a list" where
  "remove_first P [] = []"
| "remove_first P (x # xs) = (if P x then xs else x # remove_first P xs)"

lemma remove_first_id: "\<forall>x\<in>set xs. \<not> P x \<Longrightarrow> remove_first P xs = xs"
  by (induction xs) auto

lemma del_loop_copies:
  "\<forall>l\<in>set ls. text_line 1024 l \<Longrightarrow> del_loop str len b (concat ls) True out = Some (True, out @ concat ls)"
proof (induction ls arbitrary: b out)
  case Nil
  then show ?case by (simp add: del_loop.simps fgets_end)
next
  case (Cons l ls)
  then have l: "text_line 1024 l" by simp
  show ?case
    using Cons by (simp add: del_loop.simps [of _ _ b] fgets_line [OF l] text_line_no_nul [OF l])
qed

lemma del_loop_test:
  assumes "text_line 1024 l" and "0 \<notin> set s" and "length s < 1024" and "length b = 1024"
    and "b' = l @ 0 # drop (Suc (length l)) b"
  shows "\<exists>c. rd b' (length s) = Some c \<and>
    ((c = 0 \<or> c = 32 \<or> c = 10) \<and> take (length s) (cstr b') = s \<longleftrightarrow> line_matches s l)"
proof -
  have l: "0 \<notin> set l" "length l < 1024" using assms(1) by (auto simp: text_line_def)
  have len: "length b' = 1024" and cs: "cstr b' = l" using l assms by auto
  consider "length s < length l" | "length s = length l" | "length l < length s" by linarith
  then show ?thesis
  proof cases
    case 1
    then have "b' ! length s = l ! length s" "l ! length s \<noteq> 0" using assms l nth_mem [OF 1] by (auto simp: nth_append simp del: nth_mem)
    with 1 len cs assms show ?thesis by (auto simp: rd_def line_matches_def)
  next
    case 2
    with len cs assms show ?thesis by (auto simp: rd_def line_matches_def)
  next
    case 3
    then have "l \<noteq> s" by auto
    with 3 len cs assms show ?thesis by (auto simp: rd_def line_matches_def)
  qed
qed

lemma del_loop_spec:
  assumes "\<forall>l\<in>set ls. text_line 1024 l" and "terminated str" and "length (cstr str) < 1024" and "length b = 1024"
  shows "del_loop str (length (cstr str)) b (concat ls) False out =
    Some (\<exists>l\<in>set ls. line_matches (cstr str) l, out @ concat (remove_first (line_matches (cstr str)) ls))"
  using assms
proof (induction ls arbitrary: b out)
  case Nil
  then show ?case by (simp add: del_loop.simps fgets_end)
next
  case (Cons l ls)
  then have l: "text_line 1024 l" by simp
  define b' where "b' = l @ 0 # drop (Suc (length l)) b"
  have len: "length b' = 1024" using l Cons.prems by (auto simp: b'_def text_line_def)
  have cs: "cstr b' = l" using text_line_no_nul [OF l] by (simp add: b'_def)
  obtain c where c: "rd b' (length (cstr str)) = Some c"
    and iff: "(c = 0 \<or> c = 32 \<or> c = 10) \<and> take (length (cstr str)) (cstr b') = cstr str \<longleftrightarrow> line_matches (cstr str) l"
    using del_loop_test [OF l _ _ _ b'_def] Cons.prems cstr_no_nul by blast
  have fg: "fgets 1024 b (l @ concat ls) = Some (b', concat ls)" unfolding b'_def by (rule fgets_line [OF l])
  have IH: "del_loop str (length (cstr str)) b' (concat ls) False o' =
    Some (\<exists>l\<in>set ls. line_matches (cstr str) l, o' @ concat (remove_first (line_matches (cstr str)) ls))" for o'
    using Cons.IH [OF _ _ _ len] Cons.prems by simp
  have cp: "del_loop str (length (cstr str)) b' (concat ls) True o' = Some (True, o' @ concat ls)" for o'
    using del_loop_copies Cons.prems by simp
  show ?case
  proof (cases "line_matches (cstr str) l")
    case True
    with iff c fg cp show ?thesis by (simp add: del_loop.simps [of _ _ b] cs)
  next
    case False
    then have "\<not> ((c = 0 \<or> c = 32 \<or> c = 10) \<and> take (length (cstr str)) (cstr b') = take (length (cstr str)) (cstr str))"
      using iff by simp
    with False c fg IH show ?thesis by (auto simp: del_loop.simps [of _ _ b] cs)
  qed
qed

text \<open>Claim C25: on a file of lines that fit the line buffer, deleting an entry removes the first line that starts
  with it (followed by a blank or the line end) and keeps all others in order; without such a line the file is
  unchanged and the result is -1.  When nothing is left the file itself is removed, and the empty temporary
  file stays behind.\<close>

theorem del_from_file_correct:
  assumes "fs path = Some (Regular (concat ls))" and "\<forall>l\<in>set ls. text_line 1024 l"
    and "terminated str" and "length (cstr str) < 1024" and "length b = 1024"
    and "fnew = new_name path pid" and "length fnew < HOMELEN" and "fs fnew = None"
  shows "del_from_file fs_fine pid fs b path str =
    (let rest = remove_first (line_matches (cstr str)) ls in
     Some (if rest = ls then (-1, fs)
           else if rest = [] then (0, fs(path := None, fnew \<mapsto> Regular []))
           else (0, fs(path \<mapsto> Regular (concat rest)))))"
proof -
  let ?m = "line_matches (cstr str)"
  have ex: "(\<exists>l\<in>set ls. ?m l) \<longleftrightarrow> remove_first ?m ls \<noteq> ls"
  proof (cases "\<exists>l\<in>set ls. ?m l")
    case True
    then have "length (remove_first ?m ls) < length ls" by (induction ls) auto
    with True show ?thesis by auto
  qed (simp add: remove_first_id)
  have sub: "set (remove_first ?m ls) \<subseteq> set ls" by (induction ls) auto
  have empty: "concat (remove_first ?m ls) = [] \<longleftrightarrow> remove_first ?m ls = []"
    using assms(2) sub text_line_nonempty [of 1024 "hd (remove_first ?m ls)"]
    by (cases "remove_first ?m ls") auto
  have take_new: "take (HOMELEN - Suc 0) fnew = fnew" using assms(7) by simp
  have ne: "fnew \<noteq> path" using assms(1,8) by auto
  have loop: "del_loop str (length (cstr str)) b (concat ls) False [] =
    Some (\<exists>l\<in>set ls. ?m l, concat (remove_first ?m ls))"
    using del_loop_spec [OF assms(2-5), of "[]"] by simp
  have "del_from_file fs_fine pid fs b path str =
    (let fs' = fs(fnew \<mapsto> Regular (concat (remove_first ?m ls))) in
     Some (if remove_first ?m ls \<noteq> ls then
        (if remove_first ?m ls = [] then unlink fs_fine fs' path else rename fs_fine fs' fnew path)
        else (-1, snd (unlink fs_fine fs' fnew))))"
    using assms(1,3,6,8) loop ne take_new ex empty
    by (simp add: del_from_file_def open_stream_def dashd_def strlen_terminated Let_def del: concat_eq_Nil_conv)
  then show ?thesis
    using assms(1,8) ne by (auto simp: Let_def unlink_def rename_def fun_upd_twist)
qed

theorem del_from_file_correct_witness:
  "del_from_file fs_fine 7 [''f'' \<mapsto> Regular [97, 32, 98, 10, 99, 10]] (replicate 1024 0) ''f'' [97, 0] =
    Some (0, [''f'' \<mapsto> Regular [99, 10]])"
  using del_from_file_correct [of "[''f'' \<mapsto> Regular [97, 32, 98, 10, 99, 10]]" "''f''" "[[97, 32, 98, 10], [99, 10]]"
      "[97, 0]" "replicate 1024 0" "''f.7''" 7]
  by (simp add: text_line_def new_name_def HOMELEN_def line_matches_def char_of_def bit_Suc_0_iff)

text \<open>Adding a line: the first line that the comparison accepts is replaced, or the line is appended.\<close>

fun replace_first :: "('a \<Rightarrow> bool) \<Rightarrow> 'a \<Rightarrow> 'a list \<Rightarrow> 'a list" where
  "replace_first P y [] = [y]"
| "replace_first P y (x # xs) = (if P x then y # xs else x # replace_first P y xs)"

lemma add_loop_copies:
  "\<forall>l\<in>set ls. text_line LINE_BUFSIZE l \<Longrightarrow>
   add_loop equal str len overwrite b (concat ls) True out = (True, out @ concat ls)"
proof (induction ls arbitrary: b out)
  case Nil
  then show ?case by (simp add: add_loop.simps fgets_end)
next
  case (Cons l ls)
  then have l: "text_line LINE_BUFSIZE l" by simp
  show ?case
    using Cons by (simp add: add_loop.simps [of _ _ _ _ b] fgets_line [OF l] text_line_no_nul [OF l])
qed

lemma add_loop_spec:
  assumes "\<forall>l\<in>set ls. text_line LINE_BUFSIZE l" and "\<And>b. eq b LINE_BUFSIZE str len = P (cstr b)"
  shows "add_loop (Some eq) str len overwrite b (concat ls) False out =
    (\<exists>l\<in>set ls. P l,
     if (\<exists>l\<in>set ls. P l) \<and> \<not> overwrite then out @ concat (takeWhile (\<lambda>l. \<not> P l) ls)
     else if \<exists>l\<in>set ls. P l then out @ concat (replace_first P (cstr str) ls)
     else out @ concat ls)"
  using assms(1)
proof (induction ls arbitrary: b out)
  case Nil
  then show ?case by (simp add: add_loop.simps fgets_end)
next
  case (Cons l ls)
  then have l: "text_line LINE_BUFSIZE l" by simp
  show ?case
    using Cons add_loop_copies [of ls "Some eq" str len True]
    by (simp add: add_loop.simps [of _ _ _ _ b] fgets_line [OF l] text_line_no_nul [OF l] assms(2))
qed

lemma concat_replace_first:
  "\<forall>l\<in>set ls. \<not> P l \<Longrightarrow> concat (replace_first P y ls) = concat ls @ y"
  by (induction ls) auto

text \<open>On a file of lines that fit the line buffer, adding an entry with overwriting replaces the first line
  the comparison accepts, or appends the entry when there is none.  Without overwriting an accepted line leaves the
  file alone and is reported.  No temporary file is left.\<close>

theorem add_to_file_correct:
  assumes "fs path = Some (Regular (concat ls))" and "\<forall>l\<in>set ls. text_line LINE_BUFSIZE l"
    and "\<And>b. eq b LINE_BUFSIZE str len = P (cstr b)"
    and "fnew = new_name path pid" and "length fnew < HOMELEN" and "fs fnew = None"
  shows "add_to_file fs_fine pid fs b path str len overwrite (Some eq) =
    (if (\<exists>l\<in>set ls. P l) \<and> \<not> overwrite then (BBS_ELEXIST, fs)
     else (0, fs(path \<mapsto> Regular (concat (replace_first P (cstr str) ls)))))"
proof -
  have ne: "fnew \<noteq> path" using assms(1,6) by auto
  let ?e = "\<exists>l\<in>set ls. P l"
  obtain out where out: "add_loop (Some eq) str len overwrite b (concat ls) False [] = (?e, out)"
    and ow: "?e \<Longrightarrow> overwrite \<Longrightarrow> out = concat (replace_first P (cstr str) ls)"
    and no: "\<not> ?e \<Longrightarrow> out = concat ls"
    using add_loop_spec [where eq = eq and P = P and out = "[]", OF assms(2), of str len overwrite b] assms(3) by auto
  have "add_to_file fs_fine pid fs b path str len overwrite (Some eq) =
    (let fs' = fs(fnew \<mapsto> Regular (if ?e then out else out @ cstr str)) in
     if \<not> overwrite \<and> ?e then (BBS_ELEXIST, snd (unlink fs_fine fs' fnew)) else rename fs_fine fs' fnew path)"
    using assms(1,4-6) out by (simp add: add_to_file_def open_stream_def dashd_def Let_def)
  then show ?thesis
    using assms(1,6) ne ow no concat_replace_first [of ls P "cstr str"]
    by (cases ?e; cases overwrite) (auto simp: Let_def unlink_def rename_def fun_upd_twist)
qed

text \<open>The comparison here takes two lines for the same entry when their first bytes agree.\<close>

theorem add_to_file_correct_witness:
  "add_to_file fs_fine 7 [''f'' \<mapsto> Regular [97, 32, 98, 10, 99, 10]] (replicate 256 0) ''f'' [97, 33, 10, 0] 1 True
     (Some (\<lambda>b n s k. take k (cstr b) = take k (cstr s))) =
    (0, [''f'' \<mapsto> Regular [97, 33, 10, 99, 10]])"
  using add_to_file_correct [of "[''f'' \<mapsto> Regular [97, 32, 98, 10, 99, 10]]" "''f''" "[[97, 32, 98, 10], [99, 10]]"
      "\<lambda>b n s k. take k (cstr b) = take k (cstr s)" "[97, 33, 10, 0]" 1 "\<lambda>l. take 1 l = [97]" "''f.7''" 7
      "replicate 256 0" True]
  by (simp add: text_line_def new_name_def HOMELEN_def LINE_BUFSIZE_def char_of_def bit_Suc_0_iff)

section \<open>Masked addresses\<close>

lemma strrchr_none: "ch \<notin> set (cstr b) \<Longrightarrow> strrchr b ch = None"
  by (induction b) (auto split: if_splits)

lemma strrchr_append:
  "0 \<notin> set pre \<Longrightarrow> ch \<noteq> 0 \<Longrightarrow> ch \<notin> set (cstr post) \<Longrightarrow> strrchr (pre @ ch # post) ch = Some (length pre)"
  by (induction pre) (auto simp: strrchr_none)

text \<open>The masked form of an address that fits the buffer shows everything up to the last separator (a dot
  before a digit, or a colon where there is no dot) and a star; nothing of the last section remains.\<close>

theorem mask_host_hides:
  assumes "host = pre @ [sep, d] @ sec @ [0] @ junk'" and "0 \<notin> set (pre @ [sep, d] @ sec)"
    and "sep \<notin> set (d # sec)" and "length (pre @ [sep, d] @ sec) < IP_LEN" and "length masked = IP_LEN"
    and "sep = 46 \<and> isdigit (schar d) \<or> sep = 58 \<and> 46 \<notin> set (pre @ [sep, d] @ sec)"
  shows "\<exists>m. mask_host masked host = Some m \<and> cstr m = pre @ [sep, 42]"
proof -
  define x where "x = pre @ [sep, d] @ sec"
  have host: "host = x @ 0 # junk'" using assms(1) by (simp add: x_def)
  have nul: "0 \<notin> set x" and len: "length x < 40" using assms by (auto simp: x_def IP_LEN_def)
  define m0 where "m0 = x @ 0 # drop (Suc (length x)) masked"
  have cp: "strlcpy masked host IP_LEN = Some (m0, length x)"
    using strlcpy_value [of host IP_LEN masked] nul len assms(5) by (simp add: host m0_def IP_LEN_def Let_def)
  have m0: "m0 = pre @ sep # d # sec @ 0 # drop (Suc (length x)) masked" by (simp add: m0_def x_def)
  have l0: "length m0 = 40" using len assms(5) by (simp add: m0_def IP_LEN_def)
  have i: "Suc (Suc (length pre)) < 40" using len by (simp add: x_def)
  have find: "strrchr m0 sep = Some (length pre)"
    unfolding m0 using assms(2,3,6) by (intro strrchr_append) (auto dest: set_takeWhileD split: if_splits)
  have dot: "sep = 46 \<or> strrchr m0 46 = None"
    using assms(6) nul unfolding x_def [symmetric] by (auto intro!: strrchr_none simp: m0_def)
  have at: "m0 ! Suc (length pre) = d" by (simp add: m0 nth_append)
  define m where "m = m0[Suc (length pre) := 42, Suc (Suc (length pre)) := 0, 39 := 0]"
  have run: "mask_host masked host = Some m"
    using assms(6) dot find cp l0 at i
    by (auto simp: mask_host_def m_def IP_LEN_def mem_simps isdigit_def)
  obtain z zs where z: "sec @ 0 # drop (Suc (length x)) masked = z # zs" by (cases sec) auto
  obtain j where j: "39 = length pre + Suc (Suc j)"
    using that [of "37 - length pre"] i by simp
  have "m = pre @ sep # 42 # (0 # zs)[j := 0]"
    unfolding m_def m0 z j by (simp add: list_update_append)
  then have "cstr m = pre @ [sep, 42]"
    using assms(2) cstr_append_nul [of "pre @ [sep, 42]"] by (auto split: nat.splits)
  with run show ?thesis by blast
qed

theorem mask_host_hides_witness:
  "\<exists>m. mask_host (replicate 40 0) [49, 46, 50, 46, 51, 52, 0] = Some m \<and> cstr m = [49, 46, 50, 46, 42]"
  using mask_host_hides [of "[49, 46, 50, 46, 51, 52, 0]" "[49, 46, 50]" 46 51 "[52]" "[]" "replicate 40 0"]
  by (simp add: IP_LEN_def isdigit_def)

end
