(* ===== verification/FB_Parcel.thy ===== *)
theory FB_Parcel
  imports FB_Prelude
begin

text \<open>
  The byte serialiser of \<open>lib/parcel.c\<close>: a growing output buffer, a reading cursor over received
  bytes, and the encodings of integers, booleans and strings.  \<open>size_t\<close> is \<open>u64\<close>; the platform is
  little-endian.  While writing, \<open>par_size\<close> is the number of bytes written; while reading it is the
  cursor.
\<close>

record parcel_t =
  par_size :: u64
  par_capacity :: u64
  par_ptr :: "buf option"
  par_error :: bool

definition PARCEL_DEFAULT_CAPACITY :: u64 where
  "PARCEL_DEFAULT_CAPACITY = 4096"

definition parcel_new :: "heap \<Rightarrow> parcel_t" where
  "parcel_new h =
     \<lparr>par_size = 0, par_capacity = PARCEL_DEFAULT_CAPACITY,
      par_ptr = malloc h (unat PARCEL_DEFAULT_CAPACITY), par_error = False\<rparr>"

definition parcel_size :: "parcel_t \<Rightarrow> u64" where
  "parcel_size p = par_size p"

definition parcel_clear :: "parcel_t \<Rightarrow> parcel_t" where
  "parcel_clear p = p\<lparr>par_size := 0\<rparr>"

definition parcel_ok :: "parcel_t \<Rightarrow> bool" where
  "parcel_ok p \<longleftrightarrow> \<not> par_error p"

section \<open>Writing\<close>

partial_function (option) parcel_double :: "u64 \<Rightarrow> u64 \<Rightarrow> u64 option" where
  "parcel_double capacity new_size =
     (if capacity < new_size then parcel_double (capacity * 2) new_size else Some capacity)"

definition parcel_write :: "heap \<Rightarrow> parcel_t \<Rightarrow> buf \<Rightarrow> parcel_t option" where
  "parcel_write h p bs =
     (if par_error p then Some p
      else do {
        let new_size = par_size p + of_nat (length bs);
        p1 \<leftarrow> (if par_capacity p < new_size then do {
                 c \<leftarrow> parcel_double (par_capacity p) new_size;
                 Some (p\<lparr>par_capacity := c, par_ptr := realloc h (par_ptr p) (unat c)\<rparr>)
               } else Some p);
        case par_ptr p1 of
          None \<Rightarrow> Some (p1\<lparr>par_error := True\<rparr>)
        | Some d \<Rightarrow>
            if par_capacity p1 < new_size then Some (p1\<lparr>par_error := True\<rparr>)
            else do {
              d' \<leftarrow> mem_write d (unat (par_size p1)) bs;
              Some (p1\<lparr>par_ptr := Some d', par_size := par_size p1 + of_nat (length bs)\<rparr>)
            }
      })"

function varuint_loop :: "buf \<Rightarrow> nat \<Rightarrow> u64 \<Rightarrow> (buf \<times> nat) option" where
  "varuint_loop b cur val = do {
     b1 \<leftarrow> wr b cur (ucast (val AND 0x7f));
     let val' = drop_bit 7 val;
     (if val' \<noteq> 0 then do {
        b2 \<leftarrow> wr b1 cur (b1 ! cur OR 0x80);
        varuint_loop b2 (Suc cur) val'
      } else Some (b1, cur))
   }"
  by pat_completeness auto
termination
proof (relation "measure (\<lambda>(b, cur, val). unat val)", goal_cases)
  case (2 b cur val b1 val' b2)
  have "unat (drop_bit 7 val) = unat val div 128"
    by (simp add: drop_bit_eq_div unat_div)
  moreover have "unat val \<noteq> 0" using 2 by (auto simp: unat_eq_zero)
  ultimately show ?case using 2 by simp
qed simp

definition parcel_write_varuint64 :: "heap \<Rightarrow> parcel_t \<Rightarrow> u64 \<Rightarrow> parcel_t option" where
  "parcel_write_varuint64 h p val = do {
     (b, cur) \<leftarrow> varuint_loop (replicate 10 0) 0 val;
     parcel_write h p (take (Suc cur) b)
   }"

definition parcel_write_varint :: "heap \<Rightarrow> parcel_t \<Rightarrow> u32 \<Rightarrow> parcel_t option" where
  "parcel_write_varint h p val =
     (let v = push_bit 1 val XOR signed_drop_bit 31 val in parcel_write_varuint64 h p (ucast v))"

definition parcel_write_varint64 :: "heap \<Rightarrow> parcel_t \<Rightarrow> u64 \<Rightarrow> parcel_t option" where
  "parcel_write_varint64 h p val = parcel_write_varuint64 h p (push_bit 1 val XOR signed_drop_bit 63 val)"

definition parcel_write_bool :: "heap \<Rightarrow> parcel_t \<Rightarrow> bool \<Rightarrow> parcel_t option" where
  "parcel_write_bool h p val = parcel_write h p [if val then 1 else 0]"

definition parcel_write_string_with_size :: "heap \<Rightarrow> parcel_t \<Rightarrow> buf option \<Rightarrow> u64 \<Rightarrow> parcel_t option" where
  "parcel_write_string_with_size h p str sz =
     (case str of
        Some s \<Rightarrow> do {
          n \<leftarrow> (if sz = 0 then map_option of_nat (strlen s) else Some sz);
          p \<leftarrow> parcel_write_bool h p False;
          p \<leftarrow> parcel_write_varuint64 h p n;
          bs \<leftarrow> mem_read s 0 (unat n);
          p \<leftarrow> parcel_write h p bs;
          parcel_write h p [0]
        }
      | None \<Rightarrow> parcel_write_bool h p True)"

definition parcel_write_string :: "heap \<Rightarrow> parcel_t \<Rightarrow> buf option \<Rightarrow> parcel_t option" where
  "parcel_write_string h p str = parcel_write_string_with_size h p str 0"

definition le_bytes32 :: "u32 \<Rightarrow> buf" where
  "le_bytes32 v = map (\<lambda>i. ucast (drop_bit (8 * i) v)) [0..<4]"

definition le_bytes64 :: "u64 \<Rightarrow> buf" where
  "le_bytes64 v = map (\<lambda>i. ucast (drop_bit (8 * i) v)) [0..<8]"

definition parcel_write_int :: "heap \<Rightarrow> parcel_t \<Rightarrow> u32 \<Rightarrow> parcel_t option" where
  "parcel_write_int h p val = parcel_write h p (le_bytes32 val)"

definition parcel_write_int64 :: "heap \<Rightarrow> parcel_t \<Rightarrow> u64 \<Rightarrow> parcel_t option" where
  "parcel_write_int64 h p val = parcel_write h p (le_bytes64 val)"

section \<open>Reading\<close>

definition parcel_read_new :: "buf \<Rightarrow> parcel_t" where
  "parcel_read_new bs =
     \<lparr>par_size = 0, par_capacity = of_nat (length bs), par_ptr = Some bs, par_error = False\<rparr>"

definition parcel_read_uchar :: "parcel_t \<Rightarrow> (byte \<times> parcel_t) option" where
  "parcel_read_uchar p =
     (if par_size p \<le> par_capacity p then do {
        d \<leftarrow> par_ptr p;
        c \<leftarrow> rd d (unat (par_size p));
        Some (c, p\<lparr>par_size := par_size p + 1\<rparr>)
      } else Some (0, p\<lparr>par_error := True\<rparr>))"

text \<open>A shift of a 64-bit value by 64 or more is undefined.\<close>

function parcel_read_varuint_loop :: "parcel_t \<Rightarrow> u64 \<Rightarrow> nat \<Rightarrow> (u64 \<times> parcel_t) option" where
  "parcel_read_varuint_loop p val offset = do {
     (c, p) \<leftarrow> parcel_read_uchar p;
     let v = (ucast c :: u64);
     (if offset \<ge> 64 then None
      else if v AND 0x80 \<noteq> 0 then
        parcel_read_varuint_loop p (val OR push_bit offset (v AND 0x7f)) (offset + 7)
      else Some (val OR push_bit offset v, p))
   }"
  by pat_completeness auto
termination
  by (relation "measure (\<lambda>(p, val, offset). 64 - offset)") auto

definition parcel_read_varuint64 :: "parcel_t \<Rightarrow> (u64 \<times> parcel_t) option" where
  "parcel_read_varuint64 p = parcel_read_varuint_loop p 0 0"

definition parcel_read_varint64 :: "parcel_t \<Rightarrow> (u64 \<times> parcel_t) option" where
  "parcel_read_varint64 p = do {
     (val, p) \<leftarrow> parcel_read_varuint64 p;
     Some (drop_bit 1 val XOR (- (val AND 1)), p)
   }"

definition parcel_read_varint :: "parcel_t \<Rightarrow> (u32 \<times> parcel_t) option" where
  "parcel_read_varint p = do { (val, p) \<leftarrow> parcel_read_varint64 p; Some (ucast val, p) }"

definition parcel_read_bool :: "parcel_t \<Rightarrow> (bool \<times> parcel_t) option" where
  "parcel_read_bool p = do { (c, p) \<leftarrow> parcel_read_uchar p; Some (c \<noteq> 0, p) }"

text \<open>The string result is NULL, or the offset of the text in the parcel together with its size.\<close>

definition parcel_read_string_and_size :: "parcel_t \<Rightarrow> ((u64 \<times> u64) option \<times> parcel_t) option" where
  "parcel_read_string_and_size p = do {
     (is_null, p) \<leftarrow> parcel_read_bool p;
     (if is_null then Some (None, p)
      else do {
        (sz, p) \<leftarrow> parcel_read_varuint64 p;
        let str = par_size p;
        let p = p\<lparr>par_size := par_size p + (sz + 1)\<rparr>;
        let p = (if par_capacity p < par_size p then p\<lparr>par_error := True\<rparr> else p);
        Some (Some (str, sz), p)
      })
   }"

definition parcel_read_string :: "parcel_t \<Rightarrow> (u64 option \<times> parcel_t) option" where
  "parcel_read_string p = do { (r, p) \<leftarrow> parcel_read_string_and_size p; Some (map_option fst r, p) }"

definition parcel_read :: "parcel_t \<Rightarrow> buf \<Rightarrow> (buf \<times> parcel_t) option" where
  "parcel_read p b =
     (let n = of_nat (length b) in
      if par_size p + n \<le> par_capacity p then do {
        d \<leftarrow> par_ptr p;
        xs \<leftarrow> mem_read d (unat (par_size p)) (length b);
        Some (xs, p\<lparr>par_size := par_size p + n\<rparr>)
      } else Some (b, p\<lparr>par_error := True\<rparr>))"

definition of_le32 :: "buf \<Rightarrow> u32" where
  "of_le32 bs = foldr (\<lambda>c v. push_bit 8 v OR ucast c) bs 0"

definition of_le64 :: "buf \<Rightarrow> u64" where
  "of_le64 bs = foldr (\<lambda>c v. push_bit 8 v OR ucast c) bs 0"

definition parcel_read_int :: "parcel_t \<Rightarrow> (u32 \<times> parcel_t) option" where
  "parcel_read_int p = do { (b, p) \<leftarrow> parcel_read p (replicate 4 0); Some (of_le32 b, p) }"

definition parcel_read_int64 :: "parcel_t \<Rightarrow> (u64 \<times> parcel_t) option" where
  "parcel_read_int64 p = do { (b, p) \<leftarrow> parcel_read p (replicate 8 0); Some (of_le64 b, p) }"

section \<open>The variable-length encoding of unsigned integers\<close>

text \<open>Reference encoding: base 128, least significant digit first, the top bit set on all but the last digit.\<close>

fun varuint_enc :: "nat \<Rightarrow> buf" where
  "varuint_enc n =
     (if n < 128 then [word_of_nat n] else word_of_nat (n mod 128 + 128) # varuint_enc (n div 128))"

declare varuint_enc.simps [simp del]

lemma unat_and_7f: "unat (v AND 0x7f :: u64) = unat v mod 128"
proof -
  have "v AND 0x7f = take_bit 7 v" by (simp add: take_bit_eq_mask mask_numeral)
  then show ?thesis by (simp add: take_bit_eq_mod unat_mod)
qed

lemma low7_byte: "ucast (v AND 0x7f :: u64) = (word_of_nat (unat v mod 128) :: byte)"
  by (rule word_eq_by_unat) (simp add: unsigned_ucast_eq unat_and_7f unat_of_nat take_bit_eq_mod)

lemma or_80_byte: "n < 128 \<Longrightarrow> word_of_nat n OR 0x80 = (word_of_nat (n + 128) :: byte)"
proof -
  assume n: "n < 128"
  have "take_bit 7 (word_of_nat n :: byte) = word_of_nat n"
    using n by (intro word_eq_by_unat) (simp add: take_bit_eq_mod unat_mod unat_of_nat)
  then have "(word_of_nat n :: byte) AND 0x80 = take_bit 7 (word_of_nat n) AND 0x80" by simp
  also have "\<dots> = 0" by (simp add: take_bit_eq_mask mask_numeral and.assoc)
  finally have "(word_of_nat n :: byte) + 0x80 = word_of_nat n OR 0x80"
    by (rule disjunctive_add_eq_or)
  then show ?thesis by simp
qed

lemma varuint_enc_length: "n < 128 ^ k \<Longrightarrow> 0 < k \<Longrightarrow> length (varuint_enc n) \<le> k"
proof (induction n arbitrary: k rule: varuint_enc.induct)
  case (1 n)
  show ?case
  proof (cases "n < 128")
    case True
    with 1 show ?thesis by (simp add: varuint_enc.simps [of n])
  next
    case False
    then obtain j where j: "k = Suc j" "0 < j" using 1 by (cases k; cases "k - 1") auto
    then have "n div 128 < 128 ^ j" using 1 by (simp add: less_mult_imp_div_less mult.commute)
    with 1 False j show ?thesis by (simp add: varuint_enc.simps [of n])
  qed
qed

lemma varuint_enc_nonempty [simp]: "varuint_enc n \<noteq> []"
  by (subst varuint_enc.simps) simp

declare varuint_loop.simps [simp del]

lemma varuint_loop_enc:
  "cur < length b \<Longrightarrow> unat val < 128 ^ (length b - cur) \<Longrightarrow>
   \<exists>b' cur'. varuint_loop b cur val = Some (b', cur') \<and>
     take (Suc cur') b' = take cur b @ varuint_enc (unat val)"
proof (induction b cur val rule: varuint_loop.induct)
  case (1 b cur val)
  let ?b1 = "b[cur := ucast (val AND 0x7f)]"
  have b1: "wr b cur (ucast (val AND 0x7f)) = Some ?b1" using 1 by (simp add: wr_Some)
  have dv: "unat (drop_bit 7 val) = unat val div 128" by (simp add: drop_bit_eq_div unat_div)
  show ?case
  proof (cases "drop_bit 7 val = 0")
    case True
    then have "unat val < 128" using dv by (simp add: div_eq_0_iff)
    with True b1 "1.prems" show ?thesis
      by (simp add: varuint_loop.simps [of b] varuint_enc.simps [of "unat val"] take_snoc_update low7_byte)
  next
    case False
    let ?b2 = "?b1[cur := ?b1 ! cur OR 0x80]"
    have b2: "wr ?b1 cur (?b1 ! cur OR 0x80) = Some ?b2" using "1.prems" by (simp add: wr_Some)
    have big: "128 \<le> unat val"
      using False dv by (metis div_eq_0_iff not_less unat_eq_zero)
    then have c: "Suc cur < length b"
      using "1.prems" by (cases "length b - cur = 1") (auto simp: Suc_lessI)
    then have "128 ^ (length b - cur) = (128::nat) * 128 ^ (length b - Suc cur)"
      by (metis Suc_diff_Suc Suc_lessD power_Suc)
    then have "unat (drop_bit 7 val) < 128 ^ (length ?b2 - Suc cur)"
      using "1.prems"(2) dv by (simp add: less_mult_imp_div_less mult.commute)
    from "1.IH" [OF b1 refl False b2 _ this] c obtain b' cur' where
      IH: "varuint_loop ?b2 (Suc cur) (drop_bit 7 val) = Some (b', cur')"
        "take (Suc cur') b' = take (Suc cur) ?b2 @ varuint_enc (unat val div 128)"
      unfolding dv by auto
    have "take (Suc cur) ?b2 = take cur b @ [word_of_nat (unat val mod 128 + 128)]"
      using "1.prems"(1) by (simp add: take_snoc_update low7_byte or_80_byte)
    with IH b1 b2 False big show ?thesis
      by (simp add: varuint_loop.simps [of b] varuint_enc.simps [of "unat val"])
  qed
qed

lemma parcel_write_varuint64_eq:
  "parcel_write_varuint64 h p val = parcel_write h p (varuint_enc (unat val))"
proof -
  have "unat val < 2 ^ 64" by (rule unat_u64)
  then have "unat val < 128 ^ (length (replicate 10 (0::byte)) - 0)" by simp
  from varuint_loop_enc [OF _ this] obtain b' cur' where
    "varuint_loop (replicate 10 0) 0 val = Some (b', cur')" "take (Suc cur') b' = varuint_enc (unat val)"
    by auto
  then show ?thesis by (simp add: parcel_write_varuint64_def)
qed

section \<open>The writer\<close>

text \<open>A parcel being written, and the bytes it holds.\<close>

definition writing :: "parcel_t \<Rightarrow> bool" where
  "writing p \<longleftrightarrow>
     \<not> par_error p \<and> 0 < par_capacity p \<and> par_size p \<le> par_capacity p \<and>
     (case par_ptr p of None \<Rightarrow> False | Some d \<Rightarrow> length d = unat (par_capacity p))"

definition parcel_content :: "parcel_t \<Rightarrow> buf" where
  "parcel_content p = (case par_ptr p of None \<Rightarrow> [] | Some d \<Rightarrow> take (unat (par_size p)) d)"

lemma writing_content_length: "writing p \<Longrightarrow> length (parcel_content p) = unat (par_size p)"
  by (auto simp: writing_def parcel_content_def word_le_nat_alt split: option.splits)

lemma parcel_double_enough:
  assumes "0 < unat c" and "unat n \<le> 2 ^ 63"
  shows "\<exists>c'. parcel_double c n = Some c' \<and> c \<le> c' \<and> n \<le> c'"
  using assms(1)
proof (induction "unat n - unat c" arbitrary: c rule: less_induct)
  case less
  show ?case
  proof (cases "c < n")
    case False
    then show ?thesis by (auto simp: parcel_double.simps [of c] not_less)
  next
    case True
    then have lt: "unat c < unat n" by (simp add: word_less_nat_alt)
    then have dbl: "unat (c * 2) = unat c * 2"
      using assms(2) unat_mult_lem [of c 2] by simp
    with lt less.prems obtain c' where "parcel_double (c * 2) n = Some c'" "c * 2 \<le> c'" "n \<le> c'"
      using less.hyps [of "c * 2"] diff_less_mono2 [of "unat c" "unat c * 2" "unat n"] by auto
    moreover from this(2) have "c \<le> c'" using dbl by (simp add: word_le_nat_alt)
    ultimately show ?thesis using True by (simp add: parcel_double.simps [of c])
  qed
qed

lemma unat_add_length:
  "unat (x::u64) + n \<le> 2 ^ 63 \<Longrightarrow> unat (x + of_nat n) = unat x + n"
  by (simp add: unat_plus_if' unat_of_nat)

lemma parcel_write_appends:
  assumes w: "writing p" and fit: "unat (par_size p) + length bs \<le> 2 ^ 63" and h: "\<And>n. alloc_ok h n"
  shows "\<exists>p'. parcel_write h p bs = Some p' \<and> writing p' \<and> parcel_content p' = parcel_content p @ bs"
proof -
  let ?new = "par_size p + of_nat (length bs)"
  have new: "unat ?new = unat (par_size p) + length bs" by (rule unat_add_length [OF fit])
  obtain d where d: "par_ptr p = Some d" "length d = unat (par_capacity p)"
    using w by (auto simp: writing_def split: option.splits)
  have sz: "unat (par_size p) \<le> length d" "0 < unat (par_capacity p)" "\<not> par_error p"
    using w d(2) by (auto simp: writing_def word_le_nat_alt word_less_nat_alt)
  obtain c d1 where c: "?new \<le> c" "0 < c" "length d1 = unat c"
      "take (unat (par_size p)) d1 = take (unat (par_size p)) d"
    and step: "(if par_capacity p < ?new then do {
                 c \<leftarrow> parcel_double (par_capacity p) ?new;
                 Some (p\<lparr>par_capacity := c, par_ptr := realloc h (par_ptr p) (unat c)\<rparr>)
               } else Some p) = Some (p\<lparr>par_capacity := c, par_ptr := Some d1\<rparr>)"
  proof (cases "par_capacity p < ?new")
    case True
    have "unat ?new \<le> 2 ^ 63" using new fit by simp
    then obtain c where c: "parcel_double (par_capacity p) ?new = Some c" "par_capacity p \<le> c" "?new \<le> c"
      using parcel_double_enough [OF sz(2)] by blast
    have pos: "0 < unat c" using c(2) sz(2) by (simp add: word_le_nat_alt)
    then obtain d1 where d1: "realloc h (Some d) (unat c) = Some d1" using realloc_ok h by blast
    have "take (length d) d1 = d"
      using realloc_prefix [OF d1] d(2) c(2) by (simp add: word_le_nat_alt)
    then have "take (unat (par_size p)) d1 = take (unat (par_size p)) d"
      using sz(1) by (metis min.absorb1 take_take)
    with that [of c d1] c True d1 d pos realloc_length [OF d1] show thesis
      by (simp add: word_less_nat_alt)
  next
    case False
    have "p = p\<lparr>par_capacity := par_capacity p, par_ptr := Some d\<rparr>" using d(1) by simp
    with that [of "par_capacity p" d] False d sz show thesis by (simp add: not_less word_less_nat_alt [of 0])
  qed
  have room: "unat (par_size p) + length bs \<le> length d1"
    using c(1,3) new by (simp add: word_le_nat_alt)
  let ?d' = "take (unat (par_size p)) d1 @ bs @ drop (unat (par_size p) + length bs) d1"
  let ?p' = "p\<lparr>par_capacity := c, par_ptr := Some ?d', par_size := ?new\<rparr>"
  have "\<not> c < ?new" using c(1) by simp
  then have run: "parcel_write h p bs = Some ?p'"
    using step sz(3) room by (simp add: parcel_write_def mem_simps Let_def)
  have "length ?d' = length d1" using room by simp
  then have "writing ?p'" using c sz(3) by (simp add: writing_def)
  moreover have "parcel_content ?p' = parcel_content p @ bs"
    using room c(4) d(1) new sz(1) by (simp add: parcel_content_def)
  ultimately show ?thesis using run by blast
qed

lemma parcel_write_sticky: "par_error p \<Longrightarrow> parcel_write h p bs = Some p"
  by (simp add: parcel_write_def)

lemma parcel_new_writing: "alloc_ok h 4096 \<Longrightarrow> writing (parcel_new h) \<and> parcel_content (parcel_new h) = []"
  by (simp add: parcel_new_def PARCEL_DEFAULT_CAPACITY_def writing_def parcel_content_def malloc_def)

section \<open>The reader\<close>

text \<open>A parcel being read, with the bytes that lie ahead of the cursor.\<close>

definition reading :: "parcel_t \<Rightarrow> buf \<Rightarrow> bool" where
  "reading p bs \<longleftrightarrow>
     \<not> par_error p \<and> par_size p \<le> par_capacity p \<and>
     (case par_ptr p of
        None \<Rightarrow> False
      | Some d \<Rightarrow> length d = unat (par_capacity p) \<and> drop (unat (par_size p)) d = bs)"

definition advance :: "parcel_t \<Rightarrow> nat \<Rightarrow> parcel_t" where
  "advance p n = p\<lparr>par_size := par_size p + of_nat n\<rparr>"

lemma advance_advance [simp]: "advance (advance p m) n = advance p (m + n)"
  by (simp add: advance_def add.assoc)

lemma reading_length:
  "reading p bs \<Longrightarrow> unat (par_size p) + length bs = unat (par_capacity p)"
  by (auto simp: reading_def word_le_nat_alt split: option.splits)

lemma advance_size:
  assumes "reading p (xs @ ys)"
  shows "unat (par_size (advance p (length xs))) = unat (par_size p) + length xs"
proof -
  have "unat (par_size p) + length xs < 2 ^ 64"
    using reading_length [OF assms] unat_u64 [of "par_capacity p"] by simp
  then show ?thesis by (simp add: advance_def unat_plus_if' unat_of_nat)
qed

lemma reading_advance:
  assumes "reading p (xs @ ys)"
  shows "reading (advance p (length xs)) ys"
proof -
  obtain d where d: "par_ptr p = Some d" "length d = unat (par_capacity p)"
    "drop (unat (par_size p)) d = xs @ ys"
    using assms by (auto simp: reading_def split: option.splits)
  have "drop (unat (par_size p) + length xs) d = drop (length xs) (xs @ ys)"
    unfolding d(3) [symmetric] by (simp add: add.commute)
  moreover have "unat (par_size p) + length xs \<le> unat (par_capacity p)"
    using reading_length [OF assms] by simp
  ultimately show ?thesis
    using assms d advance_size [OF assms] by (simp add: reading_def advance_def word_le_nat_alt)
qed

lemma reading_new: "length bs < 2 ^ 64 \<Longrightarrow> reading (parcel_read_new bs) bs"
  by (simp add: reading_def parcel_read_new_def unat_of_nat word_le_nat_alt)

lemma parcel_read_uchar_eq:
  assumes "reading p (c # bs)"
  shows "parcel_read_uchar p = Some (c, advance p 1)"
proof -
  obtain d where d: "par_ptr p = Some d" "length d = unat (par_capacity p)"
    "drop (unat (par_size p)) d = c # bs"
    using assms by (auto simp: reading_def split: option.splits)
  have "unat (par_size p) < length d" using reading_length [OF assms] d(2) by simp
  with d(3) have "rd d (unat (par_size p)) = Some c"
    by (metis Cons_nth_drop_Suc list.inject rd_Some)
  with assms d show ?thesis
    by (simp add: parcel_read_uchar_def reading_def advance_def)
qed

lemma parcel_read_eq:
  assumes "reading p (xs @ bs)" and "length xs = length b"
  shows "parcel_read p b = Some (xs, advance p (length xs))"
proof -
  obtain d where d: "par_ptr p = Some d" "length d = unat (par_capacity p)"
    "drop (unat (par_size p)) d = xs @ bs"
    using assms by (auto simp: reading_def split: option.splits)
  have "unat (par_size p) + length xs \<le> length d" using reading_length [OF assms(1)] d(2) by simp
  moreover have "par_size p + of_nat (length xs) \<le> par_capacity p"
    using advance_size [OF assms(1)] calculation d(2) by (simp add: advance_def word_le_nat_alt)
  ultimately show ?thesis
    using d assms(2) by (simp add: parcel_read_def Let_def mem_read_def advance_def)
qed

section \<open>Decoding integers\<close>

lemma ucast_byte_u64: "n < 256 \<Longrightarrow> (ucast (word_of_nat n :: byte) :: u64) = word_of_nat n"
  by (rule word_eq_by_unat) (simp add: unsigned_ucast_eq unat_of_nat take_bit_eq_mod)

lemma small_and_80: "n < 128 \<Longrightarrow> (word_of_nat n :: u64) AND 0x80 = 0"
proof -
  assume n: "n < 128"
  have "take_bit 7 (word_of_nat n :: u64) = word_of_nat n"
    using n by (intro word_eq_by_unat) (simp add: take_bit_eq_mod unat_mod unat_of_nat)
  then have "(word_of_nat n :: u64) AND 0x80 = take_bit 7 (word_of_nat n) AND 0x80" by simp
  also have "\<dots> = 0" by (simp add: take_bit_eq_mask mask_numeral and.assoc)
  finally show ?thesis .
qed

lemma cont_byte_bits:
  assumes "n < 128"
  shows "(word_of_nat (n + 128) :: u64) AND 0x80 \<noteq> 0"
    and "(word_of_nat (n + 128) :: u64) AND 0x7f = word_of_nat n"
proof -
  have "(word_of_nat n :: u64) + 0x80 = word_of_nat n OR 0x80"
    by (rule disjunctive_add_eq_or [OF small_and_80 [OF assms]])
  then have w: "(word_of_nat (n + 128) :: u64) = word_of_nat n OR 0x80" by simp
  show "(word_of_nat (n + 128) :: u64) AND 0x80 \<noteq> 0"
    unfolding w by (simp add: bit.conj_disj_distrib2 small_and_80 [OF assms])
  show "(word_of_nat (n + 128) :: u64) AND 0x7f = word_of_nat n"
  proof (rule word_eq_by_unat)
    show "unat ((word_of_nat (n + 128) :: u64) AND 0x7f) = unat (word_of_nat n :: u64)"
      unfolding unat_and_7f unat_of_nat using assms by simp
  qed
qed

lemma or_push_bit:
  assumes "unat val < 2 ^ off"
  shows "val OR push_bit off (word_of_nat n) = (word_of_nat (unat val + n * 2 ^ off) :: u64)"
proof -
  have v: "take_bit off val = val"
    using assms by (intro word_eq_by_unat) (simp add: unsigned_take_bit_eq take_bit_nat_eq_self)
  have "take_bit off val AND push_bit off (word_of_nat n) = 0"
    by (rule bit_eqI) (auto simp: bit_simps)
  then have "val + push_bit off (word_of_nat n) = val OR push_bit off (word_of_nat n)"
    unfolding v by (rule disjunctive_add_eq_or)
  then show ?thesis by (simp add: push_bit_eq_mult)
qed

declare parcel_read_varuint_loop.simps [simp del]

lemma parcel_read_varuint_loop_enc:
  "reading p (varuint_enc n @ bs) \<Longrightarrow> n * 2 ^ off < 2 ^ 64 \<Longrightarrow> unat val < 2 ^ off \<Longrightarrow> off < 64 \<Longrightarrow>
   parcel_read_varuint_loop p val off =
     Some (word_of_nat (unat val + n * 2 ^ off), advance p (length (varuint_enc n)))"
proof (induction n arbitrary: p val off rule: varuint_enc.induct)
  case (1 n)
  show ?case
  proof (cases "n < 128")
    case True
    then have "parcel_read_uchar p = Some (word_of_nat n, advance p 1)"
      using "1.prems"(1) by (intro parcel_read_uchar_eq) (simp add: varuint_enc.simps [of n])
    with True "1.prems" show ?thesis
      by (simp add: parcel_read_varuint_loop.simps [of p] varuint_enc.simps [of n] ucast_byte_u64
          small_and_80 or_push_bit)
  next
    case False
    let ?c = "word_of_nat (n mod 128 + 128) :: byte" and ?val = "word_of_nat (unat val + n mod 128 * 2 ^ off) :: u64"
    have enc: "varuint_enc n = ?c # varuint_enc (n div 128)" using False by (subst varuint_enc.simps) simp
    have uc: "parcel_read_uchar p = Some (?c, advance p 1)"
      using "1.prems"(1) by (intro parcel_read_uchar_eq [of p ?c "varuint_enc (n div 128) @ bs"]) (simp add: enc)
    have rd: "reading (advance p 1) (varuint_enc (n div 128) @ bs)"
      using reading_advance [of p "[?c]"] "1.prems"(1) by (simp add: enc)
    have v: "(ucast ?c :: u64) = word_of_nat (n mod 128 + 128)" by (rule ucast_byte_u64) simp
    have n: "n div 128 * 128 + n mod 128 = n" by simp
    have pw: "(2::nat) ^ (off + 7) = 128 * 2 ^ off" by (simp add: power_add)
    have eq: "n mod 128 * 2 ^ off + n div 128 * 2 ^ (off + 7) = n * 2 ^ off"
      unfolding pw by (metis (no_types, lifting) add.commute add_mult_distrib mult.assoc n)
    have "2 ^ (off + 7) \<le> n * 2 ^ off" using False unfolding pw by (simp add: mult_le_mono1)
    then have "(2::nat) ^ (off + 7) < 2 ^ 64" using "1.prems"(2) by linarith
    then have off: "off + 7 < 64" by (rule power_less_imp_less_exp [rotated]) simp
    have "unat val + n mod 128 * 2 ^ off < 2 ^ off + n mod 128 * 2 ^ off" using "1.prems"(3) by simp
    also have "\<dots> \<le> 2 ^ (off + 7)"
      unfolding pw using mult_le_mono1 [of "Suc (n mod 128)" 128 "2 ^ off"] by simp
    finally have b: "unat val + n mod 128 * 2 ^ off < 2 ^ (off + 7)" .
    with \<open>(2::nat) ^ (off + 7) < 2 ^ 64\<close> have "unat val + n mod 128 * 2 ^ off < 2 ^ 64" by linarith
    then have uv: "unat ?val = unat val + n mod 128 * 2 ^ off" by (simp only: unat_of_nat) simp
    have "unat ?val < 2 ^ (off + 7)" using b uv by (simp only:)
    moreover have "n div 128 * 2 ^ (off + 7) < 2 ^ 64" using eq "1.prems"(2) by linarith
    ultimately have IH: "parcel_read_varuint_loop (advance p 1) ?val (off + 7) =
        Some (word_of_nat (unat ?val + n div 128 * 2 ^ (off + 7)),
              advance (advance p 1) (length (varuint_enc (n div 128))))"
      using False rd off by (intro "1.IH")
    have "unat ?val + n div 128 * 2 ^ (off + 7) = unat val + n * 2 ^ off" unfolding uv using eq by simp
    with IH have "parcel_read_varuint_loop (advance p 1) ?val (off + 7) =
        Some (word_of_nat (unat val + n * 2 ^ off), advance p (length (varuint_enc n)))"
      by (simp only: advance_advance enc length_Cons plus_1_eq_Suc)
    with uc v "1.prems"(3,4) show ?thesis
      by (simp add: parcel_read_varuint_loop.simps [of p] cont_byte_bits [simplified] or_push_bit Let_def)
  qed
qed

lemma parcel_read_varuint64_enc:
  assumes "reading p (varuint_enc (unat v) @ bs)"
  shows "parcel_read_varuint64 p = Some (v, advance p (length (varuint_enc (unat v))))"
  using parcel_read_varuint_loop_enc [OF assms, of 0 0] unat_u64 [of v]
  by (simp add: parcel_read_varuint64_def)

text \<open>Zig-zag: the sign moves to the lowest bit, in 32 and in 64 bits.\<close>

definition zigzag64 :: "u64 \<Rightarrow> u64" where
  "zigzag64 v = push_bit 1 v XOR signed_drop_bit 63 v"

definition zigzag32 :: "u32 \<Rightarrow> u64" where
  "zigzag32 v = ucast (push_bit 1 v XOR signed_drop_bit 31 v)"

definition unzigzag :: "u64 \<Rightarrow> u64" where
  "unzigzag v = drop_bit 1 v XOR (- (v AND 1))"

lemma bit_neg_and_1: "n < 64 \<Longrightarrow> bit (- (v AND 1) :: u64) n \<longleftrightarrow> bit v 0"
proof -
  assume n: "n < 64"
  have "v AND 1 = 0 \<or> v AND 1 = 1" by (simp add: and_one_eq mod2_eq_if)
  moreover have "v AND 1 = 1 \<longleftrightarrow> bit v 0" by (simp add: and_one_eq mod2_eq_if bit_0)
  ultimately show ?thesis using n by (auto simp: bit_simps)
qed

lemma unzigzag_zigzag64: "unzigzag (zigzag64 v) = v"
proof (rule bit_word_eqI)
  fix n assume n: "n < LENGTH(64)"
  then have "n < 64" by simp
  then show "bit (unzigzag (zigzag64 v)) n = bit v n"
    unfolding unzigzag_def zigzag64_def bit_xor_iff bit_neg_and_1 [OF \<open>n < 64\<close>]
      bit_drop_bit_eq comp_def bit_push_bit_iff bit_signed_drop_bit_iff
    by (cases "n = 63") (auto dest: bit_imp_le_length)
qed

lemma unzigzag_zigzag32: "ucast (unzigzag (zigzag32 v)) = v"
proof (rule bit_word_eqI)
  fix n assume n: "n < LENGTH(32)"
  then have "n < 64" by simp
  then show "bit (ucast (unzigzag (zigzag32 v)) :: u32) n = bit v n"
    unfolding unzigzag_def zigzag32_def bit_ucast_iff bit_xor_iff bit_neg_and_1 [OF \<open>n < 64\<close>]
      bit_drop_bit_eq comp_def bit_push_bit_iff bit_signed_drop_bit_iff
    using n by (cases "n = 31") (auto dest: bit_imp_le_length)
qed

section \<open>Little-endian words\<close>

lemma le_bytes_fold:
  fixes v :: "'a::len word"
  shows "foldr (\<lambda>c v. push_bit 8 v OR ucast c)
      (map (\<lambda>i. ucast (drop_bit (8 * i) v) :: byte) [m..<m + k]) 0 =
    take_bit (8 * k) (drop_bit (8 * m) v)"
proof (induction k arbitrary: m)
  case 0
  then show ?case by simp
next
  case (Suc k)
  have "push_bit 8 (take_bit (8 * k) (drop_bit (8 * Suc m) v)) OR
      ucast (ucast (drop_bit (8 * m) v) :: byte) = take_bit (8 * Suc k) (drop_bit (8 * m) v)"
  proof (rule bit_word_eqI)
    fix n assume n: "n < LENGTH('a)"
    have "8 \<le> n \<Longrightarrow> 8 * Suc m + (n - 8) = 8 * m + n" and "8 \<le> n \<Longrightarrow> n - 8 < 8 * k \<longleftrightarrow> n < 8 * Suc k"
      and "\<not> 8 \<le> n \<Longrightarrow> n < 8 * Suc k" by auto
    with n show "bit (push_bit 8 (take_bit (8 * k) (drop_bit (8 * Suc m) v)) OR
        ucast (ucast (drop_bit (8 * m) v) :: byte)) n =
      bit (take_bit (8 * Suc k) (drop_bit (8 * m) v)) n"
      by (cases "8 \<le> n") (simp_all add: bit_simps del: mult_Suc_right)
  qed
  moreover have "[m..<m + Suc k] = m # [Suc m..<Suc m + k]" by (simp add: upt_conv_Cons)
  ultimately show ?case using Suc.IH [of "Suc m"] by simp
qed

lemma of_le32_le_bytes32: "of_le32 (le_bytes32 v) = v"
  using le_bytes_fold [of v 0 4] by (simp add: of_le32_def le_bytes32_def take_bit_word_eq_self)

lemma of_le64_le_bytes64: "of_le64 (le_bytes64 v) = v"
  using le_bytes_fold [of v 0 8] by (simp add: of_le64_def le_bytes64_def take_bit_word_eq_self)

section \<open>The codec interface\<close>

text \<open>
  What a pair of a writing and a reading operation promises its client: the writer appends the
  encoding of the value to the parcel, and the reader, met with that encoding, returns the value and
  moves the cursor right behind it.  Everything a client sends is a sequence of such values.
\<close>

fun put_all :: "('p \<Rightarrow> 'v \<Rightarrow> 'p option) \<Rightarrow> 'p \<Rightarrow> 'v list \<Rightarrow> 'p option" where
  "put_all put p [] = Some p"
| "put_all put p (v # vs) = do { p \<leftarrow> put p v; put_all put p vs }"

fun get_all :: "('k \<Rightarrow> 'p \<Rightarrow> ('v \<times> 'p) option) \<Rightarrow> 'k list \<Rightarrow> 'p \<Rightarrow> ('v list \<times> 'p) option" where
  "get_all get [] p = Some ([], p)"
| "get_all get (k # ks) p = do { (v, p) \<leftarrow> get k p; (vs, p) \<leftarrow> get_all get ks p; Some (v # vs, p) }"

locale codec =
  fixes enc :: "'v \<Rightarrow> buf"
    and valid :: "'v \<Rightarrow> bool"
    and kind :: "'v \<Rightarrow> 'k"
    and put :: "heap \<Rightarrow> parcel_t \<Rightarrow> 'v \<Rightarrow> parcel_t option"
    and get :: "'k \<Rightarrow> parcel_t \<Rightarrow> ('v \<times> parcel_t) option"
  assumes put_enc: "valid v \<Longrightarrow> writing p \<Longrightarrow> unat (par_size p) + length (enc v) \<le> 2 ^ 63 \<Longrightarrow>
      (\<And>n. alloc_ok h n) \<Longrightarrow>
      \<exists>p'. put h p v = Some p' \<and> writing p' \<and> parcel_content p' = parcel_content p @ enc v"
    and get_enc: "valid v \<Longrightarrow> reading p (enc v @ bs) \<Longrightarrow> length (enc v) \<le> 2 ^ 63 \<Longrightarrow>
      get (kind v) p = Some (v, advance p (length (enc v)))"
begin

abbreviation enc_all :: "'v list \<Rightarrow> buf" where
  "enc_all vs \<equiv> concat (map enc vs)"

lemma put_all_enc:
  "\<forall>v\<in>set vs. valid v \<Longrightarrow> writing p \<Longrightarrow> unat (par_size p) + length (enc_all vs) \<le> 2 ^ 63 \<Longrightarrow>
   (\<And>n. alloc_ok h n) \<Longrightarrow>
   \<exists>p'. put_all (put h) p vs = Some p' \<and> writing p' \<and> parcel_content p' = parcel_content p @ enc_all vs"
proof (induction vs arbitrary: p)
  case Nil
  then show ?case by simp
next
  case (Cons v vs)
  then obtain p1 where p1: "put h p v = Some p1" "writing p1" "parcel_content p1 = parcel_content p @ enc v"
    using put_enc [of v p h] by auto
  have "unat (par_size p1) = unat (par_size p) + length (enc v)"
    using p1 Cons.prems(2) writing_content_length by (metis length_append)
  with Cons p1 obtain p2 where "put_all (put h) p1 vs = Some p2" "writing p2"
    "parcel_content p2 = parcel_content p1 @ enc_all vs"
    using Cons.IH [of p1] by auto
  with p1 show ?case by simp
qed

lemma get_all_enc:
  "\<forall>v\<in>set vs. valid v \<Longrightarrow> reading p (enc_all vs @ bs) \<Longrightarrow> length (enc_all vs) \<le> 2 ^ 63 \<Longrightarrow>
   get_all get (map kind vs) p = Some (vs, advance p (length (enc_all vs)))"
proof (induction vs arbitrary: p)
  case Nil
  then show ?case by (simp add: advance_def)
next
  case (Cons v vs)
  then have r: "reading p (enc v @ enc_all vs @ bs)" by simp
  then have "get (kind v) p = Some (v, advance p (length (enc v)))"
    using Cons.prems by (intro get_enc) auto
  moreover have "get_all get (map kind vs) (advance p (length (enc v))) =
      Some (vs, advance (advance p (length (enc v))) (length (enc_all vs)))"
    using Cons.prems reading_advance [OF r] by (intro Cons.IH) auto
  ultimately show ?case by simp
qed

lemma round_trip:
  assumes "\<forall>v\<in>set vs. valid v" and "length (enc_all vs) \<le> 2 ^ 63" and "\<And>n. alloc_ok h n"
  shows "\<exists>p q. put_all (put h) (parcel_new h) vs = Some p \<and> parcel_ok p \<and>
    parcel_content p = enc_all vs \<and>
    get_all get (map kind vs) (parcel_read_new (parcel_content p)) = Some (vs, q) \<and> parcel_ok q"
proof -
  have new: "writing (parcel_new h)" "parcel_content (parcel_new h) = []"
    using parcel_new_writing [OF assms(3)] by auto
  moreover have "par_size (parcel_new h) = 0" by (simp add: parcel_new_def)
  ultimately obtain p where p: "put_all (put h) (parcel_new h) vs = Some p" "writing p"
    "parcel_content p = enc_all vs"
    using put_all_enc [OF assms(1) new(1) _ assms(3)] assms(2) by auto
  have r: "reading (parcel_read_new (enc_all vs)) (enc_all vs @ [])"
    using reading_new [of "enc_all vs"] assms(2) by simp
  have "parcel_ok (advance (parcel_read_new (enc_all vs)) (length (enc_all vs)))"
    by (simp add: parcel_ok_def advance_def parcel_read_new_def)
  with p get_all_enc [OF assms(1) r assms(2)] show ?thesis
    by (auto simp: parcel_ok_def writing_def)
qed

end

section \<open>The codecs of the parcel\<close>

lemma parcel_write_then:
  assumes "writing p" and "unat (par_size p) + length xs \<le> 2 ^ 63" and "\<And>n. alloc_ok h n"
  obtains p' where "parcel_write h p xs = Some p'" "writing p'"
    "parcel_content p' = parcel_content p @ xs" "unat (par_size p') = unat (par_size p) + length xs"
  using parcel_write_appends [OF assms] writing_content_length assms(1) by (metis length_append)

interpretation varuint: codec "\<lambda>v. varuint_enc (unat v)" "\<lambda>_. True" "\<lambda>_. ()"
  parcel_write_varuint64 "\<lambda>_. parcel_read_varuint64"
  by unfold_locales (auto simp: parcel_write_varuint64_eq parcel_write_appends parcel_read_varuint64_enc)

lemma parcel_write_varint_eq: "parcel_write_varint h p v = parcel_write h p (varuint_enc (unat (zigzag32 v)))"
  by (simp add: parcel_write_varint_def zigzag32_def Let_def parcel_write_varuint64_eq)

lemma parcel_write_varint64_eq: "parcel_write_varint64 h p v = parcel_write h p (varuint_enc (unat (zigzag64 v)))"
  by (simp add: parcel_write_varint64_def zigzag64_def parcel_write_varuint64_eq)

lemma parcel_read_varint64_eq:
  "parcel_read_varint64 p = do { (v, p) \<leftarrow> parcel_read_varuint64 p; Some (unzigzag v, p) }"
  by (simp add: parcel_read_varint64_def unzigzag_def)

interpretation varint: codec "\<lambda>v. varuint_enc (unat (zigzag32 v))" "\<lambda>_. True" "\<lambda>_. ()"
  parcel_write_varint "\<lambda>_. parcel_read_varint"
  by unfold_locales
    (auto simp: parcel_write_varint_eq parcel_write_appends parcel_read_varint_def parcel_read_varint64_eq
      parcel_read_varuint64_enc unzigzag_zigzag32)

interpretation varint64: codec "\<lambda>v. varuint_enc (unat (zigzag64 v))" "\<lambda>_. True" "\<lambda>_. ()"
  parcel_write_varint64 "\<lambda>_. parcel_read_varint64"
  by unfold_locales
    (auto simp: parcel_write_varint64_eq parcel_write_appends parcel_read_varint64_eq
      parcel_read_varuint64_enc unzigzag_zigzag64)

lemma le_bytes_length [simp]: "length (le_bytes32 v) = 4" "length (le_bytes64 w) = 8"
  by (simp_all add: le_bytes32_def le_bytes64_def)

interpretation int32: codec le_bytes32 "\<lambda>_. True" "\<lambda>_. ()" parcel_write_int "\<lambda>_. parcel_read_int"
proof unfold_locales
  fix p v bs assume r: "reading p (le_bytes32 v @ bs)"
  have "parcel_read p (replicate 4 0) = Some (le_bytes32 v, advance p (length (le_bytes32 v)))"
    by (rule parcel_read_eq [OF r]) simp
  then show "parcel_read_int p = Some (v, advance p (length (le_bytes32 v)))"
    by (simp add: parcel_read_int_def of_le32_le_bytes32)
qed (auto simp: parcel_write_int_def parcel_write_appends)

interpretation int64: codec le_bytes64 "\<lambda>_. True" "\<lambda>_. ()" parcel_write_int64 "\<lambda>_. parcel_read_int64"
proof unfold_locales
  fix p v bs assume r: "reading p (le_bytes64 v @ bs)"
  have "parcel_read p (replicate 8 0) = Some (le_bytes64 v, advance p (length (le_bytes64 v)))"
    by (rule parcel_read_eq [OF r]) simp
  then show "parcel_read_int64 p = Some (v, advance p (length (le_bytes64 v)))"
    by (simp add: parcel_read_int64_def of_le64_le_bytes64)
qed (auto simp: parcel_write_int64_def parcel_write_appends)

interpretation flag: codec "\<lambda>b. [if b then 1 else 0 :: byte]" "\<lambda>_. True" "\<lambda>_. ()"
  parcel_write_bool "\<lambda>_. parcel_read_bool"
  by unfold_locales (auto simp: parcel_write_bool_def parcel_write_appends parcel_read_bool_def parcel_read_uchar_eq)

text \<open>A string as its reader sees it: the bytes at the returned address, as many as the returned size.\<close>

definition parcel_text :: "parcel_t \<Rightarrow> u64 \<times> u64 \<Rightarrow> buf" where
  "parcel_text p r = (case par_ptr p of None \<Rightarrow> [] | Some d \<Rightarrow> take (unat (snd r)) (drop (unat (fst r)) d))"

definition parcel_get_text :: "parcel_t \<Rightarrow> (buf option \<times> parcel_t) option" where
  "parcel_get_text p = do { (r, q) \<leftarrow> parcel_read_string_and_size p; Some (map_option (parcel_text q) r, q) }"

definition parcel_put_text :: "heap \<Rightarrow> parcel_t \<Rightarrow> buf option \<Rightarrow> parcel_t option" where
  "parcel_put_text h p v = parcel_write_string h p (map_option (\<lambda>s. s @ [0]) v)"

definition text_enc :: "buf option \<Rightarrow> buf" where
  "text_enc v = (case v of None \<Rightarrow> [1] | Some s \<Rightarrow> 0 # varuint_enc (length s) @ s @ [0])"

definition text_valid :: "buf option \<Rightarrow> bool" where
  "text_valid v \<longleftrightarrow> (case v of None \<Rightarrow> True | Some s \<Rightarrow> 0 \<notin> set s)"

lemma parcel_put_text_enc:
  assumes v: "text_valid v" and w: "writing p" and fit: "unat (par_size p) + length (text_enc v) \<le> 2 ^ 63"
    and h: "\<And>n. alloc_ok h n"
  shows "\<exists>p'. parcel_put_text h p v = Some p' \<and> writing p' \<and> parcel_content p' = parcel_content p @ text_enc v"
proof (cases v)
  case None
  with w fit h show ?thesis
    by (auto simp: parcel_put_text_def parcel_write_string_def parcel_write_string_with_size_def
        parcel_write_bool_def text_enc_def parcel_write_appends)
next
  case (Some s)
  then have s: "0 \<notin> set s" and len: "unat (par_size p) + Suc (length (varuint_enc (length s)) + Suc (length s)) \<le> 2 ^ 63"
    using v fit by (auto simp: text_valid_def text_enc_def)
  have sl: "strlen (s @ [0]) = Some (length s)" using s by (simp add: strlen_terminated)
  have n: "unat (word_of_nat (length s) :: u64) = length s" using len by (simp add: unat_of_nat)
  obtain p1 where p1: "parcel_write h p [0] = Some p1" "writing p1"
    "parcel_content p1 = parcel_content p @ [0]" "unat (par_size p1) = unat (par_size p) + 1"
    using parcel_write_then [OF w _ h, of "[0]"] len by auto
  obtain p2 where p2: "parcel_write h p1 (varuint_enc (length s)) = Some p2" "writing p2"
    "parcel_content p2 = parcel_content p1 @ varuint_enc (length s)"
    "unat (par_size p2) = unat (par_size p1) + length (varuint_enc (length s))"
    using parcel_write_then [OF p1(2) _ h, of "varuint_enc (length s)"] len p1(4) by auto
  obtain p3 where p3: "parcel_write h p2 s = Some p3" "writing p3"
    "parcel_content p3 = parcel_content p2 @ s" "unat (par_size p3) = unat (par_size p2) + length s"
    using parcel_write_then [OF p2(2) _ h, of s] len p1(4) p2(4) by auto
  obtain p4 where p4: "parcel_write h p3 [0] = Some p4" "writing p4"
    "parcel_content p4 = parcel_content p3 @ [0]"
    using parcel_write_then [OF p3(2) _ h, of "[0]"] len p1(4) p2(4) p3(4) by auto
  have "parcel_put_text h p v = Some p4"
    using Some sl n p1(1) p2(1) p3(1) p4(1)
    by (simp add: parcel_put_text_def parcel_write_string_def parcel_write_string_with_size_def
        parcel_write_bool_def parcel_write_varuint64_eq mem_read_def)
  with Some p1 p2 p3 p4 show ?thesis by (simp add: text_enc_def)
qed

lemma parcel_get_text_enc:
  assumes v: "text_valid v" and r: "reading p (text_enc v @ bs)" and len: "length (text_enc v) \<le> 2 ^ 63"
  shows "parcel_get_text p = Some (v, advance p (length (text_enc v)))"
proof (cases v)
  case None
  with r show ?thesis
    by (simp add: parcel_get_text_def parcel_read_string_and_size_def parcel_read_bool_def text_enc_def
        parcel_read_uchar_eq)
next
  case (Some s)
  let ?n = "word_of_nat (length s) :: u64" and ?e = "varuint_enc (length s)"
  have n: "unat ?n = length s" using len Some by (simp add: unat_of_nat text_enc_def)
  have r0: "reading p ([0] @ ?e @ s @ 0 # bs)" using r Some by (simp add: text_enc_def)
  then have b: "parcel_read_bool p = Some (False, advance p 1)"
    by (simp add: parcel_read_bool_def parcel_read_uchar_eq)
  have r1: "reading (advance p 1) (?e @ s @ 0 # bs)" using reading_advance [OF r0] by simp
  then have u: "parcel_read_varuint64 (advance p 1) = Some (?n, advance p (1 + length ?e))"
    using parcel_read_varuint64_enc [of "advance p 1" ?n] by (simp add: n)
  let ?q = "advance p (1 + length ?e)"
  have r2: "reading ?q ((s @ [0]) @ bs)" using reading_advance [OF r1] by simp
  let ?q' = "advance ?q (length (s @ [0]))"
  have step: "?q\<lparr>par_size := par_size ?q + (?n + 1)\<rparr> = ?q'"
    by (simp add: advance_def add.commute add.left_commute)
  have "\<not> par_capacity ?q' < par_size ?q'"
    using reading_advance [OF r2] by (simp add: reading_def not_less)
  then have "\<not> par_capacity ?q < par_size ?q + (?n + 1)"
    unfolding step [symmetric] by simp
  with b u step have "parcel_read_string_and_size p = Some (Some (par_size ?q, ?n), ?q')"
    by (simp add: parcel_read_string_and_size_def Let_def)
  moreover have "parcel_text ?q' (par_size ?q, ?n) = s"
    using r2 n by (auto simp: parcel_text_def reading_def advance_def split: option.splits)
  ultimately show ?thesis using Some by (simp add: parcel_get_text_def text_enc_def)
qed

interpretation str: codec text_enc text_valid "\<lambda>_. ()" parcel_put_text "\<lambda>_. parcel_get_text"
  by unfold_locales (use parcel_put_text_enc parcel_get_text_enc in blast)+

section \<open>Messages: lists of fields of any type\<close>

text \<open>The types a client names in \<open>parcel_put\<close> and \<open>parcel_get\<close>, and a value of each.\<close>

datatype fkind = KVaruint64 | KVarint | KVarint64 | KBool | KInt | KInt64 | KString

datatype field =
    FVaruint64 u64 | FVarint u32 | FVarint64 u64 | FBool bool | FInt u32 | FInt64 u64
  | FString "buf option"

fun field_kind :: "field \<Rightarrow> fkind" where
  "field_kind (FVaruint64 _) = KVaruint64"
| "field_kind (FVarint _) = KVarint"
| "field_kind (FVarint64 _) = KVarint64"
| "field_kind (FBool _) = KBool"
| "field_kind (FInt _) = KInt"
| "field_kind (FInt64 _) = KInt64"
| "field_kind (FString _) = KString"

fun field_valid :: "field \<Rightarrow> bool" where
  "field_valid (FString v) = text_valid v"
| "field_valid _ = True"

fun field_enc :: "field \<Rightarrow> buf" where
  "field_enc (FVaruint64 v) = varuint_enc (unat v)"
| "field_enc (FVarint v) = varuint_enc (unat (zigzag32 v))"
| "field_enc (FVarint64 v) = varuint_enc (unat (zigzag64 v))"
| "field_enc (FBool v) = [if v then 1 else 0]"
| "field_enc (FInt v) = le_bytes32 v"
| "field_enc (FInt64 v) = le_bytes64 v"
| "field_enc (FString v) = text_enc v"

fun parcel_put :: "heap \<Rightarrow> parcel_t \<Rightarrow> field \<Rightarrow> parcel_t option" where
  "parcel_put h p (FVaruint64 v) = parcel_write_varuint64 h p v"
| "parcel_put h p (FVarint v) = parcel_write_varint h p v"
| "parcel_put h p (FVarint64 v) = parcel_write_varint64 h p v"
| "parcel_put h p (FBool v) = parcel_write_bool h p v"
| "parcel_put h p (FInt v) = parcel_write_int h p v"
| "parcel_put h p (FInt64 v) = parcel_write_int64 h p v"
| "parcel_put h p (FString v) = parcel_put_text h p v"

fun parcel_get :: "fkind \<Rightarrow> parcel_t \<Rightarrow> (field \<times> parcel_t) option" where
  "parcel_get KVaruint64 p = do { (v, p) \<leftarrow> parcel_read_varuint64 p; Some (FVaruint64 v, p) }"
| "parcel_get KVarint p = do { (v, p) \<leftarrow> parcel_read_varint p; Some (FVarint v, p) }"
| "parcel_get KVarint64 p = do { (v, p) \<leftarrow> parcel_read_varint64 p; Some (FVarint64 v, p) }"
| "parcel_get KBool p = do { (v, p) \<leftarrow> parcel_read_bool p; Some (FBool v, p) }"
| "parcel_get KInt p = do { (v, p) \<leftarrow> parcel_read_int p; Some (FInt v, p) }"
| "parcel_get KInt64 p = do { (v, p) \<leftarrow> parcel_read_int64 p; Some (FInt64 v, p) }"
| "parcel_get KString p = do { (v, p) \<leftarrow> parcel_get_text p; Some (FString v, p) }"

interpretation fields: codec field_enc field_valid field_kind parcel_put parcel_get
proof unfold_locales
  fix h :: heap and p v
  assume "field_valid v" "writing p" "unat (par_size p) + length (field_enc v) \<le> 2 ^ 63" "\<And>n. alloc_ok h n"
  then show "\<exists>p'. parcel_put h p v = Some p' \<and> writing p' \<and> parcel_content p' = parcel_content p @ field_enc v"
    using flag.put_enc [of p True h] flag.put_enc [of p False h]
    by (cases v) (auto intro!: varuint.put_enc varint.put_enc varint64.put_enc int32.put_enc
        int64.put_enc str.put_enc)
next
  fix p v bs
  assume "field_valid v" "reading p (field_enc v @ bs)" "length (field_enc v) \<le> 2 ^ 63"
  then show "parcel_get (field_kind v) p = Some (v, advance p (length (field_enc v)))"
    by (cases v) (auto simp: varuint.get_enc varint.get_enc varint64.get_enc flag.get_enc int32.get_enc
        int64.get_enc str.get_enc)
qed

text \<open>Claim C2: any list of fields that a client writes to a fresh parcel (strings without NUL bytes,
  allocation succeeding, the message below \<open>2 ^ 63\<close> bytes) is written without error, and reading the
  resulting bytes back with the same list of types returns exactly these fields, again without error.\<close>

theorem parcel_round_trip:
  assumes "\<forall>f\<in>set fs. field_valid f" and "length (concat (map field_enc fs)) \<le> 2 ^ 63"
    and "\<And>n. alloc_ok h n"
  shows "\<exists>p q. put_all (parcel_put h) (parcel_new h) fs = Some p \<and> parcel_ok p \<and>
    get_all parcel_get (map field_kind fs) (parcel_read_new (parcel_content p)) = Some (fs, q) \<and> parcel_ok q"
  using fields.round_trip [OF assms] by blast

theorem parcel_round_trip_witness:
  "\<exists>p q. put_all (parcel_put heap_total) (parcel_new heap_total)
        [FVarint (-3), FString (Some [65, 66]), FString None, FInt64 7] = Some p \<and> parcel_ok p \<and>
      get_all parcel_get [KVarint, KString, KString, KInt64] (parcel_read_new (parcel_content p)) =
        Some ([FVarint (-3), FString (Some [65, 66]), FString None, FInt64 7], q) \<and> parcel_ok q"
proof -
  let ?fs = "[FVarint (-3), FString (Some [65, 66]), FString None, FInt64 7]"
  have "unat (zigzag32 (-3)) < 128 ^ 10" using unat_u64 [of "zigzag32 (-3)"] by simp
  then have "length (varuint_enc (unat (zigzag32 (-3)))) \<le> 10" by (rule varuint_enc_length) simp
  moreover have "varuint_enc (Suc (Suc 0)) = [2]" by (simp add: varuint_enc.simps)
  ultimately have "length (concat (map field_enc ?fs)) \<le> 2 ^ 63" by (simp add: text_enc_def)
  moreover have "\<forall>f\<in>set ?fs. field_valid f" by (simp add: text_valid_def)
  ultimately show ?thesis
    using parcel_round_trip [of ?fs heap_total] by (simp add: heap_total_def)
qed

text \<open>Once a write has failed, every later write leaves the parcel as it is, so the error is
  still seen by the final \<open>parcel_ok\<close>.\<close>

theorem parcel_error_sticky:
  assumes "\<not> parcel_ok p" and "\<forall>f\<in>set fs. field_valid f" and "\<forall>f\<in>set fs. length (field_enc f) < 2 ^ 63"
  shows "put_all (parcel_put h) p fs = Some p"
  using assms
proof (induction fs)
  case (Cons f fs)
  then have e: "par_error p" by (simp add: parcel_ok_def)
  have "parcel_put h p f = Some p"
  proof (cases f)
    case (FString v)
    then have v: "text_valid v" "length (text_enc v) < 2 ^ 63" using Cons.prems by auto
    show ?thesis
    proof (cases v)
      case (Some s)
      then have "0 \<notin> set s" "unat (word_of_nat (length s) :: u64) = length s"
        using v by (auto simp: text_valid_def text_enc_def unat_of_nat)
      then show ?thesis
        using FString Some e
        by (simp add: parcel_put_text_def parcel_write_string_def parcel_write_string_with_size_def
            parcel_write_bool_def parcel_write_varuint64_eq parcel_write_sticky strlen_terminated mem_read_def)
    qed (use FString e in \<open>simp add: parcel_put_text_def parcel_write_string_def
        parcel_write_string_with_size_def parcel_write_bool_def parcel_write_sticky\<close>)
  qed (use e in \<open>simp_all add: parcel_write_varuint64_eq parcel_write_varint_eq parcel_write_varint64_eq
      parcel_write_bool_def parcel_write_int_def parcel_write_int64_def parcel_write_sticky\<close>)
  with Cons show ?case by simp
qed simp

theorem parcel_error_sticky_witness:
  "put_all (parcel_put heap_total) ((parcel_new heap_total)\<lparr>par_error := True\<rparr>) [FBool True, FString (Some [65])] =
     Some ((parcel_new heap_total)\<lparr>par_error := True\<rparr>)"
  by (rule parcel_error_sticky) (simp_all add: parcel_ok_def text_valid_def text_enc_def varuint_enc.simps)

text \<open>A parcel whose bytes are used up does not report an error when one more byte is read: the
  cursor equal to the capacity passes the bounds check and the read goes past the end of the data.\<close>

theorem parcel_read_past_end:
  assumes "length bs < 2 ^ 64"
  shows "parcel_read_uchar (advance (parcel_read_new bs) (length bs)) = None"
  using assms by (simp add: parcel_read_uchar_def parcel_read_new_def advance_def rd_def unat_of_nat)

theorem parcel_read_past_end_witness:
  "parcel_read_uchar (advance (parcel_read_new [1, 2]) (length [1::byte, 2])) = None"
  by (rule parcel_read_past_end) simp

end
