(* ===== verification/FB_ReadMark.thy ===== *)
theory FB_ReadMark
  imports FB_Helper FB_Parcel
begin

text \<open>
  The unread marks of \<open>lib/boardrc.c\<close>: per board a list of at most 60 article ids that were read, newest
  first, all boards of a user packed into one buffer that is kept in the file \<open>.boardrc\<close>.  The two static
  variables of the source, the packed buffer and the record of the current board, are the state.
  Pointers into a packed buffer are offsets; items are stored in little-endian order.
\<close>

section \<open>Data\<close>

definition BRC_BUFSIZE :: nat where "BRC_BUFSIZE = 50000"
definition BRC_MAXNUM :: nat where "BRC_MAXNUM = 60"
definition BRC_STRLEN :: nat where "BRC_STRLEN = 20"
definition BRC_ITEMSIZE :: nat where "BRC_ITEMSIZE = BRC_STRLEN + 1 + BRC_MAXNUM * 4"

lemmas brc_sizes = BRC_BUFSIZE_def BRC_MAXNUM_def BRC_STRLEN_def BRC_ITEMSIZE_def

type_synonym brc_item_t = u32

record brc_buf_t =
  bb_size :: u32
  bb_dirty :: bool
  bb_initialized :: bool
  bb_ptr :: buf

record brc_t =
  brc_size :: u32
  brc_dirty :: bool
  brc_name :: buf
  brc_items :: "brc_item_t list"

record brc_state =
  st_buf :: brc_buf_t
  st_brc :: brc_t

definition brc_buf_zero :: brc_buf_t where
  "brc_buf_zero = \<lparr>bb_size = 0, bb_dirty = False, bb_initialized = False, bb_ptr = replicate BRC_BUFSIZE 0\<rparr>"

definition brc_zero :: brc_t where
  "brc_zero = \<lparr>brc_size = 0, brc_dirty = False, brc_name = replicate BRC_STRLEN 0, brc_items = replicate BRC_MAXNUM 0\<rparr>"

section \<open>The packed form\<close>

definition brc_get_record :: "buf \<Rightarrow> nat \<Rightarrow> brc_t \<Rightarrow> (nat \<times> brc_t) option" where
  "brc_get_record b p brcp = do {
     (name, _) \<leftarrow> strlcpy (brc_name brcp) (drop p b) BRC_STRLEN;
     let p = p + BRC_STRLEN;
     c \<leftarrow> rd b p;
     let p = p + 1;
     let size' = (word_of_int (schar c) :: u32);
     let size' = (if size' > of_nat BRC_MAXNUM then of_nat BRC_MAXNUM else size');
     bs \<leftarrow> mem_read b p (unat size' * 4);
     items \<leftarrow> mem_write (brc_items brcp) 0 (map of_le32 (chunks 4 bs (unat size')));
     Some (p + unat size' * 4, brcp\<lparr>brc_name := name, brc_size := size', brc_items := items\<rparr>)
   }"

definition brc_put_record :: "buf \<Rightarrow> nat \<Rightarrow> brc_t \<Rightarrow> (buf \<times> nat) option" where
  "brc_put_record b p brcp =
     (if brc_size brcp \<noteq> 0 then do {
        let size' = (if brc_size brcp > of_nat BRC_MAXNUM then of_nat BRC_MAXNUM else brc_size brcp);
        (tail, _) \<leftarrow> strlcpy (drop p b) (brc_name brcp) BRC_STRLEN;
        let b = take p b @ tail;
        let p = p + BRC_STRLEN;
        b \<leftarrow> wr b p (ucast size');
        let p = p + 1;
        items \<leftarrow> mem_read (brc_items brcp) 0 (unat size');
        b \<leftarrow> mem_write b p (concat (map le_bytes32 items));
        Some (b, p + unat size' * 4)
      } else Some (b, p))"

definition brc_path :: "buf \<Rightarrow> string option" where
  "brc_path uname = map_option path_of (sethomefile (replicate HOMELEN 0) uname (lit ''.boardrc'' @ [0]))"

text \<open>A failed read stores -1 in the unsigned size.\<close>

definition brc_load :: "os \<Rightarrow> fs \<Rightarrow> buf \<Rightarrow> brc_buf_t \<Rightarrow> brc_buf_t option" where
  "brc_load os fs uname b = do {
     file' \<leftarrow> brc_path uname;
     b \<leftarrow> (case (if can_open os then fs file' else None) of
         Some (Regular xs) \<Rightarrow> do {
           (n, dst, _) \<leftarrow> file_read os (Some (bb_ptr b)) (length (bb_ptr b)) \<lparr>bytes = xs, pos = 0\<rparr>;
           d \<leftarrow> dst;
           Some (b\<lparr>bb_size := word_of_int n, bb_ptr := d\<rparr>)
         }
       | Some (Directory _) \<Rightarrow> Some (b\<lparr>bb_size := word_of_int (-1)\<rparr>)
       | None \<Rightarrow> Some (b\<lparr>bb_size := 0\<rparr>));
     Some (b\<lparr>bb_initialized := True, bb_dirty := False\<rparr>)
   }"

definition brc_save :: "os \<Rightarrow> fs \<Rightarrow> buf \<Rightarrow> brc_buf_t \<Rightarrow> fs option" where
  "brc_save os fs uname b = do {
     file' \<leftarrow> brc_path uname;
     (case fs file' of
        Some (Directory _) \<Rightarrow> Some fs
      | n \<Rightarrow>
          if can_open os then do {
            let old = (case n of Some (Regular xs) \<Rightarrow> xs | _ \<Rightarrow> []);
            let f = \<lparr>bytes = (if retry (os_truncate os) then [] else old), pos = 0\<rparr>;
            xs \<leftarrow> mem_read (bb_ptr b) 0 (unat (bb_size b));
            let (_, f) = file_write os (Some xs) f;
            Some (fs(file' \<mapsto> Regular (bytes f)))
          } else Some fs)
   }"

text \<open>\<open>strncmp\<close> on two arrays of names, up to \<open>n\<close> bytes.\<close>

definition strneq :: "buf \<Rightarrow> buf \<Rightarrow> nat \<Rightarrow> bool" where
  "strneq a b n \<longleftrightarrow> take n (cstr a) = take n (cstr b)"

definition entry_start :: "byte \<Rightarrow> bool" where
  "entry_start c \<longleftrightarrow> schar c \<ge> 32 \<and> schar c \<le> 126"

lemma brc_get_record_advances: "brc_get_record b p brcp = Some (p', brcp') \<Longrightarrow> p < p'"
  by (auto simp: brc_get_record_def Let_def BRC_STRLEN_def split: Option.bind_splits if_splits)

function merge_copy :: "buf \<Rightarrow> buf \<Rightarrow> nat \<Rightarrow> nat \<Rightarrow> buf \<Rightarrow> nat \<Rightarrow> (buf \<times> nat) option" where
  "merge_copy name src tmp end' out ptr =
     (if tmp < end' then
        (case rd src tmp of
           None \<Rightarrow> None
         | Some c \<Rightarrow>
             if entry_start c then
               (case brc_get_record src tmp brc_zero of
                  None \<Rightarrow> None
                | Some (tmp', tmp_brc) \<Rightarrow>
                    if \<not> strneq (brc_name tmp_brc) name BRC_STRLEN then
                      (case brc_put_record out ptr tmp_brc of
                         None \<Rightarrow> None
                       | Some (out, ptr) \<Rightarrow> merge_copy name src tmp' end' out ptr)
                    else merge_copy name src tmp' end' out ptr)
             else Some (out, ptr))
      else Some (out, ptr))"
  by pat_completeness auto
termination
  by (relation "measure (\<lambda>(name, src, tmp, end', out, ptr). end' - tmp)") (auto dest: brc_get_record_advances)

definition brc_merge :: "brc_buf_t \<Rightarrow> brc_state \<Rightarrow> brc_state option" where
  "brc_merge b st = do {
     let out = bb_ptr (st_buf st);
     (out, ptr) \<leftarrow> (if brc_size (st_brc st) \<noteq> 0 then brc_put_record out 0 (st_brc st) else Some (out, 0));
     let size' = (if bb_size b > of_nat (BRC_BUFSIZE - BRC_ITEMSIZE)
                  then of_nat (BRC_BUFSIZE - BRC_ITEMSIZE * 2 + 1) else bb_size b);
     (out, ptr) \<leftarrow> merge_copy (brc_name (st_brc st)) (bb_ptr b) 0 (unat size') out ptr;
     Some \<lparr>st_buf = (st_buf st)\<lparr>bb_ptr := out, bb_size := of_nat ptr, bb_dirty := True\<rparr>,
           st_brc = (st_brc st)\<lparr>brc_dirty := False\<rparr>\<rparr>
   }"

definition brc_sync :: "os \<Rightarrow> fs \<Rightarrow> buf \<Rightarrow> brc_state \<Rightarrow> (brc_state \<times> fs) option" where
  "brc_sync os fs user_name st =
     (if \<not> brc_dirty (st_brc st) \<and> \<not> bb_dirty (st_buf st) then Some (st, fs)
      else do {
        b \<leftarrow> brc_load os fs user_name brc_buf_zero;
        st \<leftarrow> brc_merge b st;
        fs \<leftarrow> brc_save os fs user_name (st_buf st);
        Some (st, fs)
      })"

function init_find :: "buf \<Rightarrow> buf \<Rightarrow> nat \<Rightarrow> nat \<Rightarrow> brc_t \<Rightarrow> (bool \<times> brc_t) option" where
  "init_find board_name b ptr end' brcp =
     (if ptr < end' then
        (case rd b ptr of
           None \<Rightarrow> None
         | Some c \<Rightarrow>
             if entry_start c then
               (case brc_get_record b ptr brcp of
                  None \<Rightarrow> None
                | Some (ptr', brcp) \<Rightarrow>
                    if strneq (brc_name brcp) board_name BRC_STRLEN then Some (True, brcp)
                    else init_find board_name b ptr' end' brcp)
             else Some (False, brcp))
      else Some (False, brcp))"
  by pat_completeness auto
termination
  by (relation "measure (\<lambda>(board_name, b, ptr, end', brcp). end' - ptr)") (auto dest: brc_get_record_advances)

definition brc_init :: "os \<Rightarrow> fs \<Rightarrow> buf option \<Rightarrow> buf option \<Rightarrow> brc_state \<Rightarrow> (int \<times> brc_state) option" where
  "brc_init os fs user_name board_name st =
     (case (user_name, board_name) of
        (Some user, Some board) \<Rightarrow>
          if strneq (brc_name (st_brc st)) board BRC_STRLEN then Some (sint (brc_size (st_brc st)), st)
          else do {
            st \<leftarrow> (if brc_dirty (st_brc st) then brc_merge (st_buf st) st else Some st);
            b \<leftarrow> (if \<not> bb_initialized (st_buf st) then brc_load os fs user (st_buf st) else Some (st_buf st));
            (found, brcp) \<leftarrow> init_find board (bb_ptr b) 0 (unat (bb_size b)) (st_brc st);
            (if found then Some (sint (brc_size brcp), \<lparr>st_buf = b, st_brc = brcp\<rparr>)
             else do {
               (name, _) \<leftarrow> strlcpy (brc_name brcp) board BRC_STRLEN;
               items \<leftarrow> wr (brc_items brcp) 0 1;
               Some (0, \<lparr>st_buf = b,
                 st_brc = \<lparr>brc_size = 1, brc_dirty = True, brc_name = name, brc_items = items\<rparr>\<rparr>)
             })
          }
      | _ \<Rightarrow> Some (0, st))"

definition brc_reset :: brc_state where
  "brc_reset = \<lparr>st_buf = brc_buf_zero, st_brc = brc_zero\<rparr>"

section \<open>Marking and testing\<close>

function mark_loop :: "brc_item_t \<Rightarrow> nat \<Rightarrow> brc_t \<Rightarrow> (bool \<times> brc_t) option" where
  "mark_loop item i b =
     (if i < unat (brc_size b) then
        (case rd (brc_items b) i of
           None \<Rightarrow> None
         | Some x \<Rightarrow>
             if item = x then Some (False, b)
             else if item > x then do {
               let n = (if unat (brc_size b) < BRC_MAXNUM then brc_size b + 1 else brc_size b);
               items \<leftarrow> mem_move (brc_items b) (i + 1) i (unat n - i - 1);
               items \<leftarrow> wr items i item;
               Some (True, b\<lparr>brc_size := n, brc_items := items, brc_dirty := True\<rparr>)
             } else mark_loop item (Suc i) b)
      else if unat (brc_size b) < BRC_MAXNUM then do {
        items \<leftarrow> wr (brc_items b) (unat (brc_size b)) item;
        Some (False, b\<lparr>brc_size := brc_size b + 1, brc_items := items, brc_dirty := True\<rparr>)
      } else Some (False, b))"
  by pat_completeness auto
termination
  by (relation "measure (\<lambda>(item, i, b). unat (brc_size b) - i)") auto

definition brc_mark_as_read :: "brc_item_t \<Rightarrow> brc_t \<Rightarrow> (bool \<times> brc_t) option" where
  "brc_mark_as_read item b =
     (if brc_size b = 0 then do {
        items \<leftarrow> wr (brc_items b) 0 item;
        Some (True, b\<lparr>brc_size := 1, brc_items := items, brc_dirty := True\<rparr>)
      } else mark_loop item 0 b)"

function unread_loop :: "brc_item_t \<Rightarrow> nat \<Rightarrow> brc_t \<Rightarrow> bool option" where
  "unread_loop item i b =
     (if i < unat (brc_size b) then
        (case rd (brc_items b) i of
           None \<Rightarrow> None
         | Some x \<Rightarrow> if item > x then Some True else if item = x then Some False else unread_loop item (Suc i) b)
      else Some False)"
  by pat_completeness auto
termination
  by (relation "measure (\<lambda>(item, i, b). unat (brc_size b) - i)") auto

definition brc_unread :: "brc_item_t \<Rightarrow> brc_t \<Rightarrow> bool option" where
  "brc_unread item b = (if brc_size b = 0 then Some True else unread_loop item 0 b)"

definition brc_last_read :: "brc_t \<Rightarrow> brc_item_t option" where
  "brc_last_read b = (if brc_size b \<noteq> 0 then rd (brc_items b) 0 else Some 0)"

text \<open>The counter is an \<open>int\<close>, compared as unsigned; counting past the largest \<open>int\<close> is undefined.\<close>

function clear_loop :: "brc_item_t \<Rightarrow> int \<Rightarrow> brc_t \<Rightarrow> brc_t option" where
  "clear_loop item i b =
     (if (word_of_int i :: u32) \<le> item then
        (case brc_mark_as_read (word_of_int i) b of
           None \<Rightarrow> None
         | Some (_, b) \<Rightarrow> (case cint (i + 1) of None \<Rightarrow> None | Some i' \<Rightarrow> clear_loop item i' b))
      else Some b)"
  by pat_completeness auto
termination
  by (relation "measure (\<lambda>(item, i, b). nat (2 ^ 31 - i))") (auto simp: cint_def split: if_splits)

definition brc_clear :: "brc_item_t \<Rightarrow> brc_t \<Rightarrow> brc_t option" where
  "brc_clear item b = clear_loop item (sint (item - of_nat BRC_MAXNUM + 1)) b"

definition brc_clear_all :: "brc_item_t \<Rightarrow> brc_t \<Rightarrow> brc_t option" where
  "brc_clear_all now b = brc_clear now b"

definition brc_zapbuf :: "int \<Rightarrow> brc_t \<Rightarrow> int option" where
  "brc_zapbuf zbuf b =
     (if zbuf > 0 \<and> brc_size b \<noteq> 0 then map_option sint (rd (brc_items b) 0) else Some zbuf)"

text \<open>The time of the last article of the board comes from the shared board cache.\<close>

definition brc_board_unread ::
  "os \<Rightarrow> fs \<Rightarrow> buf option \<Rightarrow> buf option \<Rightarrow> brc_item_t \<Rightarrow> brc_state \<Rightarrow> (bool \<times> brc_state) option" where
  "brc_board_unread os fs user_name board_name last_post st = do {
     (n, st) \<leftarrow> brc_init os fs user_name board_name st;
     (if n = 0 then Some (True, st) else do { u \<leftarrow> brc_unread last_post (st_brc st); Some (u, st) })
   }"


section \<open>The record of one board\<close>

declare mark_loop.simps [simp del] unread_loop.simps [simp del] clear_loop.simps [simp del]
  merge_copy.simps [simp del] init_find.simps [simp del]

definition contents :: "brc_t \<Rightarrow> brc_item_t list" where
  "contents b = take (unat (brc_size b)) (brc_items b)"

definition brc_inv :: "brc_t \<Rightarrow> bool" where
  "brc_inv b \<longleftrightarrow> unat (brc_size b) \<le> BRC_MAXNUM \<and> length (brc_items b) = BRC_MAXNUM \<and>
     sorted_wrt (>) (contents b)"

fun ins_desc :: "'a::linorder \<Rightarrow> 'a list \<Rightarrow> 'a list" where
  "ins_desc x [] = [x]"
| "ins_desc x (y # ys) = (if x = y then y # ys else if x > y then x # y # ys else y # ins_desc x ys)"

lemma set_ins_desc [simp]: "set (ins_desc x xs) = insert x (set xs)"
  by (induction xs) auto

lemma sorted_ins_desc [simp]: "sorted_wrt (>) xs \<Longrightarrow> sorted_wrt (>) (ins_desc x xs)"
  by (induction xs) auto

lemma ins_desc_append: "\<forall>y\<in>set pre. x < y \<Longrightarrow> ins_desc x (pre @ rest) = pre @ ins_desc x rest"
  by (induction pre) auto

lemma ins_desc_length: "length (ins_desc x xs) \<le> Suc (length xs)"
  by (induction xs) auto

lemma length_contents: "brc_inv b \<Longrightarrow> length (contents b) = unat (brc_size b)"
  by (simp add: contents_def brc_inv_def)

lemma sorted_wrt_take: "sorted_wrt P xs \<Longrightarrow> sorted_wrt P (take n xs)"
  by (metis append_take_drop_id sorted_wrt_append)

lemma unat_Suc_small: "unat (n::u32) < 60 \<Longrightarrow> unat (n + 1) = Suc (unat n)"
  by (simp add: unat_word_ariths)

lemma mark_shift:
  assumes "length items = 60" and "i < n" and "n \<le> 60"
  shows "\<exists>ys. mem_move items (i + 1) i (n - i - 1) = Some ys \<and> length ys = 60 \<and>
    take n (ys[i := item]) = take i items @ item # take (n - i - 1) (drop i items)"
proof -
  let ?ys = "take (Suc i) items @ take (n - i - 1) (drop i items) @ drop n items"
  have "mem_move items (i + 1) i (n - i - 1) = Some ?ys"
    using assms by (simp add: mem_simps)
  moreover have "take (Suc i) items = take i items @ [items ! i]"
    using assms by (simp add: take_Suc_conv_app_nth)
  moreover obtain k where "n = Suc (i + k)" using assms(2) less_imp_Suc_add by blast
  ultimately show ?thesis using assms by (simp add: list_update_append min_absorb2)
qed

lemma mark_loop_spec:
  assumes "brc_inv b" and "contents b = pre @ rest" and "\<forall>y\<in>set pre. item < y"
  shows "\<exists>b'. mark_loop item (length pre) b =
      Some ((\<exists>x\<in>set rest. x < item) \<and> item \<notin> set rest, b') \<and>
    length (brc_items b') = BRC_MAXNUM \<and> unat (brc_size b') \<le> BRC_MAXNUM \<and> brc_name b' = brc_name b \<and>
    contents b' = take BRC_MAXNUM (pre @ ins_desc item rest)"
  using assms(2,3)
proof (induction rest arbitrary: pre)
  case Nil
  have len: "length pre = unat (brc_size b)" using Nil length_contents [OF assms(1)] by simp
  have items: "length (brc_items b) = 60" "unat (brc_size b) \<le> 60" using assms(1) by (auto simp: brc_inv_def brc_sizes)
  show ?case
  proof (cases "unat (brc_size b) < 60")
    case True
    then show ?thesis
      using Nil len items
      by (simp add: mark_loop.simps brc_sizes mem_simps contents_def unat_Suc_small take_snoc_update)
  next
    case False
    then show ?thesis using Nil len items by (simp add: mark_loop.simps brc_sizes)
  qed
next
  case (Cons x rest)
  define i where "i = length pre"
  have size: "unat (brc_size b) = Suc (i + length rest)" using Cons.prems length_contents [OF assms(1)] by (simp add: i_def)
  have items: "length (brc_items b) = 60" "unat (brc_size b) \<le> 60" using assms(1) by (auto simp: brc_inv_def brc_sizes)
  have pre: "take i (brc_items b) = pre" and dr: "take (Suc (length rest)) (drop i (brc_items b)) = x # rest"
    using Cons.prems(1) size items take_add [of i "Suc (length rest)" "brc_items b"]
    by (simp_all add: contents_def i_def)
  have at: "rd (brc_items b) i = Some x"
    using dr rd_drop [of i "brc_items b" x] by (cases "drop i (brc_items b)") auto
  have srt: "sorted_wrt (>) (x # rest)"
    using assms(1) Cons.prems(1) by (simp add: brc_inv_def sorted_wrt_append)
  show ?case
  proof (cases "item = x \<or> item < x")
    case True
    then show ?thesis
    proof
      assume "item = x"
      then show ?thesis
        using at size items Cons.prems srt
        by (auto simp: mark_loop.simps [of _ i b] i_def [symmetric] brc_sizes)
    next
      assume lt: "item < x"
      have "mark_loop item (length pre) b = mark_loop item (length (pre @ [x])) b"
        using at size lt by (auto simp: mark_loop.simps [of item "length pre" b] i_def)
      then show ?thesis
        using Cons.IH [of "pre @ [x]"] Cons.prems lt by auto
    qed
  next
    case False
    then have gt: "x < item" by auto
    define n where "n = (if unat (brc_size b) < 60 then brc_size b + 1 else brc_size b)"
    have n: "unat n = min 60 (Suc (unat (brc_size b)))" using items by (auto simp: n_def unat_Suc_small)
    have lt_n: "i < unat n" "unat n \<le> 60" using n size items by (auto simp: min_def)
    obtain ys where ys: "mem_move (brc_items b) (i + 1) i (unat n - i - 1) = Some ys" "length ys = 60"
      "take (unat n) (ys[i := item]) = take i (brc_items b) @ item # take (unat n - i - 1) (drop i (brc_items b))"
      using mark_shift [of "brc_items b" i "unat n" item] items(1) lt_n by auto
    have "take (unat n - i - 1) (drop i (brc_items b)) = take (unat n - i - 1) (x # rest)"
      using n size unfolding dr [symmetric] by (simp add: min_absorb1)
    moreover have "take 60 (pre @ item # x # rest) = pre @ item # take (unat n - i - 1) (x # rest)"
      using n size items by (auto simp: i_def min_def take_Cons' split: if_splits)
    ultimately have "take (unat n) (ys[i := item]) = take 60 (pre @ item # x # rest)"
      using ys(3) pre by simp
    moreover define b' where "b' = b\<lparr>brc_size := n, brc_items := ys[i := item], brc_dirty := True\<rparr>"
    moreover have "mark_loop item i b = Some (True, b')"
    proof -
      have "i < unat (brc_size b)" "item \<noteq> x" using size gt by auto
      then show ?thesis
        using gt at ys(1) wr_Some [of i ys item] ys(2) lt_n
        by (simp add: mark_loop.simps [of item i b] Let_def brc_sizes b'_def n_def [symmetric])
    qed
    moreover have "item \<notin> set (x # rest)" using gt srt by auto
    ultimately show ?thesis
      using gt lt_n ys(2) by (auto simp: i_def [symmetric] brc_sizes contents_def)
  qed
qed


lemma unread_loop_spec:
  assumes "brc_inv b" and "contents b = pre @ rest"
  shows "unread_loop item (length pre) b = Some ((\<exists>x\<in>set rest. x < item) \<and> item \<notin> set rest)"
  using assms(2)
proof (induction rest arbitrary: pre)
  case Nil
  then show ?case using length_contents [OF assms(1)] by (simp add: unread_loop.simps)
next
  case (Cons x rest)
  have size: "length pre < unat (brc_size b)" using Cons.prems length_contents [OF assms(1)] by simp
  have "contents b ! length pre = x" using Cons.prems by simp
  then have at: "rd (brc_items b) (length pre) = Some x"
    using size assms(1) by (simp add: contents_def brc_inv_def rd_def)
  have srt: "\<forall>y\<in>set rest. y < x"
    using assms(1) Cons.prems(1) by (simp add: brc_inv_def sorted_wrt_append)
  show ?case
    using Cons.IH [of "pre @ [x]"] Cons.prems at size srt by (auto simp: unread_loop.simps [of _ "length pre" b])
qed

lemma brc_unread_spec:
  "brc_inv b \<Longrightarrow> brc_unread item b =
     Some (contents b = [] \<or> (\<exists>x\<in>set (contents b). x < item) \<and> item \<notin> set (contents b))"
  using unread_loop_spec [of b "[]" "contents b" item] length_contents [of b]
  by (auto simp: brc_unread_def unat_eq_zero [symmetric])

lemma brc_mark_spec:
  assumes "brc_inv b"
  shows "\<exists>u b'. brc_unread item b = Some u \<and> brc_mark_as_read item b = Some (u, b') \<and> brc_inv b' \<and>
    contents b' = take BRC_MAXNUM (ins_desc item (contents b)) \<and> brc_name b' = brc_name b"
proof (cases "brc_size b = 0")
  case True
  then have "contents b = []" by (simp add: contents_def)
  moreover obtain y ys where "brc_items b = y # ys" "length ys = 59"
    using assms by (cases "brc_items b") (auto simp: brc_inv_def brc_sizes)
  ultimately show ?thesis
    using True brc_unread_spec [OF assms, of item]
    by (intro exI [of _ True]) (simp add: brc_mark_as_read_def wr_def brc_inv_def contents_def brc_sizes)
next
  case False
  then have ne: "contents b \<noteq> []" using length_contents [OF assms] by (auto simp: unat_eq_zero)
  have srt: "sorted_wrt (>) (take BRC_MAXNUM (ins_desc item (contents b)))"
    using assms by (intro sorted_wrt_take sorted_ins_desc) (simp add: brc_inv_def)
  then show ?thesis
    using mark_loop_spec [OF assms, of "[]" "contents b" item] brc_unread_spec [OF assms, of item] False ne
    by (auto simp: brc_mark_as_read_def brc_inv_def)
qed

text \<open>Claim C4: on a record of strictly descending items, marking an item as read keeps the order and the bound of 60
  items: the new list is the old one with the item inserted at its place and cut to the 60 newest.  The result tells
  whether the item was unread before.\<close>

theorem brc_mark_correct:
  assumes "brc_inv b"
  shows "\<exists>u b'. brc_unread item b = Some u \<and> brc_mark_as_read item b = Some (u, b') \<and> brc_inv b' \<and>
    contents b' = take BRC_MAXNUM (ins_desc item (contents b)) \<and> brc_name b' = brc_name b"
  by (rule brc_mark_spec [OF assms])

theorem brc_mark_correct_witness:
  "\<exists>u b'. brc_unread 5 (brc_zero\<lparr>brc_size := 2, brc_items := 9 # 3 # replicate 58 0\<rparr>) = Some u \<and>
    brc_mark_as_read 5 (brc_zero\<lparr>brc_size := 2, brc_items := 9 # 3 # replicate 58 0\<rparr>) = Some (u, b') \<and>
    contents b' = [9, 5, 3]"
  using brc_mark_correct [of "brc_zero\<lparr>brc_size := 2, brc_items := 9 # 3 # replicate 58 0\<rparr>" 5]
  by (auto simp: brc_inv_def contents_def brc_zero_def brc_sizes)

section \<open>Marking everything up to an item\<close>

definition covered :: "'a::linorder \<Rightarrow> 'a list \<Rightarrow> bool" where
  "covered v c \<longleftrightarrow> v \<in> set c \<or> length c = BRC_MAXNUM \<and> (\<forall>y\<in>set c. v < y)"

lemma ins_desc_last: "\<forall>y\<in>set c. x < y \<Longrightarrow> ins_desc x c = c @ [x]"
  using ins_desc_append [of c x "[]"] by simp

lemma sorted_take_last:
  assumes "sorted_wrt (>) d" and "length d \<le> Suc n" and "v \<in> set d" and "v \<notin> set (take n d)"
  shows "length (take n d) = n \<and> (\<forall>y\<in>set (take n d). v < (y::'a::linorder))"
proof -
  have v: "v \<in> set (drop n d)" using assms(3,4) by (metis Un_iff append_take_drop_id set_append)
  then have "n < length d" by (metis drop_eq_Nil empty_iff empty_set not_le)
  moreover have "sorted_wrt (>) (take n d @ drop n d)" using assms(1) by simp
  ultimately show ?thesis using v by (auto simp: sorted_wrt_append simp del: append_take_drop_id)
qed

lemma covered_ins:
  assumes "sorted_wrt (>) c" and "length c \<le> BRC_MAXNUM" and "covered v c \<or> v = x"
  shows "covered v (take BRC_MAXNUM (ins_desc x c))"
proof (cases "v \<in> set (ins_desc x c)")
  case True
  then show ?thesis
    using sorted_take_last [of "ins_desc x c" BRC_MAXNUM v] assms ins_desc_length [of x c]
    by (auto simp: covered_def)
next
  case False
  then have full: "length c = BRC_MAXNUM" and above: "\<forall>y\<in>set c. v < y" using assms(3) by (auto simp: covered_def)
  show ?thesis
  proof (cases "x < v")
    case True
    then have "ins_desc x c = c @ [x]" using above by (intro ins_desc_last) force
    with full above show ?thesis by (simp add: covered_def)
  next
    case x: False
    have "length c \<le> length (ins_desc x c)" by (induction c) auto
    with x False full above show ?thesis by (auto simp: covered_def dest!: in_set_takeD)
  qed
qed

lemma clear_loop_spec:
  assumes "brc_inv b" and "unat item < 2 ^ 31 - 1" and "lo \<le> i" and "i \<le> int (unat item) + 1" and "0 \<le> lo"
    and "\<forall>v. lo \<le> v \<and> v < i \<longrightarrow> covered (word_of_int v) (contents b)"
  shows "\<exists>b'. clear_loop item i b = Some b' \<and> brc_inv b' \<and>
    (\<forall>v. lo \<le> v \<and> v \<le> int (unat item) \<longrightarrow> covered (word_of_int v) (contents b'))"
  using assms
proof (induction "nat (int (unat item) + 1 - i)" arbitrary: i b)
  case 0
  then have i: "i = int (unat item) + 1" by simp
  then have "unat (word_of_int i :: u32) = Suc (unat item)"
    using 0 by (simp add: unat_word_ariths)
  then have "\<not> (word_of_int i :: u32) \<le> item" by (simp add: word_le_nat_alt)
  then show ?case using 0 i by (auto simp: clear_loop.simps)
next
  case (Suc n)
  have i: "i \<le> int (unat item)" "0 \<le> i" using Suc by auto
  moreover have "i < 2 ^ 32" using i unsigned_less [where ?'a = int, of item] by simp
  ultimately have "unat (word_of_int i :: u32) = nat i"
    by (simp add: unsigned_of_int take_bit_int_eq_self)
  then have le: "(word_of_int i :: u32) \<le> item" using i by (simp add: word_le_nat_alt nat_le_iff)
  obtain u b' where m: "brc_mark_as_read (word_of_int i) b = Some (u, b')" "brc_inv b'"
    "contents b' = take BRC_MAXNUM (ins_desc (word_of_int i) (contents b))"
    using brc_mark_spec [OF Suc.prems(1), of "word_of_int i"] by auto
  have "\<forall>v. lo \<le> v \<and> v < i + 1 \<longrightarrow> covered (word_of_int v) (contents b')"
  proof (intro allI impI)
    fix v assume "lo \<le> v \<and> v < i + 1"
    then have "covered (word_of_int v) (contents b) \<or> word_of_int v = (word_of_int i :: u32)"
      using Suc.prems(6) by (cases "v = i") auto
    then show "covered (word_of_int v) (contents b')"
      unfolding m(3) using Suc.prems(1) by (intro covered_ins) (auto simp: brc_inv_def contents_def)
  qed
  then have "\<exists>b''. clear_loop item (i + 1) b' = Some b'' \<and> brc_inv b'' \<and>
    (\<forall>v. lo \<le> v \<and> v \<le> int (unat item) \<longrightarrow> covered (word_of_int v) (contents b''))"
    using Suc m(2) by (intro Suc.hyps(1)) auto
  moreover have "clear_loop item i b = clear_loop item (i + 1) b'"
  proof -
    have "unat item < 2147483647" using Suc.prems(2) by simp
    then have "i < 2147483647" using i(1) by linarith
    then show ?thesis using le m(1) i(2) by (simp add: clear_loop.simps [of item i b] cint_def)
  qed
  ultimately show ?case by simp
qed


lemma covered_all:
  assumes "\<forall>v. lo \<le> v \<and> v < lo + 60 \<longrightarrow> covered (word_of_int v) c" and "length c \<le> BRC_MAXNUM"
    and "0 \<le> lo" and "lo + 60 \<le> 2 ^ 32"
  shows "\<forall>y\<in>set c. word_of_int lo \<le> (y::u32)"
proof (cases "\<forall>v. lo \<le> v \<and> v < lo + 60 \<longrightarrow> word_of_int v \<in> set c")
  case True
  let ?R = "(word_of_int :: int \<Rightarrow> u32) ` {lo..<lo + 60}"
  have "inj_on (word_of_int :: int \<Rightarrow> u32) {lo..<lo + 60}"
    using assms(3,4) by (intro inj_onI) (auto simp: word_of_int_eq_iff take_bit_int_eq_self)
  then have card: "card ?R = 60" by (simp add: card_image)
  have sub: "?R \<subseteq> set c" using True by auto
  have "?R = set c"
  proof (rule card_subset_eq)
    show "card ?R = card (set c)"
      using card sub assms(2) card_length [of c] card_mono [of "set c" ?R] by (simp add: brc_sizes)
  qed (use sub in auto)
  moreover have "word_of_int lo \<le> (word_of_int v :: u32)" if "lo \<le> v" "v < lo + 60" for v
    using that assms(3,4) by (simp add: word_le_def unsigned_of_int take_bit_int_eq_self)
  ultimately show ?thesis by (metis atLeastLessThan_iff imageE)
next
  case False
  then obtain v where v: "lo \<le> v" "v < lo + 60" "\<forall>y\<in>set c. word_of_int v < y"
    using assms(1) by (auto simp: covered_def)
  moreover have "word_of_int lo \<le> (word_of_int v :: u32)"
    using v assms(3,4) by (simp add: word_le_def unsigned_of_int take_bit_int_eq_self)
  ultimately show ?thesis by force
qed

text \<open>Clearing up to an item leaves a well-formed record in which every item up to it counts as read.\<close>

theorem brc_clear_reads_all:
  assumes "brc_inv b" and "59 \<le> unat item" and "unat item < 2 ^ 31 - 1"
  shows "\<exists>b'. brc_clear item b = Some b' \<and> brc_inv b' \<and> (\<forall>x. x \<le> item \<longrightarrow> brc_unread x b' = Some False)"
proof -
  define lo where "lo = int (unat item) - 59"
  have "unat item < 2147483647" using assms(3) by simp
  then have lo: "0 \<le> lo" "lo + 60 \<le> 2147483648" using assms(2) unfolding lo_def by linarith+
  have "item - of_nat BRC_MAXNUM + 1 = word_of_int lo" by (simp add: brc_sizes lo_def)
  moreover have "sint (word_of_int lo :: u32) = lo"
    using lo by (simp add: signed_of_int signed_take_bit_int_eq_self)
  ultimately have start: "sint (item - of_nat BRC_MAXNUM + 1) = lo" by simp
  obtain b' where run: "brc_clear item b = Some b'" and inv: "brc_inv b'"
    and cov: "\<forall>v. lo \<le> v \<and> v \<le> int (unat item) \<longrightarrow> covered (word_of_int v) (contents b')"
  proof -
    have none: "\<forall>v. lo \<le> v \<and> v < lo \<longrightarrow> covered (word_of_int v) (contents b)" by linarith
    have "lo \<le> int (unat item) + 1" by (simp add: lo_def)
    from clear_loop_spec [OF assms(1,3) order_refl this lo(1) none] that show ?thesis
      unfolding brc_clear_def start by blast
  qed
  have len: "length (contents b') \<le> BRC_MAXNUM" using inv by (simp add: contents_def brc_inv_def)
  have above: "\<forall>y\<in>set (contents b'). word_of_int lo \<le> y"
    using covered_all [of lo "contents b'"] cov len lo by (auto simp: lo_def)
  have "brc_unread x b' = Some False" if x: "x \<le> item" for x
  proof (cases "lo \<le> uint x")
    case True
    moreover have "uint x \<le> int (unat item)" using x by (simp add: word_le_def)
    ultimately have "covered (word_of_int (uint x)) (contents b')" using cov by blast
    then have "covered x (contents b')" by simp
    moreover have "contents b' \<noteq> []"
      using \<open>covered x (contents b')\<close> by (auto simp: covered_def brc_sizes)
    ultimately show ?thesis
      using brc_unread_spec [OF inv, of x] by (auto simp: covered_def dest: less_asym)
  next
    case False
    then have "x < word_of_int lo" using lo by (simp add: word_less_def unsigned_of_int take_bit_int_eq_self)
    then have "\<forall>y\<in>set (contents b'). x < y" using above by force
    moreover have "covered (word_of_int lo) (contents b')" using cov by (auto simp: lo_def)
    then have "contents b' \<noteq> []" by (auto simp: covered_def brc_sizes)
    ultimately show ?thesis
      using brc_unread_spec [OF inv, of x] by (auto dest: less_asym)
  qed
  with run inv show ?thesis by blast
qed

theorem brc_clear_reads_all_witness:
  "\<exists>b'. brc_clear 100 (brc_zero\<lparr>brc_size := 1, brc_items := 1 # replicate 59 0\<rparr>) = Some b' \<and>
    brc_unread 77 b' = Some False"
  using brc_clear_reads_all [of "brc_zero\<lparr>brc_size := 1, brc_items := 1 # replicate 59 0\<rparr>" 100]
  by (auto simp: brc_inv_def contents_def brc_zero_def brc_sizes)

end
