(* ===== verification/FB_MarkStore.thy ===== *)
theory FB_MarkStore
  imports FB_ReadMark
begin

text \<open>
  What the packed buffer of \<open>lib/boardrc.c\<close> promises: it is a finite map from board names to item lists.
  An entry is stored as a block of bytes whose name field may hold stale bytes behind its NUL, so the packed
  form is a relation.  The section ends with the refinement: changing the current board loses no mark.
\<close>

section \<open>Blocks\<close>

type_synonym brc_entry = "buf \<times> brc_item_t list"

definition mark_ok :: "brc_entry \<Rightarrow> bool" where
  "mark_ok e \<longleftrightarrow> (case e of (n, xs) \<Rightarrow>
     n \<noteq> [] \<and> 0 \<notin> set n \<and> length n < BRC_STRLEN \<and> entry_start (hd n) \<and> xs \<noteq> [] \<and> length xs \<le> BRC_MAXNUM)"

definition is_block :: "brc_entry \<Rightarrow> buf \<Rightarrow> bool" where
  "is_block e bs \<longleftrightarrow> (case e of (n, xs) \<Rightarrow>
     (\<exists>pad. bs = n @ 0 # pad @ of_nat (length xs) # concat (map le_bytes32 xs) \<and> length n + 1 + length pad = BRC_STRLEN))"

fun packed :: "brc_entry list \<Rightarrow> buf \<Rightarrow> bool" where
  "packed [] bs \<longleftrightarrow> bs = []"
| "packed (e # es) bs \<longleftrightarrow> (\<exists>b1 b2. bs = b1 @ b2 \<and> is_block e b1 \<and> packed es b2)"

definition brc_rep :: "brc_entry \<Rightarrow> brc_t \<Rightarrow> bool" where
  "brc_rep e r \<longleftrightarrow> length (brc_name r) = BRC_STRLEN \<and> length (brc_items r) = BRC_MAXNUM \<and> mark_ok e \<and>
     cstr (brc_name r) = fst e \<and> contents r = snd e \<and> unat (brc_size r) = length (snd e)"

lemma packed_append: "packed es bs \<Longrightarrow> packed es' bs' \<Longrightarrow> packed (es @ es') (bs @ bs')"
proof (induction es arbitrary: bs)
  case (Cons e es)
  then obtain b1 b2 where "bs = b1 @ b2" "is_block e b1" "packed es b2" by auto
  with Cons.IH [of b2] Cons.prems(2) have "bs @ bs' = b1 @ (b2 @ bs')" "packed (es @ es') (b2 @ bs')" by auto
  with \<open>is_block e b1\<close> show ?case unfolding append_Cons packed.simps by blast
qed simp

lemma packed_snoc: "packed es bs \<Longrightarrow> is_block e blk \<Longrightarrow> packed (es @ [e]) (bs @ blk)"
  by (rule packed_append) auto

lemma concat_le_bytes_length [simp]: "length (concat (map le_bytes32 xs)) = length xs * 4"
  by (induction xs) auto

lemma is_block_length: "is_block e bs \<Longrightarrow> length bs = BRC_STRLEN + 1 + length (snd e) * 4"
  by (auto simp: is_block_def split: prod.splits)

lemma chunks_le_bytes: "map of_le32 (chunks 4 (concat (map le_bytes32 xs)) (length xs)) = xs"
proof -
  have "chunks 4 (concat (map le_bytes32 xs)) (length (map le_bytes32 xs)) = map le_bytes32 xs"
    by (rule chunks_concat) auto
  then show ?thesis by (simp add: of_le32_le_bytes32 comp_def)
qed

lemma strlcpy_name:
  assumes "cstr src = n" and "terminated src" and "length n < BRC_STRLEN" and "BRC_STRLEN \<le> length dst"
  shows "strlcpy dst src BRC_STRLEN = Some (n @ 0 # drop (Suc (length n)) dst, length n)"
  using strlcpy_value [of src BRC_STRLEN dst] assms by (simp add: brc_sizes Let_def)

lemma schar_small: "k \<le> 60 \<Longrightarrow> schar (of_nat k) = int k"
  by (simp add: signed_of_nat signed_take_bit_int_eq_self)

lemma brc_get_block:
  assumes "mark_ok e" and "is_block e blk" and "drop p b = blk @ rest"
    and "length (brc_name r) = BRC_STRLEN" and "length (brc_items r) = BRC_MAXNUM"
  shows "\<exists>r'. brc_get_record b p r = Some (p + length blk, r') \<and> brc_rep e r' \<and> brc_dirty r' = brc_dirty r"
proof -
  obtain n xs where e: "e = (n, xs)" by (cases e)
  obtain pad where blk: "blk = n @ 0 # pad @ of_nat (length xs) # concat (map le_bytes32 xs)"
    and pad: "length n + 1 + length pad = BRC_STRLEN"
    using assms(2) by (auto simp: is_block_def e)
  have xs: "length xs \<le> 60" "0 \<notin> set n" "length n < BRC_STRLEN" using assms(1) by (auto simp: mark_ok_def e brc_sizes)
  have b: "b = take p b @ blk @ rest" using assms(3) by (metis append_take_drop_id)
  have pl: "p \<le> length b"
    using assms(3) blk by (metis append_is_Nil_conv drop_all list.distinct(1) nat_le_linear)
  have name: "strlcpy (brc_name r) (drop p b) BRC_STRLEN = Some (n @ 0 # drop (Suc (length n)) (brc_name r), length n)"
    using xs assms(3,4) blk by (intro strlcpy_name) auto
  have "drop (p + BRC_STRLEN) b = drop BRC_STRLEN (blk @ rest)"
    using assms(3) by (metis drop_drop add.commute)
  then have cnt_drop: "drop (p + BRC_STRLEN) b = of_nat (length xs) # concat (map le_bytes32 xs) @ rest"
    unfolding pad [symmetric] by (simp add: blk)
  have cnt: "rd b (p + BRC_STRLEN) = Some (of_nat (length xs))" using cnt_drop by (rule rd_drop)
  have dr: "drop (Suc (p + BRC_STRLEN)) b = concat (map le_bytes32 xs) @ rest"
    using cnt_drop by (rule drop_step)
  define sz where "sz = (of_nat (length xs) :: u32)"
  have sz: "unat sz = length xs" "(word_of_int (schar (of_nat (length xs))) :: u32) = sz" "\<not> sz > 60"
    using xs(1) by (simp_all add: sz_def schar_small unat_of_nat word_less_nat_alt)
  have bytes: "mem_read b (Suc (p + BRC_STRLEN)) (length xs * 4) = Some (concat (map le_bytes32 xs))"
  proof -
    have "length b - Suc (p + BRC_STRLEN) = length xs * 4 + length rest" using arg_cong [OF dr, of length] by simp
    moreover have "0 < length xs" using assms(1) by (simp add: mark_ok_def e)
    ultimately have "Suc (p + BRC_STRLEN) + length xs * 4 \<le> length b" by linarith
    then show ?thesis by (simp add: mem_read_def dr)
  qed
  have items: "mem_write (brc_items r) 0 xs = Some (xs @ drop (length xs) (brc_items r))"
    using xs(1) assms(5) by (simp add: mem_write_def brc_sizes)
  let ?r = "r\<lparr>brc_name := n @ 0 # drop (Suc (length n)) (brc_name r), brc_size := sz,
    brc_items := xs @ drop (length xs) (brc_items r)\<rparr>"
  have "brc_get_record b p r = Some (p + length blk, ?r)"
    using name cnt bytes items sz pad chunks_le_bytes [of xs]
    by (simp add: brc_get_record_def Let_def BRC_MAXNUM_def blk)
  moreover have "brc_rep e ?r"
    using assms sz xs by (simp add: brc_rep_def e contents_def brc_sizes)
  ultimately show ?thesis by fastforce
qed


lemma brc_rep_size:
  assumes "brc_rep e r"
  shows "brc_size r \<noteq> 0" and "\<not> brc_size r > of_nat BRC_MAXNUM"
proof -
  have "unat (brc_size r) \<noteq> 0" "unat (brc_size r) \<le> 60"
    using assms by (auto simp: brc_rep_def mark_ok_def BRC_MAXNUM_def split: prod.splits)
  then show "brc_size r \<noteq> 0" "\<not> brc_size r > of_nat BRC_MAXNUM"
    by (auto simp: BRC_MAXNUM_def word_less_nat_alt)
qed

lemma brc_put_block:
  assumes "brc_rep e r" and "p + BRC_STRLEN + 1 + length (snd e) * 4 \<le> length b"
  shows "\<exists>blk. is_block e blk \<and>
    brc_put_record b p r = Some (take p b @ blk @ drop (p + length blk) b, p + length blk)"
proof -
  obtain n xs where e: "e = (n, xs)" by (cases e)
  note rep = assms(1)
  have n: "cstr (brc_name r) = n" "length n < BRC_STRLEN" and xs: "contents r = xs" "unat (brc_size r) = length xs"
    using rep by (auto simp: brc_rep_def e mark_ok_def)
  have t: "terminated (brc_name r)"
  proof (rule ccontr)
    assume "\<not> terminated (brc_name r)"
    then show False using rep n cstr_id [of "brc_name r"] by (simp add: brc_rep_def)
  qed
  define d where "d = drop (Suc (length n)) (take BRC_STRLEN (drop p b))"
  have d: "length n + 1 + length d = BRC_STRLEN" using assms(2) n by (simp add: d_def e)
  have name: "strlcpy (drop p b) (brc_name r) BRC_STRLEN = Some (n @ 0 # d @ drop BRC_STRLEN (drop p b), length n)"
  proof -
    have "drop (Suc (length n)) (drop p b) = d @ drop BRC_STRLEN (drop p b)"
    proof -
      define l where "l = drop p b"
      have "length (take BRC_STRLEN l) = BRC_STRLEN" using assms(2) by (simp add: l_def)
      then have "drop (Suc (length n)) (take BRC_STRLEN l @ drop BRC_STRLEN l) =
          drop (Suc (length n)) (take BRC_STRLEN l) @ drop BRC_STRLEN l"
        using n(2) by (simp only: drop_append) simp
      then show ?thesis by (simp only: append_take_drop_id d_def l_def)
    qed
    then show ?thesis using strlcpy_name [OF n(1) t n(2), of "drop p b"] assms(2) by simp
  qed
  define c where "c = (of_nat (length xs) :: byte)"
  have c: "(ucast (brc_size r) :: byte) = c"
    using xs(2) by (simp add: c_def unsigned_ucast_eq flip: xs(2))
  define b1 where "b1 = take p b @ n @ 0 # d @ drop BRC_STRLEN (drop p b)"
  have drop20: "drop BRC_STRLEN (drop p b) = b ! (p + BRC_STRLEN) # drop (p + BRC_STRLEN + 1) b"
    using assms(2) by (simp add: Cons_nth_drop_Suc add.commute)
  have pre: "length (take p b @ n @ 0 # d) = p + BRC_STRLEN" using assms(2) d by simp
  have w: "wr b1 (p + BRC_STRLEN) c = Some (take p b @ n @ 0 # d @ c # drop (p + BRC_STRLEN + 1) b)"
  proof -
    define q where "q = take p b @ n @ 0 # d"
    have "b1 = q @ b ! (p + BRC_STRLEN) # drop (p + BRC_STRLEN + 1) b"
      unfolding b1_def drop20 q_def by simp
    moreover have "p + BRC_STRLEN = length q" using pre by (simp only: q_def)
    ultimately have "wr b1 (p + BRC_STRLEN) c = Some (q @ c # drop (p + BRC_STRLEN + 1) b)"
      by (simp add: wr_def)
    then show ?thesis by (simp add: q_def)
  qed
  have read: "mem_read (brc_items r) 0 (unat (brc_size r)) = Some xs"
    using rep xs by (auto simp: mem_read_def contents_def brc_rep_def e mark_ok_def)
  let ?blk = "n @ 0 # d @ c # concat (map le_bytes32 xs)"
  have len: "length ?blk = BRC_STRLEN + 1 + length xs * 4" using d by simp
  have put: "mem_write (take p b @ n @ 0 # d @ c # drop (p + BRC_STRLEN + 1) b) (Suc (p + BRC_STRLEN))
      (concat (map le_bytes32 xs)) = Some (take p b @ ?blk @ drop (p + length ?blk) b)"
  proof -
    define pp where "pp = take p b @ n @ 0 # d @ [c]"
    have pp: "length pp = Suc (p + BRC_STRLEN)" using pre by (simp add: pp_def)
    have "mem_write (pp @ drop (p + BRC_STRLEN + 1) b) (Suc (p + BRC_STRLEN)) (concat (map le_bytes32 xs)) =
        Some (pp @ concat (map le_bytes32 xs) @ drop (p + length ?blk) b)"
    proof -
      have sz: "p + length ?blk = Suc (p + BRC_STRLEN) + length xs * 4" unfolding len by simp
      show ?thesis unfolding sz using assms(2) pp by (simp add: mem_write_def e) (simp add: ac_simps le_diff_conv2)
    qed
    then show ?thesis by (simp add: pp_def)
  qed
  have "brc_put_record b p r = Some (take p b @ ?blk @ drop (p + length ?blk) b, p + length ?blk)"
  proof -
    have sz: "p + length ?blk = Suc (p + BRC_STRLEN + length xs * 4)" unfolding len by simp
    show ?thesis
      using name w [unfolded b1_def] read put [unfolded sz] c brc_rep_size [OF rep] xs(2)
      unfolding sz by (simp add: brc_put_record_def Let_def)
  qed
  moreover have "is_block e ?blk" using d by (auto simp: is_block_def e c_def)
  ultimately show ?thesis by blast
qed


section \<open>Merging\<close>

lemma block_start:
  assumes "mark_ok e" and "is_block e blk"
  shows "\<exists>c bs. blk = c # bs \<and> entry_start c"
proof -
  obtain n xs where "e = (n, xs)" by (cases e)
  with assms show ?thesis by (cases n) (auto simp: mark_ok_def is_block_def)
qed

lemma strneq_names:
  "length (cstr a) < BRC_STRLEN \<Longrightarrow> length (cstr b) < BRC_STRLEN \<Longrightarrow> strneq a b BRC_STRLEN \<longleftrightarrow> cstr a = cstr b"
  by (simp add: strneq_def)

lemma brc_rep_name: "brc_rep e r \<Longrightarrow> cstr (brc_name r) = fst e \<and> length (fst e) < BRC_STRLEN"
  by (auto simp: brc_rep_def mark_ok_def split: prod.splits)

lemma drop_past: "drop t src = blk @ rest \<Longrightarrow> drop (t + length blk) src = rest"
  by (metis add.commute append_eq_conv_conj drop_drop)

lemma brc_zero_lengths [simp]: "length (brc_name brc_zero) = BRC_STRLEN" "length (brc_items brc_zero) = BRC_MAXNUM"
  by (simp_all add: brc_zero_def)

lemma take_put: "p \<le> length b \<Longrightarrow> take (p + length blk) (take p b @ blk @ drop (p + length blk) b) = take p b @ blk"
  by simp

lemma merge_copy_spec:
  assumes "packed es bs" and "\<forall>e\<in>set es. mark_ok e" and "drop tmp src = bs @ post"
    and "length (cstr name) < BRC_STRLEN" and "packed es0 (take ptr out)" and "ptr + length bs \<le> length out"
  shows "\<exists>out' ptr'. merge_copy name src tmp (tmp + length bs) out ptr = Some (out', ptr') \<and>
    length out' = length out \<and> ptr' \<le> ptr + length bs \<and>
    packed (es0 @ filter (\<lambda>e. fst e \<noteq> cstr name) es) (take ptr' out')"
  using assms
proof (induction es arbitrary: bs tmp out ptr es0)
  case Nil
  then show ?case by (simp add: merge_copy.simps)
next
  case (Cons e es)
  obtain b1 b2 where bs: "bs = b1 @ b2" and b1: "is_block e b1" and b2: "packed es b2"
    using Cons.prems(1) by auto
  have e: "mark_ok e" using Cons.prems(2) by simp
  obtain c cs where c: "b1 = c # cs" "entry_start c" using block_start [OF e b1] by blast
  have src: "drop tmp src = b1 @ b2 @ post" using Cons.prems(3) bs by simp
  then have at: "rd src tmp = Some c" using c(1) by (auto intro: rd_drop)
  obtain r where get: "brc_get_record src tmp brc_zero = Some (tmp + length b1, r)" and r: "brc_rep e r"
    using brc_get_block [OF e b1 src brc_zero_lengths] by blast
  have lt: "tmp < tmp + length bs" using bs c(1) by simp
  have eq: "strneq (brc_name r) name BRC_STRLEN \<longleftrightarrow> fst e = cstr name"
    using brc_rep_name [OF r] Cons.prems(4) strneq_names by simp
  have rest: "drop (tmp + length b1) src = b2 @ post" by (rule drop_past [OF src])
  have endp: "tmp + length bs = (tmp + length b1) + length b2" by (simp add: bs)
  show ?case
  proof (cases "fst e = cstr name")
    case True
    have "merge_copy name src tmp (tmp + length bs) out ptr =
        merge_copy name src (tmp + length b1) ((tmp + length b1) + length b2) out ptr"
      using at c(2) get lt eq True by (simp add: merge_copy.simps [of _ _ tmp] endp)
    then show ?thesis
      using Cons.IH [OF b2 _ rest Cons.prems(4,5)] Cons.prems(2,6) True by (fastforce simp: bs)
  next
    case False
    obtain blk where blk: "is_block e blk"
      and put: "brc_put_record out ptr r = Some (take ptr out @ blk @ drop (ptr + length blk) out, ptr + length blk)"
      using brc_put_block [OF r, of ptr out] Cons.prems(6) is_block_length [OF b1] by (auto simp: bs)
    define out1 where "out1 = take ptr out @ blk @ drop (ptr + length blk) out"
    have len: "length blk = length b1" using is_block_length [OF b1] is_block_length [OF blk] by simp
    have step: "merge_copy name src tmp (tmp + length bs) out ptr =
        merge_copy name src (tmp + length b1) ((tmp + length b1) + length b2) out1 (ptr + length blk)"
      using at c(2) get lt eq False put by (simp add: merge_copy.simps [of _ _ tmp] endp out1_def)
    have "packed (es0 @ [e]) (take (ptr + length blk) out1)"
      using packed_snoc [OF Cons.prems(5) blk] Cons.prems(6) unfolding out1_def by (simp add: bs)
    moreover have "length out1 = length out" using Cons.prems(6) len by (simp add: out1_def bs)
    ultimately show ?thesis
      unfolding step
      using Cons.IH [OF b2 _ rest Cons.prems(4), of "es0 @ [e]" "ptr + length blk" out1] Cons.prems(2,6) False len
      by (simp add: bs add.assoc)
  qed
qed

lemma init_find_spec:
  assumes "packed es bs" and "\<forall>e\<in>set es. mark_ok e" and "drop ptr src = bs @ post"
    and "length (cstr name) < BRC_STRLEN" and "length (brc_name r) = BRC_STRLEN" and "length (brc_items r) = BRC_MAXNUM"
  shows "\<exists>r'. init_find name src ptr (ptr + length bs) r = Some (map_of es (cstr name) \<noteq> None, r') \<and>
    length (brc_name r') = BRC_STRLEN \<and> length (brc_items r') = BRC_MAXNUM \<and> brc_dirty r' = brc_dirty r \<and>
    (\<forall>xs. map_of es (cstr name) = Some xs \<longrightarrow> brc_rep (cstr name, xs) r')"
  using assms
proof (induction es arbitrary: bs ptr r)
  case Nil
  then show ?case by (simp add: init_find.simps)
next
  case (Cons e es)
  obtain b1 b2 where bs: "bs = b1 @ b2" and b1: "is_block e b1" and b2: "packed es b2"
    using Cons.prems(1) by auto
  have e: "mark_ok e" using Cons.prems(2) by simp
  obtain c cs where c: "b1 = c # cs" "entry_start c" using block_start [OF e b1] by blast
  have src: "drop ptr src = b1 @ b2 @ post" using Cons.prems(3) bs by simp
  then have at: "rd src ptr = Some c" using c(1) by (auto intro: rd_drop)
  obtain r1 where get: "brc_get_record src ptr r = Some (ptr + length b1, r1)" and r1: "brc_rep e r1"
    and dirty: "brc_dirty r1 = brc_dirty r"
    using brc_get_block [OF e b1 src Cons.prems(5,6)] by auto
  have lt: "ptr < ptr + length bs" using bs c(1) by simp
  have eq: "strneq (brc_name r1) name BRC_STRLEN \<longleftrightarrow> fst e = cstr name"
    using brc_rep_name [OF r1] Cons.prems(4) strneq_names by simp
  have rest: "drop (ptr + length b1) src = b2 @ post" by (rule drop_past [OF src])
  have endp: "ptr + length bs = (ptr + length b1) + length b2" by (simp add: bs)
  have len: "length (brc_name r1) = BRC_STRLEN" "length (brc_items r1) = BRC_MAXNUM" using r1 by (auto simp: brc_rep_def)
  show ?case
  proof (cases "fst e = cstr name")
    case True
    then show ?thesis
      using at c(2) get lt eq len dirty r1 by (cases e) (simp add: init_find.simps [of _ _ ptr] endp)
  next
    case False
    have "init_find name src ptr (ptr + length bs) r =
        init_find name src (ptr + length b1) ((ptr + length b1) + length b2) r1"
      using at c(2) get lt eq False by (simp add: init_find.simps [of _ _ ptr] endp)
    then show ?thesis
      using Cons.IH [OF b2 _ rest Cons.prems(4) len] Cons.prems(2) False dirty by (cases e) auto
  qed
qed


definition buf_holds :: "brc_entry list \<Rightarrow> brc_buf_t \<Rightarrow> bool" where
  "buf_holds es b \<longleftrightarrow> length (bb_ptr b) = BRC_BUFSIZE \<and> unat (bb_size b) \<le> BRC_BUFSIZE \<and>
     packed es (take (unat (bb_size b)) (bb_ptr b)) \<and> (\<forall>e\<in>set es. mark_ok e)"

lemma brc_merge_spec:
  assumes "buf_holds es b" and "length (bb_ptr (st_buf st)) = BRC_BUFSIZE" and "brc_rep cur (st_brc st)"
    and "unat (bb_size b) \<le> BRC_BUFSIZE - BRC_ITEMSIZE"
  shows "\<exists>b'. brc_merge b st = Some \<lparr>st_buf = b', st_brc = (st_brc st)\<lparr>brc_dirty := False\<rparr>\<rparr> \<and>
    bb_initialized b' = bb_initialized (st_buf st) \<and> bb_dirty b' \<and>
    buf_holds (cur # filter (\<lambda>e. fst e \<noteq> fst cur) es) b'"
proof -
  define out where "out = bb_ptr (st_buf st)"
  define bs where "bs = take (unat (bb_size b)) (bb_ptr b)"
  have bs: "length bs = unat (bb_size b)" "packed es bs" using assms(1) by (auto simp: bs_def buf_holds_def)
  have ok: "mark_ok cur" "length (snd cur) \<le> 60" using assms(3) by (auto simp: brc_rep_def mark_ok_def brc_sizes split: prod.splits)
  obtain blk where blk: "is_block cur blk"
    and put: "brc_put_record out 0 (st_brc st) = Some (blk @ drop (length blk) out, length blk)"
    using brc_put_block [OF assms(3), of 0 out] assms(2) ok by (auto simp: out_def brc_sizes)
  have blen: "length blk \<le> BRC_ITEMSIZE" using is_block_length [OF blk] ok by (simp add: brc_sizes)
  define out1 where "out1 = blk @ drop (length blk) out"
  have out1: "length out1 = BRC_BUFSIZE" "take (length blk) out1 = blk"
    using blen assms(2) by (auto simp: out1_def out_def brc_sizes)
  have room: "length blk + length bs \<le> length out1" using blen bs out1 assms(4) by (simp add: brc_sizes)
  have name: "cstr (brc_name (st_brc st)) = fst cur" "length (fst cur) < BRC_STRLEN" using brc_rep_name [OF assms(3)] by auto
  obtain out' ptr' where run: "merge_copy (brc_name (st_brc st)) (bb_ptr b) 0 (0 + length bs) out1 (length blk) = Some (out', ptr')"
    and o': "length out' = length out1" "ptr' \<le> length blk + length bs"
    and pk: "packed ([cur] @ filter (\<lambda>e. fst e \<noteq> fst cur) es) (take ptr' out')"
  proof -
    have okes: "\<forall>e\<in>set es. mark_ok e" using assms(1) by (simp add: buf_holds_def)
    have d: "drop 0 (bb_ptr b) = bs @ drop (unat (bb_size b)) (bb_ptr b)" by (simp add: bs_def)
    have nm: "length (cstr (brc_name (st_brc st))) < BRC_STRLEN" using name by simp
    have p0: "packed [cur] (take (length blk) out1)" using blk out1 by simp
    from merge_copy_spec [OF bs(2) okes d nm p0 room] that show ?thesis unfolding name(1) by blast
  qed
  have small: "\<not> bb_size b > of_nat (BRC_BUFSIZE - BRC_ITEMSIZE)"
    using assms(4) by (simp add: brc_sizes word_less_nat_alt)
  have ptr: "ptr' \<le> 50000" using o' room out1 by (simp add: brc_sizes)
  have "brc_merge b st = Some \<lparr>st_buf = (st_buf st)\<lparr>bb_ptr := out', bb_size := of_nat ptr', bb_dirty := True\<rparr>,
      st_brc = (st_brc st)\<lparr>brc_dirty := False\<rparr>\<rparr>"
    using put run small bs(1) brc_rep_size(1) [OF assms(3)]
    by (simp add: brc_merge_def Let_def out_def [symmetric] out1_def [symmetric])
  moreover have "unat (of_nat ptr' :: u32) = ptr'" using ptr by (simp add: unat_of_nat)
  ultimately show ?thesis
    using pk o' out1 ptr assms(1) ok by (auto simp: buf_holds_def brc_sizes)
qed

section \<open>Changing the current board\<close>

text \<open>The state as a map from board names to items: the current record hides its entry of the buffer.\<close>

definition marks :: "brc_entry list \<Rightarrow> brc_entry \<Rightarrow> buf \<Rightarrow> brc_item_t list option" where
  "marks es cur n = (if n = fst cur then Some (snd cur) else map_of es n)"

definition st_inv :: "brc_entry list \<Rightarrow> brc_entry \<Rightarrow> brc_state \<Rightarrow> bool" where
  "st_inv es cur st \<longleftrightarrow> bb_initialized (st_buf st) \<and> buf_holds es (st_buf st) \<and> brc_rep cur (st_brc st) \<and>
     (\<not> brc_dirty (st_brc st) \<longrightarrow> map_of es (fst cur) = Some (snd cur))"

lemma map_of_filter_other: "m \<noteq> a \<Longrightarrow> map_of (filter (\<lambda>e. fst e \<noteq> a) es) m = map_of es m"
  by (induction es) auto

lemma brc_init_switch:
  assumes "(if \<not> bb_initialized (st_buf st) then brc_load os fs user (st_buf st) else Some (st_buf st)) = Some b"
    and "bb_initialized b" and "buf_holds es b"
    and "length (brc_name (st_brc st)) = BRC_STRLEN" and "length (brc_items (st_brc st)) = BRC_MAXNUM"
    and "\<not> brc_dirty (st_brc st)"
    and "terminated board" and "cstr board = n" and "mark_ok (n, [1])" and "\<not> strneq (brc_name (st_brc st)) board BRC_STRLEN"
  shows "\<exists>ret st' cur'. brc_init os fs (Some user) (Some board) st = Some (ret, st') \<and> st_inv es cur' st' \<and> fst cur' = n \<and>
    (case map_of es n of Some xs \<Rightarrow> snd cur' = xs \<and> ret = int (length xs) | None \<Rightarrow> snd cur' = [1] \<and> ret = 0)"
proof -
  define bs where "bs = take (unat (bb_size b)) (bb_ptr b)"
  have bs: "length bs = unat (bb_size b)" "packed es bs" "\<forall>e\<in>set es. mark_ok e"
    using assms(3) by (auto simp: bs_def buf_holds_def)
  have n: "length n < BRC_STRLEN" "0 \<notin> set n" using assms(9) by (auto simp: mark_ok_def)
  obtain r' where find: "init_find board (bb_ptr b) 0 (0 + length bs) (st_brc st) = Some (map_of es n \<noteq> None, r')"
    and r': "length (brc_name r') = BRC_STRLEN" "length (brc_items r') = BRC_MAXNUM" "\<not> brc_dirty r'"
    and rep: "\<forall>xs. map_of es n = Some xs \<longrightarrow> brc_rep (n, xs) r'"
    using init_find_spec [OF bs(2,3), of 0 "bb_ptr b" "drop (unat (bb_size b)) (bb_ptr b)" board "st_brc st"]
      assms(4-6,8) n by (auto simp: bs_def)
  have start: "brc_init os fs (Some user) (Some board) st =
      (if map_of es n \<noteq> None then Some (sint (brc_size r'), \<lparr>st_buf = b, st_brc = r'\<rparr>)
       else do {
         (name, _) \<leftarrow> strlcpy (brc_name r') board BRC_STRLEN;
         items \<leftarrow> wr (brc_items r') 0 1;
         Some (0, \<lparr>st_buf = b, st_brc = \<lparr>brc_size = 1, brc_dirty = True, brc_name = name, brc_items = items\<rparr>\<rparr>)
       })"
    using assms(1,6,10) find bs(1) by (simp add: brc_init_def)
  show ?thesis
  proof (cases "map_of es n")
    case None
    define name where "name = n @ 0 # drop (Suc (length n)) (brc_name r')"
    have cp: "strlcpy (brc_name r') board BRC_STRLEN = Some (name, length n)"
      using strlcpy_name [OF assms(8,7) n(1)] r' by (simp add: name_def)
    have w: "wr (brc_items r') 0 1 = Some (1 # drop 1 (brc_items r'))"
      using r' by (cases "brc_items r'") (auto simp: wr_def brc_sizes)
    have "brc_rep (n, [1]) \<lparr>brc_size = 1, brc_dirty = True, brc_name = name, brc_items = 1 # drop 1 (brc_items r')\<rparr>"
      using r' n assms(9) by (simp add: brc_rep_def name_def contents_def brc_sizes)
    then show ?thesis
      using start None cp w assms(2,3) by (auto intro!: exI [of _ "[1]"] simp: st_inv_def)
  next
    case (Some xs)
    have "unat (brc_size r') = length xs" "length xs \<le> 60"
      using rep Some by (auto simp: brc_rep_def mark_ok_def brc_sizes)
    then have "sint (brc_size r') = int (length xs)"
      using word_eq_by_unat [of "brc_size r'" "of_nat (length xs)"]
      by (simp add: unat_of_nat signed_of_nat signed_take_bit_int_eq_self)
    then show ?thesis
      using start Some rep assms(2,3) by (auto intro!: exI [of _ xs] simp: st_inv_def)
  qed
qed


lemma brc_init_marks:
  assumes "st_inv es cur st" and "unat (bb_size (st_buf st)) \<le> BRC_BUFSIZE - BRC_ITEMSIZE"
    and "terminated board" and "cstr board = n" and "mark_ok (n, [1])"
  shows "\<exists>ret st' es' cur'. brc_init os fs (Some user) (Some board) st = Some (ret, st') \<and> st_inv es' cur' st' \<and>
    fst cur' = n \<and>
    (case marks es cur n of Some xs \<Rightarrow> snd cur' = xs \<and> ret = int (length xs) | None \<Rightarrow> snd cur' = [1] \<and> ret = 0) \<and>
    (\<forall>m. m \<noteq> n \<longrightarrow> marks es' cur' m = marks es cur m)"
proof -
  have inv: "bb_initialized (st_buf st)" "buf_holds es (st_buf st)" "brc_rep cur (st_brc st)" "\<not> brc_dirty (st_brc st) \<longrightarrow> map_of es (fst cur) = Some (snd cur)"
    using assms(1) by (auto simp: st_inv_def)
  have lens: "length (brc_name (st_brc st)) = BRC_STRLEN" "length (brc_items (st_brc st)) = BRC_MAXNUM"
    using inv(3) by (auto simp: brc_rep_def)
  have n: "length n < BRC_STRLEN" using assms(5) by (auto simp: mark_ok_def)
  have same: "strneq (brc_name (st_brc st)) board BRC_STRLEN \<longleftrightarrow> fst cur = n"
    using brc_rep_name [OF inv(3)] strneq_names [of "brc_name (st_brc st)" board] n assms(4) by simp
  show ?thesis
  proof (cases "fst cur = n")
    case True
    have sz: "unat (brc_size (st_brc st)) = length (snd cur)" "length (snd cur) \<le> 60"
      using inv(3) by (auto simp: brc_rep_def mark_ok_def brc_sizes split: prod.splits)
    then have "sint (brc_size (st_brc st)) = int (length (snd cur))"
      using word_eq_by_unat [of "brc_size (st_brc st)" "of_nat (length (snd cur))"]
      by (simp add: unat_of_nat signed_of_nat signed_take_bit_int_eq_self)
    then show ?thesis
      using True same assms(1) by (intro exI [of _ "int (length (snd cur))"] exI [of _ st] exI [of _ es] exI [of _ cur])
        (simp add: brc_init_def marks_def)
  next
    case False
    define es1 where "es1 = (if brc_dirty (st_brc st) then cur # filter (\<lambda>e. fst e \<noteq> fst cur) es else es)"
    obtain b where pre: "(if brc_dirty (st_brc st) then brc_merge (st_buf st) st else Some st) =
        Some \<lparr>st_buf = b, st_brc = (st_brc st)\<lparr>brc_dirty := False\<rparr>\<rparr>"
      and b: "bb_initialized b" "buf_holds es1 b"
    proof (cases "brc_dirty (st_brc st)")
      case True
      then show ?thesis
        using brc_merge_spec [OF inv(2) _ inv(3) assms(2)] inv(1,2) that by (auto simp: es1_def buf_holds_def)
    next
      case clean: False
      then have "st = \<lparr>st_buf = st_buf st, st_brc = (st_brc st)\<lparr>brc_dirty := False\<rparr>\<rparr>" by simp
      with clean inv(1,2) that [of "st_buf st"] show ?thesis by (simp add: es1_def)
    qed
    define st1 where "st1 = \<lparr>st_buf = b, st_brc = (st_brc st)\<lparr>brc_dirty := False\<rparr>\<rparr>"
    have m1: "map_of es1 m = marks es cur m" for m
      using inv(4) by (cases cur) (auto simp: es1_def marks_def map_of_filter_other)
    have "brc_init os fs (Some user) (Some board) st = brc_init os fs (Some user) (Some board) st1"
      using pre same False by (simp add: brc_init_def st1_def)
    moreover obtain ret st' cur' where "brc_init os fs (Some user) (Some board) st1 = Some (ret, st')"
        and new: "st_inv es1 cur' st'" "fst cur' = n"
        and "case map_of es1 n of Some xs \<Rightarrow> snd cur' = xs \<and> ret = int (length xs) | None \<Rightarrow> snd cur' = [1] \<and> ret = 0"
      using brc_init_switch [of st1 os fs user b es1 board n] b lens assms(3-5) same False by (auto simp: st1_def)
    moreover have "\<forall>m. m \<noteq> n \<longrightarrow> marks es1 cur' m = marks es cur m"
      using m1 new(2) by (simp add: marks_def)
    ultimately show ?thesis
      using m1 by (intro exI [of _ ret] exI [of _ st'] exI [of _ es1] exI [of _ cur']) simp
  qed
qed

text \<open>Claim C9: going to another board loses no mark.  The state, the packed buffer together with the current record,
  is a map from board names to items; \<open>brc_init\<close> makes the entry of the board current, returns the number of
  its items (0 and a fresh entry for a board without one), and keeps the entries of all other boards.  Nothing is
  written behind the buffer as long as it has room for one more record.\<close>

theorem brc_init_keeps_marks:
  assumes "st_inv es cur st" and "unat (bb_size (st_buf st)) \<le> BRC_BUFSIZE - BRC_ITEMSIZE"
    and "terminated board" and "cstr board = n" and "mark_ok (n, [1])"
  shows "\<exists>ret st' es' cur'. brc_init os fs (Some user) (Some board) st = Some (ret, st') \<and> st_inv es' cur' st' \<and>
    fst cur' = n \<and>
    (case marks es cur n of Some xs \<Rightarrow> snd cur' = xs \<and> ret = int (length xs) | None \<Rightarrow> snd cur' = [1] \<and> ret = 0) \<and>
    (\<forall>m. m \<noteq> n \<longrightarrow> marks es' cur' m = marks es cur m)"
  by (rule brc_init_marks [OF assms])


theorem brc_init_keeps_marks_witness:
  "\<exists>ret st'. brc_init os_fine (\<lambda>_. None) (Some [117, 0]) (Some [98, 0])
      \<lparr>st_buf = brc_buf_zero\<lparr>bb_initialized := True\<rparr>,
       st_brc = \<lparr>brc_size = 1, brc_dirty = True, brc_name = 97 # replicate 19 0, brc_items = 5 # replicate 59 0\<rparr>\<rparr> =
    Some (ret, st') \<and> ret = 0"
proof -
  let ?r = "\<lparr>brc_size = 1, brc_dirty = True, brc_name = 97 # replicate 19 0, brc_items = 5 # replicate 59 0\<rparr>"
  let ?st = "\<lparr>st_buf = brc_buf_zero\<lparr>bb_initialized := True\<rparr>, st_brc = ?r\<rparr>"
  have name: "cstr (97 # replicate 19 0 :: buf) = [97]" by (cases "replicate 19 (0 :: byte)") (auto simp: replicate_eqI dest: arg_cong [of _ _ length] arg_cong [of _ _ set])
  have ok: "mark_ok ([97], [5])" "mark_ok ([98], [1])" by (simp_all add: mark_ok_def entry_start_def brc_sizes)
  have rep: "brc_rep ([97], [5]) ?r" using ok name by (simp add: brc_rep_def contents_def brc_sizes)
  have inv: "st_inv [] ([97], [5]) ?st" using rep by (simp add: st_inv_def buf_holds_def brc_buf_zero_def brc_sizes)
  show ?thesis
    using brc_init_keeps_marks [OF inv, of "[98, 0]" "[98]" os_fine "\<lambda>_. None" "[117, 0]"] ok
    by (auto simp: brc_buf_zero_def brc_sizes marks_def)
qed


section \<open>The file\<close>

lemma brc_load_fine:
  assumes "brc_path user = Some path" and "fs path = Some (Regular old)" and "length old \<le> BRC_BUFSIZE"
    and "length (bb_ptr b) = BRC_BUFSIZE" and "packed es old" and "\<forall>e\<in>set es. mark_ok e"
  shows "\<exists>b'. brc_load os_fine fs user b = Some b' \<and> bb_initialized b' \<and> buf_holds es b' \<and>
    unat (bb_size b') = length old"
proof -
  have "to_int (int (length old)) = int (length old)" using assms(3) by (intro to_int_nat) (simp add: brc_sizes)
  moreover have "unat (of_nat (length old) :: u32) = length old" using assms(3) by (simp add: brc_sizes unat_of_nat)
  ultimately show ?thesis
    using assms by (simp add: brc_load_def os_fine_def file_read_def mem_write_def Let_def buf_holds_def)
qed

lemma brc_save_fine:
  assumes "brc_path user = Some path" and "fs path = Some (Regular old)" and "unat (bb_size b) \<le> length (bb_ptr b)"
  shows "brc_save os_fine fs user b = Some (fs(path \<mapsto> Regular (take (unat (bb_size b)) (bb_ptr b))))"
  using assms by (simp add: brc_save_def os_fine_def mem_read_def file_write_def put_bytes_def Let_def)




end
