(* ===== verification/FB_Terminal.thy ===== *)
theory FB_Terminal
  imports FB_File
begin

text \<open>
  The byte level of the terminal, \<open>src/terminal.c\<close>: the input and the output buffer of a session.  The state
  also records the connection: the bytes sent to the client so far, whether writing succeeds, and what the client
  is going to do, a list of events.  The build without SSH is modelled.
\<close>

definition INPUT_BUFFER_SIZE :: nat where "INPUT_BUFFER_SIZE = 48"
definition OUTPUT_BUFFER_SIZE :: nat where "OUTPUT_BUFFER_SIZE = 4088"

record input_buffer_t =
  in_ptr :: buf
  in_cur :: nat
  in_size :: nat

record output_buffer_t =
  out_ptr :: buf
  out_size :: nat

text \<open>
  One answer of \<open>select\<close>: nothing within the time limit (or an interrupted call), or input that a following read
  returns; reading nothing means that the connection was closed.
\<close>

datatype input_event = Idle | Arrive buf

record terminal =
  input_buffer :: input_buffer_t
  output_buffer :: output_buffer_t
  sent :: buf
  link_up :: bool
  events :: "input_event list"
  schedule_exit :: bool

section \<open>Output\<close>

definition terminal_write :: "buf \<Rightarrow> terminal \<Rightarrow> int \<times> terminal" where
  "terminal_write b t =
     (if link_up t then (to_int (int (length b)), t\<lparr>sent := sent t @ b\<rparr>) else (-1, t))"

definition terminal_flush :: "terminal \<Rightarrow> (int \<times> terminal) option" where
  "terminal_flush t = do {
     let o' = output_buffer t;
     (ret, t) \<leftarrow> (if out_size o' > 0 then do {
         bs \<leftarrow> mem_read (out_ptr o') 0 (out_size o');
         Some (terminal_write bs t)
       } else Some (0, t));
     Some (ret, t\<lparr>output_buffer := o'\<lparr>out_size := 0\<rparr>\<rparr>)
   }"

definition put_raw_ch :: "int \<Rightarrow> terminal \<Rightarrow> terminal option" where
  "put_raw_ch ch t = do {
     let o' = output_buffer t;
     ptr \<leftarrow> wr (out_ptr o') (out_size o') (word_of_int ch);
     let t = t\<lparr>output_buffer := o'\<lparr>out_ptr := ptr, out_size := Suc (out_size o')\<rparr>\<rparr>;
     (if Suc (out_size o') = OUTPUT_BUFFER_SIZE then map_option snd (terminal_flush t) else Some t)
   }"

definition terminal_putchar :: "int \<Rightarrow> terminal \<Rightarrow> terminal option" where
  "terminal_putchar ch t = put_raw_ch (uint (word_of_int ch :: byte)) t"

lemma terminal_flush_empties: "terminal_flush t = Some (ret, t') \<Longrightarrow> out_size (output_buffer t') = 0"
  by (auto simp: terminal_flush_def Let_def split: Option.bind_splits)

function terminal_write_cached :: "buf \<Rightarrow> terminal \<Rightarrow> terminal option" where
  "terminal_write_cached str t =
     (if str = [] then Some t
      else
        let o' = output_buffer t; len = OUTPUT_BUFFER_SIZE - out_size o' in
        if length str > len then do {
          ptr \<leftarrow> mem_write (out_ptr o') (out_size o') (take len str);
          (_, t) \<leftarrow> terminal_flush (t\<lparr>output_buffer := o'\<lparr>out_ptr := ptr, out_size := out_size o' + len\<rparr>\<rparr>);
          terminal_write_cached (drop len str) t
        }
        else do {
          ptr \<leftarrow> mem_write (out_ptr o') (out_size o') str;
          Some (t\<lparr>output_buffer := o'\<lparr>out_ptr := ptr, out_size := out_size o' + length str\<rparr>\<rparr>)
        })"
  by pat_completeness auto
termination
  by (relation "measure (\<lambda>(str, t). 2 * length str + (if out_size (output_buffer t) \<ge> OUTPUT_BUFFER_SIZE then 1 else 0))")
    (auto simp: OUTPUT_BUFFER_SIZE_def dest!: terminal_flush_empties)

definition terminal_input_buffer_empty :: "terminal \<Rightarrow> bool option" where
  "terminal_input_buffer_empty t =
     (let b = input_buffer t in
      if in_cur b \<ge> in_size b then Some True
      else do { c \<leftarrow> rd (in_ptr b) (in_cur b); Some (c = 0 \<and> in_cur b = in_size b - 1) })"

definition terminal_schedule_exit :: "terminal \<Rightarrow> terminal" where
  "terminal_schedule_exit t = t\<lparr>schedule_exit := True\<rparr>"

section \<open>The output as a stream\<close>

text \<open>Everything written so far, sent or still in the buffer; the buffer always has room for one more byte.\<close>

definition out_ok :: "terminal \<Rightarrow> bool" where
  "out_ok t \<longleftrightarrow> link_up t \<and> length (out_ptr (output_buffer t)) = OUTPUT_BUFFER_SIZE \<and>
     out_size (output_buffer t) \<le> OUTPUT_BUFFER_SIZE"

definition written :: "terminal \<Rightarrow> buf" where
  "written t = sent t @ take (out_size (output_buffer t)) (out_ptr (output_buffer t))"

declare terminal_write_cached.simps [simp del]

definition same_input :: "terminal \<Rightarrow> terminal \<Rightarrow> bool" where
  "same_input t t' \<longleftrightarrow> input_buffer t' = input_buffer t \<and> events t' = events t \<and> schedule_exit t' = schedule_exit t"


lemma terminal_flush_spec:
  assumes "out_ok t"
  shows "\<exists>ret t'. terminal_flush t = Some (ret, t') \<and> out_ok t' \<and> out_size (output_buffer t') = 0 \<and>
    written t' = written t \<and> sent t' = written t \<and> same_input t t'"
  using assms
  by (auto simp: terminal_flush_def out_ok_def mem_read_def terminal_write_def written_def same_input_def Let_def)

lemma same_input_trans [trans]: "same_input t t' \<Longrightarrow> same_input t' t'' \<Longrightarrow> same_input t t''"
  by (simp add: same_input_def)

lemma same_input_refl [simp]: "same_input t t"
  by (simp add: same_input_def)

lemma terminal_write_cached_spec:
  assumes "out_ok t"
  shows "\<exists>t'. terminal_write_cached str t = Some t' \<and> out_ok t' \<and> written t' = written t @ str \<and> same_input t t'"
  using assms
proof (induction str t rule: terminal_write_cached.induct)
  case (1 str t)
  define o' where "o' = output_buffer t"
  define len where "len = OUTPUT_BUFFER_SIZE - out_size o'"
  have ok: "link_up t" "length (out_ptr o') = OUTPUT_BUFFER_SIZE" "out_size o' \<le> OUTPUT_BUFFER_SIZE"
    using "1.prems" by (auto simp: out_ok_def o'_def)
  consider "str = []" | "str \<noteq> []" "length str \<le> len" | "str \<noteq> []" "len < length str" by linarith
  then show ?case
  proof cases
    case 1
    then show ?thesis using "1.prems" by (simp add: terminal_write_cached.simps)
  next
    case 2
    then have "mem_write (out_ptr o') (out_size o') str =
        Some (take (out_size o') (out_ptr o') @ str @ drop (out_size o' + length str) (out_ptr o'))"
      using ok by (simp add: mem_write_def len_def)
    with 2 ok "1.prems" show ?thesis
      by (simp add: terminal_write_cached.simps [of str t] o'_def [symmetric] len_def [symmetric] out_ok_def written_def same_input_def)
        (simp add: len_def o'_def)
  next
    case 3
    define t1 where "t1 = t\<lparr>output_buffer := o'\<lparr>out_ptr := take (out_size o') (out_ptr o') @ take len str, out_size := out_size o' + len\<rparr>\<rparr>"
    have w: "mem_write (out_ptr o') (out_size o') (take len str) = Some (take (out_size o') (out_ptr o') @ take len str)"
      using 3 ok by (simp add: mem_write_def len_def)
    have t1: "out_ok t1" "written t1 = written t @ take len str" "same_input t t1"
      using 3 ok by (auto simp: out_ok_def t1_def written_def same_input_def o'_def len_def)
    obtain ret t2 where fl: "terminal_flush t1 = Some (ret, t2)" and t2: "out_ok t2" "written t2 = written t1" "same_input t1 t2"
      using terminal_flush_spec [OF t1(1)] by blast
    have IH: "\<exists>t'. terminal_write_cached (drop len str) t2 = Some t' \<and> out_ok t' \<and>
        written t' = written t2 @ drop len str \<and> same_input t2 t'"
      using "1.IH" [OF 3(1) o'_def len_def 3(2) w] fl t2(1) by (simp add: t1_def)
    have step: "terminal_write_cached str t = terminal_write_cached (drop len str) t2"
      using 3 w fl by (simp add: terminal_write_cached.simps [of str t] o'_def [symmetric] len_def [symmetric] t1_def)
    from IH t1 t2 show ?thesis unfolding step by (auto intro: same_input_trans)
  qed
qed

text \<open>Claim C20: writing a string through the output buffer appends exactly its bytes to what the client has been sent
  or will be sent, whatever its length and however full the buffer is.\<close>

theorem terminal_write_cached_correct:
  assumes "out_ok t"
  shows "\<exists>t'. terminal_write_cached str t = Some t' \<and> out_ok t' \<and> written t' = written t @ str"
  using terminal_write_cached_spec [OF assms] by blast

definition fresh_terminal :: "input_event list \<Rightarrow> terminal" where
  "fresh_terminal es =
     \<lparr>input_buffer = \<lparr>in_ptr = replicate INPUT_BUFFER_SIZE 0, in_cur = 0, in_size = 0\<rparr>,
      output_buffer = \<lparr>out_ptr = replicate OUTPUT_BUFFER_SIZE 0, out_size = 0\<rparr>,
      sent = [], link_up = True, events = es, schedule_exit = False\<rparr>"

lemma fresh_terminal_ok [simp]: "out_ok (fresh_terminal es)" "written (fresh_terminal es) = []"
  by (simp_all add: out_ok_def written_def fresh_terminal_def)

theorem terminal_write_cached_correct_witness:
  "\<exists>t'. terminal_write_cached [104, 105] (fresh_terminal []) = Some t' \<and> out_ok t' \<and> written t' = [104, 105]"
  using terminal_write_cached_correct [of "fresh_terminal []" "[104, 105]"] by simp

lemma terminal_putchar_spec:
  assumes "out_ok t" and "out_size (output_buffer t) < OUTPUT_BUFFER_SIZE"
  shows "\<exists>t'. terminal_putchar ch t = Some t' \<and> out_ok t' \<and> out_size (output_buffer t') < OUTPUT_BUFFER_SIZE \<and>
    written t' = written t @ [word_of_int ch] \<and> same_input t t'"
proof -
  define o' where "o' = output_buffer t"
  define t1 where "t1 = t\<lparr>output_buffer := o'\<lparr>out_ptr := (out_ptr o')[out_size o' := word_of_int ch], out_size := Suc (out_size o')\<rparr>\<rparr>"
  have t1: "out_ok t1" "written t1 = written t @ [word_of_int ch]" "same_input t t1"
    using assms by (auto simp: out_ok_def t1_def o'_def written_def same_input_def take_Suc_conv_app_nth)
  have put: "terminal_putchar ch t =
      (if Suc (out_size o') = OUTPUT_BUFFER_SIZE then map_option snd (terminal_flush t1) else Some t1)"
    using assms by (simp add: terminal_putchar_def put_raw_ch_def o'_def [symmetric] wr_def out_ok_def t1_def Let_def)
  show ?thesis
  proof (cases "Suc (out_size o') = OUTPUT_BUFFER_SIZE")
    case True
    obtain ret t2 where "terminal_flush t1 = Some (ret, t2)" "out_ok t2" "out_size (output_buffer t2) = 0"
      "written t2 = written t1" "same_input t1 t2"
      using terminal_flush_spec [OF t1(1)] by blast
    with True put t1 show ?thesis by (auto simp: OUTPUT_BUFFER_SIZE_def intro: same_input_trans)
  next
    case False
    with put t1 assms(2) show ?thesis by (simp add: t1_def o'_def)
  qed
qed

text \<open>A string that fills the output buffer exactly is not flushed, and the next single character is then
  written behind the buffer.\<close>

theorem terminal_putchar_full_overrun:
  assumes "out_ok t" and "str \<noteq> []" and "out_size (output_buffer t) + length str = OUTPUT_BUFFER_SIZE"
  shows "\<exists>t'. terminal_write_cached str t = Some t' \<and> terminal_putchar ch t' = None"
proof -
  have "mem_write (out_ptr (output_buffer t)) (out_size (output_buffer t)) str =
      Some (take (out_size (output_buffer t)) (out_ptr (output_buffer t)) @ str)"
    using assms by (simp add: mem_write_def out_ok_def)
  then show ?thesis
    using assms by (auto simp: terminal_write_cached.simps [of str t] terminal_putchar_def put_raw_ch_def wr_def out_ok_def Let_def)
qed

theorem terminal_putchar_full_overrun_witness:
  "\<exists>t'. terminal_write_cached (replicate 4088 97) (fresh_terminal []) = Some t' \<and> terminal_putchar 98 t' = None"
  using terminal_putchar_full_overrun [of "fresh_terminal []" "replicate 4088 97" 98]
  by (simp add: fresh_terminal_def OUTPUT_BUFFER_SIZE_def out_ok_def)

end
