(* ===== verification/FB_Convert.thy ===== *)
theory FB_Convert
  imports FB_Prelude
begin

text \<open>
  Conversion between UTF-8 and GBK, \<open>lib/convert.c\<close>.  The tables of the C library are a parameter: \<open>next bs\<close>
  is what the converter finds at the start of the non-empty input \<open>bs\<close>, a character (the bytes it takes and the
  bytes it becomes), an illegal byte or an incomplete character at the end.  \<open>iconv\<close> converts characters until the
  input is used up, the next one does not fit the room left, or there is none.
\<close>

datatype iconv_step = Char nat buf | Illegal | Incomplete

datatype iconv_errno = E2BIG | EILSEQ | EINVAL

type_synonym charset = "buf \<Rightarrow> iconv_step"

function iconv :: "charset \<Rightarrow> buf \<Rightarrow> nat \<Rightarrow> buf \<times> buf \<times> iconv_errno option" where
  "iconv next bs room =
     (if bs = [] then ([], [], None)
      else case next bs of
        Char n out \<Rightarrow>
          if n = 0 \<or> room < length out then (bs, [], Some E2BIG)
          else let (rest, out', e) = iconv next (drop n bs) (room - length out) in (rest, out @ out', e)
      | Illegal \<Rightarrow> (bs, [], Some EILSEQ)
      | Incomplete \<Rightarrow> (bs, [], Some EINVAL))"
  by pat_completeness auto
termination
  by (relation "measure (\<lambda>(next, bs, room). length bs)") (auto split: list.splits)

text \<open>The callback takes a piece of the output and its own state; a negative result stops the conversion.\<close>

type_synonym 's convert_handler_t = "buf \<Rightarrow> 's \<Rightarrow> int \<times> 's"

definition INTERNAL_SIZE :: nat where
  "INTERNAL_SIZE = 1024"

text \<open>
  The loop with a callback.  \<open>f\<close> is the input not yet consumed, \<open>size\<close> the room of the output buffer without
  its NUL.  A round that makes no progress repeats for ever.
\<close>

partial_function (option) convert_loop ::
  "charset \<Rightarrow> 's convert_handler_t \<Rightarrow> nat \<Rightarrow> nat \<Rightarrow> buf \<Rightarrow> int \<Rightarrow> 's \<Rightarrow> (int \<times> 's) option" where
  "convert_loop next handler len sz f ret arg =
     (if f = [] then Some (ret, arg)
      else
        let (f1, out, e) = iconv next f sz;
            f2 = (case e of Some EILSEQ \<Rightarrow> drop 1 f1 | Some EINVAL \<Rightarrow> [] | _ \<Rightarrow> f1);
            ret1 = (case e of Some EINVAL \<Rightarrow> int len - int (length f1) | _ \<Rightarrow> ret);
            arg1 = (case e of Some EILSEQ \<Rightarrow> snd (handler [63] arg) | _ \<Rightarrow> arg) in
        if out \<noteq> [] then
          (let (r, arg2) = handler out arg1 in
           if r < 0 then Some (ret1, arg2) else convert_loop next handler len sz f2 ret1 arg2)
        else convert_loop next handler len sz f2 ret1 arg1)"

text \<open>Without a callback the pieces go one behind the other into the buffer of the caller.\<close>

partial_function (option) convert_fill ::
  "charset \<Rightarrow> nat \<Rightarrow> buf \<Rightarrow> buf \<Rightarrow> nat \<Rightarrow> nat \<Rightarrow> int \<Rightarrow> (int \<times> buf) option" where
  "convert_fill next len f b sz oleft ret =
     (if f = [] then Some (ret, b)
      else
        let (f1, out, e) = iconv next f oleft; oleft1 = oleft - length out in
        do {
          b \<leftarrow> mem_write b (sz - oleft) out;
          b \<leftarrow> wr b (sz - oleft1) 0;
          (case e of
             Some E2BIG \<Rightarrow> Some (0, b)
           | Some EILSEQ \<Rightarrow> convert_fill next len (drop 1 f1) b sz oleft1 ret
           | Some EINVAL \<Rightarrow> Some (int len - int (length f1), b)
           | None \<Rightarrow> convert_fill next len f1 b sz oleft1 ret)
        })"

text \<open>
  The entry point, once with a callback and the internal buffer, once with the buffer of the caller.  The length
  is that of the input, or \<open>None\<close> for CONVERT_ALL.
\<close>

definition convert_len :: "buf option \<Rightarrow> nat option \<Rightarrow> buf option" where
  "convert_len from len =
     (case (len, from) of
        (None, None) \<Rightarrow> Some []
      | (None, Some s) \<Rightarrow> do { n \<leftarrow> strlen s; Some (take n s) }
      | (Some n, None) \<Rightarrow> if n = 0 then Some [] else None
      | (Some n, Some s) \<Rightarrow> mem_read s 0 n)"

definition convert :: "charset \<Rightarrow> buf option \<Rightarrow> nat option \<Rightarrow> 's convert_handler_t \<Rightarrow> 's \<Rightarrow> (int \<times> 's) option" where
  "convert next from len handler arg = do {
     f \<leftarrow> convert_len from len;
     convert_loop next handler (length f) (INTERNAL_SIZE - 1) f 0 arg
   }"

definition convert_to_buf :: "charset \<Rightarrow> buf option \<Rightarrow> nat option \<Rightarrow> buf \<Rightarrow> nat \<Rightarrow> (int \<times> buf) option" where
  "convert_to_buf next from len b siz = do {
     f \<leftarrow> convert_len from len;
     (if f = [] then do { b \<leftarrow> wr b 0 0; Some (0, b) }
      else if siz = 0 then None
      else convert_fill next (length f) f b (siz - 1) (siz - 1) 0)
   }"

text \<open>The callback that writes to a stream, and a stream as the bytes written to it.\<close>

definition write_to_file :: "bool \<Rightarrow> buf convert_handler_t" where
  "write_to_file ok b out = (if ok then (0, out @ b) else (-1, out))"

definition convert_to_file :: "charset \<Rightarrow> buf option \<Rightarrow> nat option \<Rightarrow> bool \<Rightarrow> buf \<Rightarrow> (int \<times> buf) option" where
  "convert_to_file next from len ok out = convert next from len (write_to_file ok) out"

section \<open>What the converter promises\<close>

text \<open>Text that consists of whole characters of at most \<open>k\<close> bytes, with its conversion.\<close>

inductive converts :: "charset \<Rightarrow> nat \<Rightarrow> buf \<Rightarrow> buf \<Rightarrow> bool" for nxt :: charset and k :: nat where
  converts_Nil: "converts nxt k [] []"
| converts_Cons: "bs \<noteq> [] \<Longrightarrow> nxt bs = Char n out \<Longrightarrow> 0 < n \<Longrightarrow> length out \<le> k \<Longrightarrow>
    converts nxt k (drop n bs) rest \<Longrightarrow> converts nxt k bs (out @ rest)"

inductive_cases converts_NilE: "converts nxt k [] out"

declare iconv.simps [simp del]

lemma iconv_length: "iconv nxt bs room = (bs', out, e) \<Longrightarrow> length bs' \<le> length bs"
proof (induction nxt bs room arbitrary: bs' out rule: iconv.induct)
  case (1 nxt bs room)
  then show ?case
    by (fastforce simp: iconv.simps [of nxt bs] split: if_splits iconv_step.splits prod.splits)
qed

lemma iconv_converts:
  assumes "converts nxt k bs out"
  shows "\<exists>bs' out1 out2 e. iconv nxt bs room = (bs', out1, e) \<and> out = out1 @ out2 \<and> converts nxt k bs' out2 \<and>
    (e = None \<and> bs' = [] \<or> e = Some E2BIG) \<and> (bs \<noteq> [] \<and> k \<le> room \<longrightarrow> length bs' < length bs)"
  using assms
proof (induction arbitrary: room)
  case converts_Nil
  then show ?case by (auto simp: iconv.simps [of _ "[]"] intro: converts.converts_Nil)
next
  case (converts_Cons bs n out rest)
  show ?case
  proof (cases "room < length out")
    case True
    then show ?thesis
      using converts_Cons.hyps converts.converts_Cons [OF converts_Cons.hyps] by (auto simp: iconv.simps [of _ bs])
  next
    case False
    obtain bs' out1 out2 e where IH: "iconv nxt (drop n bs) (room - length out) = (bs', out1, e)"
      "rest = out1 @ out2" "converts nxt k bs' out2" "e = None \<and> bs' = [] \<or> e = Some E2BIG"
      using converts_Cons.IH by blast
    have "length bs' < length bs"
      using iconv_length [OF IH(1)] converts_Cons.hyps(1,3) by (cases bs) auto
    with IH False converts_Cons.hyps show ?thesis by (auto simp: iconv.simps [of _ bs])
  qed
qed


lemma convert_loop_delivers:
  assumes "converts nxt k f out" and "k \<le> sz" and "\<And>b s. 0 \<le> fst (handler b s)"
  shows "\<exists>pieces. convert_loop nxt handler len sz f ret arg = Some (ret, fold (\<lambda>p s. snd (handler p s)) pieces arg) \<and>
    concat pieces = out"
  using assms(1)
proof (induction "length f" arbitrary: f out arg rule: less_induct)
  case less
  show ?case
  proof (cases "f = []")
    case True
    with less.prems have "out = []" by (auto elim: converts_NilE)
    with True show ?thesis by (intro exI [of _ "[]"]) (simp add: convert_loop.simps)
  next
    case False
    obtain f' out1 out2 e where run: "iconv nxt f sz = (f', out1, e)" and out: "out = out1 @ out2"
      and f': "converts nxt k f' out2" "e = None \<and> f' = [] \<or> e = Some E2BIG" "length f' < length f"
      using iconv_converts [OF less.prems, of sz] False assms(2) by blast
    define arg1 where "arg1 = (if out1 = [] then arg else snd (handler out1 arg))"
    have step: "convert_loop nxt handler len sz f ret arg = convert_loop nxt handler len sz f' ret arg1"
      using run False f'(2) assms(3) [of out1 arg]
      by (auto simp: convert_loop.simps [of _ _ _ _ f] arg1_def split: prod.splits)
    obtain pieces where "convert_loop nxt handler len sz f' ret arg1 = Some (ret, fold (\<lambda>p s. snd (handler p s)) pieces arg1)"
      "concat pieces = out2"
      using less.hyps [OF f'(3,1)] by blast
    then show ?thesis
      unfolding step by (intro exI [of _ "(if out1 = [] then [] else [out1]) @ pieces"]) (simp add: out arg1_def)
  qed
qed

text \<open>Claim C22: text of whole characters is converted completely: the callback receives the converted text in order,
  cut into pieces, and the result is 0.  In particular the conversion ends.\<close>

theorem convert_delivers:
  assumes "converts nxt k text' out" and "k < INTERNAL_SIZE" and "\<And>b s. 0 \<le> fst (handler b s)"
  shows "\<exists>pieces. convert nxt (Some (text' @ tail)) (Some (length text')) handler arg =
      Some (0, fold (\<lambda>p s. snd (handler p s)) pieces arg) \<and> concat pieces = out"
proof -
  have "convert nxt (Some (text' @ tail)) (Some (length text')) handler arg =
      convert_loop nxt handler (length text') (INTERNAL_SIZE - 1) text' 0 arg"
    by (simp add: convert_def convert_len_def mem_read_def)
  moreover have "k \<le> INTERNAL_SIZE - 1" using assms(2) by simp
  ultimately show ?thesis
    using convert_loop_delivers [where handler = handler and ret = 0 and arg = arg, OF assms(1)] assms(3) by metis
qed

text \<open>A character set in which every byte below 128 stands for itself and all others are illegal.\<close>

definition ascii :: charset where
  "ascii bs = (case bs of b # _ \<Rightarrow> if b < 128 then Char 1 [b] else Illegal | [] \<Rightarrow> Incomplete)"

lemma ascii_Cons: "b < 128 \<Longrightarrow> converts ascii 1 bs out \<Longrightarrow> converts ascii 1 (b # bs) (b # out)"
  using converts_Cons [of "b # bs" ascii 1 "[b]" 1 out] by (simp add: ascii_def)

theorem convert_delivers_witness:
  "\<exists>pieces. convert ascii (Some [104, 105, 0]) (Some 2) (write_to_file True) [] =
      Some (0, fold (\<lambda>p s. snd (write_to_file True p s)) pieces []) \<and> concat pieces = [104, 105]"
proof -
  have "converts ascii 1 [104, 105] [104, 105]"
    by (intro ascii_Cons converts_Nil) simp_all
  from convert_delivers [OF this, of "write_to_file True" "[0]" "[]"] show ?thesis
    by (simp add: INTERNAL_SIZE_def write_to_file_def numeral_2_eq_2)
qed

text \<open>At an illegal byte the callback is given the replacement character before the text converted so far,
  so that it appears in front of the text that precedes it.\<close>

theorem convert_illegal_order:
  assumes "iconv nxt f (INTERNAL_SIZE - 1) = ([c], out, Some EILSEQ)" and "f \<noteq> []" and "out \<noteq> []"
  shows "convert_to_file nxt (Some f) (Some (length f)) True written = Some (0, written @ [63] @ out)"
  using assms
  by (simp add: convert_to_file_def convert_def convert_len_def mem_read_def write_to_file_def
      convert_loop.simps [of _ _ _ _ f] convert_loop.simps [of _ _ _ _ "[]"])

theorem convert_illegal_order_witness:
  "convert_to_file ascii (Some [104, 105, 200]) (Some 3) True [] = Some (0, [63, 104, 105])"
  using convert_illegal_order [of ascii "[104, 105, 200]" 200 "[104, 105]" "[]"]
  by (simp add: iconv.simps ascii_def INTERNAL_SIZE_def numeral_3_eq_3)


text \<open>What every call of the callback keeps, the conversion keeps.\<close>

lemma convert_loop_inv:
  assumes "convert_loop nxt h len sz f ret arg = Some res" and "\<And>b s. Q s \<Longrightarrow> Q (snd (h b s))" and "Q arg"
  shows "Q (snd res)"
proof -
  have "(\<forall>b s. Q s \<longrightarrow> Q (snd (h b s))) \<longrightarrow> Q arg \<longrightarrow> Q (snd res)"
  proof (rule convert_loop.raw_induct [of "\<lambda>nxt h len sz f ret arg res. (\<forall>b s. Q s \<longrightarrow> Q (snd (h b s))) \<longrightarrow> Q arg \<longrightarrow> Q (snd res)",
        OF _ assms(1)])
    fix g :: "charset \<Rightarrow> 'a convert_handler_t \<Rightarrow> nat \<Rightarrow> nat \<Rightarrow> buf \<Rightarrow> int \<Rightarrow> 'a \<Rightarrow> (int \<times> 'a) option"
      and nxt and h :: "'a convert_handler_t" and len sz f ret arg res
    assume IH: "\<And>nxt h len sz f ret arg res. g nxt h len sz f ret arg = Some res \<Longrightarrow>
      (\<forall>b s. Q s \<longrightarrow> Q (snd (h b s))) \<longrightarrow> Q arg \<longrightarrow> Q (snd res)"
    assume run: "(if f = [] then Some (ret, arg)
      else let (f1, out, e) = iconv nxt f sz;
            f2 = (case e of Some EILSEQ \<Rightarrow> drop 1 f1 | Some EINVAL \<Rightarrow> [] | _ \<Rightarrow> f1);
            ret1 = (case e of Some EINVAL \<Rightarrow> int len - int (length f1) | _ \<Rightarrow> ret);
            arg1 = (case e of Some EILSEQ \<Rightarrow> snd (h [63] arg) | _ \<Rightarrow> arg) in
        if out \<noteq> [] then
          (let (r, arg2) = h out arg1 in
           if r < 0 then Some (ret1, arg2) else g nxt h len sz f2 ret1 arg2)
        else g nxt h len sz f2 ret1 arg1) = Some res"
    show "(\<forall>b s. Q s \<longrightarrow> Q (snd (h b s))) \<longrightarrow> Q arg \<longrightarrow> Q (snd res)"
    proof (intro impI)
      assume keep: "\<forall>b s. Q s \<longrightarrow> Q (snd (h b s))" and start: "Q arg"
      obtain f1 out e where ic: "iconv nxt f sz = (f1, out, e)" by (cases "iconv nxt f sz")
      define arg1 where "arg1 = (case e of Some EILSEQ \<Rightarrow> snd (h [63] arg) | _ \<Rightarrow> arg)"
      have "Q arg1" using keep start by (auto simp: arg1_def split: option.splits iconv_errno.splits)
      then have "Q (snd (h out arg1))" using keep by blast
      with \<open>Q arg1\<close> show "Q (snd res)"
        using run start keep IH unfolding ic arg1_def [symmetric]
        by (cases "h out arg1") (auto simp: Let_def arg1_def [symmetric] split: if_splits)
    qed
  qed
  with assms(2,3) show ?thesis by blast
qed

end
