(* ===== verification/FB_Screen.thy ===== *)
theory FB_Screen
  imports FB_Terminal FB_Convert FB_Helper
begin

text \<open>
  The screen buffer of a session, \<open>src/screen.c\<close>: lines of text that the program writes to, a cursor, and the
  position where the terminal of the client is believed to be.  Redrawing and flushing send the differences.
  A screen whose buffer was not allocated yet passes everything to the terminal.

  The state of a session at this level is the screen together with the terminal below it, two static variables and
  the flag that lets escape characters through.  The character tables of the converter are a parameter.
\<close>

section \<open>Data\<close>

definition SCREEN_LINE_LEN :: nat where "SCREEN_LINE_LEN = 1019"
definition MIN_SCREEN_LINES :: int where "MIN_SCREEN_LINES = 24"
definition MAX_SCREEN_LINES :: int where "MAX_SCREEN_LINES = 100"
definition WRAPMARGIN :: int where "WRAPMARGIN = 255"

text \<open>The lengths are 16-bit values.\<close>

definition u16 :: "int \<Rightarrow> int" where
  "u16 x = x mod 65536"

record screen_line_t =
  sl_old_len :: int
  sl_len :: int
  sl_modified :: bool
  sl_data :: buf

record screen_t =
  sc_buf :: "screen_line_t list option"
  sc_columns :: int
  sc_lines :: int
  sc_cur_ln :: int
  sc_cur_col :: int
  sc_tc_line :: int
  sc_tc_col :: int
  sc_roll :: int
  sc_scrollcnt :: int
  sc_redraw :: bool
  sc_utf8 :: bool

definition screen_start :: screen_t where
  "screen_start = \<lparr>sc_buf = None, sc_columns = 255, sc_lines = 24, sc_cur_ln = 0, sc_cur_col = 0, sc_tc_line = 0,
     sc_tc_col = 0, sc_roll = 0, sc_scrollcnt = 0, sc_redraw = False, sc_utf8 = False\<rparr>"

record charsets =
  u2g :: charset
  g2u :: charset

record tui =
  scr :: screen_t
  tty :: terminal
  showansi :: bool
  gbk_left :: int
  saved_line :: buf

definition screen_lines :: "tui \<Rightarrow> int" where
  "screen_lines st = sc_lines (scr st)"

text \<open>IAC DO NAWS.\<close>

definition screen_negotiate_size :: "tui \<Rightarrow> tui" where
  "screen_negotiate_size st = st\<lparr>tty := snd (terminal_write [255, 253, 31] (tty st))\<rparr>"

section \<open>Allocation\<close>

text \<open>Fresh memory for \<open>n\<close> lines, or nothing; the allocator is a parameter.\<close>

type_synonym line_alloc = "nat \<Rightarrow> screen_line_t list option"

definition screen_init :: "line_alloc \<Rightarrow> int \<Rightarrow> tui \<Rightarrow> tui option" where
  "screen_init alloc lns st = do {
     let sc = scr st;
     let sc = (if sc_buf sc = None then sc\<lparr>sc_columns := WRAPMARGIN\<rparr> else sc);
     let sc = (if sc_columns sc > int SCREEN_LINE_LEN then sc\<lparr>sc_columns := int SCREEN_LINE_LEN\<rparr> else sc);
     let lns = (if lns < MIN_SCREEN_LINES then MIN_SCREEN_LINES else lns);
     let lns = (if lns > MAX_SCREEN_LINES then MAX_SCREEN_LINES else lns);
     sc \<leftarrow> (case sc_buf sc of
         None \<Rightarrow> do {
           ls \<leftarrow> alloc (nat (sc_lines sc));
           let ls = map (\<lambda>sl. sl\<lparr>sl_modified := False, sl_len := 0, sl_old_len := 0\<rparr>) ls;
           Some (sc\<lparr>sc_buf := Some ls, sc_redraw := True, sc_roll := 0\<rparr>)
         }
       | Some ls \<Rightarrow>
           Some (if lns > sc_lines sc then
                   sc\<lparr>sc_buf := map_option (\<lambda>new. ls @ drop (length ls) new) (alloc (nat lns)), sc_lines := lns\<rparr>
                 else sc));
     Some (st\<lparr>scr := sc\<rparr>)
   }"

section \<open>Terminal output\<close>

definition on_term :: "(terminal \<Rightarrow> terminal option) \<Rightarrow> tui \<Rightarrow> tui option" where
  "on_term f st = map_option (\<lambda>t. st\<lparr>tty := t\<rparr>) (f (tty st))"

definition put_ch :: "int \<Rightarrow> tui \<Rightarrow> tui option" where
  "put_ch ch = on_term (terminal_putchar ch)"

definition ansi_cmd :: "buf \<Rightarrow> tui \<Rightarrow> tui option" where
  "ansi_cmd cmd = on_term (terminal_write_cached cmd)"

definition ANSI_CMD_CL :: buf where "ANSI_CMD_CL = 27 # lit ''[H'' @ 27 # lit ''[J''"
definition ANSI_CMD_CE :: buf where "ANSI_CMD_CE = 27 # lit ''[K''"
definition ANSI_CMD_SR :: buf where "ANSI_CMD_SR = 27 # lit ''M''"

fun put_chars :: "buf \<Rightarrow> tui \<Rightarrow> tui option" where
  "put_chars [] st = Some st"
| "put_chars (c # cs) st = do { st \<leftarrow> put_ch (schar c) st; put_chars cs st }"

definition move_terminal_cursor_to :: "int \<Rightarrow> int \<Rightarrow> tui \<Rightarrow> tui option" where
  "move_terminal_cursor_to col line st =
     put_chars (take 15 (27 # lit ''['' @ decimal (line + 1) @ lit '';'' @ decimal (col + 1) @ lit ''H'')) st"

definition move_terminal_cursor :: "int \<Rightarrow> int \<Rightarrow> tui \<Rightarrow> tui option" where
  "move_terminal_cursor col line st =
     (let sc = scr st in
      if line \<ge> sc_lines sc \<or> col \<ge> sc_columns sc then Some st
      else do {
        st \<leftarrow> (if col = 0 \<and> line = sc_tc_line sc + 1 then do {
                 st \<leftarrow> put_ch 10 st;
                 (if sc_tc_col sc \<noteq> 0 then put_ch 13 st else Some st)
               }
               else if col = 0 \<and> line = sc_tc_line sc then (if sc_tc_col sc \<noteq> 0 then put_ch 13 st else Some st)
               else if col = sc_tc_col sc - 1 \<and> line = sc_tc_line sc then put_ch 8 st
               else if col \<noteq> sc_tc_col sc \<or> line \<noteq> sc_tc_line sc then move_terminal_cursor_to col line st
               else Some st);
        Some (st\<lparr>scr := (scr st)\<lparr>sc_tc_col := col, sc_tc_line := line\<rparr>\<rparr>)
      })"

text \<open>The line of the buffer that shows as line \<open>line\<close> of the screen.\<close>

definition line_index :: "screen_t \<Rightarrow> int \<Rightarrow> int" where
  "line_index sc line = c_mod (line + sc_roll sc) (sc_lines sc)"

definition get_screen_line :: "int \<Rightarrow> screen_t \<Rightarrow> screen_line_t option" where
  "get_screen_line line sc =
     (case sc_buf sc of None \<Rightarrow> None | Some ls \<Rightarrow> rdi ls (line_index sc line))"

definition set_line_at :: "int \<Rightarrow> screen_line_t \<Rightarrow> tui \<Rightarrow> tui option" where
  "set_line_at i sl st =
     (case sc_buf (scr st) of
        None \<Rightarrow> None
      | Some ls \<Rightarrow> map_option (\<lambda>ls'. st\<lparr>scr := (scr st)\<lparr>sc_buf := Some ls'\<rparr>\<rparr>) (wri ls i sl))"

fun write_raw :: "buf \<Rightarrow> tui \<Rightarrow> tui option" where
  "write_raw [] st = Some st"
| "write_raw (c # cs) st = do {
     st \<leftarrow> (if c = 10 then put_ch 13 st else Some st);
     st \<leftarrow> put_ch (schar c) st;
     write_raw cs st
   }"

definition write_helper :: "buf \<Rightarrow> tui option \<Rightarrow> int \<times> tui option" where
  "write_helper b st =
     (0, do {
        st \<leftarrow> st;
        (if sc_buf (scr st) = None then write_raw b st else ansi_cmd b st)
      })"

definition screen_write_cached :: "charsets \<Rightarrow> buf \<Rightarrow> bool \<Rightarrow> tui \<Rightarrow> tui option" where
  "screen_write_cached cs data utf8 st =
     (if utf8 then snd (write_helper data (Some st))
      else do { (_, r) \<leftarrow> convert (u2g cs) (Some data) (Some (length data)) write_helper (Some st); r })"

section \<open>Redrawing and flushing\<close>

fun redraw_loop :: "charsets \<Rightarrow> nat list \<Rightarrow> tui \<Rightarrow> tui option" where
  "redraw_loop cs [] st = Some st"
| "redraw_loop cs (i # is) st = do {
     sl \<leftarrow> get_screen_line (int i) (scr st);
     (if sl_len sl = 0 then redraw_loop cs is st
      else do {
        st \<leftarrow> move_terminal_cursor 0 (int i) st;
        bs \<leftarrow> mem_read (sl_data sl) 0 (nat (sl_len sl));
        st \<leftarrow> screen_write_cached cs bs (sc_utf8 (scr st)) st;
        let sc = scr st;
        let col = sc_tc_col sc + sl_len sl;
        let st = st\<lparr>scr := sc\<lparr>sc_tc_col := (if col \<ge> sc_columns sc then sc_columns sc - 1 else col)\<rparr>\<rparr>;
        st \<leftarrow> set_line_at (line_index sc (int i)) (sl\<lparr>sl_modified := False, sl_old_len := sl_len sl\<rparr>) st;
        redraw_loop cs is st
      })
   }"

definition screen_redraw :: "charsets \<Rightarrow> tui \<Rightarrow> tui option" where
  "screen_redraw cs st =
     (if sc_buf (scr st) = None then Some st
      else do {
        st \<leftarrow> ansi_cmd ANSI_CMD_CL st;
        let st = st\<lparr>scr := (scr st)\<lparr>sc_tc_col := 0, sc_tc_line := 0\<rparr>\<rparr>;
        st \<leftarrow> redraw_loop cs [0..<nat (sc_lines (scr st))] st;
        st \<leftarrow> move_terminal_cursor (sc_cur_col (scr st)) (sc_cur_ln (scr st)) st;
        let st = st\<lparr>scr := (scr st)\<lparr>sc_redraw := False, sc_scrollcnt := 0\<rparr>\<rparr>;
        on_term (\<lambda>t. map_option snd (terminal_flush t)) st
      })"

fun scroll_up :: "nat \<Rightarrow> tui \<Rightarrow> tui option" where
  "scroll_up 0 st = Some st"
| "scroll_up (Suc n) st = do {
     st \<leftarrow> ansi_cmd ANSI_CMD_SR st;
     scroll_up n (st\<lparr>scr := (scr st)\<lparr>sc_scrollcnt := sc_scrollcnt (scr st) + 1\<rparr>\<rparr>)
   }"

fun scroll_down :: "nat \<Rightarrow> tui \<Rightarrow> tui option" where
  "scroll_down 0 st = Some st"
| "scroll_down (Suc n) st = do {
     st \<leftarrow> put_ch 10 st;
     scroll_down n (st\<lparr>scr := (scr st)\<lparr>sc_scrollcnt := sc_scrollcnt (scr st) - 1\<rparr>\<rparr>)
   }"

fun flush_loop :: "charsets \<Rightarrow> nat list \<Rightarrow> tui \<Rightarrow> tui option" where
  "flush_loop cs [] st = Some st"
| "flush_loop cs (i # is) st = do {
     sl \<leftarrow> get_screen_line (int i) (scr st);
     let idx = line_index (scr st) (int i);
     st \<leftarrow> (if sl_modified sl then do {
         st \<leftarrow> set_line_at idx (sl\<lparr>sl_modified := False\<rparr>) st;
         st \<leftarrow> move_terminal_cursor 0 (int i) st;
         bs \<leftarrow> mem_read (sl_data sl) 0 (nat (sl_len sl));
         st \<leftarrow> screen_write_cached cs bs (sc_utf8 (scr st)) st;
         let sc = scr st;
         let sc = sc\<lparr>sc_tc_col := sl_len sl\<rparr>;
         let sc = (if sc_tc_col sc \<ge> sc_columns sc then
             sc\<lparr>sc_tc_col := sc_tc_col sc - sc_columns sc,
                sc_tc_line := (if sc_tc_line sc + 1 \<ge> sc_lines sc then sc_lines sc - 1 else sc_tc_line sc + 1)\<rparr>
           else sc);
         Some (st\<lparr>scr := sc\<rparr>)
       } else Some st);
     st \<leftarrow> (if sl_old_len sl > sl_len sl then do {
         st \<leftarrow> move_terminal_cursor (sl_len sl) (int i) st;
         ansi_cmd ANSI_CMD_CE st
       } else Some st);
     st \<leftarrow> set_line_at idx (sl\<lparr>sl_modified := False, sl_old_len := sl_len sl\<rparr>) st;
     flush_loop cs is st
   }"

definition screen_flush :: "charsets \<Rightarrow> tui \<Rightarrow> tui option" where
  "screen_flush cs st =
     (let sc = scr st in
      if sc_buf sc = None then on_term (\<lambda>t. map_option snd (terminal_flush t)) st
      else do {
        empty \<leftarrow> terminal_input_buffer_empty (tty st);
        (if \<not> empty then Some st
         else if sc_redraw sc \<or> \<bar>sc_scrollcnt sc\<bar> \<ge> sc_lines sc - 3 then screen_redraw cs st
         else do {
           st \<leftarrow> (if sc_scrollcnt (scr st) < 0 then do {
               st \<leftarrow> move_terminal_cursor 0 0 st;
               scroll_up (nat (- sc_scrollcnt (scr st))) st
             } else Some st);
           st \<leftarrow> (if sc_scrollcnt (scr st) > 0 then do {
               st \<leftarrow> move_terminal_cursor 0 (sc_lines (scr st) - 1) st;
               scroll_down (nat (sc_scrollcnt (scr st))) st
             } else Some st);
           st \<leftarrow> flush_loop cs [0..<nat (sc_lines (scr st))] st;
           st \<leftarrow> move_terminal_cursor (sc_cur_col (scr st)) (sc_cur_ln (scr st)) st;
           on_term (\<lambda>t. map_option snd (terminal_flush t)) st
         })
      })"


section \<open>Editing the buffer\<close>

definition move :: "int \<Rightarrow> int \<Rightarrow> tui \<Rightarrow> tui" where
  "move line col st =
     (let sc = scr st in
      st\<lparr>scr := sc\<lparr>sc_cur_col := col, sc_cur_ln := (if line < 0 then line + sc_lines sc else line)\<rparr>\<rparr>)"

definition screen_coordinates :: "tui \<Rightarrow> int \<times> int" where
  "screen_coordinates st = (sc_cur_ln (scr st), sc_cur_col (scr st))"

definition screen_clear_line :: "int \<Rightarrow> tui \<Rightarrow> tui option" where
  "screen_clear_line line st = do {
     ls \<leftarrow> sc_buf (scr st);
     sl \<leftarrow> rdi ls line;
     set_line_at line (sl\<lparr>sl_modified := False, sl_len := 0\<rparr>) st
   }"

fun clear_lines :: "nat list \<Rightarrow> tui \<Rightarrow> tui option" where
  "clear_lines [] st = Some st"
| "clear_lines (i # is) st = do { st \<leftarrow> screen_clear_line (int i) st; clear_lines is st }"

definition screen_clear :: "tui \<Rightarrow> tui option" where
  "screen_clear st =
     (if sc_buf (scr st) = None then Some st
      else do {
        let st = st\<lparr>scr := (scr st)\<lparr>sc_roll := 0, sc_redraw := True\<rparr>\<rparr>;
        st \<leftarrow> clear_lines [0..<nat (sc_lines (scr st))] st;
        Some (move 0 0 st)
      })"

text \<open>\<open>memset\<close> of blanks behind the text of a line.\<close>

definition pad_line :: "int \<Rightarrow> screen_line_t \<Rightarrow> screen_line_t option" where
  "pad_line n sl =
     (if sl_len sl < 0 then None
      else map_option (\<lambda>d. sl\<lparr>sl_data := d\<rparr>) (mem_write (sl_data sl) (nat (sl_len sl)) (replicate (nat n) 32)))"

definition clrtoeol :: "tui \<Rightarrow> tui option" where
  "clrtoeol st =
     (let sc = scr st in
      if sc_buf sc = None then do {
        st \<leftarrow> (if sc_cur_col sc = 0 then put_ch 13 st else Some st);
        ansi_cmd ANSI_CMD_CE st
      }
      else do {
        sl \<leftarrow> get_screen_line (sc_cur_ln sc) sc;
        sl \<leftarrow> (if sc_cur_col sc > sl_len sl then pad_line (sc_cur_col sc - sl_len sl + 1) sl else Some sl);
        set_line_at (line_index sc (sc_cur_ln sc)) (sl\<lparr>sl_len := u16 (sc_cur_col sc)\<rparr>) st
      })"

definition screen_move_clear :: "int \<Rightarrow> tui \<Rightarrow> tui option" where
  "screen_move_clear line st = clrtoeol (move line 0 st)"

fun clrtobot_loop :: "nat \<Rightarrow> int \<Rightarrow> tui \<Rightarrow> tui option" where
  "clrtobot_loop 0 i st = Some st"
| "clrtobot_loop (Suc n) i st = do {
     sl \<leftarrow> get_screen_line i (scr st);
     st \<leftarrow> set_line_at (line_index (scr st) i)
       (sl\<lparr>sl_modified := False, sl_len := 0, sl_old_len := int SCREEN_LINE_LEN\<rparr>) st;
     clrtobot_loop n (i + 1) st
   }"

definition screen_clrtobot :: "tui \<Rightarrow> tui option" where
  "screen_clrtobot st =
     (let sc = scr st in
      if sc_buf sc = None then Some st else clrtobot_loop (nat (sc_lines sc - sc_cur_ln sc)) (sc_cur_ln sc) st)"

text \<open>A line feed in a text: the line ends at the cursor, which goes to the start of the next line.\<close>

definition end_line :: "int \<Rightarrow> tui \<Rightarrow> tui option" where
  "end_line idx st = do {
     let sc = scr st;
     ls \<leftarrow> sc_buf sc;
     sl \<leftarrow> rdi ls idx;
     sl \<leftarrow> (if sc_cur_col sc > sl_len sl then pad_line (sc_cur_col sc - sl_len sl + 1) sl else Some sl);
     st \<leftarrow> set_line_at idx (sl\<lparr>sl_len := u16 (sc_cur_col sc)\<rparr>) st;
     let sc = scr st;
     Some (st\<lparr>scr := sc\<lparr>sc_cur_col := 0,
       sc_cur_ln := (if sc_cur_ln sc < sc_lines sc then sc_cur_ln sc + 1 else sc_cur_ln sc)\<rparr>\<rparr>)
   }"

definition put_in_line :: "int \<Rightarrow> byte \<Rightarrow> tui \<Rightarrow> tui option" where
  "put_in_line idx c st = do {
     let sc = scr st;
     ls \<leftarrow> sc_buf sc;
     sl \<leftarrow> rdi ls idx;
     sl \<leftarrow> (if sc_cur_col sc > sl_len sl then pad_line (sc_cur_col sc - sl_len sl) sl else Some sl);
     d \<leftarrow> wri (sl_data sl) (sc_cur_col sc) c;
     let col = sc_cur_col sc + 1;
     st \<leftarrow> set_line_at idx (sl\<lparr>sl_modified := True, sl_data := d,
       sl_len := (if col > sl_len sl then u16 col else sl_len sl)\<rparr>) st;
     Some (st\<lparr>scr := (scr st)\<lparr>sc_cur_col := col\<rparr>\<rparr>)
   }"

text \<open>The line that the text goes to is looked up once, before the loop.\<close>

fun puts_loop :: "int \<Rightarrow> buf \<Rightarrow> tui \<Rightarrow> tui option" where
  "puts_loop idx [] st = Some st"
| "puts_loop idx (c # cs) st = do {
     st \<leftarrow> (if c = 10 \<or> c = 13 then end_line idx st else put_in_line idx c st);
     puts_loop idx cs st
   }"

definition screen_puts :: "charsets \<Rightarrow> buf \<Rightarrow> nat \<Rightarrow> tui \<Rightarrow> tui option" where
  "screen_puts cs s size' st = do {
     n \<leftarrow> (if size' = 0 then strlen s else Some size');
     bs \<leftarrow> mem_read s 0 n;
     (if sc_buf (scr st) = None then screen_write_cached cs bs (sc_utf8 (scr st)) st
      else puts_loop (line_index (scr st) (sc_cur_ln (scr st))) bs st)
   }"

definition screen_putc :: "charsets \<Rightarrow> int \<Rightarrow> tui \<Rightarrow> tui option" where
  "screen_putc cs c st = screen_puts cs [word_of_int c] 1 st"

definition screen_put_gbk_helper :: "charsets \<Rightarrow> buf \<Rightarrow> tui option \<Rightarrow> int \<times> tui option" where
  "screen_put_gbk_helper cs b st = (0, do { st \<leftarrow> st; screen_puts cs b (length b) st })"

text \<open>A GBK character is put when its second byte arrives.  The NUL behind it is converted along.\<close>

definition screen_put_gbk :: "charsets \<Rightarrow> int \<Rightarrow> tui \<Rightarrow> tui option" where
  "screen_put_gbk cs c st =
     (if gbk_left st \<noteq> 0 then do {
        (_, r) \<leftarrow> convert (g2u cs) (Some [word_of_int (gbk_left st), word_of_int c, 0]) (Some 3)
          (screen_put_gbk_helper cs) (Some st);
        st \<leftarrow> r;
        Some (st\<lparr>gbk_left := 0\<rparr>)
      }
      else if c AND 0x80 \<noteq> 0 then Some (st\<lparr>gbk_left := c\<rparr>)
      else screen_putc cs c st)"

definition outc :: "charsets \<Rightarrow> int \<Rightarrow> tui \<Rightarrow> (int \<times> tui) option" where
  "outc cs c st =
     (if sc_buf (scr st) = None then do {
        (c, st) \<leftarrow> (if \<not> isprint2 (word_of_int c) then
            (if c = 10 then do { st \<leftarrow> put_ch 13 st; Some (c, st) }
             else Some (if c \<noteq> 27 \<or> \<not> showansi st then 42 else c, st))
          else Some (c, st));
        st \<leftarrow> put_ch c st;
        Some (1, st)
      }
      else if \<not> isprint2 (word_of_int c) \<and> (c = 10 \<or> c = 13) then do {
        _ \<leftarrow> get_screen_line (sc_cur_ln (scr st)) (scr st);
        st \<leftarrow> end_line (line_index (scr st) (sc_cur_ln (scr st))) st;
        Some (1, st)
      }
      else do {
        let c = (if \<not> isprint2 (word_of_int c) \<and> (c \<noteq> 27 \<or> \<not> showansi st) then 42 else c);
        st \<leftarrow> screen_put_gbk cs c st;
        let sc = scr st;
        Some (1, if sc_cur_col sc \<ge> sc_columns sc then
            st\<lparr>scr := sc\<lparr>sc_cur_col := 0,
              sc_cur_ln := (if sc_cur_ln sc < sc_lines sc then sc_cur_ln sc + 1 else sc_cur_ln sc)\<rparr>\<rparr>
          else st)
      })"

fun outs :: "charsets \<Rightarrow> buf \<Rightarrow> tui \<Rightarrow> tui option" where
  "outs cs [] st = None"
| "outs cs (c # s) st = (if c = 0 then Some st else do { (_, st) \<leftarrow> outc cs (schar c) st; outs cs s st })"

definition tui_repeat_char :: "charsets \<Rightarrow> int \<Rightarrow> nat \<Rightarrow> tui \<Rightarrow> tui option" where
  "tui_repeat_char cs c n st = ((\<lambda>r. do { st \<leftarrow> r; map_option snd (outc cs c st) }) ^^ n) (Some st)"

definition screen_scroll :: "tui \<Rightarrow> tui option" where
  "screen_scroll st =
     (let sc = scr st; roll = sc_roll sc + 1 in
      screen_move_clear (-1)
        (st\<lparr>scr := sc\<lparr>sc_scrollcnt := sc_scrollcnt sc + 1,
           sc_roll := (if roll \<ge> sc_lines sc then roll - sc_lines sc else roll)\<rparr>\<rparr>))"

text \<open>Escape sequences of a string: their bytes, counted.\<close>

fun ans_chr_loop :: "buf \<Rightarrow> bool \<Rightarrow> nat \<Rightarrow> nat" where
  "ans_chr_loop [] ansi n = n"
| "ans_chr_loop (c # s) ansi n =
     (if c = 27 then ans_chr_loop s True (Suc n)
      else if ansi then ans_chr_loop s (c \<in> set (lit ''[0123456789; '')) (Suc n)
      else ans_chr_loop s ansi n)"

definition num_ans_chr :: "buf \<Rightarrow> nat option" where
  "num_ans_chr str = do { n \<leftarrow> strlen str; Some (ans_chr_loop (take n str) False 0) }"

section \<open>Well-formed screens\<close>

definition line_ok :: "screen_line_t \<Rightarrow> bool" where
  "line_ok sl \<longleftrightarrow> length (sl_data sl) = SCREEN_LINE_LEN \<and> 0 \<le> sl_len sl \<and> sl_len sl \<le> int SCREEN_LINE_LEN"

definition screen_ok :: "screen_t \<Rightarrow> bool" where
  "screen_ok sc \<longleftrightarrow> (\<exists>ls. sc_buf sc = Some ls \<and> int (length ls) = sc_lines sc \<and> (\<forall>sl\<in>set ls. line_ok sl)) \<and>
     MIN_SCREEN_LINES \<le> sc_lines sc \<and> sc_lines sc \<le> MAX_SCREEN_LINES \<and>
     0 \<le> sc_roll sc \<and> sc_roll sc < sc_lines sc \<and> 0 \<le> sc_cur_ln sc \<and> sc_cur_ln sc \<le> sc_lines sc \<and> 0 \<le> sc_cur_col sc"

text \<open>The text of a line, and the text shown as line \<open>i\<close> of the screen.\<close>

definition line_text :: "screen_line_t \<Rightarrow> buf" where
  "line_text sl = take (nat (sl_len sl)) (sl_data sl)"

definition shown :: "screen_t \<Rightarrow> nat \<Rightarrow> buf" where
  "shown sc i = (case get_screen_line (int i) sc of None \<Rightarrow> [] | Some sl \<Rightarrow> line_text sl)"

lemma line_index_range:
  assumes "screen_ok sc" and "0 \<le> line"
  shows "line_index sc line = (line + sc_roll sc) mod sc_lines sc" "0 \<le> line_index sc line" "line_index sc line < sc_lines sc"
  using assms by (auto simp: line_index_def c_mod_nonneg screen_ok_def MIN_SCREEN_LINES_def)

lemma get_screen_line_ok:
  assumes "screen_ok sc" and "0 \<le> line"
  shows "\<exists>sl ls. sc_buf sc = Some ls \<and> get_screen_line line sc = Some sl \<and> sl = ls ! nat (line_index sc line) \<and>
    nat (line_index sc line) < length ls \<and> line_ok sl"
proof -
  obtain ls where ls: "sc_buf sc = Some ls" "int (length ls) = sc_lines sc" "\<forall>sl\<in>set ls. line_ok sl"
    using assms(1) by (auto simp: screen_ok_def)
  have "nat (line_index sc line) < length ls" using line_index_range [OF assms] ls(2) by simp
  then show ?thesis
    using ls line_index_range(2) [OF assms] by (simp add: get_screen_line_def rdi_def rd_def)
qed

end
