(* ===== verification/FB_Utf8.thy ===== *)
theory FB_Utf8
  imports FB_String
begin

text \<open>
  The UTF-8 routines of \<open>lib/string.c\<close>: decoding one character, cutting a truncated character off the
  end of a copy, the column width of a character with its table, and the checks on user input built on
  them.  A \<open>wchar_t\<close> is an integer, \<open>WEOF\<close> is -1.
\<close>

section \<open>Decoding one character\<close>

definition is_cont :: "byte \<Rightarrow> bool" where
  "is_cont c \<longleftrightarrow> c AND 0xc0 = 0x80"

definition cont_at :: "buf \<Rightarrow> nat \<Rightarrow> bool option" where
  "cont_at s i = do { c \<leftarrow> rd s i; Some (is_cont c) }"

definition and_then :: "bool option \<Rightarrow> bool option \<Rightarrow> bool option" where
  "and_then p q = do { b \<leftarrow> p; (if b then q else Some False) }"

definition WEOF :: int where
  "WEOF = -1"

text \<open>The result is the character and the number of bytes the pointer moves.  A NULL \<open>leftp\<close> counts as 9.\<close>

definition next_wchar :: "buf \<Rightarrow> nat option \<Rightarrow> (int \<times> nat) option" where
  "next_wchar s leftp =
     (let left = (case leftp of None \<Rightarrow> 9 | Some n \<Rightarrow> n) in
      if left = 0 then Some (0, 0)
      else do {
        c \<leftarrow> rd s 0;
        (if c = 0 then Some (0, 0)
         else if c < 0x80 then Some (uint c, 1)
         else do {
           two \<leftarrow> (if c AND 0xe0 = 0xc0 \<and> left > 1 then cont_at s 1 else Some False);
           (if two then Some (push_bit 6 (uint (c AND 0x1f)) OR uint (s ! 1 AND 0x3f), 2)
            else do {
              three \<leftarrow> (if c AND 0xf0 = 0xe0 \<and> left > 2
                then and_then (cont_at s 1) (cont_at s 2) else Some False);
              (if three then Some (push_bit 12 (uint (c AND 0x0f)) OR push_bit 6 (uint (s ! 1 AND 0x3f))
                 OR uint (s ! 2 AND 0x3f), 3)
               else do {
                 four \<leftarrow> (if c AND 0xf8 = 0xf0 \<and> left > 3
                   then and_then (cont_at s 1) (and_then (cont_at s 2) (cont_at s 3)) else Some False);
                 (if four then Some (push_bit 18 (uint (c AND 0x07)) OR push_bit 12 (uint (s ! 1 AND 0x3f))
                    OR push_bit 6 (uint (s ! 2 AND 0x3f)) OR uint (s ! 3 AND 0x3f), 4)
                  else Some (WEOF, 0))
               })
            })
         })
      })"

section \<open>Truncation\<close>

text \<open>The buffer, and the number of bytes cut; \<open>p\<close> and the end are offsets into the buffer.\<close>

function check_tail_loop :: "buf \<Rightarrow> int \<Rightarrow> int \<Rightarrow> (buf \<times> nat) option" where
  "check_tail_loop b e p =
     (if 0 \<le> p then do {
        c \<leftarrow> rdi b p;
        (if \<not> is_cont c then do {
           (wc, _) \<leftarrow> next_wchar (drop (nat p) b) None;
           (if wc = WEOF then do { b \<leftarrow> wri b p 0; Some (b, nat (e - p)) } else Some (b, 0))
         } else check_tail_loop b e (p - 1))
      } else Some (b, 0))"
  by pat_completeness auto
termination
  by (relation "measure (\<lambda>(b, e, p). nat (p + 1))") auto

definition string_check_tail :: "buf \<Rightarrow> int option \<Rightarrow> (buf \<times> nat) option" where
  "string_check_tail b e = do {
     e \<leftarrow> (case e of Some e \<Rightarrow> Some e | None \<Rightarrow> do { n \<leftarrow> strlen b; Some (int n) });
     check_tail_loop b e (e - 1)
   }"

definition string_cp :: "buf \<Rightarrow> buf \<Rightarrow> nat \<Rightarrow> (buf \<times> u64) option" where
  "string_cp dst src siz = do {
     (dst, sz) \<leftarrow> strlcpy dst src siz;
     (if sz \<ge> siz then do {
        (dst, cut) \<leftarrow> string_check_tail dst (Some (int siz - 1));
        Some (dst, of_nat sz - of_nat cut)
      } else Some (dst, of_nat sz))
   }"

section \<open>Column width\<close>

type_synonym interval = "int \<times> int"

lemma c_div_two: "- 1 \<le> a \<Longrightarrow> c_div a 2 = (if a = - 1 then 0 else a div 2)"
  by (auto simp: c_div_def sgn_if)

function bisearch_loop :: "int \<Rightarrow> interval list \<Rightarrow> int \<Rightarrow> int \<Rightarrow> bool option" where
  "bisearch_loop ucs table lo hi =
     (if hi \<ge> lo then do {
        let mid = c_div (lo + hi) 2;
        (fir, lst) \<leftarrow> rdi table mid;
        (if ucs > lst then bisearch_loop ucs table (mid + 1) hi
         else if ucs < fir then bisearch_loop ucs table lo (mid - 1)
         else Some True)
      } else Some False)"
  by pat_completeness auto

termination
proof (relation "measure (\<lambda>(ucs, table, lo, hi). nat (hi - lo + 1))", goal_cases)
  case (2 ucs table lo hi mid iv fir lst)
  then have "0 \<le> c_div (lo + hi) 2" by (auto simp: rdi_def split: if_splits)
  then have "c_div (lo + hi) 2 = (lo + hi) div 2 \<or> lo + hi = -1"
    by (auto simp: c_div_def sgn_if split: if_splits)
  with 2 show ?case by (auto simp: c_div_two)
next
  case (3 ucs table lo hi mid iv fir lst)
  then have "0 \<le> c_div (lo + hi) 2" by (auto simp: rdi_def split: if_splits)
  then have "c_div (lo + hi) 2 = (lo + hi) div 2 \<or> lo + hi = -1"
    by (auto simp: c_div_def sgn_if split: if_splits)
  with 3 show ?case by (auto simp: c_div_two)
qed simp

definition bisearch :: "int \<Rightarrow> interval list \<Rightarrow> int \<Rightarrow> bool option" where
  "bisearch ucs table hi = do {
     (fir, _) \<leftarrow> rdi table 0;
     (if ucs < fir then Some False
      else do {
        (_, lst) \<leftarrow> rdi table hi;
        (if ucs > lst then Some False else bisearch_loop ucs table 0 hi)
      })
   }"

definition combining :: "interval list" where
  "combining = [
    (0x0300, 0x0357), (0x035D, 0x036F), (0x0483, 0x0486), (0x0488, 0x0489), (0x0591, 0x05A1),
    (0x05A3, 0x05B9), (0x05BB, 0x05BD), (0x05BF, 0x05BF), (0x05C1, 0x05C2), (0x05C4, 0x05C4),
    (0x0600, 0x0603), (0x0610, 0x0615), (0x064B, 0x0658), (0x0670, 0x0670), (0x06D6, 0x06E4),
    (0x06E7, 0x06E8), (0x06EA, 0x06ED), (0x070F, 0x070F), (0x0711, 0x0711), (0x0730, 0x074A),
    (0x07A6, 0x07B0), (0x0901, 0x0902), (0x093C, 0x093C), (0x0941, 0x0948), (0x094D, 0x094D),
    (0x0951, 0x0954), (0x0962, 0x0963), (0x0981, 0x0981), (0x09BC, 0x09BC), (0x09C1, 0x09C4),
    (0x09CD, 0x09CD), (0x09E2, 0x09E3), (0x0A01, 0x0A02), (0x0A3C, 0x0A3C), (0x0A41, 0x0A42),
    (0x0A47, 0x0A48), (0x0A4B, 0x0A4D), (0x0A70, 0x0A71), (0x0A81, 0x0A82), (0x0ABC, 0x0ABC),
    (0x0AC1, 0x0AC5), (0x0AC7, 0x0AC8), (0x0ACD, 0x0ACD), (0x0AE2, 0x0AE3), (0x0B01, 0x0B01),
    (0x0B3C, 0x0B3C), (0x0B3F, 0x0B3F), (0x0B41, 0x0B43), (0x0B4D, 0x0B4D), (0x0B56, 0x0B56),
    (0x0B82, 0x0B82), (0x0BC0, 0x0BC0), (0x0BCD, 0x0BCD), (0x0C3E, 0x0C40), (0x0C46, 0x0C48),
    (0x0C4A, 0x0C4D), (0x0C55, 0x0C56), (0x0CBC, 0x0CBC), (0x0CBF, 0x0CBF), (0x0CC6, 0x0CC6),
    (0x0CCC, 0x0CCD), (0x0D41, 0x0D43), (0x0D4D, 0x0D4D), (0x0DCA, 0x0DCA), (0x0DD2, 0x0DD4),
    (0x0DD6, 0x0DD6), (0x0E31, 0x0E31), (0x0E34, 0x0E3A), (0x0E47, 0x0E4E), (0x0EB1, 0x0EB1),
    (0x0EB4, 0x0EB9), (0x0EBB, 0x0EBC), (0x0EC8, 0x0ECD), (0x0F18, 0x0F19), (0x0F35, 0x0F35),
    (0x0F37, 0x0F37), (0x0F39, 0x0F39), (0x0F71, 0x0F7E), (0x0F80, 0x0F84), (0x0F86, 0x0F87),
    (0x0F90, 0x0F97), (0x0F99, 0x0FBC), (0x0FC6, 0x0FC6), (0x102D, 0x1030), (0x1032, 0x1032),
    (0x1036, 0x1037), (0x1039, 0x1039), (0x1058, 0x1059), (0x1160, 0x11FF), (0x1712, 0x1714),
    (0x1732, 0x1734), (0x1752, 0x1753), (0x1772, 0x1773), (0x17B4, 0x17B5), (0x17B7, 0x17BD),
    (0x17C6, 0x17C6), (0x17C9, 0x17D3), (0x17DD, 0x17DD), (0x180B, 0x180D), (0x18A9, 0x18A9),
    (0x1920, 0x1922), (0x1927, 0x1928), (0x1932, 0x1932), (0x1939, 0x193B), (0x200B, 0x200F),
    (0x202A, 0x202E), (0x2060, 0x2063), (0x206A, 0x206F), (0x20D0, 0x20EA), (0x302A, 0x302F),
    (0x3099, 0x309A), (0xFB1E, 0xFB1E), (0xFE00, 0xFE0F), (0xFE20, 0xFE23), (0xFEFF, 0xFEFF),
    (0xFFF9, 0xFFFB), (0x1D167, 0x1D169), (0x1D173, 0x1D182), (0x1D185, 0x1D18B), (0x1D1AA, 0x1D1AD),
    (0xE0001, 0xE0001), (0xE0020, 0xE007F), (0xE0100, 0xE01EF)]"

definition wide :: "int \<Rightarrow> bool" where
  "wide ch \<longleftrightarrow> ch \<ge> 0x1100 \<and>
     (ch \<le> 0x115f \<or> ch = 0x2329 \<or> ch = 0x232a \<or>
      (ch \<ge> 0x2e80 \<and> ch \<le> 0xa4cf \<and> ch \<noteq> 0x303f) \<or>
      (ch \<ge> 0xac00 \<and> ch \<le> 0xd7a3) \<or>
      (ch \<ge> 0xf900 \<and> ch \<le> 0xfaff) \<or>
      (ch \<ge> 0xfe30 \<and> ch \<le> 0xfe6f) \<or>
      (ch \<ge> 0xff00 \<and> ch \<le> 0xff60) \<or>
      (ch \<ge> 0xffe0 \<and> ch \<le> 0xffe6) \<or>
      (ch \<ge> 0x20000 \<and> ch \<le> 0x2fffd) \<or>
      (ch \<ge> 0x30000 \<and> ch \<le> 0x3fffd))"

definition fb_wcwidth :: "int \<Rightarrow> int option" where
  "fb_wcwidth ch =
     (if ch = 0 then Some 0
      else if ch < 32 \<or> (ch \<ge> 0x7f \<and> ch < 0xa0) then Some (-1)
      else do {
        r \<leftarrow> bisearch ch combining (int (length combining) - 1);
        Some (if r then 0 else 1 + of_bool (wide ch))
      })"

section \<open>Checks on user input\<close>

text \<open>Copying between overlapping regions with \<open>memcpy\<close> is undefined.\<close>

definition mem_copy :: "buf \<Rightarrow> nat \<Rightarrow> nat \<Rightarrow> nat \<Rightarrow> buf option" where
  "mem_copy b d s n = (if d + n \<le> s \<or> s + n \<le> d then mem_move b d s n else None)"

function non_printable_loop :: "buf \<Rightarrow> nat \<Rightarrow> nat \<Rightarrow> buf option" where
  "non_printable_loop b str dst = do {
     c \<leftarrow> rd b str;
     (if c \<noteq> 0 then do {
        (wc, n) \<leftarrow> next_wchar (drop str b) None;
        (if wc = 0 then do {
           b \<leftarrow> wr b dst 0;
           (if n = 0 then None else non_printable_loop b (str + n) dst)
         } else if wc = WEOF then non_printable_loop b (Suc str) dst
         else do {
           w \<leftarrow> fb_wcwidth wc;
           (if w > 0 then do {
              b \<leftarrow> (if dst \<noteq> str then mem_copy b dst str n else Some b);
              (if n = 0 then None else non_printable_loop b (str + n) (dst + n))
            } else (if n = 0 then None else non_printable_loop b (str + n) dst))
         })
      } else wr b dst 0)
   }"
  by pat_completeness auto
termination
proof (relation "measure (\<lambda>(b, str, dst). length b - str)", goal_cases)
  case (4 b str dst c r wc n w ba)
  then show ?case by (auto simp: rd_eq_Some_iff mem_copy_def dest: mem_move_length split: if_splits)
qed (auto simp: rd_eq_Some_iff wr_eq_Some_iff)

definition string_remove_non_printable :: "buf option \<Rightarrow> buf option option" where
  "string_remove_non_printable sp =
     (case sp of None \<Rightarrow> Some None | Some b \<Rightarrow> map_option Some (non_printable_loop b 0 0))"

text \<open>The width is a 64-bit counter; the length is returned as an \<open>int\<close>.\<close>

function validate_loop :: "buf \<Rightarrow> nat \<Rightarrow> u64 \<Rightarrow> nat \<Rightarrow> u64 \<Rightarrow> bool \<Rightarrow> bool \<Rightarrow> int option" where
  "validate_loop str s width len max_width allow_zero_width allow_esc = do {
     (wc, n) \<leftarrow> next_wchar (drop s str) None;
     (if wc = WEOF then Some (-1)
      else if wc = 0 then
        Some (if s > len \<or> width > max_width then -1 else sint (of_nat s :: u32))
      else do {
        w \<leftarrow> fb_wcwidth wc;
        (if \<not> (w > 0 \<or> (allow_esc \<and> wc = 27) \<or> (allow_zero_width \<and> (w = 0 \<or> wc = 10)))
         then Some (-1)
         else if n = 0 then None
         else validate_loop str (s + n) (width + of_int w) len max_width allow_zero_width allow_esc)
      })
   }"
  by pat_completeness auto
termination
proof (relation "measure (\<lambda>(str, s, _). length str - s)", goal_cases)
  case (2 str s width len max_width allow_zero_width allow_esc r wc n w)
  then have "s < length str"
    by (cases "s < length str") (auto simp: next_wchar_def rd_def)
  with 2 show ?case by simp
qed simp

definition string_validate_width_and_length ::
  "buf \<Rightarrow> nat \<Rightarrow> u64 \<Rightarrow> bool \<Rightarrow> bool \<Rightarrow> int option" where
  "string_validate_width_and_length str len max_width allow_zero_width allow_esc =
     validate_loop str 0 0 len max_width allow_zero_width allow_esc"

definition string_validate_utf8 :: "buf \<Rightarrow> nat \<Rightarrow> bool \<Rightarrow> int option" where
  "string_validate_utf8 str max_chinese_chars allow_zero_width_or_esc =
     string_validate_width_and_length str (max_chinese_chars * 4) (of_nat max_chinese_chars * 2)
       allow_zero_width_or_esc allow_zero_width_or_esc"

section \<open>The column width table\<close>

definition in_intervals :: "int \<Rightarrow> interval list \<Rightarrow> bool" where
  "in_intervals c t \<longleftrightarrow> (\<exists>(a, b)\<in>set t. a \<le> c \<and> c \<le> b)"

definition intervals_ok :: "interval list \<Rightarrow> bool" where
  "intervals_ok t \<longleftrightarrow> sorted_wrt (\<lambda>x y. snd x < fst y) t \<and> (\<forall>x\<in>set t. fst x \<le> snd x)"

lemma intervals_ok_le: "intervals_ok t \<Longrightarrow> x \<in> set t \<Longrightarrow> fst x \<le> snd x"
  by (simp add: intervals_ok_def)

lemma intervals_ok_less:
  "intervals_ok t \<Longrightarrow> i < j \<Longrightarrow> j < length t \<Longrightarrow> snd (t ! i) < fst (t ! j)"
  using sorted_wrt_nth_less [of "\<lambda>x y. snd x < fst y" t i j] by (auto simp: intervals_ok_def)

fun ascending_from :: "int \<Rightarrow> interval list \<Rightarrow> bool" where
  "ascending_from l [] \<longleftrightarrow> True"
| "ascending_from l ((a, b) # t) \<longleftrightarrow> l < a \<and> a \<le> b \<and> ascending_from b t"

lemma ascending_from_ok: "ascending_from l t \<Longrightarrow> intervals_ok t \<and> (\<forall>x\<in>set t. l < fst x)"
  by (induction l t rule: ascending_from.induct) (auto simp: intervals_ok_def)

declare bisearch_loop.simps [simp del]

lemma bisearch_loop_spec:
  "intervals_ok t \<Longrightarrow> 0 \<le> lo \<Longrightarrow> hi < int (length t) \<Longrightarrow>
   bisearch_loop c t lo hi =
     Some (\<exists>i. lo \<le> int i \<and> int i \<le> hi \<and> fst (t ! i) \<le> c \<and> c \<le> snd (t ! i))"
proof (induction c t lo hi rule: bisearch_loop.induct)
  case (1 c t lo hi)
  show ?case
  proof (cases "lo \<le> hi")
    case False
    then show ?thesis by (auto simp: bisearch_loop.simps [of c t lo hi])
  next
    case True
    define m where "m = nat ((lo + hi) div 2)"
    have m: "c_div (lo + hi) 2 = int m" "lo \<le> int m" "int m \<le> hi" "m < length t"
      using True "1.prems" by (auto simp: m_def c_div_nonneg)
    then have rd: "rdi t (c_div (lo + hi) 2) = Some (t ! m)" by (simp add: mem_simps)
    consider (above) "snd (t ! m) < c" | (below) "c < fst (t ! m)" "\<not> snd (t ! m) < c"
      | (hit) "fst (t ! m) \<le> c" "c \<le> snd (t ! m)" by linarith
    then show ?thesis
    proof cases
      case above
      have "\<not> c \<le> snd (t ! i)" if "i \<le> m" for i
      proof (cases "i = m")
        case False
        then have "snd (t ! i) < fst (t ! m)" using that m(4) "1.prems"(1) by (intro intervals_ok_less) auto
        then show ?thesis using above intervals_ok_le [OF "1.prems"(1), of "t ! m"] m(4) by simp
      qed (use above in simp)
      then have "(\<exists>i. int m + 1 \<le> int i \<and> int i \<le> hi \<and> fst (t ! i) \<le> c \<and> c \<le> snd (t ! i)) \<longleftrightarrow>
          (\<exists>i. lo \<le> int i \<and> int i \<le> hi \<and> fst (t ! i) \<le> c \<and> c \<le> snd (t ! i))"
        using m(2) by (metis add1_zle_eq le_less_linear of_nat_less_iff order.trans order_less_imp_le)
      moreover have "bisearch_loop c t (int m + 1) hi =
          Some (\<exists>i. int m + 1 \<le> int i \<and> int i \<le> hi \<and> fst (t ! i) \<le> c \<and> c \<le> snd (t ! i))"
        using "1.IH"(1) [OF True refl rd prod.collapse] above "1.prems" m by (simp add: Let_def)
      ultimately show ?thesis
        using True rd above m(1) by (simp add: bisearch_loop.simps [of c t lo hi] Let_def split_beta)
    next
      case below
      have "\<not> fst (t ! i) \<le> c" if "m \<le> i" "i < length t" for i
      proof (cases "i = m")
        case False
        then have "snd (t ! m) < fst (t ! i)" using that "1.prems"(1) by (intro intervals_ok_less) auto
        then show ?thesis using below intervals_ok_le [OF "1.prems"(1), of "t ! m"] m(4) by simp
      qed (use below in simp)
      then have "(\<exists>i. lo \<le> int i \<and> int i \<le> int m - 1 \<and> fst (t ! i) \<le> c \<and> c \<le> snd (t ! i)) \<longleftrightarrow>
          (\<exists>i. lo \<le> int i \<and> int i \<le> hi \<and> fst (t ! i) \<le> c \<and> c \<le> snd (t ! i))"
        using m(3) "1.prems"(3) by (smt (verit) of_nat_less_iff of_nat_le_iff)
      moreover have "bisearch_loop c t lo (int m - 1) =
          Some (\<exists>i. lo \<le> int i \<and> int i \<le> int m - 1 \<and> fst (t ! i) \<le> c \<and> c \<le> snd (t ! i))"
        using "1.IH"(2) [OF True refl rd prod.collapse] below "1.prems" m by (simp add: Let_def)
      ultimately show ?thesis
        using True rd below m(1) by (simp add: bisearch_loop.simps [of c t lo hi] Let_def split_beta)
    next
      case hit
      then show ?thesis
        using True rd m by (auto simp: bisearch_loop.simps [of c t lo hi] Let_def split_beta)
    qed
  qed
qed

lemma in_intervals_nth: "in_intervals c t \<longleftrightarrow> (\<exists>i<length t. fst (t ! i) \<le> c \<and> c \<le> snd (t ! i))"
  unfolding in_intervals_def by (simp add: split_beta) (metis in_set_conv_nth)

text \<open>On a non-empty table of disjoint intervals in ascending order, the binary search stays inside the
  table, terminates, and answers whether some interval contains the character.\<close>

theorem bisearch_correct:
  assumes "intervals_ok t" and "t \<noteq> []"
  shows "bisearch c t (int (length t) - 1) = Some (in_intervals c t)"
proof -
  define n where "n = length t - 1"
  have n: "int (length t) - 1 = int n" "n < length t" "0 < length t" using assms(2) by (auto simp: n_def of_nat_diff Suc_le_eq)
  have le: "fst (t ! i) \<le> snd (t ! i)" if "i < length t" for i
    using intervals_ok_le [OF assms(1)] that by simp
  have low: "fst (t ! 0) \<le> fst (t ! i)" if "i < length t" for i
    using intervals_ok_less [OF assms(1), of 0 i] le [of 0] that n(3) by (cases "i = 0") auto
  have high: "snd (t ! i) \<le> snd (t ! n)" if "i < length t" for i
  proof (cases "i = n")
    case False
    then have "i < n" using that n(1) by linarith
    then show ?thesis using intervals_ok_less [OF assms(1), of i n] le [of n] n(2) by simp
  qed simp
  have loop: "bisearch_loop c t 0 (int n) = Some (in_intervals c t)"
  proof -
    have "i \<le> n \<longleftrightarrow> i < length t" for i using n(1) by linarith
    then show ?thesis
      using bisearch_loop_spec [OF assms(1), of 0 "int n" c] n(2) by (simp add: in_intervals_nth)
  qed
  have r0: "rdi t 0 = Some (t ! 0)" using n by (simp add: rdi_def rd_def)
  have rn: "rdi t (int n) = Some (t ! n)" using n by (simp add: mem_simps)
  show ?thesis
  proof (cases "c < fst (t ! 0) \<or> snd (t ! n) < c")
    case True
    then have "\<not> in_intervals c t" unfolding in_intervals_nth using low high by fastforce
    with True r0 rn n(1) show ?thesis by (auto simp: bisearch_def split_beta)
  next
    case False
    then show ?thesis using r0 rn n(1) loop by (simp add: bisearch_def split_beta)
  qed
qed

theorem bisearch_correct_witness:
  "bisearch 7 [(1, 3), (5, 8), (10, 10)] (int (length [(1, 3), (5, 8), (10, 10 :: int)]) - 1) =
    Some (in_intervals 7 [(1, 3), (5, 8), (10, 10)])"
  using bisearch_correct [of "[(1, 3), (5, 8), (10, 10)]" 7] by (simp add: intervals_ok_def)

lemma combining_ok: "intervals_ok combining" and combining_nonempty: "combining \<noteq> []"
proof -
  have "ascending_from 0 combining" unfolding combining_def by simp
  then show "intervals_ok combining" by (simp add: ascending_from_ok)
  show "combining \<noteq> []" by (simp add: combining_def)
qed

lemma bisearch_combining:
  "bisearch c combining (int (length combining) - 1) = Some (in_intervals c combining)"
  by (rule bisearch_correct [OF combining_ok combining_nonempty])

lemma fb_wcwidth_value:
  "fb_wcwidth ch = Some
     (if ch = 0 then 0 else if ch < 32 \<or> ch \<in> {0x7f..<0xa0} then -1
      else if in_intervals ch combining then 0 else if wide ch then 2 else 1)"
  by (simp add: fb_wcwidth_def bisearch_combining)

text \<open>The column width of a character is computed without leaving the table: 0 for NUL and for the
  non-spacing characters, -1 for the other control characters, 2 for the wide ones and 1 for all others.\<close>

theorem fb_wcwidth_spec:
  "fb_wcwidth ch = Some
     (if ch = 0 then 0 else if ch < 32 \<or> ch \<in> {0x7f..<0xa0} then -1
      else if in_intervals ch combining then 0 else if wide ch then 2 else 1)"
  by (rule fb_wcwidth_value)

lemma fb_wcwidth_total: "\<exists>w. fb_wcwidth ch = Some w \<and> - 1 \<le> w \<and> w \<le> 2"
  by (simp add: fb_wcwidth_def bisearch_combining)

section \<open>Encoding and decoding\<close>

text \<open>Bit patterns of a byte as arithmetic on its value.\<close>

lemma nat_and_field: "(n::nat) AND push_bit k (mask m) = 2 ^ k * ((n div 2 ^ k) mod 2 ^ m)"
proof -
  have "n AND push_bit k (mask m) = push_bit k (take_bit m (drop_bit k n))"
    by (rule bit_eqI) (auto simp: bit_simps)
  then show ?thesis by (simp add: push_bit_eq_mult take_bit_eq_mod drop_bit_eq_div)
qed

lemma byte_and_field:
  assumes "unat m = push_bit k (mask j)"
  shows "unat (c AND (m::byte)) = 2 ^ k * ((unat c div 2 ^ k) mod 2 ^ j)"
  by (simp add: unsigned_and_eq assms nat_and_field)

lemma byte_fields:
  "unat (c AND (0xc0::byte)) = 64 * (unat c div 64)"
  "unat (c AND (0xe0::byte)) = 32 * (unat c div 32)"
  "unat (c AND (0xf0::byte)) = 16 * (unat c div 16)"
  "unat (c AND (0xf8::byte)) = 8 * (unat c div 8)"
  "unat (c AND (0x3f::byte)) = unat c mod 64"
  "unat (c AND (0x1f::byte)) = unat c mod 32"
  "unat (c AND (0x0f::byte)) = unat c mod 16"
  "unat (c AND (0x07::byte)) = unat c mod 8"
  using byte_and_field [of "0xc0" 6 2 c] byte_and_field [of "0xe0" 5 3 c] byte_and_field [of "0xf0" 4 4 c]
    byte_and_field [of "0xf8" 3 5 c] byte_and_field [of "0x3f" 0 6 c] byte_and_field [of "0x1f" 0 5 c]
    byte_and_field [of "0x0f" 0 4 c] byte_and_field [of "0x07" 0 3 c] unat_byte [of c]
  by (simp_all add: mask_eq_exp_minus_1 push_bit_eq_mult mod_less)

lemma byte_eq_iff: "c = (d::byte) \<longleftrightarrow> unat c = unat d"
  by (auto intro: word_eq_by_unat)

lemma field_eq: "0 < w \<Longrightarrow> w * (x div w) = w * q \<longleftrightarrow> w * q \<le> x \<and> x < w * q + (w::nat)"
  using div_nat_eqI [of w q x] dividend_less_div_times [of w x]
  by (auto simp: mult.commute add.commute)

lemma byte_patterns:
  "is_cont c \<longleftrightarrow> 0x80 \<le> unat c \<and> unat c < 0xc0"
  "c AND 0xe0 = (0xc0::byte) \<longleftrightarrow> 0xc0 \<le> unat c \<and> unat c < 0xe0"
  "c AND 0xf0 = (0xe0::byte) \<longleftrightarrow> 0xe0 \<le> unat c \<and> unat c < 0xf0"
  "c AND 0xf8 = (0xf0::byte) \<longleftrightarrow> 0xf0 \<le> unat c \<and> unat c < 0xf8"
  using field_eq [of 64 "unat c" 2] field_eq [of 32 "unat c" 6] field_eq [of 16 "unat c" 14] field_eq [of 8 "unat c" 30]
  by (simp_all add: is_cont_def byte_eq_iff byte_fields)

lemma or_disjoint:
  assumes "b < 2 ^ k"
  shows "push_bit k (a::nat) OR b = 2 ^ k * a + b"
proof -
  have b: "take_bit k b = b" using assms by (simp add: take_bit_nat_eq_self_iff)
  have "push_bit k a + b = push_bit k a OR b"
  proof (rule disjunctive_add_eq_or, rule bit_eqI)
    fix n
    have "bit b n \<Longrightarrow> n < k" using bit_take_bit_iff [of k b n] b by simp
    then show "bit (push_bit k a AND b) n = bit 0 n" by (auto simp: bit_simps)
  qed
  then show ?thesis by (simp add: push_bit_eq_mult mult.commute)
qed

lemma int_or_disjoint: "r < 2 ^ k \<Longrightarrow> push_bit k (int a) OR int r = int (2 ^ k * a + r)"
  using or_disjoint [of r k a] by (metis of_nat_or_eq of_nat_push_bit)

definition decode2 :: "byte \<Rightarrow> byte \<Rightarrow> int" where
  "decode2 a b = push_bit 6 (uint (a AND 0x1f)) OR uint (b AND 0x3f)"

definition decode3 :: "byte \<Rightarrow> byte \<Rightarrow> byte \<Rightarrow> int" where
  "decode3 a b c = push_bit 12 (uint (a AND 0x0f)) OR push_bit 6 (uint (b AND 0x3f)) OR uint (c AND 0x3f)"

definition decode4 :: "byte \<Rightarrow> byte \<Rightarrow> byte \<Rightarrow> byte \<Rightarrow> int" where
  "decode4 a b c d = push_bit 18 (uint (a AND 0x07)) OR push_bit 12 (uint (b AND 0x3f))
     OR push_bit 6 (uint (c AND 0x3f)) OR uint (d AND 0x3f)"

lemma uint_int_unat: "uint (w::byte) = int (unat w)"
  by simp

lemma decode_values:
  "decode2 a b = int (64 * (unat a mod 32) + unat b mod 64)"
  "decode3 a b c = int (4096 * (unat a mod 16) + (64 * (unat b mod 64) + unat c mod 64))"
  "decode4 a b c d =
     int (262144 * (unat a mod 8) + (4096 * (unat b mod 64) + (64 * (unat c mod 64) + unat d mod 64)))"
proof -
  have m1: "x mod 64 < 2 ^ 6" for x :: nat by simp
  have m2: "2 ^ 6 * (y mod 64) + x mod 64 < 2 ^ 12" for x y :: nat
    using m1 [of x] m1 [of y] by simp
  have m3: "2 ^ 12 * (z mod 64) + (2 ^ 6 * (y mod 64) + x mod 64) < 2 ^ 18" for x y z :: nat
    using m2 [of y x] m1 [of z] by simp
  have p: "(2::nat) ^ 6 = 64" "(2::nat) ^ 12 = 4096" "(2::nat) ^ 18 = 262144" by simp_all
  note exact = uint_int_unat byte_fields int_or_disjoint [OF m1] int_or_disjoint [OF m2] int_or_disjoint [OF m3]
  show "decode2 a b = int (64 * (unat a mod 32) + unat b mod 64)"
    unfolding decode2_def exact unfolding p ..
  show "decode3 a b c = int (4096 * (unat a mod 16) + (64 * (unat b mod 64) + unat c mod 64))"
    unfolding decode3_def exact unfolding p ..
  show "decode4 a b c d =
     int (262144 * (unat a mod 8) + (4096 * (unat b mod 64) + (64 * (unat c mod 64) + unat d mod 64)))"
    unfolding decode4_def exact unfolding p ..
qed

fun utf8_encode :: "nat \<Rightarrow> buf" where
  "utf8_encode c =
     (if c < 0x80 then [of_nat c]
      else if c < 0x800 then [of_nat (0xc0 + c div 64), of_nat (0x80 + c mod 64)]
      else if c < 0x10000 then
        [of_nat (0xe0 + c div 4096), of_nat (0x80 + (c div 64) mod 64), of_nat (0x80 + c mod 64)]
      else [of_nat (0xf0 + c div 262144), of_nat (0x80 + (c div 4096) mod 64),
        of_nat (0x80 + (c div 64) mod 64), of_nat (0x80 + c mod 64)])"

definition code_point :: "nat \<Rightarrow> bool" where
  "code_point c \<longleftrightarrow> 0 < c \<and> c < 0x200000"

lemma unat_of_small: "n < 256 \<Longrightarrow> unat (of_nat n :: byte) = n"
  by (simp add: unat_of_nat)

lemma next_wchar_cases:
  "c \<noteq> 0 \<Longrightarrow> c < 0x80 \<Longrightarrow> next_wchar (c # s) None = Some (uint c, 1)"
  "unat a \<in> {0xc0..<0xe0} \<Longrightarrow> unat b \<in> {0x80..<0xc0} \<Longrightarrow> next_wchar (a # b # s) None = Some (decode2 a b, 2)"
  "unat a \<in> {0xe0..<0xf0} \<Longrightarrow> unat b \<in> {0x80..<0xc0} \<Longrightarrow> unat c \<in> {0x80..<0xc0} \<Longrightarrow>
   next_wchar (a # b # c # s) None = Some (decode3 a b c, 3)"
  "unat a \<in> {0xf0..<0xf8} \<Longrightarrow> unat b \<in> {0x80..<0xc0} \<Longrightarrow> unat c \<in> {0x80..<0xc0} \<Longrightarrow> unat d \<in> {0x80..<0xc0} \<Longrightarrow>
   next_wchar (a # b # c # d # s) None = Some (decode4 a b c d, 4)"
  by (auto simp: next_wchar_def rd_def cont_at_def and_then_def byte_patterns word_less_nat_alt
      decode2_def decode3_def decode4_def)

lemma next_wchar_groups:
  "0 < n \<Longrightarrow> n < 128 \<Longrightarrow> next_wchar (of_nat n # s) None = Some (int n, 1)"
  "a < 32 \<Longrightarrow> b < 64 \<Longrightarrow> next_wchar (of_nat (0xc0 + a) # of_nat (0x80 + b) # s) None = Some (int (64 * a + b), 2)"
  "a < 16 \<Longrightarrow> b < 64 \<Longrightarrow> c < 64 \<Longrightarrow>
   next_wchar (of_nat (0xe0 + a) # of_nat (0x80 + b) # of_nat (0x80 + c) # s) None =
     Some (int (4096 * a + (64 * b + c)), 3)"
  "a < 8 \<Longrightarrow> b < 64 \<Longrightarrow> c < 64 \<Longrightarrow> d < 64 \<Longrightarrow>
   next_wchar (of_nat (0xf0 + a) # of_nat (0x80 + b) # of_nat (0x80 + c) # of_nat (0x80 + d) # s) None =
     Some (int (262144 * a + (4096 * b + (64 * c + d))), 4)"
proof -
  have u: "unat (of_nat (0xc0 + n) :: byte) = 0xc0 + n" if "n < 64" for n
    using that by (intro unat_of_small) simp
  have v: "unat (of_nat (0xe0 + n) :: byte) = 0xe0 + n" if "n < 32" for n
    using that by (intro unat_of_small) simp
  have w: "unat (of_nat (0xf0 + n) :: byte) = 0xf0 + n" if "n < 16" for n
    using that by (intro unat_of_small) simp
  have x: "unat (of_nat (0x80 + n) :: byte) = 0x80 + n" if "n < 128" for n
    using that by (intro unat_of_small) simp
  have mods: "(0xc0 + n) mod 32 = n mod 32" "(0xe0 + n) mod 16 = n mod 16" "(0xf0 + n) mod 8 = n mod 8"
      "(0x80 + n) mod 64 = n mod 64" for n :: nat
    using mod_mult_self3 [of 6 32 n] mod_mult_self3 [of 14 16 n] mod_mult_self3 [of 30 8 n]
      mod_mult_self3 [of 2 64 n] by simp_all
  show "0 < n \<Longrightarrow> n < 128 \<Longrightarrow> next_wchar (of_nat n # s) None = Some (int n, 1)"
  proof -
    assume n: "0 < n" "n < 128"
    then have "unat (of_nat n :: byte) = n" by (intro unat_of_small) simp
    with n show ?thesis
      by (subst next_wchar_cases(1)) (auto simp: word_less_nat_alt byte_eq_iff uint_int_unat simp del: of_nat_unat)
  qed
  show "a < 32 \<Longrightarrow> b < 64 \<Longrightarrow>
      next_wchar (of_nat (0xc0 + a) # of_nat (0x80 + b) # s) None = Some (int (64 * a + b), 2)"
    by (subst next_wchar_cases(2)) (simp_all only: u x decode_values mods mod_less atLeastLessThan_iff, auto)
  show "a < 16 \<Longrightarrow> b < 64 \<Longrightarrow> c < 64 \<Longrightarrow>
      next_wchar (of_nat (0xe0 + a) # of_nat (0x80 + b) # of_nat (0x80 + c) # s) None =
        Some (int (4096 * a + (64 * b + c)), 3)"
    by (subst next_wchar_cases(3)) (simp_all only: v x decode_values mods mod_less atLeastLessThan_iff, auto)
  show "a < 8 \<Longrightarrow> b < 64 \<Longrightarrow> c < 64 \<Longrightarrow> d < 64 \<Longrightarrow>
      next_wchar (of_nat (0xf0 + a) # of_nat (0x80 + b) # of_nat (0x80 + c) # of_nat (0x80 + d) # s) None =
        Some (int (262144 * a + (4096 * b + (64 * c + d))), 4)"
    by (subst next_wchar_cases(4)) (simp_all only: w x decode_values mods mod_less atLeastLessThan_iff, auto)
qed

lemma next_wchar_encode:
  assumes "code_point c"
  shows "next_wchar (utf8_encode c @ rest) None = Some (int c, length (utf8_encode c))"
proof -
  have c: "0 < c" "c < 0x200000" using assms by (auto simp: code_point_def)
  have d1: "64 * (c div 64) + c mod 64 = c" by simp
  have d2: "64 * (c div 4096) + c div 64 mod 64 = c div 64"
    using mult_div_mod_eq [of 64 "c div 64"] div_mult2_eq [of c 64 64] by simp
  have d3: "64 * (c div 262144) + c div 4096 mod 64 = c div 4096"
    using mult_div_mod_eq [of 64 "c div 4096"] div_mult2_eq [of c 4096 64] by simp
  consider "c < 0x80" | "0x80 \<le> c" "c < 0x800" | "0x800 \<le> c" "c < 0x10000" | "0x10000 \<le> c" by linarith
  then show ?thesis
  proof cases
    case 1
    then show ?thesis using next_wchar_groups(1) [of c rest] c by simp
  next
    case 2
    then show ?thesis using next_wchar_groups(2) [of "c div 64" "c mod 64" rest]
      by (simp add: div_less_iff_less_mult)
  next
    case 3
    have "4096 * (c div 4096) + (64 * (c div 64 mod 64) + c mod 64) = c"
      using d1 d2 by linarith
    then show ?thesis using 3 next_wchar_groups(3) [of "c div 4096" "c div 64 mod 64" "c mod 64" rest]
      by (simp only: utf8_encode.simps) (simp add: div_less_iff_less_mult del: of_nat_add)
  next
    case 4
    have "262144 * (c div 262144) + (4096 * (c div 4096 mod 64) + (64 * (c div 64 mod 64) + c mod 64)) = c"
      using d1 d2 d3 by linarith
    then show ?thesis using 4 c
        next_wchar_groups(4) [of "c div 262144" "c div 4096 mod 64" "c div 64 mod 64" "c mod 64" rest]
      by (simp only: utf8_encode.simps) (simp add: div_less_iff_less_mult del: of_nat_add)
  qed
qed

text \<open>Claim C27: decoding the UTF-8 encoding of a character gives the character back and moves the pointer by
  exactly the bytes of its encoding, whatever follows.\<close>

theorem next_wchar_round_trip:
  assumes "code_point c"
  shows "next_wchar (utf8_encode c @ rest) None = Some (int c, length (utf8_encode c))"
  by (rule next_wchar_encode [OF assms])

theorem next_wchar_round_trip_witness:
  "next_wchar (utf8_encode 0x6211 @ [0]) None = Some (0x6211, 3)"
  using next_wchar_round_trip [of "0x6211" "[0]"] by (simp add: code_point_def)

section \<open>Validating user input\<close>

abbreviation utf8 :: "nat list \<Rightarrow> buf" where
  "utf8 cs \<equiv> concat (map utf8_encode cs)"

definition wcw :: "nat \<Rightarrow> int" where
  "wcw c = the (fb_wcwidth (int c))"

definition allowed :: "bool \<Rightarrow> bool \<Rightarrow> nat \<Rightarrow> bool" where
  "allowed z e c \<longleftrightarrow> wcw c > 0 \<or> (e \<and> c = 27) \<or> (z \<and> (wcw c = 0 \<or> c = 10))"

lemma fb_wcwidth_wcw: "fb_wcwidth (int c) = Some (wcw c)"
  using fb_wcwidth_total [of "int c"] by (auto simp: wcw_def)

declare utf8_encode.simps [simp del] validate_loop.simps [simp del] non_printable_loop.simps [simp del]
  check_tail_loop.simps [simp del]

lemma utf8_encode_length: "1 \<le> length (utf8_encode c) \<and> length (utf8_encode c) \<le> 4"
  by (simp add: utf8_encode.simps)

lemma next_wchar_nul: "next_wchar (0 # s) None = Some (0, 0)"
  by (simp add: next_wchar_def rd_def)

lemma validate_loop_spec:
  "drop s str = utf8 cs @ 0 # rest \<Longrightarrow> \<forall>c\<in>set cs. code_point c \<Longrightarrow>
   validate_loop str s width len max_width z e = Some
     (if (\<forall>c\<in>set cs. allowed z e c) \<and> s + length (utf8 cs) \<le> len \<and>
         width + of_int (\<Sum>c\<leftarrow>cs. wcw c) \<le> max_width
      then sint (of_nat (s + length (utf8 cs)) :: u32) else -1)"
proof (induction cs arbitrary: s width)
  case Nil
  then show ?case by (auto simp: validate_loop.simps [of str] next_wchar_nul WEOF_def)
next
  case (Cons c cs)
  have n: "next_wchar (drop s str) None = Some (int c, length (utf8_encode c))"
    using Cons.prems next_wchar_encode [of c "utf8 cs @ 0 # rest"] by simp
  have c: "0 < c" using Cons.prems by (simp add: code_point_def)
  have "drop (s + length (utf8_encode c)) str = drop (length (utf8_encode c)) (drop s str)"
    by (simp add: add.commute)
  also have "\<dots> = utf8 cs @ 0 # rest" using Cons.prems(1) by simp
  finally have rest: "drop (s + length (utf8_encode c)) str = utf8 cs @ 0 # rest" .
  have pos: "utf8_encode c \<noteq> []" using utf8_encode_length [of c] by auto
  have ok: "allowed z e c \<longleftrightarrow> 0 < wcw c \<or> (e \<and> int c = 27) \<or> (z \<and> (wcw c = 0 \<or> int c = 10))"
    by (auto simp: allowed_def)
  show ?case
  proof (cases "allowed z e c")
    case False
    then show ?thesis using n c ok by (auto simp: validate_loop.simps [of str s] WEOF_def fb_wcwidth_wcw)
  next
    case True
    have "validate_loop str s width len max_width z e =
        validate_loop str (s + length (utf8_encode c)) (width + of_int (wcw c)) len max_width z e"
      using True n c pos ok by (auto simp: validate_loop.simps [of str s] WEOF_def fb_wcwidth_wcw)
    with True Cons.IH [OF rest, of "width + of_int (wcw c)"] Cons.prems(2) show ?thesis
      by (simp add: add.assoc)
  qed
qed

lemma wcw_range: "- 1 \<le> wcw c \<and> wcw c \<le> 2"
  using fb_wcwidth_total [of "int c"] by (auto simp: wcw_def)

lemma sum_wcw_bounds:
  "\<forall>c\<in>set cs. 0 < wcw c \<Longrightarrow> 0 \<le> (\<Sum>c\<leftarrow>cs. wcw c) \<and> (\<Sum>c\<leftarrow>cs. wcw c) \<le> 2 * int (length (utf8 cs))"
proof (induction cs)
  case (Cons c cs)
  then show ?case using wcw_range [of c] utf8_encode_length [of c] by auto
qed simp

lemma sint_of_small: "n < 2 ^ 31 \<Longrightarrow> sint (of_nat n :: u32) = int n"
  by (simp add: signed_of_nat signed_take_bit_int_eq_self)



text \<open>The width counter is unsigned, so a line feed, whose width is -1, wraps it: a text that consists of
  one line feed is refused under every width bound below the largest counter value, although line feeds are allowed.\<close>

theorem string_validate_newline:
  assumes "max_width < 2 ^ 64 - 1"
  shows "string_validate_width_and_length [10, 0] len (of_nat max_width) True e = Some (- 1)"
proof -
  have w: "wcw 10 = - 1" by (simp add: wcw_def fb_wcwidth_def)
  have m: "\<not> (- 1 :: u64) \<le> of_nat max_width"
    using assms by (simp add: word_le_nat_alt unat_of_nat unsigned_minus_1_eq_mask mask_eq_exp_minus_1)
  have "utf8 [10] = [10]" by (simp add: utf8_encode.simps)
  with validate_loop_spec [of 0 "[10, 0]" "[10]" "[]" 0 len "of_nat max_width" True e] w m
  show ?thesis by (simp add: string_validate_width_and_length_def code_point_def)
qed

theorem string_validate_newline_witness:
  "string_validate_width_and_length [10, 0] 100 (of_nat 80) True True = Some (- 1)"
  using string_validate_newline [of 80 100 True] by simp

section \<open>Truncation at a character boundary\<close>

lemma utf8_encode_shape:
  assumes "code_point c"
  shows "(\<exists>l. utf8_encode c = [l] \<and> l \<noteq> 0 \<and> unat l < 0x80) \<or>
    (\<exists>l ts. utf8_encode c = l # ts \<and> (\<forall>t\<in>set ts. is_cont t) \<and>
      (unat l \<in> {0xc0..<0xe0} \<and> length ts = 1 \<or> unat l \<in> {0xe0..<0xf0} \<and> length ts = 2 \<or>
       unat l \<in> {0xf0..<0xf8} \<and> length ts = 3))"
proof -
  have c: "c < 0x200000" using assms by (simp add: code_point_def)
  have t: "is_cont (of_nat (0x80 + n))" if "n < 64" for n
  proof -
    have "unat (of_nat (0x80 + n) :: byte) = 0x80 + n" using that by (intro unat_of_small) simp
    with that show ?thesis by (simp only: byte_patterns) linarith
  qed
  have ts: "is_cont (of_nat (0x80 + c mod 64))" "is_cont (of_nat (0x80 + c div 64 mod 64))"
      "is_cont (of_nat (0x80 + c div 4096 mod 64))"
    by (rule t, simp)+
  consider "c < 0x80" | "0x80 \<le> c" "c < 0x800" | "0x800 \<le> c" "c < 0x10000" | "0x10000 \<le> c" by linarith
  then show ?thesis
  proof cases
    case 1
    then show ?thesis using unat_of_small [of c] assms by (auto simp: utf8_encode.simps code_point_def)
  next
    case 2
    then have "unat (of_nat (0xc0 + c div 64) :: byte) = 0xc0 + c div 64" by (intro unat_of_small) linarith
    moreover have "0xc0 + c div 64 < 0xe0" using 2 by linarith
    ultimately show ?thesis using 2 ts by (simp add: utf8_encode.simps del: of_nat_add)
  next
    case 3
    then have "unat (of_nat (0xe0 + c div 4096) :: byte) = 0xe0 + c div 4096" by (intro unat_of_small) linarith
    moreover have "0xe0 + c div 4096 < 0xf0" using 3 by linarith
    ultimately show ?thesis using 3 ts by (simp add: utf8_encode.simps del: of_nat_add)
  next
    case 4
    then have "unat (of_nat (0xf0 + c div 262144) :: byte) = 0xf0 + c div 262144"
      using c by (intro unat_of_small) linarith
    moreover have "0xf0 + c div 262144 < 0xf8" using c by linarith
    ultimately show ?thesis using 4 ts by (simp add: utf8_encode.simps del: of_nat_add)
  qed
qed

lemma utf8_lead: "code_point c \<Longrightarrow> \<exists>l ts. utf8_encode c = l # ts \<and> \<not> is_cont l \<and> (\<forall>t\<in>set ts. is_cont t)"
  using utf8_encode_shape [of c] by (auto simp: byte_patterns)

lemma next_wchar_cut:
  assumes c: "code_point c" and k: "0 < k" "k < length (utf8_encode c)"
  shows "next_wchar (take k (utf8_encode c) @ 0 # r) None = Some (WEOF, 0)"
proof -
  have nul: "\<not> is_cont 0" by (simp add: is_cont_def)
  obtain l ts where enc: "utf8_encode c = l # ts" and ts: "\<forall>t\<in>set ts. is_cont t"
      and l: "unat l \<in> {0xc0..<0xe0} \<and> length ts = 1 \<or> unat l \<in> {0xe0..<0xf0} \<and> length ts = 2 \<or>
       unat l \<in> {0xf0..<0xf8} \<and> length ts = 3"
    using utf8_encode_shape [OF c] k by auto
  obtain j where j: "k = Suc j" "j < length ts" using k enc by (cases k) auto
  have l0: "l \<noteq> 0" "\<not> l < 0x80" using l by (auto simp: word_less_nat_alt)
  note run = next_wchar_def rd_def cont_at_def and_then_def byte_patterns(2-4)
  from l show ?thesis
  proof (elim disjE conjE)
    assume "unat l \<in> {0xc0..<0xe0}" "length ts = 1"
    then show ?thesis using enc j l0 nul by (simp add: run)
  next
    assume "unat l \<in> {0xe0..<0xf0}" "length ts = 2"
    moreover then obtain t u where "ts = [t, u]" by (auto simp: length_Suc_conv eval_nat_numeral)
    moreover have "j = 0 \<or> j = 1" using j \<open>length ts = 2\<close> by linarith
    ultimately show ?thesis using enc j(1) l0 nul ts by (auto simp: run)
  next
    assume "unat l \<in> {0xf0..<0xf8}" "length ts = 3"
    moreover then obtain t u v where "ts = [t, u, v]" by (auto simp: length_Suc_conv eval_nat_numeral)
    moreover have "j = 0 \<or> j = 1 \<or> j = 2" using j \<open>length ts = 3\<close> by linarith
    ultimately show ?thesis using enc j(1) l0 nul ts by (auto simp: run)
  qed
qed

lemma check_tail_scan:
  "q \<le> p \<Longrightarrow> p < length b \<Longrightarrow> \<not> is_cont (b ! q) \<Longrightarrow> (\<And>i. q < i \<Longrightarrow> i \<le> p \<Longrightarrow> is_cont (b ! i)) \<Longrightarrow>
   check_tail_loop b e (int p) = check_tail_loop b e (int q)"
proof (induction p)
  case (Suc p)
  show ?case
  proof (cases "q = Suc p")
    case False
    then have "check_tail_loop b e (int (Suc p)) = check_tail_loop b e (int p)"
      using Suc.prems by (simp add: check_tail_loop.simps [of b e "1 + int p"] rdi_def rd_def nat_add_distrib)
    then show ?thesis using Suc False by simp
  qed simp
qed simp

lemma check_tail_string:
  assumes "xs = pre @ l # ts" "\<not> is_cont l" "\<forall>t\<in>set ts. is_cont t"
    and "next_wchar (l # ts @ 0 # rest) None = Some (wc, n)"
  shows "check_tail_loop (xs @ 0 # rest) (int (length xs)) (int (length xs) - 1) =
    Some (if wc = WEOF then (pre @ 0 # ts @ 0 # rest, Suc (length ts)) else (xs @ 0 # rest, 0))"
proof -
  let ?b = "xs @ 0 # rest" and ?q = "length pre"
  have p: "int (length xs) - 1 = int (?q + length ts)" using assms(1) by simp
  have cont: "is_cont (?b ! i)" if range: "?q < i" "i \<le> ?q + length ts" for i
  proof -
    obtain d where d: "i = Suc (?q + d)" using less_imp_Suc_add [OF range(1)] by blast
    then have "d < length ts" using range(2) by simp
    moreover have "?b ! i = ts ! d" using assms(1) d \<open>d < length ts\<close> by (simp add: nth_append)
    ultimately show ?thesis using assms(3) by simp
  qed
  have "check_tail_loop ?b (int (length xs)) (int (?q + length ts)) = check_tail_loop ?b (int (length xs)) (int ?q)"
    by (rule check_tail_scan) (use assms(1,2) cont in \<open>auto simp: nth_append\<close>)
  also have "\<dots> = Some (if wc = WEOF then (pre @ 0 # ts @ 0 # rest, Suc (length ts)) else (?b, 0))"
  proof -
    have "rdi ?b (int ?q) = Some l" "wri ?b (int ?q) 0 = Some (pre @ 0 # ts @ 0 # rest)" "drop ?q ?b = l # ts @ 0 # rest"
      "nat (int (length xs) - int ?q) = Suc (length ts)"
      using assms(1) by (simp_all add: rdi_of_nat wri_of_nat rd_def wr_def list_update_append)
    then show ?thesis
      using assms(2,4) by (simp add: check_tail_loop.simps [of ?b "int (length xs)" "int ?q"])
  qed
  finally show ?thesis by (simp only: p)
qed

text \<open>The characters of a string that fit into \<open>n\<close> bytes.\<close>

fun utf8_fit :: "nat \<Rightarrow> nat list \<Rightarrow> nat list" where
  "utf8_fit n [] = []"
| "utf8_fit n (c # cs) =
     (if length (utf8_encode c) \<le> n then c # utf8_fit (n - length (utf8_encode c)) cs else [])"

lemma utf8_fit_all: "length (utf8 cs) \<le> n \<Longrightarrow> utf8_fit n cs = cs"
  by (induction n cs rule: utf8_fit.induct) auto

lemma utf8_fit_subset: "set (utf8_fit n cs) \<subseteq> set cs"
  by (induction n cs rule: utf8_fit.induct) auto

lemma utf8_fit_split:
  "n < length (utf8 cs) \<Longrightarrow> \<exists>c k. c \<in> set cs \<and> k < length (utf8_encode c) \<and>
     take n (utf8 cs) = utf8 (utf8_fit n cs) @ take k (utf8_encode c)"
proof (induction n cs rule: utf8_fit.induct)
  case (2 n c cs)
  show ?case
  proof (cases "length (utf8_encode c) \<le> n")
    case True
    then obtain d k where "d \<in> set cs" "k < length (utf8_encode d)"
        "take (n - length (utf8_encode c)) (utf8 cs) =
           utf8 (utf8_fit (n - length (utf8_encode c)) cs) @ take k (utf8_encode d)"
      using "2.IH" [OF True] "2.prems" True by (auto simp: less_diff_conv2)
    with True show ?thesis by (intro exI [of _ d] exI [of _ k]) simp
  next
    case False
    then show ?thesis by (intro exI [of _ c] exI [of _ n]) simp
  qed
qed simp

lemma utf8_no_nul: "\<forall>c\<in>set cs. code_point c \<Longrightarrow> 0 \<notin> set (utf8 cs)"
proof -
  have "0 \<notin> set (utf8_encode c)" if "code_point c" for c
  proof -
    have "\<not> is_cont 0" by (simp add: is_cont_def)
    then show ?thesis using utf8_encode_shape [OF that] by auto
  qed
  then show "\<forall>c\<in>set cs. code_point c \<Longrightarrow> ?thesis" by auto
qed

lemma check_tail_utf8:
  assumes "\<forall>c\<in>set cs. code_point c" and "n < length (utf8 cs)"
  shows "\<exists>b cut. check_tail_loop (take n (utf8 cs) @ 0 # rest) (int n) (int n - 1) = Some (b, cut) \<and>
    terminated b \<and> cstr b = utf8 (utf8_fit n cs)"
proof -
  let ?f = "utf8 (utf8_fit n cs)" and ?xs = "take n (utf8 cs)"
  obtain c k where c: "c \<in> set cs" "k < length (utf8_encode c)" and xs: "?xs = ?f @ take k (utf8_encode c)"
    using utf8_fit_split [OF assms(2)] by blast
  have len: "length ?xs = n" using assms(2) by simp
  have nul: "0 \<notin> set ?f" using utf8_no_nul [of "utf8_fit n cs"] utf8_fit_subset [of n cs] assms(1) by blast
  show ?thesis
  proof (cases "k = 0")
    case False
    obtain l ts where enc: "utf8_encode c = l # ts" "\<not> is_cont l" "\<forall>t\<in>set ts. is_cont t"
      using utf8_lead c(1) assms(1) by blast
    have part: "take k (utf8_encode c) = l # take (k - 1) ts" using enc(1) False by (cases k) auto
    have "next_wchar (l # take (k - 1) ts @ 0 # rest) None = Some (WEOF, 0)"
      using next_wchar_cut [of c k rest] False c assms(1) part by simp
    moreover have "\<forall>t\<in>set (take (k - 1) ts). is_cont t" using enc(3) by (blast dest: in_set_takeD)
    moreover have "?xs = ?f @ l # take (k - 1) ts" using xs part by simp
    ultimately have "check_tail_loop (?xs @ 0 # rest) (int n) (int n - 1) =
        Some (?f @ 0 # take (k - 1) ts @ 0 # rest, Suc (length (take (k - 1) ts)))"
      using check_tail_string [of ?xs ?f l "take (k - 1) ts" rest WEOF 0, unfolded len] enc(2)
      by (simp only: refl if_True not_False_eq_True)
    then show ?thesis using nul by simp
  next
    case True
    then have xs: "?xs = ?f" using xs by simp
    show ?thesis
    proof (cases "utf8_fit n cs" rule: rev_cases)
      case Nil
      then have "?xs = []" using xs by (simp only: list.map concat.simps)
      then have "n = 0" using len by (metis list.size(3))
      then show ?thesis using Nil by (simp add: check_tail_loop.simps)
    next
      case (snoc ds d)
      have d: "code_point d" using utf8_fit_subset [of n cs] snoc assms(1) by auto
      obtain l ts where enc: "utf8_encode d = l # ts" "\<not> is_cont l" "\<forall>t\<in>set ts. is_cont t"
        using utf8_lead [OF d] by blast
      have "next_wchar (l # ts @ 0 # rest) None = Some (int d, length (utf8_encode d))"
        using next_wchar_encode [OF d, of "0 # rest"] enc(1) by simp
      moreover have "?xs = utf8 ds @ l # ts" using xs snoc enc(1) by simp
      moreover have "int d \<noteq> WEOF" by (simp add: WEOF_def)
      ultimately have "check_tail_loop (?xs @ 0 # rest) (int n) (int n - 1) = Some (?xs @ 0 # rest, 0)"
        using check_tail_string [of ?xs "utf8 ds" l ts rest, unfolded len, OF _ enc(2,3)] by (simp only: if_False)
      then show ?thesis using nul xs by simp
    qed
  qed
qed

text \<open>Claim C19: copying a UTF-8 string into a buffer of \<open>siz\<close> bytes keeps as many whole characters as fit with
  the terminator; a character cut in the middle by the bound is removed.\<close>

theorem string_cp_whole_characters:
  assumes "\<forall>c\<in>set cs. code_point c" and "0 < siz" and "siz \<le> length dst"
  shows "\<exists>dst' n. string_cp dst (utf8 cs @ 0 # rest) siz = Some (dst', n) \<and> terminated dst' \<and>
    cstr dst' = utf8 (utf8_fit (siz - 1) cs)"
proof -
  let ?x = "utf8 cs"
  have nul: "0 \<notin> set ?x" by (rule utf8_no_nul [OF assms(1)])
  have cp: "strlcpy dst (?x @ 0 # rest) siz =
      Some (take (siz - 1) ?x @ 0 # drop (Suc (length (take (siz - 1) ?x))) dst, length ?x)"
    using strlcpy_value [of "?x @ 0 # rest" siz dst] nul assms(2,3) by (simp add: Let_def)
  show ?thesis
  proof (cases "siz \<le> length ?x")
    case True
    then have n: "siz - 1 < length ?x" and i: "int siz - 1 = int (siz - 1)" using assms(2) by auto
    from check_tail_utf8 [OF assms(1) n, of "drop siz dst"] obtain b cut where
      b: "check_tail_loop (take (siz - 1) ?x @ 0 # drop siz dst) (int (siz - 1)) (int (siz - 1) - 1) = Some (b, cut)"
        "terminated b" "cstr b = utf8 (utf8_fit (siz - 1) cs)" by blast
    have "strlcpy dst (?x @ 0 # rest) siz = Some (take (siz - 1) ?x @ 0 # drop siz dst, length ?x)"
      using cp n assms(2) by (simp add: min_absorb2)
    then have "string_cp dst (?x @ 0 # rest) siz = Some (b, of_nat (length ?x) - of_nat cut)"
      unfolding string_cp_def string_check_tail_def i using True b(1) by (simp del: of_nat_diff)
    with b(2,3) show ?thesis by blast
  next
    case False
    then show ?thesis using cp nul by (simp add: string_cp_def utf8_fit_all)
  qed
qed

theorem string_cp_whole_characters_witness:
  "\<exists>dst' n. string_cp (replicate 5 9) (utf8 [0x41, 0x6211, 0x6211] @ [0]) 5 = Some (dst', n) \<and>
    terminated dst' \<and> cstr dst' = utf8 [0x41, 0x6211]"
  using string_cp_whole_characters [of "[0x41, 0x6211, 0x6211]" 5 "replicate 5 9" "[]"]
  by (simp add: code_point_def utf8_encode.simps)

section \<open>Removing unprintable characters\<close>

lemma non_printable_keep:
  "b = pre @ utf8 cs @ 0 # rest \<Longrightarrow> \<forall>c\<in>set cs. code_point c \<and> 0 < wcw c \<Longrightarrow>
   non_printable_loop b (length pre) (length pre) = Some b"
proof (induction cs arbitrary: pre)
  case Nil
  then have "rd b (length pre) = Some 0" "wr b (length pre) 0 = Some b"
    by (simp_all add: rd_def wr_def list_update_append)
  then show ?case by (simp add: non_printable_loop.simps [of b "length pre"])
next
  case (Cons c cs)
  have c: "code_point c" "0 < wcw c" using Cons.prems(2) by auto
  obtain l ts where enc: "utf8_encode c = l # ts" using utf8_encode_length [of c] by (cases "utf8_encode c") auto
  have "l \<noteq> 0" using utf8_no_nul [of "[c]"] c enc by auto
  moreover have "rd b (length pre) = Some l" using Cons.prems(1) enc by (simp add: rd_def nth_append)
  moreover have "next_wchar (drop (length pre) b) None = Some (int c, length (utf8_encode c))"
    using Cons.prems(1) next_wchar_encode [OF c(1)] by simp
  moreover have "int c \<noteq> 0" "int c \<noteq> WEOF" using c by (auto simp: code_point_def WEOF_def)
  moreover have "non_printable_loop b (length (pre @ utf8_encode c)) (length (pre @ utf8_encode c)) = Some b"
    using Cons.prems by (intro Cons.IH) auto
  ultimately show ?case
    using c(2) enc by (simp add: non_printable_loop.simps [of b "length pre"] fb_wcwidth_wcw)
qed

text \<open>A UTF-8 string of printable characters is left as it is.\<close>

theorem remove_non_printable_keeps:
  assumes "\<forall>c\<in>set cs. code_point c \<and> 0 < wcw c"
  shows "string_remove_non_printable (Some (utf8 cs @ 0 # rest)) = Some (Some (utf8 cs @ 0 # rest))"
  using non_printable_keep [of "utf8 cs @ 0 # rest" "[]" cs rest] assms
  by (simp add: string_remove_non_printable_def)

theorem remove_non_printable_keeps_witness:
  "string_remove_non_printable (Some (utf8 [0x41, 0x7a] @ [0])) = Some (Some [0x41, 0x7a, 0])"
proof -
  have w: "wcw 0x41 = 1" "wcw 0x7a = 1"
    by (simp_all add: wcw_def fb_wcwidth_value in_intervals_def combining_def wide_def)
  show ?thesis using remove_non_printable_keeps [of "[0x41, 0x7a]" "[]"] w
    by (simp add: code_point_def utf8_encode.simps)
qed

text \<open>A control character in front of a printable character of two or more bytes makes the routine call
  \<open>memcpy\<close> on overlapping regions, which is undefined.\<close>

theorem remove_non_printable_overlap:
  assumes "code_point d" and "0 < wcw d" and True: "2 \<le> length (utf8_encode d)"
  shows "string_remove_non_printable (Some (7 # utf8_encode d @ 0 # rest)) = None"
proof -
  let ?b = "7 # utf8_encode d @ 0 # rest"
  obtain l ts where enc: "utf8_encode d = l # ts" using True by (cases "utf8_encode d") auto
  have "l \<noteq> 0" using utf8_no_nul [of "[d]"] assms enc by auto
  moreover have "next_wchar (utf8_encode d @ 0 # rest) None = Some (int d, length (utf8_encode d))"
    by (rule next_wchar_encode [OF assms(1)])
  moreover have "int d \<noteq> 0" "int d \<noteq> WEOF" using assms by (auto simp: code_point_def WEOF_def)
  moreover have "mem_copy ?b 0 1 (length (utf8_encode d)) = None" using True by (simp add: mem_copy_def)
  ultimately have tail: "non_printable_loop ?b 1 0 = None"
    using assms(2) enc by (simp add: non_printable_loop.simps [of _ "Suc 0"] rd_def fb_wcwidth_wcw)
  have "next_wchar ?b None = Some (7, 1)" by (simp add: next_wchar_def rd_def)
  moreover have "fb_wcwidth 7 = Some (- 1)" by (simp add: fb_wcwidth_def)
  ultimately have "non_printable_loop ?b 0 0 = non_printable_loop ?b 1 0"
    by (simp add: non_printable_loop.simps [of _ 0 0] rd_def WEOF_def)
  with tail True show ?thesis by (simp add: string_remove_non_printable_def)
qed

theorem remove_non_printable_overlap_witness:
  "string_remove_non_printable (Some (7 # utf8_encode 0x6211 @ [0])) = None"
proof -
  have w: "wcw 0x6211 = 2" by (simp add: wcw_def fb_wcwidth_value in_intervals_def combining_def wide_def)
  show ?thesis using remove_non_printable_overlap [of "0x6211" "[]"] w
    by (simp add: code_point_def utf8_encode.simps)
qed

end
