(* ===== verification/FB_ScreenPrint.thy ===== *)
theory FB_ScreenPrint
  imports FB_Screen FB_Utf8
begin

text \<open>
  Formatted output to the screen buffer, the second half of \<open>src/screen.c\<close>: display widths, padding, the format
  interpreter behind \<open>screen_printf\<close> and \<open>prints\<close>, and the lines that are saved below messages.
\<close>

section \<open>Display width\<close>

text \<open>The width is a \<open>size_t\<close>: a character of width -1 wraps it.\<close>

function display_width_loop :: "buf \<Rightarrow> bool \<Rightarrow> bool \<Rightarrow> u64 \<Rightarrow> u64 option" where
  "display_width_loop ptr is_utf8 ansi width =
     (case ptr of
        [] \<Rightarrow> None
      | c # rest \<Rightarrow>
          if c = 0 then Some width
          else if ansi then display_width_loop rest is_utf8 (\<not> isalpha (schar c)) width
          else if c = 27 then display_width_loop rest is_utf8 True width
          else if is_utf8 then
            (case next_wchar ptr None of
               None \<Rightarrow> None
             | Some (wc, n) \<Rightarrow>
                 if wc = WEOF \<or> n = 0 then Some width
                 else (case fb_wcwidth wc of
                     None \<Rightarrow> None
                   | Some w \<Rightarrow> display_width_loop (drop n ptr) is_utf8 ansi (width + word_of_int w)))
          else display_width_loop rest is_utf8 ansi (width + 1))"
  by pat_completeness auto
termination
  by (relation "measure (\<lambda>(ptr, is_utf8, ansi, width). length ptr)") auto

definition screen_display_width :: "buf \<Rightarrow> bool \<Rightarrow> u64 option" where
  "screen_display_width ptr is_utf8 = display_width_loop ptr is_utf8 False 0"

section \<open>Formatted output\<close>

definition nullstr :: buf where
  "nullstr = lit ''(null)'' @ [0]"

text \<open>The padding is passed on as an \<open>int\<close>.\<close>

definition print_string :: "charsets \<Rightarrow> buf option \<Rightarrow> u64 \<Rightarrow> bool \<Rightarrow> bool \<Rightarrow> tui \<Rightarrow> tui option" where
  "print_string cs ptr width is_utf8 left_adjust st = do {
     let ptr = (case ptr of None \<Rightarrow> nullstr | Some p \<Rightarrow> p);
     padding \<leftarrow> (if width \<noteq> 0 then do {
         w \<leftarrow> screen_display_width ptr is_utf8;
         Some (if w < width then width - w else 0)
       } else Some 0);
     let pad = nat (to_int (uint padding));
     st \<leftarrow> (if padding \<noteq> 0 \<and> \<not> left_adjust then tui_repeat_char cs 32 pad st else Some st);
     st \<leftarrow> (if is_utf8 then screen_puts cs ptr 0 st
           else do { (_, r) \<leftarrow> convert (g2u cs) (Some ptr) None (screen_put_gbk_helper cs) (Some st); r });
     (if padding \<noteq> 0 \<and> left_adjust then tui_repeat_char cs 32 pad st else Some st)
   }"

text \<open>The piece of the format between two conversions.\<close>

definition put_string :: "charsets \<Rightarrow> buf \<Rightarrow> bool \<Rightarrow> tui \<Rightarrow> tui option" where
  "put_string cs piece is_utf8 st =
     (if piece = [] then Some st
      else if is_utf8 then screen_puts cs piece (length piece) st
      else do { (_, r) \<leftarrow> convert (g2u cs) (Some piece) (Some (length piece)) (screen_put_gbk_helper cs) (Some st); r })"

datatype va_arg = VStr "buf option" | VInt int | VLong int

fun read_width :: "buf \<Rightarrow> u64 \<Rightarrow> u64 \<times> buf" where
  "read_width [] width = (width, [])"
| "read_width (c # fmt) width =
     (if isdigit (schar c) then read_width fmt (width * 10 + word_of_int (schar c - 48)) else (width, c # fmt))"

lemma read_width_length: "read_width fmt w = (w', fmt') \<Longrightarrow> length fmt' \<le> length fmt"
  by (induction fmt w arbitrary: w' fmt' rule: read_width.induct) (auto split: if_splits intro: le_SucI)

text \<open>An optional flag of a conversion: left adjustment or a long argument, and the rest of the format.\<close>

definition read_flag :: "buf \<Rightarrow> bool \<times> bool \<times> buf" where
  "read_flag fmt =
     (case fmt of
        c # rest \<Rightarrow> if c = 45 then (True, False, rest) else if c = 108 then (False, True, rest) else (False, False, fmt)
      | [] \<Rightarrow> (False, False, fmt))"

lemma read_flag_length: "read_flag fmt = (a, b, fmt') \<Longrightarrow> length fmt' \<le> length fmt"
  by (auto simp: read_flag_def split: list.splits if_splits)

definition print_arg :: "charsets \<Rightarrow> byte \<Rightarrow> u64 \<Rightarrow> bool \<Rightarrow> bool \<Rightarrow> bool \<Rightarrow> va_arg list \<Rightarrow> tui \<Rightarrow> (va_arg list \<times> tui) option" where
  "print_arg cs c width is_utf8 left_adjust long args st =
     (if c = 115 then
        (case args of
           VStr p # args \<Rightarrow> map_option (Pair args) (print_string cs p width is_utf8 left_adjust st)
         | _ \<Rightarrow> None)
      else if c = 100 then
        (case args of
           VInt n # args \<Rightarrow>
             if long then None else map_option (Pair args) (print_string cs (Some (decimal n @ [0])) width True left_adjust st)
         | VLong n # args \<Rightarrow>
             if long then map_option (Pair args) (print_string cs (Some (decimal n @ [0])) width True left_adjust st) else None
         | _ \<Rightarrow> None)
      else if c = 99 then
        (case args of VInt i # args \<Rightarrow> map_option (Pair args) (screen_putc cs i st) | _ \<Rightarrow> None)
      else map_option (Pair args) (if is_utf8 then screen_putc cs (schar c) st else screen_put_gbk cs (schar c) st))"

text \<open>
  The format interpreter: \<open>piece\<close> holds the plain text since the last conversion.  Reading an argument of another
  type than the conversion asks for is undefined.
\<close>

function screen_vprintf :: "charsets \<Rightarrow> buf \<Rightarrow> bool \<Rightarrow> va_arg list \<Rightarrow> buf \<Rightarrow> tui \<Rightarrow> tui option" where
  "screen_vprintf cs piece is_utf8 args fmt st =
     (case fmt of
        [] \<Rightarrow> None
      | c # rest \<Rightarrow>
          if c = 0 then put_string cs piece is_utf8 st
          else if c = 37 then
            (case put_string cs piece is_utf8 st of
               None \<Rightarrow> None
             | Some st \<Rightarrow>
                 let (left_adjust, long, fmt1) = read_flag rest; (width, fmt2) = read_width fmt1 0 in
                 (case fmt2 of
                    [] \<Rightarrow> None
                  | d # fmt3 \<Rightarrow>
                      if d = 0 then Some st
                      else (case print_arg cs d width is_utf8 left_adjust long args st of
                          None \<Rightarrow> None
                        | Some (args, st) \<Rightarrow> screen_vprintf cs [] is_utf8 args fmt3 st)))
          else screen_vprintf cs (piece @ [c]) is_utf8 args rest st)"
  by pat_completeness auto
termination
  by (relation "measure (\<lambda>(cs, piece, is_utf8, args, fmt, st). length fmt)")
    (auto dest!: read_flag_length read_width_length simp: eq_commute [of "(_, _)"])

definition screen_printf :: "charsets \<Rightarrow> buf \<Rightarrow> va_arg list \<Rightarrow> tui \<Rightarrow> tui option" where
  "screen_printf cs fmt args st = screen_vprintf cs [] True args fmt st"

definition prints :: "charsets \<Rightarrow> buf \<Rightarrow> va_arg list \<Rightarrow> tui \<Rightarrow> tui option" where
  "prints cs fmt args st = screen_vprintf cs [] False args fmt st"

section \<open>Saved lines\<close>

text \<open>Both routines take the line by its place in the buffer, whatever the screen has been scrolled by.\<close>

definition screen_save_line :: "charsets \<Rightarrow> int \<Rightarrow> bool \<Rightarrow> tui \<Rightarrow> tui option" where
  "screen_save_line cs line save st =
     (let line = (if line < 0 then line + sc_lines (scr st) else line) in
      if save then do {
        ls \<leftarrow> sc_buf (scr st);
        sl \<leftarrow> rdi ls line;
        (saved, _) \<leftarrow> strlcpy (saved_line st) (sl_data sl) SCREEN_LINE_LEN;
        Some (st\<lparr>saved_line := saved\<rparr>)
      }
      else do {
        let (x, y) = screen_coordinates st;
        st \<leftarrow> screen_move_clear line st;
        st \<leftarrow> prints cs (lit ''%s'' @ [0]) [VStr (Some (saved_line st))] st;
        screen_flush cs (move x y st)
      })"

end
