(* ===== verification/FB_Input.thy ===== *)
theory FB_Input
  imports FB_Screen
begin

text \<open>
  Keys, the second half of \<open>src/terminal.c\<close>: reading bytes with the screen flushed while the session waits, the
  telnet option sequences, the escape sequences of cursor and function keys, and line ends.  \<open>None\<close> stands for a
  session that gets no further key: it waits for ever or ends.  \<open>alloc\<close> answers the request for memory when the
  client reports a larger window.
\<close>

section \<open>Bytes\<close>

text \<open>
  Waiting: every time \<open>select\<close> comes back without input the screen is flushed; with a scheduled exit, or when the
  read returns nothing, the session ends.  A read takes at most the size of the buffer and leaves the rest.
\<close>

fun wait_input :: "charsets \<Rightarrow> input_event list \<Rightarrow> tui \<Rightarrow> (buf \<times> input_event list \<times> tui) option" where
  "wait_input cs [] st = None"
| "wait_input cs (Idle # es) st =
     (if schedule_exit (tty st) then None else do { st \<leftarrow> screen_flush cs st; wait_input cs es st })"
| "wait_input cs (Arrive bs # es) st =
     (if schedule_exit (tty st) \<or> bs = [] then None
      else Some (take INPUT_BUFFER_SIZE bs,
        if length bs > INPUT_BUFFER_SIZE then Arrive (drop INPUT_BUFFER_SIZE bs) # es else es, st))"

definition get_raw_ch :: "charsets \<Rightarrow> tui \<Rightarrow> (int \<times> tui) option" where
  "get_raw_ch cs st = do {
     st \<leftarrow> (let b = input_buffer (tty st) in
       if in_cur b \<ge> in_size b then do {
         (bs, es, st) \<leftarrow> wait_input cs (events (tty st)) st;
         ptr \<leftarrow> mem_write (in_ptr (input_buffer (tty st))) 0 bs;
         Some (st\<lparr>tty := (tty st)\<lparr>input_buffer := \<lparr>in_ptr = ptr, in_cur = 0, in_size = length bs\<rparr>, events := es\<rparr>\<rparr>)
       } else Some st);
     let b = input_buffer (tty st);
     c \<leftarrow> rd (in_ptr b) (in_cur b);
     Some (uint c, st\<lparr>tty := (tty st)\<lparr>input_buffer := b\<lparr>in_cur := Suc (in_cur b)\<rparr>\<rparr>\<rparr>)
   }"

text \<open>The input that is still to come: every byte read makes it smaller.\<close>

fun event_size :: "input_event \<Rightarrow> nat" where
  "event_size Idle = 0"
| "event_size (Arrive bs) = length bs"

definition input_left :: "terminal \<Rightarrow> nat" where
  "input_left t = (in_size (input_buffer t) - in_cur (input_buffer t)) + sum_list (map event_size (events t))"

section \<open>Flushing does not touch the input\<close>

lemma terminal_flush_input: "terminal_flush t = Some (r, t') \<Longrightarrow> same_input t t'"
  by (auto simp: terminal_flush_def Let_def same_input_def terminal_write_def split: Option.bind_splits if_splits)

lemma terminal_putchar_input: "terminal_putchar c t = Some t' \<Longrightarrow> same_input t t'"
  by (auto simp: terminal_putchar_def put_raw_ch_def Let_def same_input_def
      split: Option.bind_splits if_splits dest!: terminal_flush_input)

lemma terminal_write_cached_input: "terminal_write_cached bs t = Some t' \<Longrightarrow> same_input t t'"
proof (induction bs t arbitrary: t' rule: terminal_write_cached.induct)
  case (1 str t)
  show ?case
  proof (cases "str = []")
    case True
    then show ?thesis using "1.prems" by (simp add: terminal_write_cached.simps)
  next
    case False
    then show ?thesis
      using "1.prems" "1.IH" [OF False refl refl]
      by (fastforce simp: terminal_write_cached.simps [of str t] Let_def same_input_def
          split: Option.bind_splits if_splits dest!: terminal_flush_input)
  qed
qed


definition keeps :: "tui \<Rightarrow> tui option \<Rightarrow> bool" where
  "keeps st r \<longleftrightarrow> (\<forall>st'. r = Some st' \<longrightarrow> same_input (tty st) (tty st'))"

lemma keeps_None [simp]: "keeps st None"
  by (simp add: keeps_def)

lemma keeps_Some [simp]: "keeps st (Some st') \<longleftrightarrow> same_input (tty st) (tty st')"
  by (simp add: keeps_def)

lemma keeps_bind:
  assumes "keeps st r" and "\<And>st1. r = Some st1 \<Longrightarrow> keeps st1 (f st1)"
  shows "keeps st (r \<bind> f)"
proof (cases r)
  case (Some st1)
  then show ?thesis
    using assms(1) assms(2) [OF Some] by (auto simp: keeps_def intro: same_input_trans)
qed simp

lemma keeps_weaken: "same_input (tty st) (tty st1) \<Longrightarrow> keeps st1 r \<Longrightarrow> keeps st r"
  by (auto simp: keeps_def intro: same_input_trans)

lemma keeps_pure: "(\<And>x. r = Some x \<Longrightarrow> keeps st (f x)) \<Longrightarrow> keeps st (r \<bind> f)"
  by (cases r) auto

lemma keeps_put_ch: "keeps st (put_ch c st)"
  by (auto simp: put_ch_def on_term_def keeps_def dest: terminal_putchar_input)

lemma keeps_ansi_cmd: "keeps st (ansi_cmd c st)"
  by (auto simp: ansi_cmd_def on_term_def keeps_def dest: terminal_write_cached_input)

lemma keeps_flush: "keeps st (on_term (\<lambda>t. map_option snd (terminal_flush t)) st)"
  by (auto simp: on_term_def keeps_def dest: terminal_flush_input)

lemma keeps_put_chars: "keeps st (put_chars cs st)"
  by (induction cs arbitrary: st) (auto intro: keeps_bind keeps_put_ch)

lemma keeps_set_line: "keeps st (set_line_at i sl st)"
  by (auto simp: set_line_at_def keeps_def split: option.splits)

lemma keeps_move_terminal_cursor: "keeps st (move_terminal_cursor col line st)"
proof -
  have step: "keeps st ((if col = 0 \<and> line = sc_tc_line sc + 1 then do {
                 st \<leftarrow> put_ch 10 st;
                 (if sc_tc_col sc \<noteq> 0 then put_ch 13 st else Some st)
               }
               else if col = 0 \<and> line = sc_tc_line sc then (if sc_tc_col sc \<noteq> 0 then put_ch 13 st else Some st)
               else if col = sc_tc_col sc - 1 \<and> line = sc_tc_line sc then put_ch 8 st
               else if col \<noteq> sc_tc_col sc \<or> line \<noteq> sc_tc_line sc then move_terminal_cursor_to col line st
               else Some st))" for sc :: screen_t
    by (auto simp: move_terminal_cursor_to_def intro!: keeps_bind keeps_put_ch keeps_put_chars)
  show ?thesis
  proof (cases "line \<ge> sc_lines (scr st) \<or> col \<ge> sc_columns (scr st)")
    case True
    then show ?thesis by (simp add: move_terminal_cursor_def)
  next
    case False
    show ?thesis
      unfolding move_terminal_cursor_def Let_def if_not_P [OF False] by (rule keeps_bind [OF step]) simp
  qed
qed

lemma keeps_write_raw: "keeps st (write_raw cs st)"
  by (induction cs arbitrary: st) (auto intro!: keeps_bind keeps_put_ch)

lemma keeps_write_helper: "keeps st r \<Longrightarrow> keeps st (snd (write_helper b r))"
  unfolding write_helper_def by (auto intro!: keeps_bind keeps_write_raw keeps_ansi_cmd)

lemma keeps_convert:
  assumes "\<And>b r. keeps st r \<Longrightarrow> keeps st (snd (h b r))"
  shows "keeps st (do { (_, r) \<leftarrow> convert nxt from len h (Some st); r })"
proof (rule keeps_pure)
  fix x assume "convert nxt from len h (Some st) = Some x"
  then obtain f where f: "convert_loop nxt h (length f) (INTERNAL_SIZE - 1) f 0 (Some st) = Some x"
    by (auto simp: convert_def split: Option.bind_splits)
  have "keeps st (snd x)"
    by (rule convert_loop_inv [where Q = "keeps st", OF f]) (auto intro: assms)
  then show "keeps st (case x of (_, r) \<Rightarrow> r)" by (cases x) simp
qed

lemma keeps_screen_write_cached: "keeps st (screen_write_cached cs data utf8 st)"
  unfolding screen_write_cached_def by (auto intro!: keeps_write_helper keeps_convert)

lemmas keeps_rules = keeps_bind keeps_pure keeps_put_ch keeps_ansi_cmd keeps_flush keeps_set_line
  keeps_move_terminal_cursor keeps_screen_write_cached


lemma keeps_scr [simp]: "keeps (st\<lparr>scr := sc\<rparr>) r \<longleftrightarrow> keeps st r"
  by (simp add: keeps_def)

lemma keeps_if: "keeps st a \<Longrightarrow> keeps st b \<Longrightarrow> keeps st (if c then a else b)"
  by simp

lemma keeps_redraw_loop: "keeps st (redraw_loop cs is st)"
proof (induction "is" arbitrary: st)
  case (Cons i "is")
  show ?case
    unfolding redraw_loop.simps Let_def
  proof (rule keeps_pure, goal_cases)
    case (1 sl)
    have rest: "keeps st1 (set_line_at j sl' (st1\<lparr>scr := sc\<rparr>) \<bind> redraw_loop cs is)" for st1 j sl' sc
      using keeps_bind [OF keeps_set_line [of "st1\<lparr>scr := sc\<rparr>" j sl'], of "redraw_loop cs is"] Cons.IH by simp
    show ?case
      by (rule keeps_if, rule Cons.IH, rule keeps_bind [OF keeps_move_terminal_cursor], rule keeps_pure,
          rule keeps_bind [OF keeps_screen_write_cached], rule rest)
  qed
qed simp

lemma keeps_screen_redraw: "keeps st (screen_redraw cs st)"
proof -
  have step: "keeps st (redraw_loop cs is (st\<lparr>scr := sc\<rparr>) \<bind> (\<lambda>st. move_terminal_cursor (sc_cur_col (scr st)) (sc_cur_ln (scr st)) st \<bind>
      (\<lambda>st. on_term (\<lambda>t. map_option snd (terminal_flush t)) (st\<lparr>scr := (scr st)\<lparr>sc_redraw := False, sc_scrollcnt := 0\<rparr>\<rparr>))))" for st "is" sc
  proof (rule keeps_bind)
    show "keeps st (redraw_loop cs is (st\<lparr>scr := sc\<rparr>))" using keeps_redraw_loop [of "st\<lparr>scr := sc\<rparr>" cs "is"] by simp
  next
    fix st1
    show "keeps st1 (move_terminal_cursor (sc_cur_col (scr st1)) (sc_cur_ln (scr st1)) st1 \<bind>
      (\<lambda>st. on_term (\<lambda>t. map_option snd (terminal_flush t)) (st\<lparr>scr := (scr st)\<lparr>sc_redraw := False, sc_scrollcnt := 0\<rparr>\<rparr>)))"
      by (rule keeps_bind [OF keeps_move_terminal_cursor]) (metis keeps_flush keeps_scr)
  qed
  show ?thesis
    unfolding screen_redraw_def Let_def
    by (auto intro!: keeps_bind [OF keeps_ansi_cmd] step)
qed

lemma keeps_scroll_up: "keeps st (scroll_up n st)"
proof (induction n arbitrary: st)
  case (Suc n)
  have "keeps st1 (scroll_up n (st1\<lparr>scr := sc\<rparr>))" for st1 sc using Suc.IH [of "st1\<lparr>scr := sc\<rparr>"] by simp
  then show ?case by (auto intro!: keeps_bind [OF keeps_ansi_cmd])
qed simp

lemma keeps_scroll_down: "keeps st (scroll_down n st)"
proof (induction n arbitrary: st)
  case (Suc n)
  have "keeps st1 (scroll_down n (st1\<lparr>scr := sc\<rparr>))" for st1 sc using Suc.IH [of "st1\<lparr>scr := sc\<rparr>"] by simp
  then show ?case by (auto intro!: keeps_bind [OF keeps_put_ch])
qed simp

lemma keeps_flush_loop: "keeps st (flush_loop cs is st)"
proof (induction "is" arbitrary: st)
  case (Cons i "is")
  have erase: "keeps st (move_terminal_cursor a b st \<bind> ansi_cmd ANSI_CMD_CE)" for st a b
    by (rule keeps_bind [OF keeps_move_terminal_cursor]) (rule keeps_ansi_cmd)
  have rest: "keeps st (set_line_at idx sl st \<bind> flush_loop cs is)" for st idx sl
    by (rule keeps_bind [OF keeps_set_line]) (rule Cons.IH)
  show ?case
    unfolding flush_loop.simps Let_def
    by (rule keeps_pure, rule keeps_bind, rule keeps_if, rule keeps_bind [OF keeps_set_line],
        rule keeps_bind [OF keeps_move_terminal_cursor], rule keeps_pure,
        rule keeps_bind [OF keeps_screen_write_cached], simp, simp, rule keeps_bind, rule keeps_if, rule erase, simp,
        rule rest)
qed simp

lemma keeps_screen_flush: "keeps st (screen_flush cs st)"
proof -
  have up: "keeps st (move_terminal_cursor 0 0 st \<bind> (\<lambda>st. scroll_up (n st) st))" for st n
    by (rule keeps_bind [OF keeps_move_terminal_cursor], rule keeps_scroll_up)
  have down: "keeps st (move_terminal_cursor 0 l st \<bind> (\<lambda>st. scroll_down (n st) st))" for st l n
    by (rule keeps_bind [OF keeps_move_terminal_cursor], rule keeps_scroll_down)
  show ?thesis
    unfolding screen_flush_def Let_def
    by (rule keeps_if, rule keeps_flush, rule keeps_pure, rule keeps_if, simp, rule keeps_if, rule keeps_screen_redraw,
        rule keeps_bind, rule keeps_if, rule up, simp, rule keeps_bind, rule keeps_if, rule down, simp,
        rule keeps_bind [OF keeps_flush_loop], rule keeps_bind [OF keeps_move_terminal_cursor], rule keeps_flush)
qed

lemma keeps_screen_init: "keeps st (screen_init alloc lns st)"
  by (auto simp: screen_init_def keeps_def Let_def split: option.splits Option.bind_splits)

lemma wait_input_left:
  assumes "wait_input cs es st = Some (bs, es', st')"
  shows "length bs + sum_list (map event_size es') \<le> sum_list (map event_size es) \<and> bs \<noteq> [] \<and> length bs \<le> INPUT_BUFFER_SIZE"
  using assms
proof (induction cs es st arbitrary: bs es' st' rule: wait_input.induct)
  case (2 cs es st)
  then show ?case by (auto split: if_splits Option.bind_splits)
qed (auto simp: INPUT_BUFFER_SIZE_def split: if_splits)

lemma get_raw_ch_less:
  assumes "get_raw_ch cs st = Some (c, st')"
  shows "input_left (tty st') < input_left (tty st)"
proof (cases "in_cur (input_buffer (tty st)) < in_size (input_buffer (tty st))")
  case True
  then show ?thesis
    using assms by (auto simp: get_raw_ch_def Let_def input_left_def split: Option.bind_splits)
next
  case False
  then obtain bs es st1 where w: "wait_input cs (events (tty st)) st = Some (bs, es, st1)"
    and st': "in_cur (input_buffer (tty st')) = 1" "in_size (input_buffer (tty st')) = length bs" "events (tty st') = es"
    using assms by (auto simp: get_raw_ch_def Let_def split: Option.bind_splits)
  have "0 < length bs" "length bs + sum_list (map event_size es) \<le> sum_list (map event_size (events (tty st)))"
    using wait_input_left [OF w] by auto
  then show ?thesis unfolding input_left_def st' by linarith
qed

lemma same_input_left: "same_input t t' \<Longrightarrow> input_left t' = input_left t"
  by (simp add: same_input_def input_left_def)

section \<open>Telnet options\<close>

text \<open>SB, SE and the option code of NAWS.\<close>

datatype option_status_e = OPTION_STATUS_IAC | OPTION_STATUS_COM | OPTION_STATUS_SUB | OPTION_STATUS_END

function iac_loop :: "charsets \<Rightarrow> line_alloc \<Rightarrow> option_status_e \<Rightarrow> buf \<Rightarrow> nat \<Rightarrow> bool \<Rightarrow> tui \<Rightarrow> tui option" where
  "iac_loop cs alloc status b n naws st =
     (if status = OPTION_STATUS_END then Some st
      else case get_raw_ch cs st of
        None \<Rightarrow> None
      | Some (ch, st) \<Rightarrow>
          (case status of
             OPTION_STATUS_IAC \<Rightarrow>
               iac_loop cs alloc (if ch = 250 then OPTION_STATUS_SUB else OPTION_STATUS_COM) b n naws st
           | OPTION_STATUS_COM \<Rightarrow> iac_loop cs alloc OPTION_STATUS_END b n naws st
           | OPTION_STATUS_SUB \<Rightarrow>
               if ch = 31 then iac_loop cs alloc status b 0 True st
               else if ch = 240 then
                 (if naws \<and> n = 5 then
                    (case rd b 3 of
                       None \<Rightarrow> None
                     | Some rows \<Rightarrow> screen_init alloc (schar rows) st)
                  else Some st)
               else if naws \<and> n < 8 then
                 (case wr b n (word_of_int ch) of
                    None \<Rightarrow> None
                  | Some b \<Rightarrow> iac_loop cs alloc status b (Suc n) naws st)
               else iac_loop cs alloc status b n naws st
           | OPTION_STATUS_END \<Rightarrow> Some st))"
  by pat_completeness auto
termination
  by (relation "measure (\<lambda>(cs, alloc, status, b, n, naws, st). input_left (tty st))") (auto dest: get_raw_ch_less)

text \<open>The array that collects the sizes is not initialised; its bytes are a parameter.\<close>

definition handle_iac :: "charsets \<Rightarrow> line_alloc \<Rightarrow> buf \<Rightarrow> tui \<Rightarrow> tui option" where
  "handle_iac cs alloc b st = iac_loop cs alloc OPTION_STATUS_IAC b 0 False st"

section \<open>Escape sequences\<close>

definition KEY_ESC :: int where "KEY_ESC = 27"
definition KEY_UP :: int where "KEY_UP = 0x0101"
definition KEY_HOME :: int where "KEY_HOME = 0x0201"
definition KEY_DOWN :: int where "KEY_DOWN = 0x0102"
definition KEY_RIGHT :: int where "KEY_RIGHT = 0x0103"
definition KEY_LEFT :: int where "KEY_LEFT = 0x0104"
definition KEY_INS :: int where "KEY_INS = 0x0202"
definition KEY_DEL :: int where "KEY_DEL = 0x0203"
definition KEY_END :: int where "KEY_END = 0x0204"
definition KEY_PGUP :: int where "KEY_PGUP = 0x0205"
definition KEY_PGDN :: int where "KEY_PGDN = 0x0206"
definition KEY_BACKSPACE :: int where "KEY_BACKSPACE = 0x7f"

datatype esc_status_e = ESC_STATUS_BEG | ESC_STATUS_CUR | ESC_STATUS_FUN | ESC_STATUS_ERR

text \<open>The key, the argument of an escaped key if there is one, and the state.\<close>

function esc_loop :: "charsets \<Rightarrow> esc_status_e \<Rightarrow> int \<Rightarrow> tui \<Rightarrow> (int \<times> int option \<times> tui) option" where
  "esc_loop cs status last' st =
     (case get_raw_ch cs st of
        None \<Rightarrow> None
      | Some (ch, st) \<Rightarrow>
          (case status of
             ESC_STATUS_BEG \<Rightarrow>
               if ch = 91 \<or> ch = 79 then esc_loop cs ESC_STATUS_CUR ch st
               else if ch = 49 \<or> ch = 52 then esc_loop cs ESC_STATUS_FUN ch st
               else Some (KEY_ESC, Some ch, st)
           | ESC_STATUS_CUR \<Rightarrow>
               if ch \<ge> 65 \<and> ch \<le> 68 then Some (KEY_UP + ch - 65, None, st)
               else if ch \<ge> 49 \<and> ch \<le> 54 then esc_loop cs ESC_STATUS_FUN ch st
               else esc_loop cs ESC_STATUS_ERR ch st
           | ESC_STATUS_FUN \<Rightarrow>
               if ch = 126 \<and> last' \<ge> 49 \<and> last' \<le> 54 then Some (KEY_HOME + last' - 49, None, st)
               else esc_loop cs ESC_STATUS_ERR ch st
           | ESC_STATUS_ERR \<Rightarrow> Some (ch, None, st)))"
  by pat_completeness auto
termination
  by (relation "measure (\<lambda>(cs, status, last', st). input_left (tty st))") (auto dest: get_raw_ch_less)

definition handle_esc :: "charsets \<Rightarrow> tui \<Rightarrow> (int \<times> int option \<times> tui) option" where
  "handle_esc cs st = esc_loop cs ESC_STATUS_BEG 0 st"


declare iac_loop.simps [simp del] esc_loop.simps [simp del]

lemma iac_loop_left: "iac_loop cs alloc status b n naws st = Some st' \<Longrightarrow> input_left (tty st') \<le> input_left (tty st)"
proof (induction "input_left (tty st)" arbitrary: status b n naws st rule: less_induct)
  case less
  show ?case
  proof (cases "status = OPTION_STATUS_END")
    case True
    then show ?thesis using less.prems by (simp add: iac_loop.simps)
  next
    case False
    then obtain ch st1 where g: "get_raw_ch cs st = Some (ch, st1)"
      using less.prems by (cases "get_raw_ch cs st") (auto simp: iac_loop.simps [where st = st])
    have less1: "input_left (tty st1) < input_left (tty st)" by (rule get_raw_ch_less [OF g])
    have init: "input_left (tty st') = input_left (tty st1)" if "screen_init alloc r st1 = Some st'" for r
      using keeps_screen_init [of st1 alloc r] that by (auto simp: keeps_def intro!: same_input_left)
    have IH: "input_left (tty st') \<le> input_left (tty st1)" if "iac_loop cs alloc s' b' n' w' st1 = Some st'" for s' b' n' w'
      by (rule less.hyps [OF less1 that])
    have "input_left (tty st') \<le> input_left (tty st1)"
      using less.prems g False
      by (cases status) (auto simp: iac_loop.simps [where st = st] dest: IH init split: if_splits option.splits)
    with less1 show ?thesis by simp
  qed
qed

lemma esc_loop_left: "esc_loop cs status l st = Some (k, a, st') \<Longrightarrow> input_left (tty st') < input_left (tty st)"
proof (induction "input_left (tty st)" arbitrary: status l st rule: less_induct)
  case less
  obtain ch st1 where g: "get_raw_ch cs st = Some (ch, st1)"
    using less.prems by (cases "get_raw_ch cs st") (auto simp: esc_loop.simps [where st = st])
  have less1: "input_left (tty st1) < input_left (tty st)" by (rule get_raw_ch_less [OF g])
  have IH: "input_left (tty st') < input_left (tty st1)" if "esc_loop cs s' l' st1 = Some (k, a, st')" for s' l'
    by (rule less.hyps [OF less1 that])
  have "input_left (tty st') \<le> input_left (tty st1)"
    using less.prems g by (cases status) (auto simp: esc_loop.simps [where st = st] dest: IH split: if_splits)
  with less1 show ?case by simp
qed

section \<open>Keys\<close>

record input_state =
  in_tui :: tui
  in_cr :: bool
  esc_arg :: int

text \<open>
  IAC sequences are handled and skipped, Ctrl-L redraws the screen, a carriage return is a line feed, and a line
  feed right behind one is dropped, as are NUL bytes.
\<close>

function igetch :: "charsets \<Rightarrow> line_alloc \<Rightarrow> buf \<Rightarrow> input_state \<Rightarrow> (int \<times> input_state) option" where
  "igetch cs alloc b s =
     (case get_raw_ch cs (in_tui s) of
        None \<Rightarrow> None
      | Some (ch, st) \<Rightarrow>
          if ch = 255 then
            (case handle_iac cs alloc b st of None \<Rightarrow> None | Some st \<Rightarrow> igetch cs alloc b (s\<lparr>in_tui := st\<rparr>))
          else if ch = KEY_ESC then
            (case handle_esc cs st of
               None \<Rightarrow> None
             | Some (key, arg, st) \<Rightarrow>
                 Some (key, s\<lparr>in_tui := st, esc_arg := (case arg of None \<Rightarrow> esc_arg s | Some a \<Rightarrow> a)\<rparr>))
          else if ch = 12 then
            (case screen_redraw cs st of None \<Rightarrow> None | Some st \<Rightarrow> igetch cs alloc b (s\<lparr>in_tui := st\<rparr>))
          else if ch = 13 then Some (10, s\<lparr>in_tui := st, in_cr := True\<rparr>)
          else if ch = 10 then
            (if in_cr s then igetch cs alloc b (s\<lparr>in_tui := st, in_cr := False\<rparr>) else Some (10, s\<lparr>in_tui := st\<rparr>))
          else if ch = 0 then igetch cs alloc b (s\<lparr>in_tui := st, in_cr := False\<rparr>)
          else Some (ch, s\<lparr>in_tui := st, in_cr := False\<rparr>))"
  by pat_completeness auto
termination
proof (relation "measure (\<lambda>(cs, alloc, b, s). input_left (tty (in_tui s)))", goal_cases)
  case (2 cs alloc b s x ch st st')
  then have "input_left (tty st) < input_left (tty (in_tui s))" by (auto dest: get_raw_ch_less)
  moreover have "input_left (tty st') \<le> input_left (tty st)" using 2 by (auto simp: handle_iac_def dest: iac_loop_left)
  ultimately show ?case by simp
next
  case (3 cs alloc b s x ch st st')
  then have "input_left (tty st) < input_left (tty (in_tui s))" by (auto dest: get_raw_ch_less)
  moreover have "input_left (tty st') = input_left (tty st)"
    using 3 keeps_screen_redraw [of st cs] by (auto simp: keeps_def intro!: same_input_left)
  ultimately show ?case by simp
qed (auto dest: get_raw_ch_less)

text \<open>Ctrl-Z without waiting messages asks for the message list.\<close>

definition do_terminal_getchar :: "charsets \<Rightarrow> line_alloc \<Rightarrow> buf \<Rightarrow> int \<Rightarrow> bool \<Rightarrow> input_state \<Rightarrow> (int \<times> bool \<times> input_state) option" where
  "do_terminal_getchar cs alloc b msg_num rmsg s = do {
     (ch, s) \<leftarrow> igetch cs alloc b s;
     Some (ch, rmsg \<or> (ch = 26 \<and> msg_num = 0), s)
   }"

end
