(* ===== verification/FB_Keys.thy ===== *)
theory FB_Keys
  imports FB_Input
begin

text \<open>
  What the input layer promises: however the bytes of the client are cut into packets, the keys they encode are
  delivered one by one; a window size report resizes the screen buffer, unless one of its bytes happens to be the
  code of the option itself.
\<close>

section \<open>Pending input\<close>

fun arrive_bytes :: "input_event \<Rightarrow> buf" where
  "arrive_bytes Idle = []"
| "arrive_bytes (Arrive bs) = bs"

definition pending :: "terminal \<Rightarrow> buf" where
  "pending t = drop (in_cur (input_buffer t)) (take (in_size (input_buffer t)) (in_ptr (input_buffer t))) @
     concat (map arrive_bytes (events t))"

definition in_ok :: "terminal \<Rightarrow> bool" where
  "in_ok t \<longleftrightarrow> length (in_ptr (input_buffer t)) = INPUT_BUFFER_SIZE \<and> in_size (input_buffer t) \<le> INPUT_BUFFER_SIZE \<and>
     (\<forall>e\<in>set (events t). \<exists>bs. e = Arrive bs \<and> bs \<noteq> []) \<and> \<not> schedule_exit t"

lemma get_raw_ch_pending:
  assumes "in_ok (tty st)" and "pending (tty st) = c # rest"
  shows "\<exists>st'. get_raw_ch cs st = Some (uint c, st') \<and> in_ok (tty st') \<and> pending (tty st') = rest \<and> scr st' = scr st"
proof (cases "in_cur (input_buffer (tty st)) < in_size (input_buffer (tty st))")
  case True
  define b where "b = input_buffer (tty st)"
  have len: "in_cur b < length (take (in_size b) (in_ptr b))" using True assms(1) by (simp add: in_ok_def b_def)
  then have dr: "drop (in_cur b) (take (in_size b) (in_ptr b)) = in_ptr b ! in_cur b # drop (Suc (in_cur b)) (take (in_size b) (in_ptr b))"
    by (simp add: Cons_nth_drop_Suc [symmetric])
  then have "c = in_ptr b ! in_cur b" "rest = drop (Suc (in_cur b)) (take (in_size b) (in_ptr b)) @ concat (map arrive_bytes (events (tty st)))"
    using assms(2) by (auto simp: pending_def b_def)
  with True len assms(1) show ?thesis
    by (simp add: get_raw_ch_def b_def [symmetric] rd_def in_ok_def pending_def)
next
  case False
  then have ev: "concat (map arrive_bytes (events (tty st))) = c # rest" using assms(2) by (simp add: pending_def)
  then obtain bs es where es: "events (tty st) = Arrive bs # es" and bs: "bs \<noteq> []"
    using assms(1) by (cases "events (tty st)") (auto simp: in_ok_def)
  define b1 where "b1 = take INPUT_BUFFER_SIZE bs"
  define es1 where "es1 = (if length bs > INPUT_BUFFER_SIZE then Arrive (drop INPUT_BUFFER_SIZE bs) # es else es)"
  have w: "wait_input cs (events (tty st)) st = Some (b1, es1, st)"
    using assms(1) bs by (simp add: es b1_def es1_def in_ok_def)
  have l1: "length b1 \<le> INPUT_BUFFER_SIZE" "b1 \<noteq> []" using bs by (auto simp: b1_def INPUT_BUFFER_SIZE_def)
  obtain x xs where x: "b1 = x # xs" using l1(2) by (cases b1) auto
  have all: "b1 @ concat (map arrive_bytes es1) = c # rest" using ev by (simp add: es b1_def es1_def append_assoc [symmetric] del: append_assoc)
  have put: "mem_write (in_ptr (input_buffer (tty st))) 0 b1 = Some (b1 @ drop (length b1) (in_ptr (input_buffer (tty st))))"
    using l1 assms(1) by (simp add: mem_write_def in_ok_def)
  show ?thesis
    using False w put l1 x all assms(1)
    by (simp add: get_raw_ch_def rd_def in_ok_def pending_def es es1_def)
qed

section \<open>Keys and their encodings\<close>

text \<open>
  A character key, a cursor key (up, down, right, left), one of the six function keys, or Enter, which telnet clients
  send as a carriage return with a line feed or a NUL.
\<close>

datatype key = Plain byte | Cursor nat | Function nat | Enter bool

fun key_ok :: "key \<Rightarrow> bool" where
  "key_ok (Plain c) \<longleftrightarrow> c \<notin> {0, 10, 12, 13, 27, 255}"
| "key_ok (Cursor n) \<longleftrightarrow> n < 4"
| "key_ok (Function n) \<longleftrightarrow> n < 6"
| "key_ok (Enter _) \<longleftrightarrow> True"

fun key_bytes :: "key \<Rightarrow> buf" where
  "key_bytes (Plain c) = [c]"
| "key_bytes (Cursor n) = [27, 91, of_nat (65 + n)]"
| "key_bytes (Function n) = [27, 91, of_nat (49 + n), 126]"
| "key_bytes (Enter nul) = [13, if nul then 0 else 10]"

fun key_code :: "key \<Rightarrow> int" where
  "key_code (Plain c) = uint c"
| "key_code (Cursor n) = KEY_UP + int n"
| "key_code (Function n) = KEY_HOME + int n"
| "key_code (Enter _) = 10"

text \<open>Reading \<open>n\<close> keys.\<close>

fun read_keys :: "charsets \<Rightarrow> line_alloc \<Rightarrow> buf \<Rightarrow> nat \<Rightarrow> input_state \<Rightarrow> (int list \<times> input_state) option" where
  "read_keys cs alloc b 0 s = Some ([], s)"
| "read_keys cs alloc b (Suc n) s = do {
     (k, s) \<leftarrow> igetch cs alloc b s;
     (ks, s) \<leftarrow> read_keys cs alloc b n s;
     Some (k # ks, s)
   }"

declare igetch.simps [simp del]

text \<open>Between keys there may be one byte left over from an Enter key.\<close>

definition ready :: "input_state \<Rightarrow> buf \<Rightarrow> bool" where
  "ready s bs \<longleftrightarrow> in_ok (tty (in_tui s)) \<and>
     (pending (tty (in_tui s)) = bs \<or>
      pending (tty (in_tui s)) = 0 # bs \<or> pending (tty (in_tui s)) = 10 # bs \<and> in_cr s)"

lemma igetch_skip:
  assumes "ready s bs"
  shows "\<exists>s'. igetch cs alloc b s = igetch cs alloc b s' \<and> in_ok (tty (in_tui s')) \<and> pending (tty (in_tui s')) = bs"
proof (cases "pending (tty (in_tui s)) = bs")
  case True
  then show ?thesis using assms by (auto simp: ready_def)
next
  case False
  then obtain c where c: "pending (tty (in_tui s)) = c # bs" "c = 0 \<or> c = 10 \<and> in_cr s" and ok: "in_ok (tty (in_tui s))"
    using assms by (auto simp: ready_def)
  obtain st' where g: "get_raw_ch cs (in_tui s) = Some (uint c, st')" "in_ok (tty st')" "pending (tty st') = bs"
    using get_raw_ch_pending [OF ok c(1)] by blast
  have "igetch cs alloc b s = igetch cs alloc b (s\<lparr>in_tui := st', in_cr := False\<rparr>)"
    using g(1) c(2) by (auto simp: igetch.simps [of _ _ _ s] KEY_ESC_def)
  then show ?thesis using g by (intro exI [of _ "s\<lparr>in_tui := st', in_cr := False\<rparr>"]) simp
qed

lemma igetch_key:
  assumes "key_ok k" and "ready s (key_bytes k @ rest)"
  shows "\<exists>s'. igetch cs alloc b s = Some (key_code k, s') \<and> ready s' rest"
proof -
  obtain s0 where s0: "igetch cs alloc b s = igetch cs alloc b s0" "in_ok (tty (in_tui s0))"
    "pending (tty (in_tui s0)) = key_bytes k @ rest"
    using igetch_skip [OF assms(2)] by blast
  obtain c cs' where kb: "key_bytes k = c # cs'" by (cases k) auto
  obtain st1 where g1: "get_raw_ch cs (in_tui s0) = Some (uint c, st1)" "in_ok (tty st1)" "pending (tty st1) = cs' @ rest"
    using get_raw_ch_pending [OF s0(2)] s0(3) kb by (metis append_Cons)
  show ?thesis
  proof (cases k)
    case (Plain x)
    then have "uint c \<notin> {0, 10, 12, 13, 27, 255}" using assms(1) kb
      by (auto dest: arg_cong [of "uint c" _ "word_of_int :: int \<Rightarrow> byte"])
    then show ?thesis
      using Plain kb g1 unfolding s0(1) by (auto simp: igetch.simps [of _ _ _ s0] KEY_ESC_def ready_def)
  next
    case (Enter nul)
    then show ?thesis
      using kb g1 unfolding s0(1) by (cases nul) (auto simp: igetch.simps [of _ _ _ s0] KEY_ESC_def ready_def)
  next
    case (Cursor n)
    then have n: "n < 4" and c: "c = 27" "cs' = [91, of_nat (65 + n)]" using assms(1) kb by auto
    obtain st2 where g2: "get_raw_ch cs st1 = Some (91, st2)" "in_ok (tty st2)" "pending (tty st2) = of_nat (65 + n) # rest"
      using get_raw_ch_pending [OF g1(2)] g1(3) c by fastforce
    obtain st3 where g3: "get_raw_ch cs st2 = Some (uint (of_nat (65 + n) :: byte), st3)" "in_ok (tty st3)" "pending (tty st3) = rest"
      using get_raw_ch_pending [OF g2(2,3)] by blast
    have u: "uint (of_nat (65 + n) :: byte) = 65 + int n" using n by (simp add: unsigned_of_nat take_bit_nat_eq_self del: of_nat_add)
    show ?thesis
      using Cursor n c g1 g2 g3 u unfolding s0(1)
      by (auto simp: igetch.simps [of _ _ _ s0] KEY_ESC_def ready_def handle_esc_def esc_loop.simps [where st = st1] esc_loop.simps [where st = st2])
  next
    case (Function n)
    then have n: "n < 6" and c: "c = 27" "cs' = [91, of_nat (49 + n), 126]" using assms(1) kb by auto
    obtain st2 where g2: "get_raw_ch cs st1 = Some (91, st2)" "in_ok (tty st2)" "pending (tty st2) = of_nat (49 + n) # 126 # rest"
      using get_raw_ch_pending [OF g1(2)] g1(3) c by fastforce
    obtain st3 where g3: "get_raw_ch cs st2 = Some (uint (of_nat (49 + n) :: byte), st3)" "in_ok (tty st3)" "pending (tty st3) = 126 # rest"
      using get_raw_ch_pending [OF g2(2,3)] by blast
    obtain st4 where g4: "get_raw_ch cs st3 = Some (126, st4)" "in_ok (tty st4)" "pending (tty st4) = rest"
      using get_raw_ch_pending [OF g3(2,3)] by fastforce
    have u: "uint (of_nat (49 + n) :: byte) = 49 + int n" using n by (simp add: unsigned_of_nat take_bit_nat_eq_self del: of_nat_add)
    show ?thesis
      using Function n c g1 g2 g3 g4 u unfolding s0(1)
      by (auto simp: igetch.simps [of _ _ _ s0] KEY_ESC_def ready_def handle_esc_def esc_loop.simps [where st = st1]
          esc_loop.simps [where st = st2] esc_loop.simps [where st = st3])
  qed
qed



definition fresh_input :: "input_event list \<Rightarrow> input_state" where
  "fresh_input es =
     \<lparr>in_tui = \<lparr>scr = screen_start, tty = fresh_terminal es, showansi = True, gbk_left = 0,
        saved_line = replicate SCREEN_LINE_LEN 0\<rparr>, in_cr = False, esc_arg = 0\<rparr>"

lemma fresh_input_ready:
  "\<forall>e\<in>set es. \<exists>bs. e = Arrive bs \<and> bs \<noteq> [] \<Longrightarrow> ready (fresh_input es) (concat (map arrive_bytes es))"
  by (simp add: ready_def fresh_input_def fresh_terminal_def in_ok_def pending_def)


section \<open>Window sizes\<close>

text \<open>IAC SB NAWS, the width and the height in two bytes each, IAC SE.\<close>

definition naws :: "byte \<Rightarrow> byte \<Rightarrow> buf" where
  "naws w h = [255, 250, 31, 0, w, 0, h, 255, 240]"

lemma small_nats: "Suc (Suc (Suc 0)) = 3" "Suc (Suc 3) = 5"
  by simp_all

lemma iac_collect:
  assumes "in_ok (tty st)" and "pending (tty st) = c # rest" and "c \<noteq> 31" and "c \<noteq> 240" and "n < 8" and "length b = 8"
  shows "\<exists>st'. iac_loop cs alloc OPTION_STATUS_SUB b n True st = iac_loop cs alloc OPTION_STATUS_SUB (b[n := c]) (Suc n) True st' \<and>
    in_ok (tty st') \<and> pending (tty st') = rest \<and> scr st' = scr st"
proof -
  obtain st' where g: "get_raw_ch cs st = Some (uint c, st')" and st': "in_ok (tty st')" "pending (tty st') = rest" "scr st' = scr st"
    using get_raw_ch_pending [OF assms(1,2)] by blast
  have "uint c \<noteq> 31" "uint c \<noteq> 240"
    using assms(3,4) by (auto dest: arg_cong [of "uint c" _ "word_of_int :: int \<Rightarrow> byte"])
  then have "iac_loop cs alloc OPTION_STATUS_SUB b n True st = iac_loop cs alloc OPTION_STATUS_SUB (b[n := c]) (Suc n) True st'"
    using g assms(5,6) by (simp add: iac_loop.simps [where st = st] wr_def)
  with st' show ?thesis by blast
qed


lemma iac_collects:
  assumes "in_ok (tty st)" and "pending (tty st) = xs @ rest" and "31 \<notin> set xs" and "240 \<notin> set xs"
    and "n + length xs \<le> 8" and "length b = 8"
  shows "\<exists>st'. iac_loop cs alloc OPTION_STATUS_SUB b n True st =
      iac_loop cs alloc OPTION_STATUS_SUB (take n b @ xs @ drop (n + length xs) b) (n + length xs) True st' \<and>
    in_ok (tty st') \<and> pending (tty st') = rest \<and> scr st' = scr st"
  using assms
proof (induction xs arbitrary: st n b)
  case (Cons c xs)
  obtain st1 where s1: "iac_loop cs alloc OPTION_STATUS_SUB b n True st = iac_loop cs alloc OPTION_STATUS_SUB (b[n := c]) (Suc n) True st1"
    "in_ok (tty st1)" "pending (tty st1) = xs @ rest" "scr st1 = scr st"
    using iac_collect [of st c "xs @ rest" n b] Cons.prems by auto
  have b: "take (Suc n) (b[n := c]) @ xs @ drop (Suc n + length xs) (b[n := c]) = take n b @ (c # xs) @ drop (n + length (c # xs)) b"
    using Cons.prems by (simp add: take_snoc_update)
  show ?case
    using Cons.IH [OF s1(2,3), of "Suc n" "b[n := c]"] Cons.prems s1(4) unfolding s1(1) b by simp
qed auto

lemma iac_start:
  assumes "in_ok (tty st)" and "pending (tty st) = 250 # 31 # rest"
  shows "\<exists>st'. handle_iac cs alloc b st = iac_loop cs alloc OPTION_STATUS_SUB b 0 True st' \<and>
    in_ok (tty st') \<and> pending (tty st') = rest \<and> scr st' = scr st"
proof -
  obtain st1 where g1: "get_raw_ch cs st = Some (uint (250 :: byte), st1)" "in_ok (tty st1)" "pending (tty st1) = 31 # rest" "scr st1 = scr st"
    using get_raw_ch_pending [OF assms] by blast
  obtain st2 where g2: "get_raw_ch cs st1 = Some (uint (31 :: byte), st2)" "in_ok (tty st2)" "pending (tty st2) = rest" "scr st2 = scr st1"
    using get_raw_ch_pending [OF g1(2,3)] by blast
  show ?thesis
    using g1 g2 by (auto simp: handle_iac_def iac_loop.simps [where st = st] iac_loop.simps [where st = st1])
qed

lemma iac_end:
  assumes "in_ok (tty st)" and "pending (tty st) = 240 # rest"
  shows "\<exists>st'. iac_loop cs alloc OPTION_STATUS_SUB b n True st =
      (if n = 5 then (case rd b 3 of None \<Rightarrow> None | Some rows \<Rightarrow> screen_init alloc (schar rows) st') else Some st') \<and>
    in_ok (tty st') \<and> pending (tty st') = rest \<and> scr st' = scr st"
proof -
  obtain st' where "get_raw_ch cs st = Some (uint (240 :: byte), st')" "in_ok (tty st')" "pending (tty st') = rest" "scr st' = scr st"
    using get_raw_ch_pending [OF assms] by blast
  then show ?thesis by (auto simp: iac_loop.simps [where st = st])
qed

text \<open>A window size report is applied: when neither size is one of the two codes that the loop looks for, the
  screen buffer is resized to the reported height.\<close>

theorem naws_resizes:
  assumes "in_ok (tty st)" and "pending (tty st) = tl (naws w h) @ rest" and "w \<notin> {31, 240}" and "h \<notin> {31, 240}" and "length b = 8"
  shows "\<exists>st'. handle_iac cs alloc b st = screen_init alloc (schar h) st' \<and> pending (tty st') = rest \<and> scr st' = scr st"
proof -
  obtain st0 where s0: "handle_iac cs alloc b st = iac_loop cs alloc OPTION_STATUS_SUB b 0 True st0"
    "in_ok (tty st0)" "pending (tty st0) = [0, w, 0, h, 255] @ 240 # rest" "scr st0 = scr st"
    using iac_start [OF assms(1)] assms(2) by (fastforce simp: naws_def)
  let ?b = "[0, w, 0, h, 255] @ drop 5 b"
  obtain st1 where s1: "iac_loop cs alloc OPTION_STATUS_SUB b 0 True st0 = iac_loop cs alloc OPTION_STATUS_SUB ?b 5 True st1"
    "in_ok (tty st1)" "pending (tty st1) = 240 # rest" "scr st1 = scr st0"
    using iac_collects [OF s0(2,3), of 0 b cs alloc] assms(3-5) by (auto simp: small_nats)
  have rows: "rd ?b 3 = Some h" by (simp add: rd_def)
  show ?thesis
    using iac_end [OF s1(2,3), of cs alloc ?b 5] rows s0(4) s1(4) unfolding s0(1) s1(1) by auto
qed

theorem naws_resizes_witness:
  "\<exists>st'. handle_iac \<lparr>u2g = ascii, g2u = ascii\<rparr> (\<lambda>_. None) (replicate 8 0) (in_tui (fresh_input [Arrive [250, 31, 0, 80, 0, 40, 255, 240, 97]])) =
    screen_init (\<lambda>_. None) 40 st' \<and> pending (tty st') = [97]"
  using naws_resizes [of "in_tui (fresh_input [Arrive [250, 31, 0, 80, 0, 40, 255, 240, 97]])" 80 40 "[97]" "replicate 8 0"
      "\<lparr>u2g = ascii, g2u = ascii\<rparr>" "\<lambda>_. None"]
  by (auto simp: fresh_input_def fresh_terminal_def in_ok_def pending_def naws_def)

text \<open>A window of 31 lines is never taken over: the height byte is read as the option code again, the sizes
  collected so far are dropped, and the screen stays as it was.\<close>

theorem naws_31_ignored:
  assumes "in_ok (tty st)" and "pending (tty st) = tl (naws w 31) @ rest" and "w \<notin> {31, 240}" and "length b = 8"
  shows "\<exists>st'. handle_iac cs alloc b st = Some st' \<and> pending (tty st') = rest \<and> scr st' = scr st"
proof -
  obtain st0 where s0: "handle_iac cs alloc b st = iac_loop cs alloc OPTION_STATUS_SUB b 0 True st0"
    "in_ok (tty st0)" "pending (tty st0) = [0, w, 0] @ 31 # 255 # 240 # rest" "scr st0 = scr st"
    using iac_start [OF assms(1)] assms(2) by (fastforce simp: naws_def)
  let ?b = "[0, w, 0] @ drop 3 b"
  obtain st1 where s1: "iac_loop cs alloc OPTION_STATUS_SUB b 0 True st0 = iac_loop cs alloc OPTION_STATUS_SUB ?b 3 True st1"
    "in_ok (tty st1)" "pending (tty st1) = 31 # 255 # 240 # rest" "scr st1 = scr st0"
    using iac_collects [OF s0(2,3), of 0 b cs alloc] assms(3,4) by (auto simp: small_nats)
  obtain st2 where s2: "get_raw_ch cs st1 = Some (uint (31 :: byte), st2)" "in_ok (tty st2)"
    "pending (tty st2) = [255] @ 240 # rest" "scr st2 = scr st1"
    using get_raw_ch_pending [OF s1(2,3)] by auto
  have again: "iac_loop cs alloc OPTION_STATUS_SUB ?b 3 True st1 = iac_loop cs alloc OPTION_STATUS_SUB ?b 0 True st2"
    using s2(1) by (simp add: iac_loop.simps [where st = st1])
  let ?b' = "[255] @ drop 1 ?b"
  obtain st3 where s3: "iac_loop cs alloc OPTION_STATUS_SUB ?b 0 True st2 = iac_loop cs alloc OPTION_STATUS_SUB ?b' 1 True st3"
    "in_ok (tty st3)" "pending (tty st3) = 240 # rest" "scr st3 = scr st2"
    using iac_collects [OF s2(2,3), of 0 ?b cs alloc] assms(4) by auto
  show ?thesis
    using iac_end [OF s3(2,3), of cs alloc ?b' 1] s0(4) s1(4) s2(4) s3(4) unfolding s0(1) s1(1) again s3(1) by auto
qed

theorem naws_31_ignored_witness:
  "\<exists>st'. handle_iac \<lparr>u2g = ascii, g2u = ascii\<rparr> (\<lambda>_. None) (replicate 8 0) (in_tui (fresh_input [Arrive [250, 31, 0, 80, 0, 31, 255, 240]])) =
    Some st' \<and> scr st' = screen_start"
  using naws_31_ignored [of "in_tui (fresh_input [Arrive [250, 31, 0, 80, 0, 31, 255, 240]])" 80 "[]" "replicate 8 0"
      "\<lparr>u2g = ascii, g2u = ascii\<rparr>" "\<lambda>_. None"]
  by (auto simp: fresh_input_def fresh_terminal_def in_ok_def pending_def naws_def)

end
