(* ===== verification/FB_ScreenText.thy ===== *)
theory FB_ScreenText
  imports FB_Screen
begin

text \<open>
  What writing to the screen buffer does to the text it shows: a piece of text without line ends overlays the
  current line from the cursor on, blanks fill a gap, and no other line changes.  A line end inside a piece ends the
  line and moves the cursor down, but the rest of the piece goes to the same line again.
\<close>

definition overlay :: "nat \<Rightarrow> buf \<Rightarrow> buf \<Rightarrow> buf" where
  "overlay col xs old = take col (old @ replicate (col - length old) 32) @ xs @ drop (col + length xs) old"

lemma overlay_Nil: "col \<le> length old \<Longrightarrow> overlay col [] old = old"
  by (simp add: overlay_def)

lemma overlay_Cons: "overlay col (c # cs) old = overlay (Suc col) cs (overlay col [c] old)"
  by (cases "col \<le> length old")
    (auto simp: overlay_def min_def Suc_diff_le take_Cons' intro!: arg_cong [of _ _ "\<lambda>n. drop n old"])

lemma overlay_length: "length (overlay col xs old) = max (length old) (col + length xs)"
  by (auto simp: overlay_def)

section \<open>One character\<close>

definition with_line :: "tui \<Rightarrow> nat \<Rightarrow> screen_line_t \<Rightarrow> int \<Rightarrow> tui" where
  "with_line st k sl col =
     st\<lparr>scr := (scr st)\<lparr>sc_buf := map_option (\<lambda>ls. ls[k := sl]) (sc_buf (scr st)), sc_cur_col := col\<rparr>\<rparr>"

lemma put_in_line_spec:
  assumes "sc_buf (scr st) = Some ls" and "k < length ls" and "line_ok (ls ! k)"
    and "sc_cur_col (scr st) = int col" and "col < SCREEN_LINE_LEN"
  shows "\<exists>sl'. put_in_line (int k) c st = Some (with_line st k sl' (int (Suc col))) \<and> line_ok sl' \<and>
    line_text sl' = overlay col [c] (line_text (ls ! k))"
proof -
  define sl where "sl = ls ! k"
  obtain n where n: "sl_len sl = int n" "n \<le> 1019" and d: "length (sl_data sl) = 1019"
    using assms(3) by (auto simp: line_ok_def sl_def SCREEN_LINE_LEN_def) (metis nonneg_int_cases of_nat_le_iff of_nat_numeral)
  have col: "col < 1019" using assms(5) by (simp add: SCREEN_LINE_LEN_def)
  define d1 where "d1 = (if col > n then take n (sl_data sl) @ replicate (col - n) 32 @ drop col (sl_data sl) else sl_data sl)"
  have pad: "(if int col > sl_len sl then pad_line (int col - sl_len sl) sl else Some sl) = Some (sl\<lparr>sl_data := d1\<rparr>)"
  proof -
    have "nat (int col - int n) = col - n" by simp
    then show ?thesis using n d col by (cases "n < col") (simp_all add: pad_line_def mem_write_def d1_def)
  qed
  have l1: "length d1 = 1019" using d n col by (simp add: d1_def)
  define sl' where "sl' = sl\<lparr>sl_modified := True, sl_data := d1[col := c],
    sl_len := (if int col + 1 > sl_len sl then u16 (int col + 1) else sl_len sl)\<rparr>"
  have len': "sl_len sl' = (if n < Suc col then int (Suc col) else int n)" using col n by (simp add: u16_def sl'_def)
  have nat_len': "nat (sl_len sl') = (if n < Suc col then Suc col else n)" unfolding len' by (simp del: of_nat_Suc)
  have data': "sl_data sl' = d1[col := c]" by (simp add: sl'_def)
  have "put_in_line (int k) c st = Some (with_line st k sl' (int col + 1))"
    unfolding put_in_line_def Let_def assms(1,4)
    using assms(1,2) pad l1 col
    by (simp add: sl_def [symmetric] rdi_def rd_def wri_def wr_def set_line_at_def with_line_def sl'_def split del: if_split cong: if_cong)
  then have "put_in_line (int k) c st = Some (with_line st k sl' (int (Suc col)))" by (simp add: add.commute)
  moreover have "line_ok sl'" using l1 n col by (simp add: line_ok_def len' data' SCREEN_LINE_LEN_def)
  moreover have "line_text sl' = overlay col [c] (line_text sl)"
  proof (cases "col < n")
    case True
    then have "take n (d1[col := c]) = take col (sl_data sl) @ c # drop (Suc col) (take n (sl_data sl))"
      using d n by (simp add: d1_def take_update_swap upd_conv_take_nth_drop drop_take min_absorb1 take_Cons' Suc_diff_Suc)
    with True n d show ?thesis by (simp add: line_text_def nat_len' data' overlay_def min_absorb1)
  next
    case False
    then have "take (Suc col) (d1[col := c]) = take col d1 @ [c]" using l1 col by (simp add: take_snoc_update)
    moreover have "take col d1 = take n (sl_data sl) @ replicate (col - n) 32" using False d n by (simp add: d1_def)
    ultimately show ?thesis using False n d by (simp add: line_text_def nat_len' data' overlay_def min_absorb1)
  qed
  ultimately show ?thesis unfolding sl_def by blast
qed

lemma with_line_simps [simp]:
  "sc_buf (scr (with_line st k sl col)) = map_option (\<lambda>ls. ls[k := sl]) (sc_buf (scr st))"
  "sc_cur_col (scr (with_line st k sl col)) = col"
  "with_line (with_line st k sl col) k sl' col' = with_line st k sl' col'"
  by (auto simp: with_line_def option.map_comp comp_def)

lemma puts_loop_text:
  assumes "sc_buf (scr st) = Some ls" and "k < length ls" and "line_ok (ls ! k)"
    and "sc_cur_col (scr st) = int col" and "col + length xs \<le> SCREEN_LINE_LEN" and "10 \<notin> set xs" and "13 \<notin> set xs" and "xs \<noteq> []"
  shows "\<exists>sl'. puts_loop (int k) (xs @ ys) st = puts_loop (int k) ys (with_line st k sl' (int (col + length xs))) \<and>
    line_ok sl' \<and> line_text sl' = overlay col xs (line_text (ls ! k))"
  using assms
proof (induction xs arbitrary: st ls col)
  case (Cons c xs)
  obtain sl1 where one: "put_in_line (int k) c st = Some (with_line st k sl1 (int (Suc col)))" "line_ok sl1"
    "line_text sl1 = overlay col [c] (line_text (ls ! k))"
    using put_in_line_spec [OF Cons.prems(1-4)] Cons.prems(5) by auto
  have step: "puts_loop (int k) ((c # xs) @ ys) st = puts_loop (int k) (xs @ ys) (with_line st k sl1 (int (Suc col)))"
    using one(1) Cons.prems(6,7) by simp
  show ?case
  proof (cases "xs = []")
    case True
    with one step show ?thesis by auto
  next
    case False
    let ?st = "with_line st k sl1 (int (Suc col))"
    obtain sl2 where "puts_loop (int k) (xs @ ys) ?st = puts_loop (int k) ys (with_line ?st k sl2 (int (Suc col + length xs)))"
      "line_ok sl2" "line_text sl2 = overlay (Suc col) xs (line_text (ls[k := sl1] ! k))"
      using Cons.IH [of ?st "ls[k := sl1]" "Suc col"] Cons.prems one(2) False by auto
    then show ?thesis
      unfolding step using Cons.prems(2) one(3) overlay_Cons [of col c xs] by (auto intro!: exI [of _ sl2])
  qed
qed simp


section \<open>The whole screen\<close>

lemma mod_add_inj:
  assumes "0 \<le> (a::int)" and "a < m" and "0 \<le> b" and "b < m" and "(a + r) mod m = (b + r) mod m"
  shows "a = b"
proof -
  have "(a + r - r) mod m = (b + r - r) mod m" using assms(5) mod_diff_cong by blast
  with assms(1-4) show ?thesis by simp
qed

lemma with_line_shown:
  assumes "screen_ok (scr st)" and "ln < nat (sc_lines (scr st))" and "k = nat (line_index (scr st) (int ln))"
    and "line_ok sl'" and "0 \<le> col"
  shows "screen_ok (scr (with_line st k sl' col))" and "shown (scr (with_line st k sl' col)) ln = line_text sl'"
    and "\<And>i. i < nat (sc_lines (scr st)) \<Longrightarrow> i \<noteq> ln \<Longrightarrow> shown (scr (with_line st k sl' col)) i = shown (scr st) i"
proof -
  let ?s = "scr (with_line st k sl' col)"
  obtain ls where ls: "sc_buf (scr st) = Some ls" "int (length ls) = sc_lines (scr st)" "\<forall>sl\<in>set ls. line_ok sl"
    using assms(1) by (auto simp: screen_ok_def)
  show ok: "screen_ok ?s"
    using assms(1,4,5) ls by (auto simp: screen_ok_def with_line_def dest: set_update_subset_insert [THEN subsetD])
  have idx: "line_index ?s i = line_index (scr st) i" for i by (simp add: line_index_def with_line_def)
  have k: "k < length ls" using line_index_range [OF assms(1), of "int ln"] assms(3) ls(2) by simp
  show "shown ?s ln = line_text sl'"
    using get_screen_line_ok [OF ok, of "int ln"] ls(1) k idx assms(3) by (auto simp: shown_def)
  fix i assume i: "i < nat (sc_lines (scr st))" "i \<noteq> ln"
  have "line_index (scr st) (int i) \<noteq> line_index (scr st) (int ln)"
    using mod_add_inj [of "int i" "sc_lines (scr st)" "int ln" "sc_roll (scr st)"] i assms(2)
      line_index_range(1) [OF assms(1)] by (auto simp: zless_nat_eq_int_zless)
  then have "nat (line_index (scr st) (int i)) \<noteq> k"
    using assms(3) line_index_range(2) [OF assms(1)] by (metis eq_nat_nat_iff of_nat_0_le_iff)
  then show "shown ?s i = shown (scr st) i"
    using get_screen_line_ok [OF ok, of "int i"] get_screen_line_ok [OF assms(1), of "int i"] ls(1) idx by (auto simp: shown_def)
qed

lemma screen_puts_start:
  assumes "screen_ok (scr st)" and "sc_cur_ln (scr st) = int ln" and "bs \<noteq> []"
  shows "screen_puts cs bs (length bs) st = puts_loop (int (nat (line_index (scr st) (int ln)))) bs st"
  using assms line_index_range(2) [OF assms(1), of "int ln"]
  by (auto simp: screen_puts_def mem_read_def screen_ok_def)

text \<open>Claim C21: writing text without line ends puts it into the current line at the cursor, over what was there, with
  blanks in a gap before it; the cursor moves behind it and the other lines of the screen stay as they are.\<close>

theorem screen_puts_text:
  assumes "screen_ok (scr st)" and "sc_cur_ln (scr st) = int ln" and "ln < nat (sc_lines (scr st))"
    and "sc_cur_col (scr st) = int col" and "col + length xs \<le> SCREEN_LINE_LEN" and "10 \<notin> set xs" and "13 \<notin> set xs" and "xs \<noteq> []"
  shows "\<exists>st'. screen_puts cs xs (length xs) st = Some st' \<and> screen_ok (scr st') \<and>
    screen_coordinates st' = (int ln, int (col + length xs)) \<and> tty st' = tty st \<and>
    (\<forall>i < nat (sc_lines (scr st)). shown (scr st') i =
      (if i = ln then overlay col xs (shown (scr st) ln) else shown (scr st) i))"
proof -
  define k where "k = nat (line_index (scr st) (int ln))"
  obtain ls where ls: "sc_buf (scr st) = Some ls" "k < length ls" "line_ok (ls ! k)" "shown (scr st) ln = line_text (ls ! k)"
    using get_screen_line_ok [OF assms(1), of "int ln"] by (auto simp: k_def shown_def)
  obtain sl' where sl': "puts_loop (int k) (xs @ []) st = puts_loop (int k) [] (with_line st k sl' (int (col + length xs)))"
    "line_ok sl'" "line_text sl' = overlay col xs (line_text (ls ! k))"
    using puts_loop_text [OF ls(1-3) assms(4-8), of "[]"] by blast
  let ?st' = "with_line st k sl' (int (col + length xs))"
  have run: "screen_puts cs xs (length xs) st = Some ?st'"
    using screen_puts_start [OF assms(1,2,8), of cs] sl'(1) by (simp add: k_def)
  have "0 \<le> int (col + length xs)" by simp
  note w = with_line_shown [OF assms(1,3) k_def sl'(2) this]
  have "\<forall>i < nat (sc_lines (scr st)). shown (scr ?st') i =
      (if i = ln then overlay col xs (shown (scr st) ln) else shown (scr st) i)"
    using w(2,3) ls(4) sl'(3) by simp
  moreover have "screen_coordinates ?st' = (int ln, int (col + length xs))" "tty ?st' = tty st"
    using assms(2) by (simp_all add: screen_coordinates_def with_line_def)
  ultimately show ?thesis using run w(1) by blast
qed


text \<open>A fresh screen: 24 empty lines.\<close>

definition blank_tui :: tui where
  "blank_tui =
     \<lparr>scr = screen_start\<lparr>sc_buf := Some (replicate 24 \<lparr>sl_old_len = 0, sl_len = 0, sl_modified = False,
        sl_data = replicate SCREEN_LINE_LEN 0\<rparr>)\<rparr>,
      tty = fresh_terminal [], showansi = True, gbk_left = 0, saved_line = replicate SCREEN_LINE_LEN 0\<rparr>"

lemma blank_tui_ok: "screen_ok (scr blank_tui)"
  by (simp add: blank_tui_def screen_start_def screen_ok_def line_ok_def MIN_SCREEN_LINES_def MAX_SCREEN_LINES_def SCREEN_LINE_LEN_def)

lemma blank_tui_fields:
  "sc_cur_ln (scr blank_tui) = 0" "sc_cur_col (scr blank_tui) = 0" "sc_lines (scr blank_tui) = 24"
  by (simp_all add: blank_tui_def screen_start_def)

lemma blank_tui_shown: "i < 24 \<Longrightarrow> shown (scr blank_tui) i = []"
  using get_screen_line_ok [OF blank_tui_ok, of "int i"]
  by (auto simp: shown_def line_text_def blank_tui_def screen_start_def)

theorem screen_puts_text_witness:
  "\<exists>st'. screen_puts \<lparr>u2g = ascii, g2u = ascii\<rparr> [104, 105] 2 blank_tui = Some st' \<and>
    screen_coordinates st' = (0, 2) \<and> shown (scr st') 0 = [104, 105]"
  using screen_puts_text [OF blank_tui_ok, of 0 0 "[104, 105]" "\<lparr>u2g = ascii, g2u = ascii\<rparr>"] blank_tui_fields blank_tui_shown [of 0]
  by (auto simp: SCREEN_LINE_LEN_def overlay_def numeral_2_eq_2 [symmetric])

lemma end_line_spec:
  assumes "sc_buf (scr st) = Some ls" and "k < length ls" and "line_ok (ls ! k)" and "sc_cur_col (scr st) = int col"
    and "col \<le> length (line_text (ls ! k))" and "sc_cur_ln (scr st) < sc_lines (scr st)"
  shows "\<exists>sl'. end_line (int k) st =
      Some ((with_line st k sl' 0)\<lparr>scr := (scr (with_line st k sl' 0))\<lparr>sc_cur_ln := sc_cur_ln (scr st) + 1\<rparr>\<rparr>) \<and>
    line_ok sl' \<and> line_text sl' = take col (line_text (ls ! k))"
proof -
  define sl where "sl = ls ! k"
  have ok: "length (sl_data sl) = 1019" "0 \<le> sl_len sl" "sl_len sl \<le> 1019" using assms(3) by (auto simp: line_ok_def sl_def SCREEN_LINE_LEN_def)
  have le: "int col \<le> sl_len sl" using assms(5) ok by (simp add: line_text_def sl_def [symmetric])
  define sl' where "sl' = sl\<lparr>sl_len := int col\<rparr>"
  have "u16 (int col) = int col" using le ok by (simp add: u16_def)
  then have "end_line (int k) st =
      Some ((with_line st k sl' 0)\<lparr>scr := (scr (with_line st k sl' 0))\<lparr>sc_cur_ln := sc_cur_ln (scr st) + 1\<rparr>\<rparr>)"
    using assms(1,2,4,6) le
    by (simp add: end_line_def Let_def rdi_def rd_def wri_def wr_def set_line_at_def with_line_def sl'_def sl_def [symmetric])
  moreover have "line_ok sl'" using ok le by (simp add: line_ok_def sl'_def SCREEN_LINE_LEN_def)
  moreover have "line_text sl' = take col (line_text sl)" proof -
    have "col \<le> nat (sl_len sl)" using le by simp
    then show ?thesis by (simp add: line_text_def sl'_def min_absorb1)
  qed
  ultimately show ?thesis unfolding sl_def by blast
qed

text \<open>Text behind a line end is written over the line that was just ended.  Writing two lines at once from the
  first column leaves the second over the first; the next line of the screen, where the cursor is, stays as it was.\<close>

theorem screen_puts_newline:
  assumes "screen_ok (scr st)" and "sc_cur_ln (scr st) = int ln" and "ln < nat (sc_lines (scr st))"
    and "sc_cur_col (scr st) = 0" and "length xs \<le> SCREEN_LINE_LEN" and "length ys \<le> SCREEN_LINE_LEN"
    and "set (xs @ ys) \<inter> {10, 13} = {}" and "xs \<noteq> []" and "ys \<noteq> []"
  shows "\<exists>st'. screen_puts cs (xs @ 10 # ys) (length (xs @ 10 # ys)) st = Some st' \<and>
    screen_coordinates st' = (int ln + 1, int (length ys)) \<and>
    (\<forall>i < nat (sc_lines (scr st)). shown (scr st') i =
      (if i = ln then ys @ drop (length ys) xs else shown (scr st) i))"
proof -
  define k where "k = nat (line_index (scr st) (int ln))"
  obtain ls where ls: "sc_buf (scr st) = Some ls" "k < length ls" "line_ok (ls ! k)"
    using get_screen_line_ok [OF assms(1), of "int ln"] by (auto simp: k_def)
  have nl: "10 \<notin> set xs" "13 \<notin> set xs" "10 \<notin> set ys" "13 \<notin> set ys" using assms(7) by auto
  obtain sl1 where sl1: "puts_loop (int k) (xs @ 10 # ys) st = puts_loop (int k) (10 # ys) (with_line st k sl1 (int (0 + length xs)))"
    "line_ok sl1" "line_text sl1 = overlay 0 xs (line_text (ls ! k))"
    using puts_loop_text [OF ls, of 0 xs "10 # ys"] assms(4,5,8) nl by auto
  let ?s1 = "with_line st k sl1 (int (0 + length xs))"
  have t1: "line_text sl1 = xs @ drop (length xs) (line_text (ls ! k))" using sl1(3) by (simp add: overlay_def)
  have b1: "sc_buf (scr ?s1) = Some (ls[k := sl1])" "k < length (ls[k := sl1])" "ls[k := sl1] ! k = sl1" using ls by auto
  have ln1: "sc_cur_ln (scr ?s1) < sc_lines (scr ?s1)" "sc_cur_ln (scr ?s1) = int ln" using assms(2,3) by (auto simp: with_line_def)
  obtain sl2 where sl2: "end_line (int k) ?s1 =
      Some ((with_line ?s1 k sl2 0)\<lparr>scr := (scr (with_line ?s1 k sl2 0))\<lparr>sc_cur_ln := sc_cur_ln (scr ?s1) + 1\<rparr>\<rparr>)"
    "line_ok sl2" "line_text sl2 = take (0 + length xs) (line_text sl1)"
    using end_line_spec [OF b1(1,2), of "0 + length xs"] b1(3) sl1(2) t1 ln1(1) by auto
  define s2 where "s2 = (with_line ?s1 k sl2 0)\<lparr>scr := (scr (with_line ?s1 k sl2 0))\<lparr>sc_cur_ln := sc_cur_ln (scr ?s1) + 1\<rparr>\<rparr>"
  have b2: "sc_buf (scr s2) = Some (ls[k := sl2])" "k < length (ls[k := sl2])" "ls[k := sl2] ! k = sl2" "sc_cur_col (scr s2) = int 0"
    using ls by (auto simp: s2_def)
  have t2: "line_text sl2 = xs" using sl2(3) t1 by simp
  obtain sl3 where sl3: "puts_loop (int k) (ys @ []) s2 = puts_loop (int k) [] (with_line s2 k sl3 (int (0 + length ys)))"
    "line_ok sl3" "line_text sl3 = overlay 0 ys (line_text sl2)"
    using puts_loop_text [OF b2(1,2) _ b2(4), of ys "[]"] b2(3) sl2(2) assms(6,9) nl by auto
  let ?st' = "with_line s2 k sl3 (int (length ys))"
  have run: "screen_puts cs (xs @ 10 # ys) (length (xs @ 10 # ys)) st = Some ?st'"
    using screen_puts_start [OF assms(1,2), of "xs @ 10 # ys" cs] sl1(1) sl2(1) sl3(1) by (simp add: k_def [symmetric] s2_def)
  have same: "shown (scr ?st') i = shown (scr (with_line st k sl3 0)) i" for i
    by (simp add: shown_def get_screen_line_def line_index_def s2_def with_line_def ls(1))
  note w = with_line_shown [OF assms(1,3) k_def sl3(2) order_refl]
  have "\<forall>i < nat (sc_lines (scr st)). shown (scr ?st') i = (if i = ln then ys @ drop (length ys) xs else shown (scr st) i)"
    unfolding same using w(2,3) sl3(3) t2 by (simp add: overlay_def)
  moreover have "screen_coordinates ?st' = (int ln + 1, int (length ys))"
    using ln1 by (simp add: screen_coordinates_def s2_def with_line_def)
  ultimately show ?thesis using run by blast
qed

theorem screen_puts_newline_witness:
  "\<exists>st'. screen_puts \<lparr>u2g = ascii, g2u = ascii\<rparr> [97, 98, 99, 10, 100] 5 blank_tui = Some st' \<and>
    shown (scr st') 0 = [100, 98, 99] \<and> shown (scr st') 1 = []"
  using screen_puts_newline [OF blank_tui_ok, of 0 "[97, 98, 99]" "[100]" "\<lparr>u2g = ascii, g2u = ascii\<rparr>"]
    blank_tui_fields blank_tui_shown [of 1]
  by (auto simp: SCREEN_LINE_LEN_def numeral_2_eq_2 [symmetric])

end
