(* ===== verification/FB_Client.thy ===== *)
theory FB_Client
  imports FB_ScreenText
begin

text \<open>
  The other end of the line: a terminal that understands the control sequences the screen module sends.  The
  refinement at the end says that redrawing makes the client show what the screen buffer holds.
\<close>

section \<open>An ANSI terminal\<close>

record client =
  rows :: "nat \<Rightarrow> buf"
  cy :: nat
  cx :: nat

definition is_param :: "byte \<Rightarrow> bool" where
  "is_param c \<longleftrightarrow> 48 \<le> c \<and> c \<le> 59"

definition csi :: "buf \<Rightarrow> byte \<Rightarrow> client \<Rightarrow> client" where
  "csi ps f cl =
     (if f = 72 then
        (if ps = [] then cl\<lparr>cy := 0, cx := 0\<rparr>
         else cl\<lparr>cy := dec_value (takeWhile (\<lambda>c. c \<noteq> 59) ps) - 1, cx := dec_value (drop 1 (dropWhile (\<lambda>c. c \<noteq> 59) ps)) - 1\<rparr>)
      else if f = 74 then
        cl\<lparr>rows := (\<lambda>i. if i < cy cl then rows cl i else if i = cy cl then take (cx cl) (rows cl i) else [])\<rparr>
      else if f = 75 then cl\<lparr>rows := (rows cl)(cy cl := take (cx cl) (rows cl (cy cl)))\<rparr>
      else cl)"

definition show_char :: "byte \<Rightarrow> client \<Rightarrow> client" where
  "show_char c cl = cl\<lparr>rows := (rows cl)(cy cl := overlay (cx cl) [c] (rows cl (cy cl))), cx := Suc (cx cl)\<rparr>"

function client_run :: "buf \<Rightarrow> client \<Rightarrow> client" where
  "client_run [] cl = cl"
| "client_run (c # bs) cl =
     (if c = 27 then
        (case bs of
           [] \<Rightarrow> cl
         | d # r \<Rightarrow>
             if d = 91 then
               (case dropWhile is_param r of
                  [] \<Rightarrow> cl
                | f # r' \<Rightarrow> client_run r' (csi (takeWhile is_param r) f cl))
             else client_run r cl)
      else if c = 10 then client_run bs (cl\<lparr>cy := Suc (cy cl)\<rparr>)
      else if c = 13 then client_run bs (cl\<lparr>cx := 0\<rparr>)
      else if c = 8 then client_run bs (cl\<lparr>cx := cx cl - 1\<rparr>)
      else client_run bs (show_char c cl))"
  by pat_completeness auto
termination
proof (relation "measure (\<lambda>(bs, cl). length bs)", goal_cases)
  case (2 c bs cl d r f r')
  then show ?case using length_dropWhile_le [of is_param r] by simp
qed auto

declare client_run.simps(2) [simp del]

text \<open>The bytes \<open>em\<close> take the client from one state to another, whatever follows.\<close>

definition drives :: "buf \<Rightarrow> client \<Rightarrow> client \<Rightarrow> bool" where
  "drives em cl cl' \<longleftrightarrow> (\<forall>k. client_run (em @ k) cl = client_run k cl')"

lemma drives_run: "drives em cl cl' \<Longrightarrow> client_run em cl = cl'"
  by (metis append_Nil2 client_run.simps(1) drives_def)

lemma drives_Nil: "drives [] cl cl"
  by (simp add: drives_def)

lemma drives_append: "drives a cl cl' \<Longrightarrow> drives b cl' cl'' \<Longrightarrow> drives (a @ b) cl cl''"
  by (simp add: drives_def)

lemma drives_controls:
  "drives [10] cl (cl\<lparr>cy := Suc (cy cl)\<rparr>)" "drives [13] cl (cl\<lparr>cx := 0\<rparr>)" "drives [8] cl (cl\<lparr>cx := cx cl - 1\<rparr>)"
  by (simp_all add: drives_def client_run.simps)

text \<open>Characters that a terminal shows.\<close>

definition visible :: "byte \<Rightarrow> bool" where
  "visible c \<longleftrightarrow> 32 \<le> c"

lemma visible_plain: "visible c \<Longrightarrow> c \<noteq> 27 \<and> c \<noteq> 10 \<and> c \<noteq> 13 \<and> c \<noteq> 8"
  by (auto simp: visible_def)

lemma drives_text:
  assumes "\<forall>c\<in>set xs. visible c" and "cx cl \<le> length (rows cl (cy cl))"
  shows "drives xs cl (cl\<lparr>rows := (rows cl)(cy cl := overlay (cx cl) xs (rows cl (cy cl))), cx := cx cl + length xs\<rparr>)"
  using assms
proof (induction xs arbitrary: cl)
  case Nil
  then show ?case by (simp add: drives_def overlay_Nil)
next
  case (Cons c xs)
  let ?cl = "show_char c cl"
  have step: "drives [c] cl ?cl" using Cons.prems visible_plain by (simp add: drives_def client_run.simps)
  have "cx ?cl \<le> length (rows ?cl (cy ?cl))" by (simp add: show_char_def overlay_length)
  then have "drives xs ?cl (?cl\<lparr>rows := (rows ?cl)(cy ?cl := overlay (cx ?cl) xs (rows ?cl (cy ?cl))), cx := cx ?cl + length xs\<rparr>)"
    using Cons.prems(1) by (intro Cons.IH) simp_all
  from drives_append [OF step this] show ?case
    by (simp add: show_char_def overlay_Cons [of "cx cl" c xs] fun_upd_def cong: if_cong)
qed

section \<open>Cursor addresses\<close>

declare lit_append [simp] length_lit [simp] digits.simps [simp del]

lemma digits_length: "n < 1000 \<Longrightarrow> length (digits n) \<le> 3"
  by (simp add: digits.simps [of n] digits.simps [of "n div 10"] digits.simps [of "n div 10 div 10"])


definition address :: "nat \<Rightarrow> nat \<Rightarrow> buf" where
  "address line col = 27 # lit ''['' @ lit (digits (Suc line)) @ lit '';'' @ lit (digits (Suc col)) @ lit ''H''"

lemma lit_chars: "lit ''['' = [91]" "lit '';'' = [59]" "lit ''H'' = [72]" "lit ''J'' = [74]" "lit ''K'' = [75]"
  "lit ''[H'' = [91, 72]" "lit ''[J'' = [91, 74]" "lit ''[K'' = [91, 75]"
  by (simp_all add: lit_def)

lemma digits_param: "c \<in> set (lit (digits n)) \<Longrightarrow> is_param c \<and> c \<noteq> 59"
  using digits_bytes [of n] by (fastforce simp: is_param_def word_le_nat_alt)

lemma takeWhile_all: "\<forall>x\<in>set xs. P x \<Longrightarrow> \<not> P y \<Longrightarrow> takeWhile P (xs @ y # ys) = xs \<and> dropWhile P (xs @ y # ys) = y # ys"
  by (induction xs) auto

lemma drives_address: "drives (address line col) cl (cl\<lparr>cy := line, cx := col\<rparr>)"
proof -
  let ?a = "lit (digits (Suc line))" and ?b = "lit (digits (Suc col))"
  define ps where "ps = ?a @ 59 # ?b"
  have ps: "\<forall>c\<in>set ps. is_param c" "ps \<noteq> []" using digits_param by (auto simp: ps_def is_param_def)
  have f: "\<not> is_param 72" by (simp add: is_param_def)
  have split: "takeWhile (\<lambda>c. c \<noteq> 59) ps = ?a \<and> dropWhile (\<lambda>c. c \<noteq> 59) ps = 59 # ?b"
    unfolding ps_def by (rule takeWhile_all) (use digits_param in auto)
  have "client_run (address line col @ k) cl = client_run k (csi ps 72 cl)" for k
    using takeWhile_all [OF ps(1) f, of k] by (simp add: address_def lit_chars client_run.simps ps_def)
  moreover have "csi ps 72 cl = cl\<lparr>cy := line, cx := col\<rparr>" using split ps(2) by (simp add: csi_def dec_value_digits)
  ultimately show ?thesis by (simp add: drives_def)
qed

lemma drives_clear: "drives ANSI_CMD_CL cl (cl\<lparr>cy := 0, cx := 0, rows := (\<lambda>_. [])\<rparr>)"
  by (auto simp: drives_def ANSI_CMD_CL_def lit_chars client_run.simps is_param_def csi_def cong: if_cong)

lemma address_length: "line < 999 \<Longrightarrow> col < 999 \<Longrightarrow> length (address line col) \<le> 10"
  using digits_length [of "Suc line"] digits_length [of "Suc col"] by (simp add: address_def)

section \<open>Output that fits the buffer\<close>

definition push :: "buf \<Rightarrow> terminal \<Rightarrow> terminal" where
  "push em t =
     (let o' = output_buffer t in
      t\<lparr>output_buffer := o'\<lparr>out_ptr := take (out_size o') (out_ptr o') @ em @ drop (out_size o' + length em) (out_ptr o'),
        out_size := out_size o' + length em\<rparr>\<rparr>)"

definition room :: "terminal \<Rightarrow> nat \<Rightarrow> bool" where
  "room t n \<longleftrightarrow> out_ok t \<and> out_size (output_buffer t) + n < OUTPUT_BUFFER_SIZE"

lemma push_Nil [simp]: "push [] t = t"
  by (simp add: push_def Let_def)

lemma room_push: "room t (length em + n) \<Longrightarrow> room (push em t) n"
  by (simp add: room_def push_def out_ok_def Let_def)

lemma push_push: "room t (length a + length b) \<Longrightarrow> push b (push a t) = push (a @ b) t"
  by (simp add: room_def push_def out_ok_def Let_def ac_simps)

lemma written_push: "room t (length em) \<Longrightarrow> written (push em t) = written t @ em"
  by (simp add: room_def push_def out_ok_def written_def Let_def)

lemma room_mono: "room t n \<Longrightarrow> m \<le> n \<Longrightarrow> room t m"
  by (simp add: room_def)

lemma put_ch_push: "room (tty st) 1 \<Longrightarrow> put_ch c st = Some (st\<lparr>tty := push [word_of_int c] (tty st)\<rparr>)"
  by (simp add: put_ch_def on_term_def terminal_putchar_def put_raw_ch_def room_def out_ok_def Let_def wr_def push_def
      upd_conv_take_nth_drop)

lemma ansi_cmd_push: "room (tty st) (length em) \<Longrightarrow> ansi_cmd em st = Some (st\<lparr>tty := push em (tty st)\<rparr>)"
  by (auto simp: ansi_cmd_def on_term_def room_def out_ok_def terminal_write_cached.simps [of em] mem_write_def Let_def push_def)

lemma put_chars_push: "room (tty st) (length em) \<Longrightarrow> put_chars em st = Some (st\<lparr>tty := push em (tty st)\<rparr>)"
proof (induction em arbitrary: st)
  case (Cons c em)
  let ?st = "st\<lparr>tty := push [c] (tty st)\<rparr>"
  have "room (tty st) 1" using Cons.prems by (rule room_mono) simp
  moreover have "room (tty ?st) (length em)" using Cons.prems room_push [of "tty st" "[c]" "length em"] by simp
  ultimately show ?case using Cons.IH [of ?st] Cons.prems put_ch_push [of st "sint c"] push_push [of "tty st" "[c]" em] by simp
qed simp


section \<open>Moving the cursor of the client\<close>

lemma move_to_push:
  assumes "line < 999" and "col < 999" and "room (tty st) 10"
  shows "move_terminal_cursor_to (int col) (int line) st = Some (st\<lparr>tty := push (address line col) (tty st)\<rparr>)"
proof -
  have len: "length (address line col) \<le> 10" using assms(1,2) by (rule address_length)
  have d: "decimal (int n + 1) = lit (digits (Suc n))" for n
    by (simp add: decimal_def nat_add_distrib Suc_eq_plus1 [symmetric] del: Suc_eq_plus1)
  have "27 # lit ''['' @ decimal (int line + 1) @ lit '';'' @ decimal (int col + 1) @ lit ''H'' = address line col"
    by (simp only: d address_def)
  then have "move_terminal_cursor_to (int col) (int line) st = put_chars (address line col) st"
    using len by (simp add: move_terminal_cursor_to_def)
  then show ?thesis using put_chars_push [of st "address line col"] room_mono [OF assms(3) len] by simp
qed

definition at_cursor :: "client \<Rightarrow> screen_t \<Rightarrow> bool" where
  "at_cursor cl sc \<longleftrightarrow> sc_tc_line sc = int (cy cl) \<and> sc_tc_col sc = int (cx cl)"

lemma client_same:
  "cx cl = b \<Longrightarrow> cl\<lparr>cy := a, cx := b\<rparr> = cl\<lparr>cy := a\<rparr>" "cy cl = a \<Longrightarrow> cl\<lparr>cy := a, cx := b'\<rparr> = cl\<lparr>cx := b'\<rparr>"
  "cx cl = b \<Longrightarrow> cl\<lparr>cx := b\<rparr> = cl"
  by auto

lemma move_cursor_spec:
  assumes "int line < sc_lines (scr st)" and "int col < sc_columns (scr st)" and "sc_lines (scr st) \<le> 999" and "sc_columns (scr st) \<le> 999"
    and "room (tty st) 10" and "at_cursor cl (scr st)"
  shows "\<exists>em. move_terminal_cursor (int col) (int line) st =
      Some (st\<lparr>tty := push em (tty st), scr := (scr st)\<lparr>sc_tc_col := int col, sc_tc_line := int line\<rparr>\<rparr>) \<and>
    length em \<le> 10 \<and> drives em cl (cl\<lparr>cy := line, cx := col\<rparr>)"
proof -
  have r1: "room (tty st) 1" "room (tty st) 2" by (rule room_mono [OF assms(5)]; simp)+
  have tc: "sc_tc_line (scr st) = int (cy cl)" "sc_tc_col (scr st) = int (cx cl)" using assms(6) by (auto simp: at_cursor_def)
  have go: "move_terminal_cursor (int col) (int line) st = do {
      st \<leftarrow> (if col = 0 \<and> line = Suc (cy cl) then do { st \<leftarrow> put_ch 10 st; (if cx cl \<noteq> 0 then put_ch 13 st else Some st) }
        else if col = 0 \<and> line = cy cl then (if cx cl \<noteq> 0 then put_ch 13 st else Some st)
        else if Suc col = cx cl \<and> line = cy cl then put_ch 8 st
        else if col \<noteq> cx cl \<or> line \<noteq> cy cl then move_terminal_cursor_to (int col) (int line) st
        else Some st);
      Some (st\<lparr>scr := (scr st)\<lparr>sc_tc_col := int col, sc_tc_line := int line\<rparr>\<rparr>)
    }"
  proof -
    have "int line = int (cy cl) + 1 \<longleftrightarrow> line = Suc (cy cl)" "int col = int (cx cl) - 1 \<longleftrightarrow> Suc col = cx cl" by auto
    then show ?thesis using assms(1,2) by (simp add: move_terminal_cursor_def tc Let_def split del: if_split cong: if_cong)
  qed
  have ch: "put_ch c st' = Some (st'\<lparr>tty := push [word_of_int c] (tty st')\<rparr>)" if "room (tty st') 1" for c st'
    by (rule put_ch_push [OF that])
  have two: "put_ch 13 (st\<lparr>tty := push [10] (tty st)\<rparr>) = Some (st\<lparr>tty := push [10, 13] (tty st)\<rparr>)"
    using put_ch_push [of "st\<lparr>tty := push [10] (tty st)\<rparr>" 13] room_push [of "tty st" "[10]" 1] r1(2) push_push [of "tty st" "[10]" "[13]"]
    by (simp add: numeral_2_eq_2)
  have addr: "length (address line col) \<le> 10" using address_length assms(1-4) by simp
  consider (down) "col = 0" "line = Suc (cy cl)" | (home) "col = 0" "line = cy cl" | (left) "Suc col = cx cl" "line = cy cl"
    | (stay) "col = cx cl" "line = cy cl" | (far) "\<not> (col = 0 \<and> line = Suc (cy cl))" "\<not> (col = 0 \<and> line = cy cl)"
      "\<not> (Suc col = cx cl \<and> line = cy cl)" "col \<noteq> cx cl \<or> line \<noteq> cy cl" by blast
  then show ?thesis
  proof cases
    case down
    show ?thesis
    proof (cases "cx cl = 0")
      case True
      then show ?thesis
        using down go ch [of st 10] r1 drives_controls(1) [of cl]
        by (intro exI [of _ "[10]"]) (simp add: client_same(1))
    next
      case False
      then show ?thesis
        using down go ch [of st 10] r1 two drives_append [OF drives_controls(1) [of cl] drives_controls(2)]
        by (intro exI [of _ "[10, 13]"]) simp
    qed
  next
    case home
    show ?thesis
    proof (cases "cx cl = 0")
      case True
      then show ?thesis using home go drives_Nil [of cl] by (intro exI [of _ "[]"]) (simp add: client_same(3))
    next
      case False
      then show ?thesis
        using home go ch [of st 13] r1 drives_controls(2) [of cl] by (intro exI [of _ "[13]"]) (simp add: client_same(2))
    qed
  next
    case left
    have cl: "cl\<lparr>cy := line, cx := col\<rparr> = cl\<lparr>cx := cx cl - 1\<rparr>" using left(1) [symmetric] left(2) by (simp add: client_same(2))
    show ?thesis
    proof (cases "col = 0")
      case True
      then show ?thesis
        using left go ch [of st 13] r1 drives_controls(2) [of cl] by (intro exI [of _ "[13]"]) (simp add: client_same(2))
    next
      case False
      then show ?thesis
        unfolding cl using left go ch [of st 8] r1 drives_controls(3) [of cl] by (intro exI [of _ "[8]"]) simp
    qed
  next
    case stay
    then show ?thesis
      using go drives_Nil [of cl] by (intro exI [of _ "[]"]) (auto simp: client_same(3))
  next
    case far
    then show ?thesis
      using go move_to_push [of line col st] assms(1-5) addr drives_address [of line col cl]
      by (auto intro!: exI [of _ "address line col"] simp del: not_None_eq)
  qed
qed

end
