(* ===== verification/FB_Redraw.thy ===== *)
theory FB_Redraw
  imports FB_Client
begin

text \<open>
  Redrawing, end to end: from the lines of the screen buffer over the bytes in the output buffer to what the terminal
  of the client shows.
\<close>

text \<open>Lines of visible characters that end before the right margin, and the bytes that sending them takes.\<close>

definition drawable :: "screen_t \<Rightarrow> bool" where
  "drawable sc \<longleftrightarrow> sc_utf8 sc \<and> sc_columns sc \<le> 999 \<and>
     (\<forall>i < nat (sc_lines sc). (\<forall>c\<in>set (shown sc i). visible c) \<and> int (length (shown sc i)) < sc_columns sc)"

definition need :: "screen_t \<Rightarrow> nat list \<Rightarrow> nat" where
  "need sc is = sum_list (map (\<lambda>i. length (shown sc i) + 10) is)"

definition same_screen :: "screen_t \<Rightarrow> screen_t \<Rightarrow> bool" where
  "same_screen sc sc' \<longleftrightarrow> sc_lines sc' = sc_lines sc \<and> sc_columns sc' = sc_columns sc \<and> sc_utf8 sc' = sc_utf8 sc \<and>
     sc_cur_ln sc' = sc_cur_ln sc \<and> sc_cur_col sc' = sc_cur_col sc \<and> (\<forall>i < nat (sc_lines sc). shown sc' i = shown sc i)"

lemma same_screen_trans: "same_screen a b \<Longrightarrow> same_screen b c \<Longrightarrow> same_screen a c"
  by (simp add: same_screen_def)

lemma same_screen_refl [simp]: "same_screen a a"
  by (simp add: same_screen_def)

lemma same_screen_drawable: "same_screen a b \<Longrightarrow> drawable a \<Longrightarrow> drawable b"
  by (simp add: same_screen_def drawable_def)

lemma same_screen_need: "same_screen a b \<Longrightarrow> \<forall>i\<in>set is. i < nat (sc_lines a) \<Longrightarrow> need b is = need a is"
  by (auto simp: same_screen_def need_def intro!: arg_cong [of _ _ sum_list])

lemma tc_lines [simp]:
  "line_index (sc\<lparr>sc_tc_line := b\<rparr>) l = line_index sc l" "line_index (sc\<lparr>sc_tc_col := a\<rparr>) l = line_index sc l"
  by (simp_all add: line_index_def)

lemma tc_get [simp]:
  "get_screen_line l (sc\<lparr>sc_tc_line := b\<rparr>) = get_screen_line l sc"
  "get_screen_line l (sc\<lparr>sc_tc_col := a\<rparr>) = get_screen_line l sc"
  by (simp_all add: get_screen_line_def split: option.splits)

lemma tc_shown [simp]:
  "shown (sc\<lparr>sc_tc_line := b\<rparr>) i = shown sc i" "shown (sc\<lparr>sc_tc_col := a\<rparr>) i = shown sc i"
  by (simp_all add: shown_def)

lemma tc_screen_ok [simp]:
  "screen_ok (sc\<lparr>sc_tc_line := b\<rparr>) = screen_ok sc" "screen_ok (sc\<lparr>sc_tc_col := a\<rparr>) = screen_ok sc"
  by (simp_all add: screen_ok_def)

text \<open>Changing the flags of a line does not change what it shows.\<close>

lemma set_flags:
  assumes "screen_ok (scr st)" and "i < nat (sc_lines (scr st))" and "get_screen_line (int i) (scr st) = Some sl"
  shows "\<exists>st'. set_line_at (line_index (scr st) (int i)) (sl\<lparr>sl_modified := False, sl_old_len := n\<rparr>) st = Some st' \<and>
    screen_ok (scr st') \<and> same_screen (scr st) (scr st') \<and> tty st' = tty st \<and>
    sc_tc_line (scr st') = sc_tc_line (scr st) \<and> sc_tc_col (scr st') = sc_tc_col (scr st)"
proof -
  define k where "k = nat (line_index (scr st) (int i))"
  define sl' where "sl' = sl\<lparr>sl_modified := False, sl_old_len := n\<rparr>"
  obtain ls where ls: "sc_buf (scr st) = Some ls" "k < length ls" "line_ok sl" "sl = ls ! k"
    using get_screen_line_ok [OF assms(1), of "int i"] assms(3) by (auto simp: k_def)
  have idx: "line_index (scr st) (int i) = int k" using line_index_range(2) [OF assms(1), of "int i"] by (simp add: k_def)
  have col: "0 \<le> sc_cur_col (scr st)" using assms(1) by (simp add: screen_ok_def)
  let ?st' = "with_line st k sl' (sc_cur_col (scr st))"
  have "set_line_at (line_index (scr st) (int i)) sl' st = Some ?st'"
    using ls(1,2) by (simp add: set_line_at_def idx wri_def wr_def with_line_def)
  moreover have ok: "line_ok sl'" "line_text sl' = line_text sl" using ls(3) by (simp_all add: sl'_def line_ok_def line_text_def)
  note w = with_line_shown [OF assms(1,2) k_def ok(1) col]
  have "shown (scr st) i = line_text sl" using assms(3) by (simp add: shown_def)
  with w ok(2) have "\<forall>j < nat (sc_lines (scr st)). shown (scr ?st') j = shown (scr st) j" by metis
  then have "same_screen (scr st) (scr ?st')" by (simp add: same_screen_def with_line_def)
  ultimately show ?thesis using w(1) unfolding sl'_def by (auto simp: with_line_def)
qed

lemma redraw_line:
  assumes "screen_ok (scr st)" and "drawable (scr st)" and "sc_lines (scr st) \<le> 999" and "i < nat (sc_lines (scr st))"
    and "room (tty st) (length (shown (scr st) i) + 10)" and "at_cursor cl (scr st)" and "rows cl i = []"
    and "shown (scr st) i \<noteq> []"
  shows "\<exists>em st' cl'. redraw_loop cs (i # is) st = redraw_loop cs is st' \<and> tty st' = push em (tty st) \<and>
    length em \<le> length (shown (scr st) i) + 10 \<and> drives em cl cl' \<and> at_cursor cl' (scr st') \<and>
    rows cl' = (rows cl)(i := shown (scr st) i) \<and> screen_ok (scr st') \<and> same_screen (scr st) (scr st')"
proof -
  define xs where "xs = shown (scr st) i"
  obtain sl where sl: "get_screen_line (int i) (scr st) = Some sl" "line_ok sl"
    using get_screen_line_ok [OF assms(1), of "int i"] by auto
  have xs: "xs = line_text sl" "xs \<noteq> []" using sl(1) assms(8) by (auto simp: xs_def shown_def)
  have len: "sl_len sl = int (length xs)" "sl_len sl \<noteq> 0" using sl(2) xs by (auto simp: line_ok_def line_text_def)
  have read: "mem_read (sl_data sl) 0 (nat (sl_len sl)) = Some xs"
    using sl(2) xs(1) by (auto simp: mem_read_def line_ok_def line_text_def)
  have vis: "\<forall>c\<in>set xs. visible c" "int (length xs) < sc_columns (scr st)" "sc_utf8 (scr st)" "sc_columns (scr st) \<le> 999"
    using assms(2,4) by (auto simp: drawable_def xs_def)
  have col0: "int 0 < sc_columns (scr st)" using vis(2) by linarith
  have r10: "room (tty st) 10" using assms(5) by (rule room_mono) simp
  have i: "int i < sc_lines (scr st)" using assms(4) by linarith
  obtain em1 where mv: "move_terminal_cursor 0 (int i) st =
      Some (st\<lparr>tty := push em1 (tty st), scr := (scr st)\<lparr>sc_tc_col := 0, sc_tc_line := int i\<rparr>\<rparr>)"
    and em1: "length em1 \<le> 10" "drives em1 cl (cl\<lparr>cy := i, cx := 0\<rparr>)"
    using move_cursor_spec [OF i col0 assms(3) vis(4) r10 assms(6)] by auto
  define st1 where "st1 = st\<lparr>tty := push em1 (tty st), scr := (scr st)\<lparr>sc_tc_col := 0, sc_tc_line := int i\<rparr>\<rparr>"
  have room1: "room (tty st1) (length xs)"
    using room_push [of "tty st" em1 "length xs"] room_mono [OF assms(5), of "length em1 + length xs"] em1(1) by (simp add: st1_def xs_def)
  have buf: "sc_buf (scr st) \<noteq> None" using assms(1) by (auto simp: screen_ok_def)
  have wr: "screen_write_cached cs xs (sc_utf8 (scr st1)) st1 = Some (st1\<lparr>tty := push xs (tty st1)\<rparr>)"
    using ansi_cmd_push [OF room1] vis(3) buf by (auto simp: screen_write_cached_def write_helper_def st1_def)
  define st2 where "st2 = st1\<lparr>tty := push xs (tty st1), scr := (scr st1)\<lparr>sc_tc_col := int (length xs)\<rparr>\<rparr>"
  have st2: "screen_ok (scr st2)" "same_screen (scr st) (scr st2)" "get_screen_line (int i) (scr st2) = Some sl" "i < nat (sc_lines (scr st2))"
    using assms(1,4) sl(1) by (auto simp: st2_def st1_def same_screen_def)
  have tty2: "tty st2 = push (em1 @ xs) (tty st)"
    using push_push [of "tty st" em1 xs] room_mono [OF assms(5)] em1(1) by (simp add: st2_def st1_def xs_def)
  obtain st3 where set: "set_line_at (line_index (scr st2) (int i)) (sl\<lparr>sl_modified := False, sl_old_len := sl_len sl\<rparr>) st2 = Some st3"
    and st3: "screen_ok (scr st3)" "same_screen (scr st2) (scr st3)" "tty st3 = tty st2"
      "sc_tc_line (scr st3) = int i" "sc_tc_col (scr st3) = int (length xs)"
    using set_flags [OF st2(1,4,3), of "sl_len sl"] by (auto simp: st2_def st1_def)
  have run: "redraw_loop cs (i # is) st = redraw_loop cs is st3"
    using sl(1) len mv read wr set vis(2)
    by (simp add: st1_def [symmetric]) (simp add: st2_def st1_def)
  define cl' where "cl' = cl\<lparr>cy := i, rows := (rows cl)(i := xs), cx := length xs\<rparr>"
  have "drives xs (cl\<lparr>cy := i, cx := 0\<rparr>) cl'"
    using drives_text [OF vis(1), of "cl\<lparr>cy := i, cx := 0\<rparr>"] assms(7) by (simp add: cl'_def overlay_def)
  then have "drives (em1 @ xs) cl cl'" by (rule drives_append [OF em1(2)])
  then show ?thesis
    using run tty2 st3 em1(1) same_screen_trans [OF st2(2) st3(2)]
    by (intro exI [of _ "em1 @ xs"] exI [of _ st3] exI [of _ cl']) (simp add: xs_def [symmetric] cl'_def at_cursor_def)
qed

lemma redraw_step:
  assumes "screen_ok (scr st)" and "drawable (scr st)" and "sc_lines (scr st) \<le> 999" and "i < nat (sc_lines (scr st))"
    and "room (tty st) (length (shown (scr st) i) + 10)" and "at_cursor cl (scr st)" and "rows cl i = []"
  shows "\<exists>em st' cl'. redraw_loop cs (i # is) st = redraw_loop cs is st' \<and> tty st' = push em (tty st) \<and>
    length em \<le> length (shown (scr st) i) + 10 \<and> drives em cl cl' \<and> at_cursor cl' (scr st') \<and>
    rows cl' = (rows cl)(i := shown (scr st) i) \<and> screen_ok (scr st') \<and> same_screen (scr st) (scr st')"
proof (cases "shown (scr st) i = []")
  case True
  obtain sl where sl: "get_screen_line (int i) (scr st) = Some sl" "line_ok sl"
    using get_screen_line_ok [OF assms(1), of "int i"] by auto
  have "sl_len sl = 0" using True sl by (auto simp: shown_def line_text_def line_ok_def)
  then have "redraw_loop cs (i # is) st = redraw_loop cs is st" using sl(1) by simp
  moreover have "(rows cl)(i := []) = rows cl" using assms(7) by auto
  ultimately show ?thesis
    using True assms(1,6) drives_Nil by (intro exI [of _ "[]"] exI [of _ st] exI [of _ cl]) simp
next
  case False
  then show ?thesis by (rule redraw_line [OF assms])
qed

lemma need_upt: "i < n \<Longrightarrow> need sc [i..<n] = length (shown sc i) + 10 + need sc [Suc i..<n]"
  by (simp add: need_def upt_conv_Cons)

lemma redraw_loop_spec:
  assumes "screen_ok (scr st)" and "drawable (scr st)" and "sc_lines (scr st) \<le> 999" and "n = nat (sc_lines (scr st))" and "i \<le> n"
    and "room (tty st) (need (scr st) [i..<n])" and "at_cursor cl (scr st)" and "rows cl = (\<lambda>j. if j < i then shown (scr st) j else [])"
  shows "\<exists>em st' cl'. redraw_loop cs [i..<n] st = Some st' \<and> tty st' = push em (tty st) \<and> length em \<le> need (scr st) [i..<n] \<and>
    drives em cl cl' \<and> at_cursor cl' (scr st') \<and> rows cl' = (\<lambda>j. if j < n then shown (scr st) j else []) \<and>
    screen_ok (scr st') \<and> same_screen (scr st) (scr st')"
  using assms
proof (induction "n - i" arbitrary: i st cl)
  case 0
  then have "[i..<n] = []" "i = n" by simp_all
  then show ?case using 0 drives_Nil by (intro exI [of _ "[]"] exI [of _ st] exI [of _ cl]) simp
next
  case (Suc k)
  have i: "i < n" "i < nat (sc_lines (scr st))" using Suc.hyps(2) Suc.prems(4) by simp_all
  note nd = need_upt [OF i(1)]
  have r: "room (tty st) (length (shown (scr st) i) + 10)" using Suc.prems(6) by (rule room_mono) (simp add: nd)
  have row: "rows cl i = []" using Suc.prems(8) by simp
  obtain em st1 cl1 where one: "redraw_loop cs (i # [Suc i..<n]) st = redraw_loop cs [Suc i..<n] st1" "tty st1 = push em (tty st)"
      "length em \<le> length (shown (scr st) i) + 10" "drives em cl cl1" "at_cursor cl1 (scr st1)"
      "rows cl1 = (rows cl)(i := shown (scr st) i)" "screen_ok (scr st1)" "same_screen (scr st) (scr st1)"
    using redraw_step [OF Suc.prems(1-3) i(2) r Suc.prems(7) row, of cs "[Suc i..<n]"] by blast
  have sh: "shown (scr st1) j = shown (scr st) j" if "j < n" for j using one(8) that Suc.prems(4) by (simp add: same_screen_def)
  have lines: "sc_lines (scr st1) = sc_lines (scr st)" using one(8) by (simp add: same_screen_def)
  have nd1: "need (scr st1) [Suc i..<n] = need (scr st) [Suc i..<n]"
    using same_screen_need [OF one(8), of "[Suc i..<n]"] Suc.prems(4) by simp
  have rm: "room (tty st) (length em + need (scr st) [Suc i..<n])" using Suc.prems(6) by (rule room_mono) (use one(3) nd in simp)
  have "rows cl1 = (\<lambda>j. if j < Suc i then shown (scr st1) j else [])"
    using sh i(1) by (auto simp: one(6) Suc.prems(8) less_Suc_eq)
  moreover have "room (tty st1) (need (scr st1) [Suc i..<n])" using room_push [OF rm] by (simp add: one(2) nd1)
  moreover have "drawable (scr st1)" using same_screen_drawable [OF one(8) Suc.prems(2)] .
  moreover have "k = n - Suc i" "n = nat (sc_lines (scr st1))" "Suc i \<le> n" "sc_lines (scr st1) \<le> 999"
    using Suc.hyps(2) Suc.prems(3,4) i(1) lines by simp_all
  ultimately obtain em2 st2 cl2 where two: "redraw_loop cs [Suc i..<n] st1 = Some st2" "tty st2 = push em2 (tty st1)"
      "length em2 \<le> need (scr st1) [Suc i..<n]" "drives em2 cl1 cl2" "at_cursor cl2 (scr st2)"
      "rows cl2 = (\<lambda>j. if j < n then shown (scr st1) j else [])" "screen_ok (scr st2)" "same_screen (scr st1) (scr st2)"
    using Suc.hyps(1) [of "Suc i" st1 cl1] one(5,7) by blast
  have "tty st2 = push (em @ em2) (tty st)"
    using push_push [of "tty st" em em2] room_mono [OF rm, of "length em + length em2"] two(2,3) one(2) nd1 by simp
  moreover have "rows cl2 = (\<lambda>j. if j < n then shown (scr st) j else [])" using sh by (auto simp: two(6))
  moreover have "redraw_loop cs [i..<n] st = Some st2" using one(1) two(1) i(1) by (simp add: upt_conv_Cons)
  ultimately show ?case
    using drives_append [OF one(4) two(4)] same_screen_trans [OF one(8) two(8)] two(3,5,7) one(3) nd nd1
    by (intro exI [of _ "em @ em2"] exI [of _ st2] exI [of _ cl2]) simp
qed

lemma flush_sends: "room (tty st) 0 \<Longrightarrow>
  \<exists>t. on_term (\<lambda>t. map_option snd (terminal_flush t)) st = Some (st\<lparr>tty := t\<rparr>) \<and> sent t = written (tty st)"
  using terminal_flush_spec [of "tty st"] by (auto simp: room_def on_term_def)

lemma screen_redraw_spec:
  assumes "screen_ok (scr st)" and "drawable (scr st)" and "sc_cur_ln (scr st) < sc_lines (scr st)"
    and "sc_cur_col (scr st) < sc_columns (scr st)"
    and "room (tty st) (need (scr st) [0..<nat (sc_lines (scr st))] + 16)"
  shows "\<exists>st' em. screen_redraw cs st = Some st' \<and> sent (tty st') = written (tty st) @ em \<and>
    (\<forall>cl. client_run em cl = \<lparr>rows = (\<lambda>i. if i < nat (sc_lines (scr st)) then shown (scr st) i else []),
       cy = nat (sc_cur_ln (scr st)), cx = nat (sc_cur_col (scr st))\<rparr>)"
proof -
  define n where "n = nat (sc_lines (scr st))"
  define N where "N = need (scr st) [0..<n]"
  define cl0 where "cl0 = \<lparr>rows = (\<lambda>_. []), cy = 0, cx = 0 :: nat\<rparr>"
  have l999: "sc_lines (scr st) \<le> 999" and pos: "0 \<le> sc_cur_ln (scr st)" "0 \<le> sc_cur_col (scr st)"
    and buf: "\<exists>ls. sc_buf (scr st) = Some ls" using assms(1) by (auto simp: screen_ok_def MAX_SCREEN_LINES_def)
  have c999: "sc_columns (scr st) \<le> 999" using assms(2) by (simp add: drawable_def)
  have cl6: "length ANSI_CMD_CL = 6" by (simp add: ANSI_CMD_CL_def)
  have R: "room (tty st) (length ANSI_CMD_CL + (N + 10))" using assms(5) by (simp add: cl6 n_def [symmetric] N_def add.commute)
  define t1 where "t1 = push ANSI_CMD_CL (tty st)"
  define st1 where "st1 = st\<lparr>tty := t1, scr := (scr st)\<lparr>sc_tc_col := 0, sc_tc_line := 0\<rparr>\<rparr>"
  have cmd: "ansi_cmd ANSI_CMD_CL st = Some (st\<lparr>tty := t1\<rparr>)" unfolding t1_def by (rule ansi_cmd_push) (rule room_mono [OF R], simp)
  have c0: "drives ANSI_CMD_CL cl cl0" for cl
    using drives_clear [of cl] by (cases cl) (simp add: cl0_def)
  have s1: "screen_ok (scr st1)" "drawable (scr st1)" "sc_lines (scr st1) = sc_lines (scr st)" "at_cursor cl0 (scr st1)"
    "rows cl0 = (\<lambda>j. if j < 0 then shown (scr st1) j else [])" "same_screen (scr st) (scr st1)"
    using assms(1,2) by (simp_all add: st1_def drawable_def at_cursor_def cl0_def same_screen_def)
  have room1: "room (tty st1) (N + 10)" using room_push [OF R] by (simp add: st1_def t1_def)
  have N1: "need (scr st1) [0..<n] = N" using same_screen_need [OF s1(6), of "[0..<n]"] by (simp add: N_def n_def)
  have roomN: "room (tty st1) (need (scr st1) [0..<n])" using room1 by (rule room_mono) (simp add: N1)
  obtain em st2 cl2 where lp: "redraw_loop cs [0..<n] st1 = Some st2" "tty st2 = push em (tty st1)" "length em \<le> N"
      "drives em cl0 cl2" "at_cursor cl2 (scr st2)" "rows cl2 = (\<lambda>j. if j < n then shown (scr st1) j else [])"
      "screen_ok (scr st2)" "same_screen (scr st1) (scr st2)"
    using redraw_loop_spec [OF s1(1,2) _ _ _ roomN s1(4,5), of cs] l999 s1(3) N1 by (auto simp: n_def)
  note ss = same_screen_trans [OF s1(6) lp(8)]
  have fields: "sc_lines (scr st2) = sc_lines (scr st)" "sc_columns (scr st2) = sc_columns (scr st)"
    "sc_cur_ln (scr st2) = sc_cur_ln (scr st)" "sc_cur_col (scr st2) = sc_cur_col (scr st)" using ss by (simp_all add: same_screen_def)
  have roomc: "room (tty st2) 10"
    unfolding lp(2) by (rule room_push, rule room_mono [OF room1]) (use lp(3) in simp)
  obtain em2 where mv: "move_terminal_cursor (sc_cur_col (scr st)) (sc_cur_ln (scr st)) st2 =
      Some (st2\<lparr>tty := push em2 (tty st2), scr := (scr st2)\<lparr>sc_tc_col := sc_cur_col (scr st), sc_tc_line := sc_cur_ln (scr st)\<rparr>\<rparr>)"
    and em2: "length em2 \<le> 10" "drives em2 cl2 (cl2\<lparr>cy := nat (sc_cur_ln (scr st)), cx := nat (sc_cur_col (scr st))\<rparr>)"
    using move_cursor_spec [of "nat (sc_cur_ln (scr st))" st2 "nat (sc_cur_col (scr st))" cl2] assms(3,4) pos l999 c999 roomc lp(5) fields
    by auto
  define st3 where "st3 = st2\<lparr>tty := push em2 (tty st2), scr := (scr st2)\<lparr>sc_tc_col := sc_cur_col (scr st),
    sc_tc_line := sc_cur_ln (scr st), sc_redraw := False, sc_scrollcnt := 0\<rparr>\<rparr>"
  define out where "out = ANSI_CMD_CL @ em @ em2"
  have R3: "room (tty st) (length out)" using R by (rule room_mono) (use lp(3) em2(1) in \<open>simp add: out_def\<close>)
  have t3: "tty st3 = push out (tty st)"
    using push_push [of "tty st" ANSI_CMD_CL "em @ em2"] push_push [of "tty st1" em em2] room_mono [OF room1, of "length em + length em2"]
      R3 lp(2,3) em2(1) by (simp add: st3_def out_def st1_def t1_def)
  have "room (tty st3) 0" using room_push [of "tty st" out 0] R3 by (simp add: t3)
  then obtain t where fl: "on_term (\<lambda>t. map_option snd (terminal_flush t)) st3 = Some (st3\<lparr>tty := t\<rparr>)" "sent t = written (tty st3)"
    using flush_sends [of st3] by auto
  have "screen_redraw cs st = Some (st3\<lparr>tty := t\<rparr>)"
    using buf cmd lp(1) mv fl(1) fields s1(3)
    by (auto simp: screen_redraw_def Let_def st1_def [symmetric] n_def [symmetric] st3_def)
  moreover have "sent t = written (tty st) @ out" using fl(2) written_push [OF R3] by (simp add: t3)
  moreover have "client_run out cl = \<lparr>rows = (\<lambda>i. if i < n then shown (scr st) i else []),
       cy = nat (sc_cur_ln (scr st)), cx = nat (sc_cur_col (scr st))\<rparr>" for cl
    using drives_run [OF drives_append [OF c0 [of cl] drives_append [OF lp(4) em2(2)]]] lp(6) s1(6)
    by (cases cl2) (auto simp: out_def same_screen_def n_def)
  ultimately show ?thesis by (intro exI [of _ "st3\<lparr>tty := t\<rparr>"] exI [of _ out]) (simp add: n_def [symmetric])
qed


text \<open>A screen that says hello on its third line.\<close>

definition hello_tui :: tui where
  "hello_tui = blank_tui\<lparr>scr := (scr blank_tui)\<lparr>sc_utf8 := True, sc_cur_ln := 2, sc_cur_col := 5,
     sc_buf := Some ((replicate 24 \<lparr>sl_old_len = 0, sl_len = 0, sl_modified = False, sl_data = replicate SCREEN_LINE_LEN 0\<rparr>)
       [2 := \<lparr>sl_old_len = 0, sl_len = 5, sl_modified = True, sl_data = [104, 101, 108, 108, 111] @ replicate 1014 0\<rparr>])\<rparr>\<rparr>"

lemma hello_tui_shown: "i < 24 \<Longrightarrow> shown (scr hello_tui) i = (if i = 2 then [104, 101, 108, 108, 111] else [])"
  by (auto simp: hello_tui_def blank_tui_def screen_start_def shown_def get_screen_line_def line_index_def c_mod_nonneg
      rdi_def rd_def nth_list_update line_text_def)

lemma hello_tui_ok: "screen_ok (scr hello_tui)" "drawable (scr hello_tui)" "room (tty hello_tui) (need (scr hello_tui) [0..<24] + 16)"
proof -
  have "need (scr hello_tui) [0..<24] = sum_list (map (\<lambda>i. (if i = 2 then 5 else 0) + 10) [0..<24])"
    unfolding need_def by (rule arg_cong [of _ _ sum_list]) (simp add: hello_tui_shown)
  also have "\<dots> = 245" by (simp add: upt_rec)
  finally have "need (scr hello_tui) [0..<24] = 245" .
  then show "room (tty hello_tui) (need (scr hello_tui) [0..<24] + 16)"
    by (simp add: room_def hello_tui_def blank_tui_def OUTPUT_BUFFER_SIZE_def) (simp add: fresh_terminal_def)
  have "set (xs[i := x]) \<subseteq> insert x (set xs)" for xs :: "screen_line_t list" and i x by (rule set_update_subset_insert)
  then show "screen_ok (scr hello_tui)"
    by (fastforce simp: hello_tui_def blank_tui_def screen_start_def screen_ok_def line_ok_def MIN_SCREEN_LINES_def
        MAX_SCREEN_LINES_def SCREEN_LINE_LEN_def)
  have "sc_utf8 (scr hello_tui)" "sc_columns (scr hello_tui) = 255" "sc_lines (scr hello_tui) = 24"
    by (simp_all add: hello_tui_def blank_tui_def screen_start_def)
  then show "drawable (scr hello_tui)" by (auto simp: drawable_def hello_tui_shown visible_def)
qed


end
