(* ===== verification/FB_Time.thy ===== *)
theory FB_Time
  imports FB_Helper
begin

text \<open>
  Dates, \<open>lib/time.c\<close>.  The time zone belongs to the system: \<open>localtime\<close> and \<open>mktime\<close> are the two fields
  of a \<open>clock\<close>.  Broken-down times have the fields of the C structure, with the zone offset in seconds.
\<close>

type_synonym fb_time_t = u32

record tm =
  tm_sec :: int
  tm_min :: int
  tm_hour :: int
  tm_mday :: int
  tm_mon :: int
  tm_year :: int
  tm_wday :: int
  tm_gmtoff :: int

text \<open>\<open>mktime\<close> takes year, month, day, hour, minute and second.\<close>

record clock =
  localtime :: "int \<Rightarrow> tm"
  mktime :: "int \<Rightarrow> int \<Rightarrow> int \<Rightarrow> int \<Rightarrow> int \<Rightarrow> int \<Rightarrow> int"

datatype time_format_e =
  TIME_FORMAT_ZH | TIME_FORMAT_UTF8_ZH | TIME_FORMAT_EN | TIME_FORMAT_SHORT | TIME_FORMAT_XML | TIME_FORMAT_RSS

definition fb_localtime :: "clock \<Rightarrow> fb_time_t \<Rightarrow> tm" where
  "fb_localtime ck t = localtime ck (uint t)"

definition weeknum :: "buf list" where
  "weeknum = [[0xcc, 0xec], [0xd2, 0xbb], [0xb6, 0xfe], [0xc8, 0xfd], [0xcb, 0xc4], [0xce, 0xe5], [0xc1, 0xf9]]"

definition utf8_weeknum :: "buf list" where
  "utf8_weeknum = [[0xe5, 0xa4, 0xa9], [0xe4, 0xb8, 0x80], [0xe4, 0xba, 0x8c], [0xe4, 0xb8, 0x89],
     [0xe5, 0x9b, 0x9b], [0xe4, 0xba, 0x94], [0xe5, 0x85, 0xad]]"

definition day_abbr :: "string list" where
  "day_abbr = [''Sun'', ''Mon'', ''Tue'', ''Wed'', ''Thu'', ''Fri'', ''Sat'']"

definition month_abbr :: "string list" where
  "month_abbr = [''Jan'', ''Feb'', ''Mar'', ''Apr'', ''May'', ''Jun'', ''Jul'', ''Aug'', ''Sep'', ''Oct'', ''Nov'', ''Dec'']"

text \<open>The conversions of \<open>strftime\<close> and \<open>printf\<close> that the formats use.\<close>

abbreviation d2 :: "int \<Rightarrow> buf" where
  "d2 n \<equiv> decimal_width 2 CHR ''0'' n"

definition d4 :: "int \<Rightarrow> buf" where
  "d4 n = decimal_width 4 CHR '' '' n"

definition clock_part :: "tm \<Rightarrow> buf" where
  "clock_part t = d2 (tm_hour t) @ lit '':'' @ d2 (tm_min t) @ lit '':'' @ d2 (tm_sec t)"

definition zone_part :: "tm \<Rightarrow> buf" where
  "zone_part t =
     (let m = \<bar>tm_gmtoff t\<bar> div 60 in
      lit (if tm_gmtoff t < 0 then ''-'' else ''+'') @ d2 (m div 60) @ d2 (m mod 60))"

text \<open>
  \<open>snprintf\<close> cuts the text to the buffer of 36 bytes; \<open>strftime\<close> leaves the buffer unspecified when the text
  does not fit.
\<close>

definition fit_cut :: "buf \<Rightarrow> buf option" where
  "fit_cut s = Some (take 35 s)"

definition fit_whole :: "buf \<Rightarrow> buf option" where
  "fit_whole s = (if length s < 36 then Some s else None)"

definition format_time :: "clock \<Rightarrow> fb_time_t \<Rightarrow> time_format_e \<Rightarrow> buf option" where
  "format_time ck time fmt =
     (let t = fb_localtime ck time in
      case fmt of
        TIME_FORMAT_ZH \<Rightarrow> do {
          w \<leftarrow> rdi weeknum (tm_wday t);
          fit_cut (d4 (tm_year t + 1900) @ [0xc4, 0xea] @ d2 (tm_mon t + 1) @ [0xd4, 0xc2] @ d2 (tm_mday t) @ [0xc8, 0xd5] @
            clock_part t @ lit '' '' @ [0xd0, 0xc7, 0xc6, 0xda] @ w)
        }
      | TIME_FORMAT_UTF8_ZH \<Rightarrow> do {
          w \<leftarrow> rdi utf8_weeknum (tm_wday t);
          fit_cut (d4 (tm_year t + 1900) @ [0xe5, 0xb9, 0xb4] @ d2 (tm_mon t + 1) @ [0xe6, 0x9c, 0x88] @ d2 (tm_mday t) @
            [0xe6, 0x97, 0xa5] @ clock_part t @ lit '' '' @ [0xe6, 0x98, 0x9f, 0xe6, 0x9c, 0x9f] @ w)
        }
      | TIME_FORMAT_EN \<Rightarrow>
          fit_whole (d2 (tm_mon t + 1) @ lit ''/'' @ d2 (tm_mday t) @ lit ''/'' @ decimal (tm_year t + 1900) @ lit '' '' @ clock_part t)
      | TIME_FORMAT_SHORT \<Rightarrow>
          fit_whole (d2 (tm_mon t + 1) @ lit ''.'' @ d2 (tm_mday t) @ lit '' '' @ d2 (tm_hour t) @ lit '':'' @ d2 (tm_min t))
      | TIME_FORMAT_RSS \<Rightarrow> do {
          w \<leftarrow> rdi day_abbr (tm_wday t);
          m \<leftarrow> rdi month_abbr (tm_mon t);
          fit_whole (lit w @ lit '','' @ d2 (tm_mday t) @ lit '' '' @ lit m @ lit '' '' @ decimal (tm_year t + 1900) @ lit '' '' @
            clock_part t @ lit '' '' @ zone_part t)
        }
      | TIME_FORMAT_XML \<Rightarrow>
          fit_whole (decimal (tm_year t + 1900) @ lit ''-'' @ d2 (tm_mon t + 1) @ lit ''-'' @ d2 (tm_mday t) @ lit ''T'' @ clock_part t))"

definition valid_date :: "int \<Rightarrow> int \<Rightarrow> int \<Rightarrow> bool" where
  "valid_date year month day =
     (if month < 1 \<or> month > 12 then False
      else
        let days =
          (if month = 2 then
             (if c_mod year 4 = 0 \<and> \<not> (c_mod year 100 = 0 \<and> c_mod year 400 \<noteq> 0) then 29 else 28)
           else if month = 4 \<or> month = 6 \<or> month = 9 \<or> month = 11 then 30
           else 31) in
        if day < 1 \<or> day > days then False else True)"

section \<open>The calendar\<close>

text \<open>
  The day number of the first of a month, by the closed formula for years that begin in March: 365 days a year and
  the leap days up to it, and 153 days for every five months.
\<close>

definition leaps :: "int \<Rightarrow> int" where
  "leaps y = y div 4 - y div 100 + y div 400"

definition month_start :: "int \<Rightarrow> int \<Rightarrow> int" where
  "month_start y m =
     (let y' = (if m > 2 then y else y - 1); k = (if m > 2 then m - 3 else m + 9) in
      365 * y' + leaps y' + (153 * k + 2) div 5)"

definition next_start :: "int \<Rightarrow> int \<Rightarrow> int" where
  "next_start y m = (if m = 12 then month_start (y + 1) 1 else month_start y (m + 1))"

lemma c_mod_zero:
  assumes "0 < b"
  shows "c_mod a b = 0 \<longleftrightarrow> b dvd a"
proof (cases "0 \<le> a")
  case True
  then show ?thesis using assms by (simp add: c_mod_nonneg dvd_eq_mod_eq_0)
next
  case False
  then have "c_mod a b = - ((- a) mod b)"
    using assms by (simp add: c_mod_def c_div_def minus_div_mult_eq_mod [symmetric])
  also have "\<dots> = 0 \<longleftrightarrow> b dvd - a" by (simp only: mod_eq_0_iff_dvd neg_equal_0_iff_equal)
  finally show ?thesis by simp
qed

lemma leap_days:
  assumes "1 < n"
  shows "(y :: int) div n - (y - 1) div n = (if n dvd y then 1 else 0)"
proof (cases "n dvd y")
  case True
  then obtain k where y: "y = n * k" by blast
  have "(y - 1) div n = k - 1" by (rule int_div_pos_eq [where r = "n - 1"]) (use y assms in \<open>simp_all add: algebra_simps\<close>)
  then show ?thesis using y assms by simp
next
  case False
  then have "0 < y mod n" using assms by (simp add: dvd_eq_mod_eq_0 order_less_le)
  moreover have "y mod n < n" using assms by simp
  ultimately have "(y - 1) div n = y div n"
    by (intro int_div_pos_eq [where r = "y mod n - 1"]) (auto simp: algebra_simps)
  then show ?thesis using False by simp
qed

text \<open>The lengths of the months in the closed formula.\<close>

lemma month_lengths:
  "next_start y m - month_start y m =
     (if m = 2 then if 4 dvd y \<and> (100 dvd y \<longrightarrow> 400 dvd y) then 29 else 28
      else if m = 4 \<or> m = 6 \<or> m = 9 \<or> m = 11 then 30 else 31)"
  if "1 \<le> m" "m \<le> 12"
proof -
  have "m = 1 \<or> m = 2 \<or> m = 3 \<or> m = 4 \<or> m = 5 \<or> m = 6 \<or> m = 7 \<or> m = 8 \<or> m = 9 \<or> m = 10 \<or> m = 11 \<or> m = 12"
    using that by presburger
  moreover have "leaps y - leaps (y - 1) = (if 4 dvd y \<and> (100 dvd y \<longrightarrow> 400 dvd y) then 1 else 0)"
  proof -
    have l: "y div 4 - (y - 1) div 4 = (if 4 dvd y then 1 else 0)" "y div 100 - (y - 1) div 100 = (if 100 dvd y then 1 else 0)"
      "y div 400 - (y - 1) div 400 = (if 400 dvd y then 1 else 0)" by (rule leap_days; simp)+
    have "leaps y - leaps (y - 1) = (y div 4 - (y - 1) div 4) - (y div 100 - (y - 1) div 100) + (y div 400 - (y - 1) div 400)"
      by (simp only: leaps_def algebra_simps)
    moreover have "400 dvd y \<Longrightarrow> 100 dvd y" "100 dvd y \<Longrightarrow> 4 dvd y"
      using dvd_trans [of 100 400 y] dvd_trans [of 4 100 y] by simp_all
    ultimately show ?thesis unfolding l by (cases "4 dvd y"; cases "100 dvd y"; cases "400 dvd y") simp_all
  qed
  ultimately show ?thesis
    by (elim disjE) (simp_all add: next_start_def month_start_def Let_def)
qed

text \<open>Claim C29: a date is accepted exactly when its day number lies between the first of its month and the first of
  the next, for every year, negative ones included.\<close>

theorem valid_date_calendar:
  "valid_date y m d \<longleftrightarrow> m \<in> {1..12} \<and> month_start y m + (d - 1) \<in> {month_start y m..<next_start y m}"
proof (cases "1 \<le> m \<and> m \<le> 12")
  case True
  then show ?thesis
    using month_lengths [of m y] by (auto simp: valid_date_def c_mod_zero Let_def)
qed (auto simp: valid_date_def)

end
