(* ===== verification/FB_Markup.thy ===== *)
theory FB_Markup
  imports FB_Time FB_Convert
begin

text \<open>
  Posts on the web, \<open>fcgi/parse.c\<close>: a post is text with a header of three lines, ANSI colours, quotes, links and a
  signature, and is printed as XML.  Positions are indices into the buffer that holds the post; the text that a
  function prints is part of its result.  Loops that compare a pointer with the end by \<open>!=\<close> run on when they start
  behind it, and then leave the buffer.
\<close>

text \<open>The request and its surroundings: whether the client wants UTF-8, the table for GBK, the clock.\<close>

record web =
  req_utf8 :: bool
  web_u2g :: charset
  web_clock :: clock

definition PARSE_NOSIG :: u32 where "PARSE_NOSIG = 1"
definition PARSE_NOQUOTEIMG :: u32 where "PARSE_NOQUOTEIMG = 2"
definition PARSE_NOSIGIMG :: u32 where "PARSE_NOSIGIMG = 4"

record ansi_color_t =
  hl :: int
  fg :: int
  bg :: int

section \<open>Searching in memory\<close>

fun memchr :: "buf \<Rightarrow> byte \<Rightarrow> nat \<Rightarrow> nat \<Rightarrow> nat option option" where
  "memchr b c i 0 = Some None"
| "memchr b c i (Suc n) =
     (case rd b i of None \<Rightarrow> None | Some x \<Rightarrow> if x = c then Some (Some i) else memchr b c (Suc i) n)"

fun memrchr :: "buf \<Rightarrow> byte \<Rightarrow> nat \<Rightarrow> nat \<Rightarrow> nat option option" where
  "memrchr b c i 0 = Some None"
| "memrchr b c i (Suc n) =
     (case rd b (i + n) of None \<Rightarrow> None | Some x \<Rightarrow> if x = c then Some (Some (i + n)) else memrchr b c i n)"

lemma memchr_found: "memchr b c i n = Some (Some q) \<Longrightarrow> i \<le> q \<and> q < i + n \<and> q < length b \<and> b ! q = c"
  by (induction b c i n rule: memchr.induct) (auto simp: rd_def split: option.splits if_splits)

function memstr :: "buf \<Rightarrow> buf \<Rightarrow> nat \<Rightarrow> nat \<Rightarrow> nat option option" where
  "memstr b s p e =
     (if p = e then Some None
      else
        case memchr b (hd s) p (e - p) of
          None \<Rightarrow> None
        | Some None \<Rightarrow> Some None
        | Some (Some q) \<Rightarrow>
            if e - q \<ge> length s then
              (case mem_read b q (length s) of
                 None \<Rightarrow> None
               | Some x \<Rightarrow> if x = s then Some (Some q) else memstr b s (Suc q) e)
            else memstr b s (Suc q) e)"
  by pat_completeness auto
termination
  by (relation "measure (\<lambda>(b, s, p, e). e - p)") (auto dest!: memchr_found)

declare memstr.simps [simp del]

text \<open>Numbers are read up to the first character that is no digit, and limited to the range of \<open>long\<close>.\<close>

function skip_space :: "buf \<Rightarrow> nat \<Rightarrow> nat option" where
  "skip_space b i =
     (case rd b i of None \<Rightarrow> None | Some c \<Rightarrow> if isspace (uint c) then skip_space b (Suc i) else Some i)"
  by pat_completeness auto
termination
  by (relation "measure (\<lambda>(b, i). length b - i)") (auto simp: rd_def split: if_splits)

function strtol_digits :: "buf \<Rightarrow> nat \<Rightarrow> int \<Rightarrow> int option" where
  "strtol_digits b i n =
     (case rd b i of
        None \<Rightarrow> None
      | Some c \<Rightarrow> if isdigit (uint c) then strtol_digits b (Suc i) (10 * n + (uint c - 48)) else Some n)"
  by pat_completeness auto
termination
  by (relation "measure (\<lambda>(b, i, n). length b - i)") (auto simp: rd_def split: if_splits)

declare skip_space.simps [simp del] strtol_digits.simps [simp del]

definition strtol :: "buf \<Rightarrow> nat \<Rightarrow> int option" where
  "strtol b i = do {
     i \<leftarrow> skip_space b i;
     c \<leftarrow> rd b i;
     n \<leftarrow> strtol_digits b (if c = 43 \<or> c = 45 then Suc i else i) 0;
     Some (if c = 45 then max (- (2 ^ 63)) (- n) else min (2 ^ 63 - 1) n)
   }"

text \<open>Subtraction in \<open>long\<close> and the conversion to \<open>int\<close>.\<close>

definition long_minus :: "int \<Rightarrow> int \<Rightarrow> int option" where
  "long_minus a b = (if a - b < - (2 ^ 63) then None else Some (to_int (a - b)))"

text \<open>\<open>get_line_end\<close> on pointers.\<close>

function line_end :: "buf \<Rightarrow> nat \<Rightarrow> nat \<Rightarrow> nat option" where
  "line_end b s e =
     (if s = e then Some s
      else case rd b s of
        None \<Rightarrow> None
      | Some c \<Rightarrow> if c = 10 then Some (Suc s) else line_end b (Suc s) e)"
  by pat_completeness auto
termination
  by (relation "measure (\<lambda>(b, s, e). length b - s)") (auto simp: rd_def split: if_splits)

declare line_end.simps [simp del]

section \<open>The header\<close>

definition DATETIME_SIZE :: nat where "DATETIME_SIZE = 26"

definition parse_header_date :: "clock \<Rightarrow> buf \<Rightarrow> nat \<Rightarrow> nat \<Rightarrow> fb_time_t option" where
  "parse_header_date ck b s e = do {
     begin' \<leftarrow> memchr b 40 s (e - s);
     (case begin' of
        None \<Rightarrow> Some 0
      | Some p \<Rightarrow>
          if p + DATETIME_SIZE > e then Some 0
          else do {
            let s = p + 1;
            n \<leftarrow> strtol b s; year \<leftarrow> long_minus n 1900;
            let s = s + 7;
            n \<leftarrow> strtol b s; mon \<leftarrow> long_minus n 1;
            let s = s + 5;
            mday \<leftarrow> strtol b s;
            let s = s + 5;
            hour \<leftarrow> strtol b s;
            min' \<leftarrow> strtol b (s + 3);
            sec \<leftarrow> strtol b (s + 6);
            let time = mktime ck year mon (to_int mday) (to_int hour) (to_int min') (to_int sec);
            Some (if time = -1 then 0 else word_of_int time)
          })
   }"

section \<open>Escaping\<close>

definition escape_char :: "byte \<Rightarrow> buf" where
  "escape_char c =
     (if c = 60 then lit ''&lt;''
      else if c = 62 then lit ''&gt;''
      else if c = 38 then lit ''&amp;''
      else if c = 32 then lit ''&#160;''
      else if 0 < c \<and> c < 32 \<and> c \<noteq> 9 then []
      else [c])"

function xml_escape_internal :: "buf \<Rightarrow> nat \<Rightarrow> nat \<Rightarrow> buf \<Rightarrow> buf option" where
  "xml_escape_internal b s e out =
     (if s = e then Some out
      else case rd b s of
        None \<Rightarrow> None
      | Some c \<Rightarrow> xml_escape_internal b (Suc s) e (out @ escape_char c))"
  by pat_completeness auto
termination
  by (relation "measure (\<lambda>(b, s, e, out). length b - s)") (auto simp: rd_def split: if_splits)

declare xml_escape_internal.simps [simp del]

definition xml_escape_helper :: "buf option convert_handler_t" where
  "xml_escape_helper s out = (0, case out of None \<Rightarrow> None | Some o' \<Rightarrow> xml_escape_internal s 0 (length s) o')"

definition xml_escape :: "web \<Rightarrow> buf \<Rightarrow> nat \<Rightarrow> nat \<Rightarrow> buf option" where
  "xml_escape w b s e =
     (if req_utf8 w then xml_escape_internal b s e []
      else if e < s then None
      else do { (_, out) \<leftarrow> convert (web_u2g w) (Some (drop s b)) (Some (e - s)) xml_escape_helper (Some []); out })"

definition print_node :: "web \<Rightarrow> string \<Rightarrow> buf \<Rightarrow> nat \<Rightarrow> nat \<Rightarrow> buf option" where
  "print_node w name b s e = do {
     x \<leftarrow> xml_escape w b s e;
     Some (lit (''<'' @ name @ ''>'') @ x @ lit (''</'' @ name @ ''>''))
   }"

section \<open>Colours\<close>

definition no_color :: ansi_color_t where
  "no_color = \<lparr>hl = 0, fg = 37, bg = 40\<rparr>"

definition set_color :: "int \<Rightarrow> ansi_color_t \<Rightarrow> ansi_color_t" where
  "set_color num a =
     (if num = 0 \<or> num = 1 then a\<lparr>hl := num\<rparr>
      else if num \<ge> 30 \<and> num \<le> 37 then a\<lparr>fg := num\<rparr>
      else if num \<ge> 40 \<and> num \<le> 47 then a\<lparr>bg := num\<rparr>
      else a)"

definition merge_color :: "ansi_color_t \<Rightarrow> ansi_color_t \<Rightarrow> ansi_color_t" where
  "merge_color a ansi =
     \<lparr>hl = (if hl a \<noteq> -1 then hl a else hl ansi), fg = (if fg a \<noteq> -1 then fg a else fg ansi),
      bg = (if bg a \<noteq> -1 then bg a else bg ansi)\<rparr>"

function parse_ansi_loop ::
  "buf \<Rightarrow> nat \<Rightarrow> nat \<Rightarrow> nat \<Rightarrow> nat \<Rightarrow> ansi_color_t \<Rightarrow> ansi_color_t \<Rightarrow> (nat \<times> ansi_color_t) option" where
  "parse_ansi_loop b begin' e s last' a ansi =
     (if s = e then Some (e, ansi)
      else case rd b s of
        None \<Rightarrow> None
      | Some c \<Rightarrow>
          if c = 59 \<or> c = 109 then
            (case strtol b last' of
               None \<Rightarrow> None
             | Some n \<Rightarrow>
                 let a = set_color (to_int n) a in
                 if c = 109 then Some (Suc s, if s = begin' + 2 then no_color else merge_color a ansi)
                 else parse_ansi_loop b begin' e (Suc s) (Suc s) a ansi)
          else if \<not> isdigit (sint c) then Some (s, ansi)
          else parse_ansi_loop b begin' e (Suc s) last' a ansi)"
  by pat_completeness auto
termination
  by (relation "measure (\<lambda>(b, begin', e, s, last', a, ansi). length b - s)") (auto simp: rd_def split: if_splits)

declare parse_ansi_loop.simps [simp del]

definition parse_ansi_code :: "buf \<Rightarrow> nat \<Rightarrow> nat \<Rightarrow> ansi_color_t \<Rightarrow> (nat \<times> ansi_color_t) option" where
  "parse_ansi_code b begin' e ansi =
     (let s = begin' + 1 in
      if s = e then Some (s, ansi)
      else do {
        c \<leftarrow> rd b s;
        (if c \<noteq> 91 then Some (s, ansi)
         else parse_ansi_loop b begin' e (s + 1) (s + 1) \<lparr>hl = -1, fg = -1, bg = -1\<rparr> ansi)
      })"

lemma parse_ansi_loop_range:
  "parse_ansi_loop b begin' e s last' a ansi = Some (q, ansi') \<Longrightarrow> s \<le> q \<and> (s \<le> e \<longrightarrow> q \<le> e)"
proof (induction b begin' e s last' a ansi rule: parse_ansi_loop.induct)
  case (1 b begin' e s last' a ansi)
  show ?case
    using 1 by (subst (asm) (3) parse_ansi_loop.simps) (force simp: Let_def split: if_splits option.splits)
qed

lemma parse_ansi_code_range:
  "parse_ansi_code b s e ansi = Some (q, ansi') \<Longrightarrow> s < q \<and> (s < e \<longrightarrow> q \<le> e)"
  by (auto simp: parse_ansi_code_def Let_def dest!: parse_ansi_loop_range split: if_splits Option.bind_splits)

definition quoted :: "buf \<Rightarrow> buf" where
  "quoted x = 39 # x @ [39]"

definition color_tag :: "ansi_color_t \<Rightarrow> buf" where
  "color_tag a =
     lit ''<c h='' @ quoted (decimal (hl a)) @ lit '' f='' @ quoted (decimal (fg a)) @ lit '' b='' @ quoted (decimal (bg a)) @ lit ''>''"

function ansi_text_loop ::
  "web \<Rightarrow> buf \<Rightarrow> nat \<Rightarrow> nat \<Rightarrow> nat \<Rightarrow> bool \<Rightarrow> ansi_color_t \<Rightarrow> buf \<Rightarrow> (buf \<times> ansi_color_t) option" where
  "ansi_text_loop w b s e last' open ansi out =
     (if s = e then do {
        x \<leftarrow> xml_escape w b last' e;
        Some (out @ x @ (if open then lit ''</c>'' else []), ansi)
      }
      else case rd b s of
        None \<Rightarrow> None
      | Some c \<Rightarrow>
          if c = 27 then
            (case xml_escape w b last' s of
               None \<Rightarrow> None
             | Some x \<Rightarrow>
                 (case parse_ansi_code b s e ansi of
                    None \<Rightarrow> None
                  | Some (q, ansi) \<Rightarrow>
                      ansi_text_loop w b q e q True ansi (out @ x @ (if open then lit ''</c>'' else []) @ color_tag ansi)))
          else ansi_text_loop w b (Suc s) e last' open ansi out)"
  by pat_completeness auto
termination
  by (relation "measure (\<lambda>(w, b, s, e, last', open, ansi, out). length b - s)")
    (auto simp: rd_def dest!: parse_ansi_code_range split: if_splits)

declare ansi_text_loop.simps [simp del]

definition print_ansi_text :: "web \<Rightarrow> buf \<Rightarrow> nat \<Rightarrow> nat \<Rightarrow> ansi_color_t \<Rightarrow> (buf \<times> ansi_color_t) option" where
  "print_ansi_text w b begin' e ansi = ansi_text_loop w b begin' e begin' False ansi []"

definition SENDER_STRING :: buf where
  "SENDER_STRING = [0xe5, 0x8f, 0x91, 0xe4, 0xbf, 0xa1, 0xe4, 0xba, 0xba] @ lit '': ''"

definition TOPIC_STRING :: buf where
  "TOPIC_STRING = [0xe6, 0xa0, 0x87] @ lit ''  '' @ [0xe9, 0xa2, 0x98] @ lit '': ''"

text \<open>
  The result is the start of the body and the text printed.  When the first line has no colon behind the nickname, the
  null pointer that \<open>memchr\<close> returns is moved and read from.
\<close>

definition print_header :: "web \<Rightarrow> buf \<Rightarrow> nat \<Rightarrow> (nat \<times> buf) option" where
  "print_header w b e = do {
     le \<leftarrow> line_end b 0 e;
     owner \<leftarrow> memstr b SENDER_STRING 0 le;
     (case owner of None \<Rightarrow> Some (0, []) | Some p \<Rightarrow> do {
     let owner_begin = p + length SENDER_STRING;
     owner_end \<leftarrow> memchr b 32 owner_begin (le - owner_begin);
     (case owner_end of None \<Rightarrow> Some (0, []) | Some owner_end \<Rightarrow> do {
     let nick_begin = owner_end + 2;
     (if nick_begin \<ge> e then Some (0, []) else do {
     nick_end \<leftarrow> memrchr b 41 nick_begin (le - nick_begin);
     (case nick_end of None \<Rightarrow> Some (0, []) | Some nick_end \<Rightarrow> do {
     colon \<leftarrow> memchr b 58 nick_end (le - nick_end);
     colon \<leftarrow> colon;
     let board_begin = colon + 2;
     (if board_begin \<ge> e then Some (0, []) else do {
     esc \<leftarrow> memchr b 27 board_begin (le - board_begin);
     let board_end = (case esc of None \<Rightarrow> le - 1 | Some q \<Rightarrow> q);
     le2 \<leftarrow> line_end b le e;
     let title_begin = le + length TOPIC_STRING;
     (if title_begin \<ge> e then Some (0, []) else do {
     let title_end = le2 - 1;
     le3 \<leftarrow> line_end b le2 e;
     date \<leftarrow> parse_header_date (web_clock w) b le2 le3;
     (if date = 0 then Some (0, []) else do {
     x1 \<leftarrow> print_node w ''owner'' b owner_begin owner_end;
     x2 \<leftarrow> print_node w ''nick'' b nick_begin nick_end;
     x3 \<leftarrow> print_node w ''board'' b board_begin board_end;
     (x4, _) \<leftarrow> print_ansi_text w b title_begin title_end no_color;
     t \<leftarrow> format_time (web_clock w) date (if req_utf8 w then TIME_FORMAT_UTF8_ZH else TIME_FORMAT_ZH);
     Some (le3, x1 @ x2 @ x3 @ lit ''<title>'' @ x4 @ lit ''</title>'' @ lit ''<date>'' @ t @ lit ''</date>'')
     }) }) }) }) }) }) })
   }"

section \<open>The body\<close>

definition url_chars :: buf where
  "url_chars = lit ''0123456789abcdefghijklmnopqrstuvwxyzABCDEFGHIJKLMNOPQRSTUVWXYZ~$-_.+!*)(,/:;=?@%#[]&''"

text \<open>\<open>strchr\<close> finds the terminator of the list as well.\<close>

definition is_url_char :: "byte \<Rightarrow> bool" where
  "is_url_char c \<longleftrightarrow> c = 0 \<or> c \<in> set url_chars"

function get_url :: "buf \<Rightarrow> nat \<Rightarrow> nat \<Rightarrow> nat option" where
  "get_url b s e =
     (if s = e then Some e
      else case rd b s of None \<Rightarrow> None | Some c \<Rightarrow> if \<not> is_url_char c then Some s else get_url b (Suc s) e)"
  by pat_completeness auto
termination
  by (relation "measure (\<lambda>(b, s, e). length b - s)") (auto simp: rd_def split: if_splits)

declare get_url.simps [simp del]

definition END_WITH :: "buf \<Rightarrow> nat \<Rightarrow> nat \<Rightarrow> string \<Rightarrow> bool option" where
  "END_WITH b s e t =
     (if e - s \<ge> length t then do { x \<leftarrow> mem_read b (e - length t) (length t); Some (map lower x = map lower (lit t)) }
      else Some False)"

definition BEGIN_WITH :: "buf \<Rightarrow> nat \<Rightarrow> nat \<Rightarrow> buf \<Rightarrow> bool option" where
  "BEGIN_WITH b s e t =
     (if e - s \<ge> length t then do { x \<leftarrow> mem_read b s (length t); Some (map lower x = map lower t) } else Some False)"

definition is_image :: "buf \<Rightarrow> nat \<Rightarrow> nat \<Rightarrow> bool option" where
  "is_image b s e = do {
     a \<leftarrow> END_WITH b s e ''.jpg'';
     c \<leftarrow> END_WITH b s e ''.gif'';
     d \<leftarrow> END_WITH b s e ''.png'';
     j \<leftarrow> END_WITH b s e ''jpeg'';
     Some (a \<or> c \<or> d \<or> j)
   }"

definition print_url :: "web \<Rightarrow> buf \<Rightarrow> nat \<Rightarrow> nat \<Rightarrow> u32 \<Rightarrow> (nat \<times> buf) option" where
  "print_url w b begin' e option' = do {
     q \<leftarrow> get_url b begin' e;
     (if q < begin' + 11 then do { x \<leftarrow> mem_read b begin' (q - begin'); Some (q, x) }
      else do {
        img \<leftarrow> (if option' AND (PARSE_NOQUOTEIMG OR PARSE_NOSIGIMG) = 0 then is_image b begin' q else Some False);
        x \<leftarrow> xml_escape w b begin' q;
        Some (q, lit ''<a '' @ (if img then lit ''i='' @ quoted (lit ''i'') @ lit '' '' else []) @ lit ''href='' @ quoted x @ lit ''/>'')
      })
   }"

definition HTTP :: buf where "HTTP = lit ''http://''"
definition HTTPS :: buf where "HTTPS = lit ''https://''"

definition find_url :: "buf \<Rightarrow> nat \<Rightarrow> nat \<Rightarrow> nat option option" where
  "find_url b s e = do {
     url \<leftarrow> memstr b HTTP s e;
     (case url of None \<Rightarrow> memstr b HTTPS s e | Some q \<Rightarrow> Some (Some q))
   }"

lemma memstr_found:
  "memstr b s p e = Some (Some q) \<Longrightarrow> s \<noteq> [] \<Longrightarrow> p \<le> q \<and> q + length s \<le> e \<and> mem_read b q (length s) = Some s"
proof (induction b s p e rule: memstr.induct)
  case (1 b s p e)
  have pe: "p \<noteq> e" using "1.prems"(1) by (auto simp: memstr.simps)
  obtain r where r: "memchr b (hd s) p (e - p) = Some (Some r)"
    using "1.prems"(1) pe by (auto simp: memstr.simps [of b s p e] split: option.splits)
  note range = memchr_found [OF r]
  have rec: "q \<ge> Suc r \<and> q + length s \<le> e \<and> mem_read b q (length s) = Some s" if "memstr b s (Suc r) e = Some (Some q)"
    "\<not> (e - r \<ge> length s \<and> mem_read b r (length s) = Some s)"
  proof (cases "length s \<le> e - r")
    case True
    then obtain x where x: "mem_read b r (length s) = Some x"
      using "1.prems"(1) pe r by (auto simp: memstr.simps [of b s p e] split: option.splits)
    then have "x \<noteq> s" using that(2) True by simp
    then show ?thesis using "1.IH"(1) [OF pe r refl True x] that(1) "1.prems"(2) by auto
  next
    case False
    then show ?thesis using "1.IH"(2) [OF pe r refl] that(1) "1.prems"(2) by auto
  qed
  show ?case
  proof (cases "e - r \<ge> length s \<and> mem_read b r (length s) = Some s")
    case True
    then have "q = r" using "1.prems"(1) pe r by (simp add: memstr.simps [of b s p e])
    then show ?thesis using True range "1.prems"(2) by (cases s) auto
  next
    case False
    then have "memstr b s (Suc r) e = Some (Some q)"
      using "1.prems"(1) pe r by (auto simp: memstr.simps [of b s p e] split: option.splits if_splits)
    from rec [OF this False] range show ?thesis by linarith
  qed
qed

lemma get_url_progress:
  "get_url b s e = Some q \<Longrightarrow> s \<le> q \<and> (s \<le> e \<longrightarrow> q \<le> e)"
proof (induction b s e rule: get_url.induct)
  case (1 b s e)
  then show ?case by (subst (asm) (2) get_url.simps) (force split: if_splits option.splits)
qed

lemma lit_url: "HTTP = [104, 116, 116, 112, 58, 47, 47]" "HTTPS = [104, 116, 116, 112, 115, 58, 47, 47]"
  by (simp_all add: HTTP_def HTTPS_def lit_def)

lemma mem_read_hd: "mem_read b q n = Some (c # xs) \<Longrightarrow> q < length b \<and> b ! q = c"
  by (cases "drop q b"; cases n) (auto simp: mem_read_def drop_eq_Nil2 nth_via_drop split: if_splits)

lemma find_url_found:
  assumes "find_url b s e = Some (Some q)"
  shows "s \<le> q \<and> q + 7 \<le> e \<and> q < length b \<and> b ! q = 104"
proof -
  have "(memstr b HTTP s e = Some (Some q)) \<or> (memstr b HTTPS s e = Some (Some q))"
    using assms by (auto simp: find_url_def split: Option.bind_splits option.splits)
  then show ?thesis
    by (auto dest!: memstr_found mem_read_hd simp: lit_url)
qed

lemma print_url_progress:
  assumes "print_url w b s e opt = Some (q, out)" and "s < length b" and "b ! s = 104" and "s < e"
  shows "s < q \<and> q \<le> e"
proof -
  have g: "get_url b s e = Some q" using assms(1) by (auto simp: print_url_def split: Option.bind_splits if_splits)
  have "is_url_char 104" by (simp add: is_url_char_def url_chars_def lit_def)
  then have "get_url b (Suc s) e = Some q" using g assms by (simp add: get_url.simps [of b s] rd_def)
  from get_url_progress [OF this] assms(4) show ?thesis by simp
qed

function paragraph_loop :: "web \<Rightarrow> buf \<Rightarrow> nat \<Rightarrow> nat \<Rightarrow> u32 \<Rightarrow> ansi_color_t \<Rightarrow> buf \<Rightarrow> buf option" where
  "paragraph_loop w b s e option' ansi out =
     (if s = e then Some out
      else case find_url b s e of
        None \<Rightarrow> None
      | Some None \<Rightarrow> do { (x, _) \<leftarrow> print_ansi_text w b s e ansi; Some (out @ x) }
      | Some (Some url) \<Rightarrow>
          (case print_ansi_text w b s url ansi of
             None \<Rightarrow> None
           | Some (x, ansi) \<Rightarrow>
               (case print_url w b url e option' of
                  None \<Rightarrow> None
                | Some (q, y) \<Rightarrow> paragraph_loop w b q e option' ansi (out @ x @ y))))"
  by pat_completeness auto
termination
proof (relation "measure (\<lambda>(w, b, s, e, option', ansi, out). e - s)", goal_cases)
  case (2 w b s e option' ansi out x url p x' ansi' p' q y)
  then have "s \<le> url" "url + 7 \<le> e" "url < q" using find_url_found print_url_progress by fastforce+
  then show ?case by simp
qed simp

declare paragraph_loop.simps [simp del]

definition print_paragraph :: "web \<Rightarrow> buf \<Rightarrow> nat \<Rightarrow> nat \<Rightarrow> u32 \<Rightarrow> buf option" where
  "print_paragraph w b begin' e option' = paragraph_loop w b begin' e option' no_color []"

definition QUOTE_STRING :: buf where
  "QUOTE_STRING = [0xe3, 0x80, 0x90, 0x20, 0xe5, 0x9c, 0xa8, 0x20]"

definition is_quote :: "buf \<Rightarrow> nat \<Rightarrow> nat \<Rightarrow> bool option" where
  "is_quote b s e = do {
     q \<leftarrow> BEGIN_WITH b s e (lit '': '');
     (if q then Some True else BEGIN_WITH b s e QUOTE_STRING)
   }"

definition pa :: "string \<Rightarrow> buf" where
  "pa m = lit ''<pa m='' @ quoted (lit m) @ lit ''>''"

text \<open>One line of the body: the text printed and whether it opened the signature; \<open>None\<close> inside ends the body.\<close>

definition print_line :: "web \<Rightarrow> buf \<Rightarrow> nat \<Rightarrow> nat \<Rightarrow> u32 \<Rightarrow> bool \<Rightarrow> bool \<Rightarrow> (buf \<times> bool \<times> bool) option option" where
  "print_line w b s e option' sig quote = do {
     dashes \<leftarrow> (if \<not> sig \<and> e - s = 3 then do { x \<leftarrow> mem_read b s 3; Some (x = [45, 45, 10]) } else Some False);
     (if dashes then
        Some (if option' AND PARSE_NOSIG \<noteq> 0 then None
              else Some (lit ''</pa>'' @ pa ''s'' @ lit ''<p>--</p>'', True, False))
      else do {
        q \<leftarrow> (if sig then Some quote else is_quote b s e);
        let turn = (if q \<noteq> quote then lit ''</pa>'' @ pa (if quote then ''t'' else ''q'') else []);
        c \<leftarrow> rd b s;
        x \<leftarrow> (if e = s + 1 \<or> (e = s + 2 \<and> c = 13) then Some (lit ''<br/>'')
              else
                let opt = (if q then option' else option' AND NOT PARSE_NOQUOTEIMG);
                    opt = (if sig then opt else opt AND NOT PARSE_NOSIGIMG) in
                print_paragraph w b s e opt);
        Some (Some (turn @ lit ''<p>'' @ x @ lit ''</p>'', sig, q))
      })
   }"

lemma line_end_progress: "line_end b s e = Some q \<Longrightarrow> s \<noteq> e \<Longrightarrow> s < q \<and> q \<le> length b \<and> (s \<le> e \<longrightarrow> q \<le> e)"
proof (induction b s e rule: line_end.induct)
  case (1 b s e)
  then obtain c where c: "s < length b" "b ! s = c" by (auto simp: line_end.simps [of b s] rd_def split: if_splits option.splits)
  show ?case
  proof (cases "c = 10 \<or> Suc s = e")
    case True
    then show ?thesis using c "1.prems" by (auto simp: line_end.simps [of b s] line_end.simps [of b "Suc s"] rd_def split: if_splits)
  next
    case False
    have "line_end b (Suc s) e = Some q" using False c "1.prems" by (simp add: line_end.simps [of b s] rd_def)
    then have "Suc s < q \<and> q \<le> length b \<and> (Suc s \<le> e \<longrightarrow> q \<le> e)" using "1.IH" [of c] False c "1.prems"(2) by (simp add: rd_def)
    then show ?thesis using "1.prems"(2) by auto
  qed
qed

function body_loop :: "web \<Rightarrow> buf \<Rightarrow> nat \<Rightarrow> nat \<Rightarrow> u32 \<Rightarrow> bool \<Rightarrow> bool \<Rightarrow> buf \<Rightarrow> buf option" where
  "body_loop w b s e option' sig quote out =
     (if s = e then Some out
      else case line_end b s e of
        None \<Rightarrow> None
      | Some l \<Rightarrow>
          (case print_line w b s l option' sig quote of
             None \<Rightarrow> None
           | Some None \<Rightarrow> Some out
           | Some (Some (x, sig, quote)) \<Rightarrow> body_loop w b l e option' sig quote (out @ x)))"
  by pat_completeness auto
termination
  by (relation "measure (\<lambda>(w, b, s, e, option', sig, quote, out). length b - s)")
    (auto dest!: line_end_progress)

declare body_loop.simps [simp del]

definition print_body :: "web \<Rightarrow> buf \<Rightarrow> nat \<Rightarrow> nat \<Rightarrow> u32 \<Rightarrow> buf option" where
  "print_body w b begin' e option' = do {
     out \<leftarrow> body_loop w b begin' e option' False False [];
     Some (pa ''t'' @ out @ lit ''</pa>'')
   }"

definition xml_print_post :: "web \<Rightarrow> buf option \<Rightarrow> nat \<Rightarrow> u32 \<Rightarrow> (int \<times> buf) option" where
  "xml_print_post w str sz option' =
     (case str of
        None \<Rightarrow> Some (-1, [])
      | Some b \<Rightarrow> do {
          (begin', head) \<leftarrow> print_header w b sz;
          body \<leftarrow> print_body w b (if begin' \<noteq> 0 then begin' + 1 else begin') sz option';
          Some (0, head @ body)
        })"

end
