(* ===== verification/FB_MarkupXml.thy ===== *)
theory FB_MarkupXml
  imports FB_Markup
begin

text \<open>
  What a browser makes of a printed post: a reader of XML that keeps the stack of open elements, and the theorem that
  every post leaves it balanced, whatever markup its author wrote.
\<close>

section \<open>A reader of XML\<close>

definition entities :: "buf list" where
  "entities = [lit ''lt;'', lit ''gt;'', lit ''amp;'', lit ''#160;'']"

definition entity_at :: "buf \<Rightarrow> bool" where
  "entity_at bs \<longleftrightarrow> list_ex (\<lambda>x. take (length x) bs = x) entities"

primrec amps_ok :: "buf \<Rightarrow> bool" where
  "amps_ok [] = True"
| "amps_ok (c # bs) \<longleftrightarrow> (c = 38 \<longrightarrow> entity_at bs) \<and> amps_ok bs"

text \<open>A tag between its angle brackets, against the stack of open elements.\<close>

definition xml_tag :: "buf list \<Rightarrow> buf \<Rightarrow> buf list option" where
  "xml_tag st t =
     (if t = [] then None
      else if hd t = 47 then (case st of [] \<Rightarrow> None | n # st' \<Rightarrow> if tl t = n then Some st' else None)
      else if 60 \<in> set t \<or> odd (count_list t 39) \<or> \<not> amps_ok t then None
      else if last t = 47 then Some st
      else Some (takeWhile (\<lambda>c. c \<noteq> 32) t # st))"

function xml_run :: "buf list \<Rightarrow> buf \<Rightarrow> buf list option" where
  "xml_run st [] = Some st"
| "xml_run st (c # bs) =
     (if c = 60 then
        (case dropWhile (\<lambda>x. x \<noteq> 62) bs of
           [] \<Rightarrow> None
         | _ # r \<Rightarrow> (case xml_tag st (takeWhile (\<lambda>x. x \<noteq> 62) bs) of None \<Rightarrow> None | Some st \<Rightarrow> xml_run st r))
      else if c = 62 \<or> (c = 38 \<and> \<not> entity_at bs) then None
      else xml_run st bs)"
  by pat_completeness auto
termination
proof (relation "measure (\<lambda>(st, bs). length bs)", goal_cases)
  case (2 st c bs x r st')
  then show ?case using length_dropWhile_le [of "\<lambda>x. x \<noteq> 62" bs] by simp
qed auto

declare xml_run.simps(2) [simp del]

definition emits :: "buf \<Rightarrow> buf list \<Rightarrow> buf list \<Rightarrow> bool" where
  "emits out st st' \<longleftrightarrow> (\<forall>k. xml_run st (out @ k) = xml_run st' k)"

lemma emits_run: "emits out st st' \<Longrightarrow> xml_run st out = Some st'"
  by (metis append_Nil2 emits_def xml_run.simps(1))

lemma emits_Nil [simp]: "emits [] st st"
  by (simp add: emits_def)

lemma emits_append [intro]: "emits a st st' \<Longrightarrow> emits b st' st'' \<Longrightarrow> emits (a @ b) st st''"
  by (simp add: emits_def)

lemma take_prefix: "take (length x) bs = x \<Longrightarrow> take (length x) (bs @ k) = x"
  by (metis append.assoc append_eq_conv_conj append_take_drop_id)

lemma entity_at_append: "entity_at bs \<Longrightarrow> entity_at (bs @ k)"
  using take_prefix by (auto simp: entity_at_def list_ex_iff)

lemma amps_ok_append [simp]: "amps_ok a \<Longrightarrow> amps_ok b \<Longrightarrow> amps_ok (a @ b)"
  by (induction a) (auto intro: entity_at_append)

lemma amps_ok_plain: "38 \<notin> set xs \<Longrightarrow> amps_ok xs"
  by (induction xs) auto

definition text_ok :: "buf \<Rightarrow> bool" where
  "text_ok xs \<longleftrightarrow> 60 \<notin> set xs \<and> 62 \<notin> set xs \<and> amps_ok xs"

lemma text_ok_append [simp]: "text_ok a \<Longrightarrow> text_ok b \<Longrightarrow> text_ok (a @ b)"
  by (simp add: text_ok_def)

lemma text_ok_Nil [simp]: "text_ok []"
  by (simp add: text_ok_def)

lemma text_ok_plain: "set xs \<inter> {38, 60, 62} = {} \<Longrightarrow> text_ok xs"
  by (auto simp: text_ok_def amps_ok_plain)

lemma emits_text: "text_ok xs \<Longrightarrow> emits xs st st"
proof (induction xs)
  case (Cons c xs)
  then have "emits xs st st" "c \<noteq> 60" "c \<noteq> 62" "c = 38 \<Longrightarrow> entity_at xs" by (auto simp: text_ok_def)
  then show ?case by (auto simp: emits_def xml_run.simps(2) entity_at_append)
qed simp

lemma emits_tag:
  assumes "xml_tag st t = Some st'" and "62 \<notin> set t"
  shows "emits (60 # t @ [62]) st st'"
proof -
  have "takeWhile (\<lambda>x. x \<noteq> 62) (t @ 62 # k) = t" "dropWhile (\<lambda>x. x \<noteq> 62) (t @ 62 # k) = 62 # k" for k
    using assms(2) by (induction t) auto
  with assms(1) show ?thesis by (simp add: emits_def xml_run.simps(2))
qed

section \<open>Escaped text\<close>

lemma escape_char_ok: "text_ok (escape_char c)"
  by (auto simp: text_ok_def escape_char_def lit_def entity_at_def entities_def)

lemma escape_char_quote: "c \<noteq> 39 \<Longrightarrow> 39 \<notin> set (escape_char c)"
  by (auto simp: escape_char_def lit_def)

lemma escape_text_ok: "text_ok (concat (map escape_char xs))"
  by (induction xs) (simp_all add: escape_char_ok)

lemma xml_escape_internal_spec:
  assumes "s \<le> e" and "e \<le> length b"
  shows "xml_escape_internal b s e out = Some (out @ concat (map escape_char (take (e - s) (drop s b))))"
  using assms
proof (induction "e - s" arbitrary: s out)
  case 0
  then show ?case by (simp add: xml_escape_internal.simps)
next
  case (Suc n)
  then have "s < e" "s < length b" by simp_all
  moreover have "take (e - s) (drop s b) = b ! s # take (e - Suc s) (drop (Suc s) b)"
    using \<open>s < e\<close> \<open>s < length b\<close> by (simp add: Cons_nth_drop_Suc [symmetric] Suc_diff_Suc [symmetric])
  ultimately show ?case using Suc.hyps(1) [of "Suc s"] Suc.hyps(2) Suc.prems
    by (simp add: xml_escape_internal.simps [of b s] rd_def)
qed

section \<open>Numbers and colours\<close>

definition digit_byte :: "byte \<Rightarrow> bool" where
  "digit_byte c \<longleftrightarrow> 48 \<le> c \<and> c \<le> 57"

lemma digit_byte_uint: "isdigit (uint c) \<longleftrightarrow> digit_byte c"
  by (simp add: isdigit_def digit_byte_def word_le_def)

lemma digit_byte_sint: "isdigit (sint c) \<longleftrightarrow> digit_byte c"
proof
  assume "isdigit (sint c)"
  moreover then have "uint c = sint c" using uint_sint [of c] by (simp add: isdigit_def take_bit_int_eq_self)
  ultimately show "digit_byte c" using digit_byte_uint [of c] by simp
next
  assume d: "digit_byte c"
  then have "uint c < 128" by (simp add: digit_byte_def word_le_def)
  then have "sint c = uint c" by (simp add: sint_uint signed_take_bit_int_eq_self_iff order_trans [OF _ uint_ge_0])
  then show "isdigit (sint c)" using d digit_byte_uint [of c] by simp
qed

lemma strtol_digits_total:
  "i \<le> j \<Longrightarrow> j < length b \<Longrightarrow> \<not> digit_byte (b ! j) \<Longrightarrow> \<exists>n'. strtol_digits b i n = Some n'"
proof (induction "j - i" arbitrary: i n)
  case 0
  then show ?case by (simp add: strtol_digits.simps [of b] rd_def digit_byte_uint)
next
  case (Suc k)
  then show ?case by (subst strtol_digits.simps) (simp add: rd_def)
qed

text \<open>Digits up to a byte that is neither a digit nor part of the start of a number.\<close>

lemma strtol_total:
  assumes "i \<le> j" and "j < length b" and "\<forall>k. i \<le> k \<longrightarrow> k < j \<longrightarrow> digit_byte (b ! k)" and "b ! j = 59 \<or> b ! j = 109"
  shows "\<exists>n. strtol b i = Some n"
proof -
  have nd: "\<not> digit_byte (b ! j)" using assms(4) by (auto simp: digit_byte_def)
  have "digit_byte (b ! i) \<or> b ! i = 59 \<or> b ! i = 109" using assms(1,3,4) by (cases "i = j") auto
  then have c: "\<not> isspace (uint (b ! i))" "b ! i \<noteq> 43" "b ! i \<noteq> 45"
    by (auto simp: digit_byte_def isspace_def word_le_def)
  obtain n where "strtol_digits b i 0 = Some n" using strtol_digits_total [OF assms(1,2) nd] by blast
  then show ?thesis using assms(1,2) c by (simp add: strtol_def skip_space.simps [of b i] rd_def)
qed

lemma parse_ansi_loop_total:
  assumes "e \<le> length b" and "s \<le> e" and "last' \<le> s" and "\<forall>k. last' \<le> k \<longrightarrow> k < s \<longrightarrow> digit_byte (b ! k)"
  shows "\<exists>r. parse_ansi_loop b begin' e s last' a ansi = Some r"
  using assms
proof (induction "e - s" arbitrary: s last' a)
  case 0
  then show ?case by (simp add: parse_ansi_loop.simps)
next
  case (Suc n)
  then have s: "s < e" "s < length b" by simp_all
  consider (sep) "b ! s = 59 \<or> b ! s = 109" | (stop) "b ! s \<noteq> 59" "b ! s \<noteq> 109" "\<not> digit_byte (b ! s)"
    | (digit) "b ! s \<noteq> 59" "b ! s \<noteq> 109" "digit_byte (b ! s)" by blast
  then show ?case
  proof cases
    case sep
    obtain m where "strtol b last' = Some m" using strtol_total [OF Suc.prems(3) s(2) Suc.prems(4) sep] by blast
    with sep s Suc.hyps(1) [of "Suc s" "Suc s"] Suc.hyps(2) Suc.prems show ?thesis
      by (auto simp: parse_ansi_loop.simps [of b begin' e s] rd_def Let_def)
  next
    case stop
    with s show ?thesis by (simp add: parse_ansi_loop.simps [of b begin' e s] rd_def digit_byte_sint)
  next
    case digit
    then have "\<forall>k. last' \<le> k \<longrightarrow> k < Suc s \<longrightarrow> digit_byte (b ! k)" using Suc.prems(4) by (auto simp: less_Suc_eq)
    with digit s Suc.hyps(1) [of "Suc s" last'] Suc.hyps(2) Suc.prems show ?thesis
      by (simp add: parse_ansi_loop.simps [of b begin' e s] rd_def digit_byte_sint)
  qed
qed

lemma parse_ansi_code_total:
  assumes "s < e" and "e \<le> length b"
  shows "\<exists>q ansi'. parse_ansi_code b s e ansi = Some (q, ansi') \<and> s < q \<and> q \<le> e"
proof -
  have "\<exists>r. parse_ansi_code b s e ansi = Some r"
    using assms parse_ansi_loop_total [of e b "Suc (Suc s)" "Suc (Suc s)"]
    by (auto simp: parse_ansi_code_def Let_def rd_def)
  then show ?thesis using parse_ansi_code_range assms(1) by (metis surj_pair)
qed

text \<open>Printed numbers are plain.\<close>

declare digits.simps [simp del]

lemma lit_minus: "lit ''-'' = [45]"
  by (simp add: lit_def)

lemma decimal_plain: "c \<in> set (decimal n) \<Longrightarrow> c = 45 \<or> digit_byte c"
  using digits_bytes [of "nat n"] digits_bytes [of "nat (- n)"]
  by (auto simp: decimal_def digit_byte_def lit_minus split: if_splits)

lemma decimal_no_special:
  "c \<in> set (decimal n) \<Longrightarrow> c \<noteq> 32 \<and> c \<noteq> 38 \<and> c \<noteq> 39 \<and> c \<noteq> 47 \<and> c \<noteq> 60 \<and> c \<noteq> 62"
  using decimal_plain [of c n] by (auto simp: digit_byte_def)

lemma decimal_count [simp]: "count_list (decimal n) 39 = 0"
  using decimal_no_special by (auto simp: count_list_0_iff)

lemma emits_color: "emits (color_tag a) st (lit ''c'' # st)"
proof -
  let ?t = "lit ''c h='' @ quoted (decimal (hl a)) @ lit '' f='' @ quoted (decimal (fg a)) @ lit '' b='' @ quoted (decimal (bg a))"
  have ct: "color_tag a = 60 # ?t @ [62]" by (simp add: color_tag_def lit_def)
  have "amps_ok (decimal n)" for n using decimal_no_special by (intro amps_ok_plain) blast
  then have "amps_ok ?t" by (intro amps_ok_append) (simp_all add: quoted_def lit_def)
  then have "xml_tag st ?t = Some (lit ''c'' # st)"
    using decimal_no_special by (fastforce simp: xml_tag_def lit_def quoted_def)
  moreover have "62 \<notin> set ?t" using decimal_no_special by (auto simp: lit_def quoted_def)
  ultimately show ?thesis unfolding ct by (rule emits_tag)
qed

section \<open>Balanced output\<close>

text \<open>What the printing functions need of escaping: it succeeds inside the buffer, its result is plain text, and it
  brings in no quotes.\<close>

locale page =
  fixes w :: web
  assumes escape: "s \<le> e \<Longrightarrow> e \<le> length b \<Longrightarrow>
    \<exists>x. xml_escape w b s e = Some x \<and> text_ok x \<and> (39 \<notin> set (take (e - s) (drop s b)) \<longrightarrow> 39 \<notin> set x)"
    and escape_result: "xml_escape w b s e = Some x \<Longrightarrow> text_ok x"
begin

lemma ansi_text_loop_ok:
  assumes "e \<le> length b" and "s \<le> e" and "last' \<le> s" and "emits out st (if op then lit ''c'' # st else st)"
  shows "\<exists>x ansi'. ansi_text_loop w b s e last' op ansi out = Some (x, ansi') \<and> emits x st st"
  using assms
proof (induction "e - s" arbitrary: s last' op ansi out rule: less_induct)
  case less
  have close: "emits (if op then lit ''</c>'' else []) (if op then lit ''c'' # st else st) st" for op
    using emits_tag [of "lit ''c'' # st" "lit ''/c''" st] by (simp add: xml_tag_def lit_def)
  obtain x where x: "xml_escape w b last' s = Some x" "text_ok x" using escape [of last' s b] less.prems(1-3) by auto
  have "emits (out @ x @ (if op then lit ''</c>'' else [])) st st"
    using less.prems(4) emits_text [OF x(2)] close by (intro emits_append)
  note fin = this
  show ?case
  proof (cases "s = e")
    case True
    then show ?thesis using x(1) fin by (simp add: ansi_text_loop.simps [of w b e])
  next
    case False
    then have s: "s < e" "s < length b" using less.prems(1,2) by simp_all
    show ?thesis
    proof (cases "b ! s = 27")
      case True
      obtain q ansi' where q: "parse_ansi_code b s e ansi = Some (q, ansi')" "s < q" "q \<le> e"
        using parse_ansi_code_total [OF s(1) less.prems(1)] by blast
      have "ansi_text_loop w b s e last' op ansi out =
          ansi_text_loop w b q e q True ansi' (out @ x @ (if op then lit ''</c>'' else []) @ color_tag ansi')"
        using False True s q(1) x(1) by (simp add: ansi_text_loop.simps [of w b s] rd_def)
      moreover have "emits (out @ x @ (if op then lit ''</c>'' else []) @ color_tag ansi') st (lit ''c'' # st)"
        using emits_append [OF fin emits_color] by simp
      ultimately show ?thesis using less.hyps [where s = q and last' = q and op = True] q less.prems(1) s(1) by simp
    next
      case other: False
      have "ansi_text_loop w b s e last' op ansi out = ansi_text_loop w b (Suc s) e last' op ansi out"
        using False other s by (simp add: ansi_text_loop.simps [of w b s] rd_def)
      then show ?thesis using less.hyps [where s = "Suc s" and last' = last' and op = op] less.prems s(1) by simp
    qed
  qed
qed

lemma print_ansi_text_ok:
  "s \<le> e \<Longrightarrow> e \<le> length b \<Longrightarrow> \<exists>x ansi'. print_ansi_text w b s e ansi = Some (x, ansi') \<and> emits x st st"
  unfolding print_ansi_text_def by (rule ansi_text_loop_ok) simp_all

end

text \<open>No link has an ampersand among its first ten characters; short links are printed as they are.\<close>

definition links_ok :: "buf \<Rightarrow> bool" where
  "links_ok b \<longleftrightarrow> (\<forall>q < length b. take 7 (drop q b) = HTTP \<or> take 8 (drop q b) = HTTPS \<longrightarrow>
     38 \<notin> set (take 10 (takeWhile is_url_char (drop q b))))"

lemma links_ok_no_h: "104 \<notin> set b \<Longrightarrow> links_ok b"
  unfolding links_ok_def lit_url by (metis in_set_dropD in_set_takeD list.set_intros(1))

lemma url_char_plain: "is_url_char c \<Longrightarrow> c \<noteq> 60 \<and> c \<noteq> 62 \<and> c \<noteq> 39 \<and> c \<noteq> 10"
  by (auto simp: is_url_char_def url_chars_def lit_def)

lemma get_url_spec:
  "s \<le> e \<Longrightarrow> e \<le> length b \<Longrightarrow> \<exists>q. get_url b s e = Some q \<and> s \<le> q \<and> q \<le> e \<and> (\<forall>i. s \<le> i \<longrightarrow> i < q \<longrightarrow> is_url_char (b ! i))"
proof (induction "e - s" arbitrary: s)
  case 0
  then show ?case by (auto simp: get_url.simps)
next
  case (Suc n)
  then have s: "s < e" "s < length b" by simp_all
  show ?case
  proof (cases "is_url_char (b ! s)")
    case True
    obtain q where q: "get_url b (Suc s) e = Some q" "Suc s \<le> q" "q \<le> e" "\<forall>i. Suc s \<le> i \<longrightarrow> i < q \<longrightarrow> is_url_char (b ! i)"
      using Suc.hyps(1) [of "Suc s"] Suc.hyps(2) Suc.prems s(1) by (metis Suc_leI diff_Suc_Suc diff_Suc_eq_diff_pred diff_Suc_1 diff_commute)
    have "is_url_char (b ! i)" if "s \<le> i" "i < q" for i using q(4) True that by (cases "i = s") auto
    with True q s show ?thesis by (simp add: get_url.simps [of b s] rd_def)
  next
    case False
    with s show ?thesis by (simp add: get_url.simps [of b s] rd_def)
  qed
qed

lemma set_slice: "c \<in> set (take (q - s) (drop s b)) \<Longrightarrow> q \<le> length b \<Longrightarrow> \<exists>i. s \<le> i \<and> i < q \<and> c = b ! i"
  by (auto simp: in_set_conv_nth) (metis add.commute le_add1 less_diff_conv)

lemma takeWhile_slice:
  "\<forall>i. s \<le> i \<longrightarrow> i < q \<longrightarrow> P (b ! i) \<Longrightarrow> s \<le> q \<Longrightarrow> q \<le> length b \<Longrightarrow> take (q - s) (drop s b) = take (q - s) (takeWhile P (drop s b))"
proof (induction "q - s" arbitrary: s)
  case (Suc n)
  then have "take (q - Suc s) (drop (Suc s) b) = take (q - Suc s) (takeWhile P (drop (Suc s) b))" by simp
  moreover have "drop s b = b ! s # drop (Suc s) b" "q - s = Suc (q - Suc s)" "P (b ! s)"
    using Suc by (simp_all add: Cons_nth_drop_Suc)
  ultimately show ?case by simp
qed simp

lemma find_url_link:
  assumes "find_url b s e = Some (Some q)"
  shows "take 7 (drop q b) = HTTP \<or> take 8 (drop q b) = HTTPS"
proof -
  have "memstr b HTTP s e = Some (Some q) \<or> memstr b HTTPS s e = Some (Some q)"
    using assms by (auto simp: find_url_def split: Option.bind_splits option.splits)
  moreover have "length HTTP = 7" "length HTTPS = 8" "HTTP \<noteq> []" "HTTPS \<noteq> []" by (simp_all add: lit_url)
  ultimately show ?thesis by (auto dest!: memstr_found simp: mem_read_def split: if_splits)
qed

lemma memchr_total: "i + n \<le> length b \<Longrightarrow> \<exists>r. memchr b c i n = Some r"
  by (induction b c i n rule: memchr.induct) (auto simp: rd_def)

lemma memstr_total: "p \<le> e \<Longrightarrow> e \<le> length b \<Longrightarrow> \<exists>r. memstr b s p e = Some r"
proof (induction b s p e rule: memstr.induct)
  case (1 b s p e)
  show ?case
  proof (cases "\<exists>q. p \<noteq> e \<and> memchr b (hd s) p (e - p) = Some (Some q)")
    case True
    then obtain q where q: "p \<noteq> e" "memchr b (hd s) p (e - p) = Some (Some q)" by blast
    have range: "q < e" using memchr_found [OF q(2)] "1.prems" by simp
    show ?thesis
    proof (cases "length s \<le> e - q")
      case True
      then have x: "mem_read b q (length s) = Some (take (length s) (drop q b))" using "1.prems"(2) range by (simp add: mem_read_def)
      show ?thesis using "1.IH"(1) [OF q refl True x] "1.prems" range q True x by (auto simp: memstr.simps [of b s p e])
    next
      case False
      show ?thesis using "1.IH"(2) [OF q refl False] "1.prems" range q False by (auto simp: memstr.simps [of b s p e])
    qed
  next
    case False
    obtain r where r: "memchr b (hd s) p (e - p) = Some r" using memchr_total [of p "e - p" b "hd s"] "1.prems" by auto
    with False have "p = e \<or> r = None" by (cases r) auto
    with r show ?thesis by (auto simp: memstr.simps [of b s p e])
  qed
qed

lemma find_url_total:
  assumes "s \<le> e" and "e \<le> length b"
  shows "\<exists>r. find_url b s e = Some r"
  using memstr_total [OF assms, of HTTP] memstr_total [OF assms, of HTTPS] by (auto simp: find_url_def split: option.splits)

lemma END_WITH_total: "s \<le> e \<Longrightarrow> e \<le> length b \<Longrightarrow> \<exists>r. END_WITH b s e t = Some r"
  by (auto simp: END_WITH_def mem_read_def)

lemma BEGIN_WITH_total: "s \<le> e \<Longrightarrow> e \<le> length b \<Longrightarrow> \<exists>r. BEGIN_WITH b s e t = Some r"
  by (auto simp: BEGIN_WITH_def mem_read_def)

lemma is_image_total:
  assumes "s \<le> e" and "e \<le> length b"
  shows "\<exists>r. is_image b s e = Some r"
  using END_WITH_total [OF assms, of "''.jpg''"] END_WITH_total [OF assms, of "''.gif''"]
    END_WITH_total [OF assms, of "''.png''"] END_WITH_total [OF assms, of "''jpeg''"]
  by (auto simp: is_image_def)

lemma link_tag:
  assumes "text_ok x" and "39 \<notin> set x"
  shows "emits (lit ''<a '' @ (if img then lit ''i='' @ quoted (lit ''i'') @ lit '' '' else []) @ lit ''href='' @ quoted x @ lit ''/>'') st st"
proof -
  let ?t = "lit ''a '' @ (if img then lit ''i='' @ quoted (lit ''i'') @ lit '' '' else []) @ lit ''href='' @ quoted x @ lit ''/''"
  have "amps_ok (quoted x)" using assms(1) by (simp add: quoted_def text_ok_def)
  then have "amps_ok ?t" by (intro amps_ok_append) (auto simp: quoted_def lit_def)
  moreover have "even (count_list ?t 39)" using assms(2) by (simp add: quoted_def lit_def)
  moreover have "60 \<notin> set ?t" "62 \<notin> set ?t" "hd ?t = 97" "last ?t = 47" "?t \<noteq> []"
    using assms(1) by (auto simp: quoted_def lit_def text_ok_def)
  ultimately have "emits (60 # ?t @ [62]) st st" by (intro emits_tag) (simp_all add: xml_tag_def)
  then show ?thesis by (simp add: lit_def)
qed

context page
begin

lemma print_url_ok:
  assumes "find_url b s e = Some (Some u)" and "e \<le> length b" and "links_ok b"
  shows "\<exists>q y. print_url w b u e opt = Some (q, y) \<and> u < q \<and> q \<le> e \<and> emits y st st"
proof -
  note u = find_url_found [OF assms(1)]
  obtain q where q: "get_url b u e = Some q" "u \<le> q" "q \<le> e" "\<forall>i. u \<le> i \<longrightarrow> i < q \<longrightarrow> is_url_char (b ! i)"
    using get_url_spec [of u e b] u assms(2) by auto
  let ?x = "take (q - u) (drop u b)"
  have chars: "is_url_char c" if "c \<in> set ?x" for c using set_slice [OF that] q(3,4) assms(2) by auto
  have ex: "\<exists>y. print_url w b u e opt = Some (q, y) \<and> emits y st st"
  proof (cases "q < u + 11")
    case True
    have "?x = take (q - u) (takeWhile is_url_char (drop u b))" using takeWhile_slice [OF q(4,2)] q(3) assms(2) by simp
    then have "set ?x \<subseteq> set (take 10 (takeWhile is_url_char (drop u b)))"
      using True set_take_subset_set_take [of "q - u" 10] by fastforce
    then have "38 \<notin> set ?x" using assms(3) u find_url_link [OF assms(1)] by (auto simp: links_ok_def)
    then have "text_ok ?x" using chars url_char_plain by (intro text_ok_plain) blast
    then show ?thesis using q True assms(2) by (auto simp: print_url_def mem_read_def intro!: emits_text)
  next
    case False
    have "39 \<notin> set ?x" using chars url_char_plain by blast
    moreover have "q \<le> length b" using q(3) assms(2) by simp
    ultimately obtain x where x: "xml_escape w b u q = Some x" "text_ok x" "39 \<notin> set x"
      using escape [OF q(2), of b] by blast
    obtain r where r: "is_image b u q = Some r" using is_image_total [of u q b] q assms(2) by auto
    show ?thesis
      using q(1) False x(1) r link_tag [OF x(2,3), of r st] link_tag [OF x(2,3), of False st] by (auto simp: print_url_def)
  qed
  then obtain y where y: "print_url w b u e opt = Some (q, y)" "emits y st st" by blast
  have "u < q" using print_url_progress [OF y(1)] u by simp
  with y q(3) show ?thesis by blast
qed

lemma paragraph_loop_ok:
  assumes "s \<le> e" and "e \<le> length b" and "links_ok b" and "emits out st st"
  shows "\<exists>x. paragraph_loop w b s e opt ansi out = Some x \<and> emits x st st"
  using assms
proof (induction "e - s" arbitrary: s ansi out rule: less_induct)
  case less
  have "\<exists>r. find_url b s e = Some r" using find_url_total [OF less.prems(1,2)] .
  then consider "s = e" | (plain) "s \<noteq> e" "find_url b s e = Some None" | (link) u where "s \<noteq> e" "find_url b s e = Some (Some u)" by fastforce
  then show ?case
  proof cases
    case 1
    then show ?thesis using less.prems(4) by (simp add: paragraph_loop.simps [of w b e])
  next
    case plain
    obtain x ansi' where "print_ansi_text w b s e ansi = Some (x, ansi')" "emits x st st"
      using print_ansi_text_ok [OF less.prems(1,2)] by blast
    then show ?thesis using plain less.prems(4) by (auto simp: paragraph_loop.simps [of w b s])
  next
    case link
    note u = find_url_found [OF link(2)]
    obtain x ansi' where x: "print_ansi_text w b s u ansi = Some (x, ansi')" "emits x st st"
      using print_ansi_text_ok [of s u b] u by fastforce
    obtain q y where y: "print_url w b u e opt = Some (q, y)" "u < q" "q \<le> e" "emits y st st"
      using print_url_ok [OF link(2) less.prems(2,3)] by blast
    have "paragraph_loop w b s e opt ansi out = paragraph_loop w b q e opt ansi' (out @ x @ y)"
      using link x(1) y(1) by (simp add: paragraph_loop.simps [of w b s])
    moreover have "emits (out @ x @ y) st st" using less.prems(4) x(2) y(4) by blast
    moreover have "e - q < e - s" using y(2,3) u by linarith
    ultimately show ?thesis using less.hyps [where s = q] less.prems(2,3) y(3) by simp
  qed
qed

lemma print_paragraph_ok:
  "s \<le> e \<Longrightarrow> e \<le> length b \<Longrightarrow> links_ok b \<Longrightarrow> \<exists>x. print_paragraph w b s e opt = Some x \<and> emits x st st"
  unfolding print_paragraph_def by (rule paragraph_loop_ok) simp_all

end

text \<open>What holds of every result of a computation, and the rules to go through its steps.\<close>

definition sat :: "('a \<Rightarrow> bool) \<Rightarrow> 'a option \<Rightarrow> bool" where
  "sat P m \<longleftrightarrow> (\<forall>x. m = Some x \<longrightarrow> P x)"

lemma sat_None [simp]: "sat P None"
  by (simp add: sat_def)

lemma sat_Some: "P x \<Longrightarrow> sat P (Some x)"
  by (simp add: sat_def)

lemma sat_bind: "(\<And>x. m = Some x \<Longrightarrow> sat P (f x)) \<Longrightarrow> sat P (m \<bind> f)"
  by (cases m) (simp_all add: sat_def)

lemma sat_if: "(c \<Longrightarrow> sat P m) \<Longrightarrow> (\<not> c \<Longrightarrow> sat P m') \<Longrightarrow> sat P (if c then m else m')"
  by simp

lemma sat_option: "(z = None \<Longrightarrow> sat P m) \<Longrightarrow> (\<And>y. z = Some y \<Longrightarrow> sat P (f y)) \<Longrightarrow> sat P (case z of None \<Rightarrow> m | Some y \<Rightarrow> f y)"
  by (cases z) simp_all

lemma sat_pair: "(\<And>x y. z = (x, y) \<Longrightarrow> sat P (f x y)) \<Longrightarrow> sat P (case z of (x, y) \<Rightarrow> f x y)"
  by (cases z) simp

lemmas sat_rules = sat_if sat_option sat_pair sat_bind sat_None sat_Some

lemma decimal_width_plain: "p \<in> {CHR ''0'', CHR '' ''} \<Longrightarrow> c \<in> set (decimal_width k p n) \<Longrightarrow> c \<notin> {38, 60, 62}"
  using decimal_no_special [of c n] by (auto simp: decimal_width_def Let_def lit_def)

lemma format_time_text:
  assumes "format_time ck d (if b then TIME_FORMAT_UTF8_ZH else TIME_FORMAT_ZH) = Some t"
  shows "text_ok t"
proof -
  have w: "set w \<inter> {38, 60, 62} = {}" if "w \<in> set weeknum \<union> set utf8_weeknum" for w
    using that by (auto simp: weeknum_def utf8_weeknum_def)
  have p: "set (d2 n) \<inter> {38, 60, 62} = {}" "set (d4 n) \<inter> {38, 60, 62} = {}" for n
    using decimal_width_plain by (auto simp: d4_def)
  have c: "set (clock_part x) \<inter> {38, 60, 62} = {}" for x using p(1) by (auto simp: clock_part_def lit_def)
  have rw: "w \<in> set xs" if "rdi xs i = Some w" for xs :: "buf list" and i w
    using that by (auto simp: rdi_def rd_def split: if_splits)
  have "set t \<inter> {38, 60, 62} = {}"
    using assms p c rw w
    by (auto simp: format_time_def fit_cut_def Let_def lit_def dest!: in_set_takeD split: if_splits Option.bind_splits)
  then show ?thesis by (rule text_ok_plain)
qed

text \<open>The fixed tags.\<close>

lemma emits_close_c: "emits (lit ''</c>'') (lit ''c'' # st) st"
  using emits_tag [of "lit ''c'' # st" "lit ''/c''" st] by (simp add: xml_tag_def lit_def)

lemma emits_pa: "emits (pa [m]) st (lit ''pa'' # st)" if "m = CHR ''s'' \<or> m = CHR ''t'' \<or> m = CHR ''q''"
  using that emits_tag [of st "lit ''pa m='' @ quoted (lit [m])" "lit ''pa'' # st"]
  by (auto simp: pa_def quoted_def lit_def xml_tag_def)

lemma emits_open: "emits (lit (''<'' @ n @ ''>'')) st (lit n # st)" and emits_close: "emits (lit (''</'' @ n @ ''>'')) (lit n # st) st"
  if "n \<in> {''p'', ''pa'', ''owner'', ''nick'', ''board'', ''title'', ''date''}"
  using that emits_tag [of st "lit n" "lit n # st"] emits_tag [of "lit n # st" "lit (CHR ''/'' # n)" st]
  by (auto simp: lit_def xml_tag_def)

lemma emits_br: "emits (lit ''<br/>'') st st"
  using emits_tag [of st "lit ''br/''" st] by (simp add: lit_def xml_tag_def)

lemma emits_dashes: "emits (lit ''<p>--</p>'') st st"
proof -
  have "emits (lit (''<'' @ ''p'' @ ''>'')) st (lit ''p'' # st)" "emits (lit (''</'' @ ''p'' @ ''>'')) (lit ''p'' # st) st"
    by (rule emits_open emits_close; simp)+
  moreover have "emits (lit ''--'') (lit ''p'' # st) (lit ''p'' # st)" by (rule emits_text) (simp add: lit_def text_ok_def)
  ultimately have "emits (lit (''<'' @ ''p'' @ ''>'') @ lit ''--'' @ lit (''</'' @ ''p'' @ ''>'')) st st" by blast
  then show ?thesis by (simp add: lit_def)
qed

lemma emits_switch:
  assumes "m = CHR ''s'' \<or> m = CHR ''t'' \<or> m = CHR ''q''"
  shows "emits (lit ''</pa>'' @ pa [m]) (lit ''pa'' # st) (lit ''pa'' # st)"
  using emits_append [OF emits_close [of "''pa''" st] emits_pa [OF assms]] by simp

lemma emits_p: "emits x (lit ''p'' # st) (lit ''p'' # st) \<Longrightarrow> emits (lit ''<p>'' @ x @ lit ''</p>'') st st"
  using emits_append [OF emits_open [of "''p''" st] emits_append [OF _ emits_close [of "''p''" st]]] by simp

lemma line_end_total: "s \<le> e \<Longrightarrow> e \<le> length b \<Longrightarrow> \<exists>l. line_end b s e = Some l"
proof (induction "e - s" arbitrary: s)
  case (Suc n)
  then show ?case using Suc.hyps(1) [of "Suc s"] by (auto simp: line_end.simps [of b s] rd_def)
qed (simp add: line_end.simps)

lemma is_quote_total: "s \<le> e \<Longrightarrow> e \<le> length b \<Longrightarrow> \<exists>r. is_quote b s e = Some r"
  using BEGIN_WITH_total [of s e b "lit '': ''"] BEGIN_WITH_total [of s e b QUOTE_STRING] by (auto simp: is_quote_def)

context page
begin

lemma print_line_ok:
  assumes "s < e" and "e \<le> length b" and "links_ok b"
  shows "\<exists>r. print_line w b s e opt sig quote = Some r \<and>
    (\<forall>x sig' quote'. r = Some (x, sig', quote') \<longrightarrow> emits x (lit ''pa'' # st) (lit ''pa'' # st))"
proof -
  have bounds: "s \<le> e" "s < length b" using assms by simp_all
  obtain q where q: "is_quote b s e = Some q" using is_quote_total [OF bounds(1) assms(2)] by blast
  let ?dashes = "\<not> sig \<and> e - s = 3 \<and> take 3 (drop s b) = [45, 45, 10]"
  define q' where "q' = (if sig then quote else q)"
  define opt' where "opt' = (if sig then if q' then opt else opt AND NOT PARSE_NOQUOTEIMG
     else (if q' then opt else opt AND NOT PARSE_NOQUOTEIMG) AND NOT PARSE_NOSIGIMG)"
  obtain y where y: "print_paragraph w b s e opt' = Some y" "emits y (lit ''p'' # lit ''pa'' # st) (lit ''p'' # lit ''pa'' # st)"
    using print_paragraph_ok [OF bounds(1) assms(2,3)] by blast
  define x where "x = (if e = s + 1 \<or> (e = s + 2 \<and> b ! s = 13) then lit ''<br/>'' else y)"
  define turn where "turn = (if q' \<noteq> quote then lit ''</pa>'' @ pa (if quote then ''t'' else ''q'') else [])"
  have "emits x (lit ''p'' # lit ''pa'' # st) (lit ''p'' # lit ''pa'' # st)" using y(2) emits_br by (simp add: x_def)
  note inner = emits_p [OF this]
  have "emits turn (lit ''pa'' # st) (lit ''pa'' # st)" by (simp add: turn_def emits_switch)
  note body = emits_append [OF this inner]
  have sig: "emits (lit ''</pa>'' @ pa ''s'' @ lit ''<p>--</p>'') (lit ''pa'' # st) (lit ''pa'' # st)"
    using emits_append [OF emits_switch [of "CHR ''s''" st] emits_dashes] by simp
  have d: "(if \<not> sig \<and> e - s = 3 then do { x \<leftarrow> mem_read b s 3; Some (x = [45, 45, 10]) } else Some False) = Some ?dashes"
    using assms(1,2) by (auto simp: mem_read_def)
  have qq: "(if sig then Some quote else is_quote b s e) = Some q'" using q by (simp add: q'_def)
  have xx: "(if e = s + 1 \<or> (e = s + 2 \<and> b ! s = 13) then Some (lit ''<br/>'') else print_paragraph w b s e opt') = Some x"
    using y(1) by (simp add: x_def)
  have "print_line w b s e opt sig quote =
      (if ?dashes then Some (if opt AND PARSE_NOSIG \<noteq> 0 then None else Some (lit ''</pa>'' @ pa ''s'' @ lit ''<p>--</p>'', True, False))
       else Some (Some (turn @ lit ''<p>'' @ x @ lit ''</p>'', sig, q')))"
    using bounds(2)
    by (simp only: print_line_def d qq bind.bind_lunit rd_def if_True Let_def opt'_def [symmetric] xx turn_def)
  then show ?thesis using body sig by auto
qed

lemma body_loop_ok:
  assumes "s \<le> e" and "e \<le> length b" and "links_ok b" and "emits out (lit ''pa'' # st) (lit ''pa'' # st)"
  shows "\<exists>x. body_loop w b s e opt sig quote out = Some x \<and> emits x (lit ''pa'' # st) (lit ''pa'' # st)"
  using assms
proof (induction "e - s" arbitrary: s sig quote out rule: less_induct)
  case less
  show ?case
  proof (cases "s = e")
    case True
    then show ?thesis using less.prems(4) by (simp add: body_loop.simps [of w b e])
  next
    case False
    obtain l where l: "line_end b s e = Some l" "s < l" "l \<le> e" "l \<le> length b"
      using line_end_total [OF less.prems(1,2)] line_end_progress False less.prems(1) by blast
    obtain r where r: "print_line w b s l opt sig quote = Some r"
      "\<And>x sig' quote'. r = Some (x, sig', quote') \<Longrightarrow> emits x (lit ''pa'' # st) (lit ''pa'' # st)"
      using print_line_ok [OF l(2,4) less.prems(3)] by blast
    show ?thesis
    proof (cases r)
      case None
      then show ?thesis using False l(1) r(1) less.prems(4) by (simp add: body_loop.simps [of w b s])
    next
      case (Some t)
      obtain x sig' quote' where t: "t = (x, sig', quote')" by (cases t)
      have "body_loop w b s e opt sig quote out = body_loop w b l e opt sig' quote' (out @ x)"
        using False l(1) r(1) Some t by (simp add: body_loop.simps [of w b s])
      moreover have "emits (out @ x) (lit ''pa'' # st) (lit ''pa'' # st)" using less.prems(4) r(2) Some t by blast
      moreover have "e - l < e - s" using l(2,3) by linarith
      ultimately show ?thesis using less.hyps [where s = l] less.prems(2,3) l(3) by simp
    qed
  qed
qed

lemma print_body_ok:
  assumes "s \<le> e" and "e \<le> length b" and "links_ok b"
  shows "\<exists>x. print_body w b s e opt = Some x \<and> emits x st st"
proof -
  obtain x where x: "body_loop w b s e opt False False [] = Some x" "emits x (lit ''pa'' # st) (lit ''pa'' # st)"
    using body_loop_ok [OF assms, of "[]" st opt False False] by auto
  have "emits (pa ''t'' @ x @ lit ''</pa>'') st st"
    using emits_append [OF emits_pa [of "CHR ''t''" st] emits_append [OF x(2) emits_close [of "''pa''" st]]] by simp
  with x(1) show ?thesis by (simp add: print_body_def)
qed

lemma print_node_emits:
  assumes "print_node w n b s e = Some x" and "n \<in> {''owner'', ''nick'', ''board''}"
  shows "emits x st st"
proof -
  obtain y where y: "xml_escape w b s e = Some y" "x = lit (''<'' @ n @ ''>'') @ y @ lit (''</'' @ n @ ''>'')"
    using assms(1) by (auto simp: print_node_def split: Option.bind_splits)
  have "text_ok y" using y(1) escape_result by blast
  moreover have n: "n \<in> {''p'', ''pa'', ''owner'', ''nick'', ''board'', ''title'', ''date''}" using assms(2) by auto
  ultimately show ?thesis
    unfolding y(2) using emits_append [OF emits_open [OF n] emits_append [OF emits_text emits_close [OF n]]] by blast
qed

lemma print_ansi_text_emits:
  assumes "print_ansi_text w b s e ansi = Some (x, ansi')"
  shows "emits x st st"
proof -
  have close: "emits (if op then lit ''</c>'' else []) (if op then lit ''c'' # st else st) st" for op
    using emits_close_c by simp
  have "sat (\<lambda>(x, _). emits x st st) (ansi_text_loop w b s e last' op ansi out)"
    if "emits out st (if op then lit ''c'' # st else st)" for last' op ansi out
    using that
  proof (induction "length b - s" arbitrary: s last' op ansi out rule: less_induct)
    case less
    show ?case
    proof (cases "s = e")
      case True
      have "emits (out @ y @ (if op then lit ''</c>'' else [])) st st" if "xml_escape w b last' e = Some y" for y
        using less.prems emits_text [OF escape_result [OF that]] close by (intro emits_append)
      with True show ?thesis by (auto simp: ansi_text_loop.simps [of w b e] intro!: sat_rules)
    next
      case False
      have esc: "sat (\<lambda>(x, _). emits x st st) (ansi_text_loop w b q e q True ansi' (out @ y @ (if op then lit ''</c>'' else []) @ color_tag ansi'))"
        if "s < length b" "xml_escape w b last' s = Some y" "parse_ansi_code b s e ansi = Some (q, ansi')" for y q ansi'
      proof (rule less.hyps)
        show "length b - q < length b - s" using parse_ansi_code_range [OF that(3)] that(1) by linarith
        have "emits (out @ y @ (if op then lit ''</c>'' else [])) st st"
          using less.prems emits_text [OF escape_result [OF that(2)]] close by (intro emits_append)
        from emits_append [OF this emits_color]
        show "emits (out @ y @ (if op then lit ''</c>'' else []) @ color_tag ansi') st (if True then lit ''c'' # st else st)" by simp
      qed
      have skip: "sat (\<lambda>(x, _). emits x st st) (ansi_text_loop w b (Suc s) e last' op ansi out)" if "s < length b"
        using less.hyps [of "Suc s"] less.prems that by simp
      show ?thesis
        using False esc skip by (auto simp: ansi_text_loop.simps [of w b s] rd_def sat_None split: option.splits)
    qed
  qed
  from this [of "[]" False s ansi] show ?thesis using assms by (simp add: print_ansi_text_def sat_def)
qed

lemma print_header_sat:
  assumes "sz \<le> length b"
  shows "sat (\<lambda>(n, head). emits head st st \<and> n \<le> sz) (print_header w b sz)"
proof -
  have t: "emits (lit ''<title>'' @ x @ lit ''</title>'') st st" if "emits x (lit ''title'' # st) (lit ''title'' # st)" for x
    using emits_append [OF emits_open [of "''title''" st] emits_append [OF that emits_close [of "''title''" st]]] by simp
  have d: "emits (lit ''<date>'' @ x @ lit ''</date>'') st st" if "text_ok x" for x
    using emits_append [OF emits_open [of "''date''" st] emits_append [OF emits_text [OF that] emits_close [of "''date''" st]]] by simp
  have fin: "emits (x1 @ x2 @ x3 @ lit ''<title>'' @ x4 @ lit ''</title>'' @ lit ''<date>'' @ x5 @ lit ''</date>'') st st"
    if "print_node w ''owner'' b o1 o2 = Some x1" "print_node w ''nick'' b n1 n2 = Some x2" "print_node w ''board'' b b1 b2 = Some x3"
      "print_ansi_text w b t1 t2 no_color = Some (x4, c)"
      "format_time (web_clock w) date (if req_utf8 w then TIME_FORMAT_UTF8_ZH else TIME_FORMAT_ZH) = Some x5"
    for x1 x2 x3 x4 x5 o1 o2 n1 n2 b1 b2 t1 t2 c date
  proof -
    have e: "emits x1 st st" "emits x2 st st" "emits x3 st st" using that(1-3) by (auto intro: print_node_emits)
    note rest = emits_append [OF t [OF print_ansi_text_emits [OF that(4)]] d [OF format_time_text [OF that(5)]]]
    show ?thesis using emits_append [OF e(1) emits_append [OF e(2) emits_append [OF e(3) rest]]] by simp
  qed
  have line: "l \<le> sz" if "line_end b s sz = Some l" "s \<le> sz" for s l
    using line_end_progress [OF that(1)] that by (cases "s = sz") (auto simp: line_end.simps)
  show ?thesis
    unfolding print_header_def Let_def
    by (intro sat_rules; (simp; fail)?) (auto intro!: fin dest!: line)
qed

lemma xml_print_post_ok:
  assumes "sz \<le> length b" and "links_ok b" and "print_header w b sz = Some (n, head)" and "n < sz \<or> n = 0"
  shows "\<exists>out. xml_print_post w (Some b) sz opt = Some (0, out) \<and> xml_run [] out = Some []"
proof -
  have "(if n \<noteq> 0 then n + 1 else n) \<le> sz" using assms(4) by auto
  then obtain body where body: "print_body w b (if n \<noteq> 0 then n + 1 else n) sz opt = Some body" "emits body [] []"
    using print_body_ok [OF _ assms(1,2)] by blast
  have "emits head [] []" using print_header_sat [OF assms(1), of "[]"] assms(3) by (simp add: sat_def)
  from emits_run [OF emits_append [OF this body(2)]] body(1) assms(3) show ?thesis by (simp add: xml_print_post_def)
qed

end

section \<open>Pages in UTF-8\<close>

definition utf8_web :: "charset \<Rightarrow> clock \<Rightarrow> web" where
  "utf8_web u ck = \<lparr>req_utf8 = True, web_u2g = u, web_clock = ck\<rparr>"

lemma xml_escape_internal_text: "xml_escape_internal b s e out = Some x \<Longrightarrow> text_ok out \<Longrightarrow> text_ok x"
proof (induction b s e out rule: xml_escape_internal.induct)
  case (1 b s e out)
  show ?case
  proof (cases "s = e")
    case True
    then show ?thesis using "1.prems" by (simp add: xml_escape_internal.simps [of b e e])
  next
    case False
    then obtain c where c: "rd b s = Some c" "xml_escape_internal b (Suc s) e (out @ escape_char c) = Some x"
      using "1.prems"(1) by (auto simp: xml_escape_internal.simps [of b s] split: option.splits)
    from "1.IH" [OF False c] "1.prems"(2) escape_char_ok show ?thesis by simp
  qed
qed

interpretation utf8_page: page "utf8_web u ck" for u ck
proof
  fix s e :: nat and b :: buf
  assume "s \<le> e" "e \<le> length b"
  then have "xml_escape (utf8_web u ck) b s e = Some (concat (map escape_char (take (e - s) (drop s b))))"
    by (simp add: xml_escape_def utf8_web_def xml_escape_internal_spec)
  moreover have "39 \<notin> set (concat (map escape_char xs))" if "39 \<notin> set xs" for xs
    using that escape_char_quote by (induction xs) auto
  ultimately show "\<exists>x. xml_escape (utf8_web u ck) b s e = Some x \<and> text_ok x \<and>
      (39 \<notin> set (take (e - s) (drop s b)) \<longrightarrow> 39 \<notin> set x)" using escape_text_ok by blast
next
  show "xml_escape (utf8_web u ck) b s e = Some x \<Longrightarrow> text_ok x" for b s e x
    using xml_escape_internal_text [of b s e "[]" x] by (simp add: xml_escape_def utf8_web_def)
qed


definition some_clock :: clock where
  "some_clock = \<lparr>localtime = (\<lambda>_. \<lparr>tm_sec = 0, tm_min = 0, tm_hour = 8, tm_mday = 1, tm_mon = 0, tm_year = 70, tm_wday = 4,
     tm_gmtoff = 28800\<rparr>), mktime = (\<lambda>_ _ _ _ _ _. 1)\<rparr>"

text \<open>A line in bold with an angle bracket, followed by a signature.\<close>

definition small_post :: buf where
  "small_post = [27, 91, 49, 109, 60, 97, 10, 45, 45, 10]"

lemma small_post_header: "print_header (utf8_web ascii some_clock) small_post 10 = Some (0, [])"
  by code_simp


text \<open>When a post ends with its header, the skipped blank line is behind its end and printing the body reads
  on behind the buffer.\<close>

theorem xml_print_post_header_only:
  assumes "print_header w b (length b) = Some (length b, head)" and "b \<noteq> []"
  shows "xml_print_post w (Some b) (length b) opt = None"
  using assms by (simp add: xml_print_post_def print_body_def body_loop.simps [of w b "Suc (length b)"] line_end.simps [of b "Suc (length b)"] rd_def)

text \<open>A header of three lines and nothing else.\<close>

definition bare_header :: buf where
  "bare_header = SENDER_STRING @ lit ''a (b), x: C'' @ [10] @ TOPIC_STRING @ lit ''t'' @ [10] @
     lit ''(1996'' @ [0xe5, 0xb9, 0xb4] @ lit ''04'' @ [0xe6, 0x9c, 0x88] @ lit ''19'' @ [0xe6, 0x97, 0xa5] @ lit ''11:11:11)'' @ [10]"

theorem xml_print_post_header_only_witness:
  "xml_print_post (utf8_web ascii some_clock) (Some bare_header) (length bare_header) 0 = None"
proof -
  have "map_option fst (print_header (utf8_web ascii some_clock) bare_header (length bare_header)) = Some (length bare_header)"
    by code_simp
  then have "\<exists>head. print_header (utf8_web ascii some_clock) bare_header (length bare_header) = Some (length bare_header, head)"
    by auto
  moreover have "bare_header \<noteq> []" by (simp add: bare_header_def)
  ultimately show ?thesis using xml_print_post_header_only by blast
qed

text \<open>A link of ten characters with an ampersand is printed as it is, which is not XML; a sender line without a colon
  makes the header parser read from a null pointer.\<close>

lemma short_link_not_escaped:
  "map_option (\<lambda>(_, out). xml_run [] out) (xml_print_post (utf8_web ascii some_clock) (Some (HTTP @ lit ''a&b'' @ [10])) 11 0) = Some None"
  by code_simp

lemma header_without_colon: "print_header (utf8_web ascii some_clock) (SENDER_STRING @ lit ''a (b)'' @ [10]) 17 = None"
  by code_simp

end
