(* ===== verification/FB_Mine.thy ===== *)
theory FB_Mine
  imports FB_Helper "HOL-Library.Multiset"
begin

text \<open>
  The mine field of \<open>game/winmine.c\<close>: a field of 30 by 16 squares inside arrays of 32 by 18, the squares that are
  opened when one is dug, marks, the first click, and the table of the best times.  Text goes to an output buffer of
  10000 bytes that \<open>refresh\<close> sends.  Help, start-up and the terminal settings are not part of the model.
\<close>

type_synonym grid = "bool list list"

record rank =
  top_id :: buf
  top_time :: int
  top_from :: buf

record mine_game =
  mine_a :: grid
  mine_m :: grid
  mine_o :: grid
  gameover :: bool
  out_text :: buf
  mine_sent :: buf

definition MINE_BUFSIZE :: nat where "MINE_BUFSIZE = 10000"

section \<open>Arrays and output\<close>

definition square :: "grid \<Rightarrow> int \<Rightarrow> int \<Rightarrow> bool option" where
  "square g x y = do { r \<leftarrow> rdi g x; rdi r y }"

definition set_square :: "grid \<Rightarrow> int \<Rightarrow> int \<Rightarrow> bool \<Rightarrow> grid option" where
  "set_square g x y v = do { r \<leftarrow> rdi g x; r \<leftarrow> wri r y v; wri g x r }"

definition mine_prints :: "buf \<Rightarrow> mine_game \<Rightarrow> mine_game option" where
  "mine_prints s g =
     (if length (out_text g) + length s < MINE_BUFSIZE then Some (g\<lparr>out_text := out_text g @ s\<rparr>) else None)"

definition mine_refresh :: "mine_game \<Rightarrow> mine_game" where
  "mine_refresh g = g\<lparr>mine_sent := mine_sent g @ out_text g, out_text := []\<rparr>"

definition mine_screen_clear :: "mine_game \<Rightarrow> mine_game option" where
  "mine_screen_clear = mine_prints (27 # lit ''[H'' @ 27 # lit ''[J'')"

definition mine_move :: "int \<Rightarrow> int \<Rightarrow> mine_game \<Rightarrow> mine_game option" where
  "mine_move x y = mine_prints (27 # lit ''['' @ decimal (y + 1) @ lit '';'' @ decimal (x + 1) @ lit ''H'')"

text \<open>The text of a mine: bold red, the character, and back to normal.\<close>

definition mine_text :: buf where
  "mine_text = 27 # lit ''[1;31m'' @ [0xc0, 0xd7] @ 27 # lit ''[m''"

definition field_x :: "int list" where "field_x = [1..30]"
definition field_y :: "int list" where "field_y = [1..16]"

definition field :: "(int \<times> int) list" where
  "field = concat (map (\<lambda>x. map (Pair x) field_y) field_x)"

fun show_loop :: "(int \<times> int) list \<Rightarrow> mine_game \<Rightarrow> mine_game option" where
  "show_loop [] g = Some g"
| "show_loop ((x, y) # cs) g = do {
     a \<leftarrow> square (mine_a g) x y;
     g \<leftarrow> (if a then do { g \<leftarrow> mine_move (x * 2 - 2) (y - 1) g; mine_prints mine_text g } else Some g);
     show_loop cs g
   }"

definition show_mines :: "mine_game \<Rightarrow> mine_game option" where
  "show_mines = show_loop field"

section \<open>Counting\<close>

definition around :: "int \<Rightarrow> int \<Rightarrow> (int \<times> int) list" where
  "around x y = concat (map (\<lambda>dx. map (Pair dx) [y - 1, y, y + 1]) [x - 1, x, x + 1])"

fun count_beside :: "grid \<Rightarrow> int \<Rightarrow> int \<Rightarrow> (int \<times> int) list \<Rightarrow> int \<Rightarrow> int option" where
  "count_beside g x y [] s = Some s"
| "count_beside g x y ((dx, dy) # cs) s =
     (if dx = x \<and> dy = y then count_beside g x y cs s
      else case square g dx dy of None \<Rightarrow> None | Some b \<Rightarrow> count_beside g x y cs (if b then s + 1 else s))"

definition num_mine_beside :: "int \<Rightarrow> int \<Rightarrow> mine_game \<Rightarrow> int option" where
  "num_mine_beside x y g = count_beside (mine_a g) x y (around x y) 0"

definition num_mark_beside :: "int \<Rightarrow> int \<Rightarrow> mine_game \<Rightarrow> int option" where
  "num_mark_beside x y g = count_beside (mine_m g) x y (around x y) 0"

section \<open>Showing a square\<close>

definition mine_word :: "buf list" where
  "mine_word = [[0xa1, 0xa4], [0xa3, 0xb1], [0xa3, 0xb2], [0xa3, 0xb3], [0xa3, 0xb4], [0xa3, 0xb5], [0xa3, 0xb6], [0xa3, 0xb7], [0xa3, 0xb8]]"

definition mine_cc :: "int list" where
  "mine_cc = [38, 37, 32, 31, 33, 35, 36, 40, 39]"

definition winsh0 :: "int \<Rightarrow> int \<Rightarrow> mine_game \<Rightarrow> mine_game option" where
  "winsh0 x y g = do {
     op \<leftarrow> square (mine_o g) x y;
     mk \<leftarrow> square (mine_m g) x y;
     (if \<not> op \<and> \<not> mk then mine_prints [0xa1, 0xf9] g
      else if mk then mine_prints [0xa1, 0xf1] g
      else do {
        a \<leftarrow> square (mine_a g) x y;
        (if a then mine_prints mine_text g
         else do {
           c \<leftarrow> num_mine_beside x y g;
           cc \<leftarrow> rdi mine_cc c;
           w \<leftarrow> rdi mine_word c;
           mine_prints (27 # lit ''['' @ decimal (if c = 0 then 0 else 1) @ lit '';'' @ decimal cc @ lit ''m'' @ w @ 27 # lit ''[m'') g
         })
      })
   }"

definition winsh :: "int \<Rightarrow> int \<Rightarrow> mine_game \<Rightarrow> mine_game option" where
  "winsh x y g = do { g \<leftarrow> mine_move (x * 2 - 2) (y - 1) g; winsh0 x y g }"

section \<open>Digging\<close>

text \<open>The square itself is dug again after its neighbours on the left; it is open by then.\<close>

partial_function (option) windig :: "int \<Rightarrow> int \<Rightarrow> mine_game \<Rightarrow> mine_game option" where
  "windig x y g =
     (if x < 1 \<or> x > 30 \<or> y < 1 \<or> y > 16 then Some g
      else do {
        op \<leftarrow> square (mine_o g) x y;
        mk \<leftarrow> square (mine_m g) x y;
        (if op \<or> mk then Some g
         else do {
           o' \<leftarrow> set_square (mine_o g) x y True;
           g \<leftarrow> winsh x y (g\<lparr>mine_o := o'\<rparr>);
           a \<leftarrow> square (mine_a g) x y;
           (if a then do { g \<leftarrow> show_mines g; Some (g\<lparr>gameover := True\<rparr>) }
            else do {
              n \<leftarrow> num_mine_beside x y g;
              (if n = 0 then do {
                 g \<leftarrow> windig (x - 1) (y - 1) g; g \<leftarrow> windig (x - 1) y g; g \<leftarrow> windig (x - 1) (y + 1) g;
                 g \<leftarrow> windig x (y - 1) g; g \<leftarrow> windig x y g; g \<leftarrow> windig x (y + 1) g;
                 g \<leftarrow> windig (x + 1) (y - 1) g; g \<leftarrow> windig (x + 1) y g; windig (x + 1) (y + 1) g
               } else Some g)
            })
         })
      })"

fun dig_all :: "(int \<times> int) list \<Rightarrow> mine_game \<Rightarrow> mine_game option" where
  "dig_all [] g = Some g"
| "dig_all ((x, y) # cs) g = do { g \<leftarrow> windig x y g; dig_all cs g }"

definition dblclick :: "int \<Rightarrow> int \<Rightarrow> mine_game \<Rightarrow> mine_game option" where
  "dblclick x y g =
     (if x < 1 \<or> x > 30 \<or> y < 1 \<or> y > 16 then Some g
      else do {
        op \<leftarrow> square (mine_o g) x y;
        (if \<not> op then Some g
         else do {
           a \<leftarrow> num_mine_beside x y g;
           m \<leftarrow> num_mark_beside x y g;
           (if a \<noteq> m then Some g else dig_all (around x y) g)
         })
      })"

definition dig :: "int \<Rightarrow> int \<Rightarrow> mine_game \<Rightarrow> mine_game option" where
  "dig x y g = do { op \<leftarrow> square (mine_o g) x y; (if \<not> op then windig x y g else dblclick x y g) }"

fun closed_count :: "(int \<times> int) list \<Rightarrow> grid \<Rightarrow> int \<Rightarrow> int option" where
  "closed_count [] g s = Some s"
| "closed_count ((x, y) # cs) g s = (case square g x y of None \<Rightarrow> None | Some b \<Rightarrow> closed_count cs g (if b then s else s + 1))"

definition checkwin :: "mine_game \<Rightarrow> int option" where
  "checkwin g = do { s \<leftarrow> closed_count field (mine_o g) 0; Some (if s = 99 then 1 else 0) }"

section \<open>A new field\<close>

text \<open>The first click and its neighbours stay free.  \<open>rand\<close> is the sequence of the random numbers from now on.\<close>

partial_function (option) place_mine :: "int \<Rightarrow> int \<Rightarrow> grid \<Rightarrow> (nat \<Rightarrow> int) \<Rightarrow> nat \<Rightarrow> (grid \<times> nat) option" where
  "place_mine x1 y1 a rand i = do {
     let x = c_mod (rand i) 30 + 1;
     let y = c_mod (rand (Suc i)) 16 + 1;
     b \<leftarrow> square a x y;
     (if b \<or> (\<bar>x - x1\<bar> < 2 \<and> \<bar>y - y1\<bar> < 2) then place_mine x1 y1 a rand (i + 2)
      else do { a \<leftarrow> set_square a x y True; Some (a, i + 2) })
   }"

fun place_mines :: "nat \<Rightarrow> int \<Rightarrow> int \<Rightarrow> grid \<Rightarrow> (nat \<Rightarrow> int) \<Rightarrow> nat \<Rightarrow> (grid \<times> nat) option" where
  "place_mines 0 x1 y1 a rand i = Some (a, i)"
| "place_mines (Suc n) x1 y1 a rand i = do {
     (a, i) \<leftarrow> place_mine x1 y1 a rand i;
     place_mines n x1 y1 a rand i
   }"

definition wininit :: "int \<Rightarrow> int \<Rightarrow> (nat \<Rightarrow> int) \<Rightarrow> mine_game \<Rightarrow> mine_game option" where
  "wininit x1 y1 rand g = do { (a, _) \<leftarrow> place_mines 99 x1 y1 (mine_a g) rand 0; Some (g\<lparr>mine_a := a\<rparr>) }"

definition no_squares :: grid where
  "no_squares = replicate 32 (replicate 18 False)"

definition new_game :: "mine_game \<Rightarrow> mine_game" where
  "new_game g = g\<lparr>mine_a := no_squares, mine_m := no_squares, mine_o := no_squares\<rparr>"

text \<open>The keys of the main loop that change the field: dig (the first time the mines are laid) and mark.\<close>

definition key_dig :: "int \<Rightarrow> int \<Rightarrow> bool \<Rightarrow> (nat \<Rightarrow> int) \<Rightarrow> mine_game \<Rightarrow> (bool \<times> mine_game) option" where
  "key_dig x y inited rand g = do {
     g \<leftarrow> (if \<not> inited then wininit x y rand g else Some g);
     g \<leftarrow> dig x y g;
     Some (True, g)
   }"

definition key_mark :: "int \<Rightarrow> int \<Rightarrow> int \<Rightarrow> mine_game \<Rightarrow> (int \<times> mine_game) option" where
  "key_mark x y marked g = do {
     op \<leftarrow> square (mine_o g) x y;
     (if op then Some (marked, g)
      else do {
        mk \<leftarrow> square (mine_m g) x y;
        m \<leftarrow> set_square (mine_m g) x y (\<not> mk);
        g \<leftarrow> winsh x y (g\<lparr>mine_m := m\<rparr>);
        Some (if mk then marked - 1 else marked + 1, g)
      })
   }"

definition key_move :: "int \<Rightarrow> int \<Rightarrow> int \<Rightarrow> int \<times> int" where
  "key_move c x y =
     (let y = (if (c = 257 \<or> c = 107) \<and> y > 1 then y - 1 else y);
          y = (if (c = 258 \<or> c = 106) \<and> y < 16 then y + 1 else y);
          x = (if (c = 260 \<or> c = 104) \<and> x > 1 then x - 1 else x);
          x = (if (c = 259 \<or> c = 108) \<and> x < 30 then x + 1 else x) in (x, y))"

end
