(* ===== verification/FB_MineField.thy ===== *)
theory FB_MineField
  imports FB_Mine
begin

text \<open>
  Digging opens exactly the connected blank area around a square and its border, ends, and stays inside the arrays and
  the output buffer.
\<close>

section \<open>Squares\<close>

type_synonym pos = "int \<times> int"

definition grid_ok :: "grid \<Rightarrow> bool" where
  "grid_ok g \<longleftrightarrow> length g = 32 \<and> (\<forall>r\<in>set g. length r = 18)"

definition game_ok :: "mine_game \<Rightarrow> bool" where
  "game_ok G \<longleftrightarrow> grid_ok (mine_a G) \<and> grid_ok (mine_m G) \<and> grid_ok (mine_o G)"

fun in_array :: "pos \<Rightarrow> bool" where
  "in_array (x, y) \<longleftrightarrow> 0 \<le> x \<and> x < 32 \<and> 0 \<le> y \<and> y < 18"

fun in_field :: "pos \<Rightarrow> bool" where
  "in_field (x, y) \<longleftrightarrow> 1 \<le> x \<and> x \<le> 30 \<and> 1 \<le> y \<and> y \<le> 16"

fun cell :: "grid \<Rightarrow> pos \<Rightarrow> bool" where
  "cell g (x, y) = g ! nat x ! nat y"

fun beside :: "pos \<Rightarrow> pos list" where
  "beside (x, y) = around x y"

lemma in_field_array: "in_field c \<Longrightarrow> in_array c"
  by (cases c) simp

lemma beside_array: "in_field c \<Longrightarrow> d \<in> set (beside c) \<Longrightarrow> in_array d"
  by (cases c) (auto simp: around_def)

lemma beside_self: "c \<in> set (beside c)"
  by (cases c) (simp add: around_def)

lemma square_ok: "grid_ok g \<Longrightarrow> in_array (x, y) \<Longrightarrow> square g x y = Some (cell g (x, y))"
  by (auto simp: square_def rdi_def rd_def grid_ok_def)

lemma set_square_ok:
  assumes "grid_ok g" and "in_array (x, y)"
  shows "\<exists>g'. set_square g x y v = Some g' \<and> grid_ok g' \<and> (\<forall>c. in_array c \<longrightarrow> cell g' c = (if c = (x, y) then v else cell g c))"
proof -
  let ?r = "(g ! nat x)[nat y := v]" and ?g' = "g[nat x := (g ! nat x)[nat y := v]]"
  have len: "nat x < length g" "nat y < length (g ! nat x)" using assms by (auto simp: grid_ok_def)
  have "set_square g x y v = Some ?g'"
    using assms(2) len by (simp add: set_square_def rdi_def rd_def wri_def wr_def)
  moreover have "grid_ok ?g'"
    using assms(1) len set_update_subset_insert [of g "nat x" ?r] by (auto simp: grid_ok_def)
  moreover have "cell ?g' (u, t) = (if (u, t) = (x, y) then v else cell g (u, t))" if "in_array (u, t)" for u t
    using that assms(2) len by (auto simp: nth_list_update nat_eq_iff split: if_splits)
  ultimately show ?thesis by auto
qed

section \<open>Counting and showing\<close>

lemma count_beside_spec:
  "grid_ok g \<Longrightarrow> \<forall>d\<in>set cs. in_array d \<Longrightarrow>
   count_beside g x y cs s = Some (s + int (length (filter (\<lambda>d. d \<noteq> (x, y) \<and> cell g d) cs)))"
  by (induction g x y cs s rule: count_beside.induct) (auto simp: square_ok split: option.splits)

definition beside_count :: "grid \<Rightarrow> pos \<Rightarrow> int" where
  "beside_count g c = int (length (filter (\<lambda>d. d \<noteq> c \<and> cell g d) (beside c)))"

lemma num_mine_beside_ok: "game_ok G \<Longrightarrow> in_field (x, y) \<Longrightarrow> num_mine_beside x y G = Some (beside_count (mine_a G) (x, y))"
  using beside_array [of "(x, y)"] by (simp add: num_mine_beside_def count_beside_spec beside_count_def game_ok_def)

lemma beside_count_range: "0 \<le> beside_count g c \<and> beside_count g c \<le> 8"
proof -
  obtain x y where c: "c = (x, y)" by (cases c)
  have "filter (\<lambda>d. d \<noteq> c \<and> cell g d) (beside c) = filter (cell g) (filter (\<lambda>d. d \<noteq> c) (beside c))"
    by (simp add: conj_commute)
  moreover have "length (filter (\<lambda>d. d \<noteq> c) (beside c)) = 8" by (simp add: c around_def)
  ultimately show ?thesis using length_filter_le [of "cell g" "filter (\<lambda>d. d \<noteq> c) (beside c)"] by (simp add: beside_count_def)
qed

lemma decimal_short: "0 \<le> n \<Longrightarrow> n < 100 \<Longrightarrow> length (decimal n) \<le> 2"
  by (simp add: decimal_def length_lit)

lemma mine_move_ok:
  assumes "in_field (x, y)" and "length (out_text G) + 8 < MINE_BUFSIZE"
  shows "\<exists>t. mine_move (x * 2 - 2) (y - 1) G = Some (G\<lparr>out_text := out_text G @ t\<rparr>) \<and> length t \<le> 8"
proof -
  have "length (decimal y) \<le> 2" "length (decimal (x * 2 - 1)) \<le> 2" using assms(1) by (auto intro!: decimal_short)
  then show ?thesis using assms(2) by (auto simp: mine_move_def mine_prints_def length_lit)
qed

lemma winsh_ok:
  assumes "game_ok G" and "in_field (x, y)" and "length (out_text G) + 20 < MINE_BUFSIZE"
  shows "\<exists>t. winsh x y G = Some (G\<lparr>out_text := out_text G @ t\<rparr>) \<and> length t \<le> 20"
proof -
  obtain t where t: "mine_move (x * 2 - 2) (y - 1) G = Some (G\<lparr>out_text := out_text G @ t\<rparr>)" "length t \<le> 8"
    using mine_move_ok [OF assms(2), of G] assms(3) by auto
  define G1 where "G1 = G\<lparr>out_text := out_text G @ t\<rparr>"
  have ok: "game_ok G1" "length (out_text G1) + 12 < MINE_BUFSIZE" using assms(1,3) t(2) by (auto simp: G1_def game_ok_def)
  have sq: "square (mine_o G1) x y = Some (cell (mine_o G1) (x, y))" "square (mine_m G1) x y = Some (cell (mine_m G1) (x, y))"
    "square (mine_a G1) x y = Some (cell (mine_a G1) (x, y))"
    using ok(1) in_field_array [OF assms(2)] by (simp_all add: game_ok_def square_ok del: cell.simps in_array.simps)
  let ?c = "beside_count (mine_a G1) (x, y)"
  have c: "?c \<in> {0, 1, 2, 3, 4, 5, 6, 7, 8}" using beside_count_range [of "mine_a G1" "(x, y)"] by (simp; presburger)
  then obtain cc where cc: "rdi mine_cc ?c = Some cc" "0 \<le> cc" "cc < 100" by (auto simp: mine_cc_def rdi_def rd_def)
  from c obtain w where w: "rdi mine_word ?c = Some w" "length w = 2" by (auto simp: mine_word_def rdi_def rd_def)
  have "length (decimal cc) \<le> 2" "length (decimal (if ?c = 0 then 0 else 1)) \<le> 1"
    using decimal_short [OF cc(2,3)] by (auto simp: decimal_def length_lit)
  then have "\<exists>t'. winsh0 x y G1 = Some (G1\<lparr>out_text := out_text G1 @ t'\<rparr>) \<and> length t' \<le> 12"
    using sq ok(2) num_mine_beside_ok [OF ok(1) assms(2)] cc(1) w
    by (auto simp: winsh0_def mine_prints_def mine_text_def length_lit simp del: cell.simps)
  then obtain t' where "winsh0 x y G1 = Some (G1\<lparr>out_text := out_text G1 @ t'\<rparr>)" "length t' \<le> 12" by blast
  with t show ?thesis by (auto simp: winsh_def G1_def intro!: exI [of _ "t @ t'"])
qed

section \<open>The area that a click opens\<close>

declare split_paired_All [simp del] split_paired_Ex [simp del]

definition is_open :: "mine_game \<Rightarrow> pos \<Rightarrow> bool" where "is_open G c = cell (mine_o G) c"
definition is_mark :: "mine_game \<Rightarrow> pos \<Rightarrow> bool" where "is_mark G c = cell (mine_m G) c"
definition is_mine :: "mine_game \<Rightarrow> pos \<Rightarrow> bool" where "is_mine G c = cell (mine_a G) c"

definition no_mine_beside :: "mine_game \<Rightarrow> pos \<Rightarrow> bool" where
  "no_mine_beside G c \<longleftrightarrow> beside_count (mine_a G) c = 0"

definition free :: "mine_game \<Rightarrow> pos \<Rightarrow> bool" where
  "free G c \<longleftrightarrow> in_field c \<and> \<not> is_open G c \<and> \<not> is_mark G c"

text \<open>What spreads from a square: its neighbours when no mine is beside it, as long as they are neither open nor marked.\<close>

inductive region :: "mine_game \<Rightarrow> pos \<Rightarrow> pos \<Rightarrow> bool" for G :: mine_game and s :: pos where
  start: "free G s \<Longrightarrow> region G s s"
| spread: "region G s c \<Longrightarrow> no_mine_beside G c \<Longrightarrow> d \<in> set (beside c) \<Longrightarrow> free G d \<Longrightarrow> region G s d"

lemma region_free: "region G s c \<Longrightarrow> free G c"
  by (induction rule: region.induct) auto

lemma region_trans: "region G t c \<Longrightarrow> region G s t \<Longrightarrow> region G s c"
  by (induction rule: region.induct) (auto intro: region.spread)

lemma blank_no_mine: "no_mine_beside G c \<Longrightarrow> d \<in> set (beside c) \<Longrightarrow> d \<noteq> c \<Longrightarrow> \<not> is_mine G d"
  by (auto simp: no_mine_beside_def beside_count_def is_mine_def filter_empty_conv)

definition closed :: "mine_game \<Rightarrow> nat" where
  "closed G = card {c. in_field c \<and> \<not> is_open G c}"

lemma finite_field: "finite {c. in_field c \<and> P c}"
proof (rule finite_subset)
  show "{c. in_field c \<and> P c} \<subseteq> {1..30} \<times> {1..16}" by auto
qed simp

text \<open>How a game may change while digging without hitting a mine.\<close>

definition grows :: "mine_game \<Rightarrow> mine_game \<Rightarrow> bool" where
  "grows G G' \<longleftrightarrow> game_ok G' \<and> mine_a G' = mine_a G \<and> mine_m G' = mine_m G \<and> gameover G' = gameover G \<and>
     (\<forall>c. in_field c \<longrightarrow> is_open G c \<longrightarrow> is_open G' c) \<and>
     length (out_text G') + 20 * closed G' \<le> length (out_text G) + 20 * closed G"

definition settled :: "mine_game \<Rightarrow> mine_game \<Rightarrow> bool" where
  "settled G G' \<longleftrightarrow> (\<forall>c. in_field c \<longrightarrow> is_open G' c \<longrightarrow> \<not> is_open G c \<longrightarrow> no_mine_beside G c \<longrightarrow>
     (\<forall>d\<in>set (beside c). in_field d \<longrightarrow> is_mark G d \<or> is_open G' d))"

definition reaches :: "pos set \<Rightarrow> mine_game \<Rightarrow> mine_game \<Rightarrow> bool" where
  "reaches S G G' \<longleftrightarrow> (\<forall>c. in_field c \<longrightarrow> is_open G' c \<longrightarrow> \<not> is_open G c \<longrightarrow> (\<exists>s\<in>S. region G s c))"

lemma grows_same: "grows G G' \<Longrightarrow> is_mark G' = is_mark G \<and> is_mine G' = is_mine G \<and> no_mine_beside G' = no_mine_beside G"
  by (auto simp: grows_def is_mark_def is_mine_def no_mine_beside_def fun_eq_iff)

lemma grows_closed: "grows G G' \<Longrightarrow> closed G' \<le> closed G"
  unfolding closed_def by (rule card_mono) (auto simp: finite_field grows_def)

lemma grows_refl: "game_ok G \<Longrightarrow> grows G G"
  by (simp add: grows_def)

lemma grows_trans: "grows G G1 \<Longrightarrow> grows G1 G2 \<Longrightarrow> grows G G2"
  by (auto simp: grows_def)

lemma grows_open: "grows G G1 \<Longrightarrow> in_field c \<Longrightarrow> is_open G c \<Longrightarrow> is_open G1 c"
  unfolding grows_def by blast

lemma grows_free: "grows G G1 \<Longrightarrow> free G1 c \<Longrightarrow> free G c"
  using grows_open [of G G1 c] grows_same [of G G1] by (auto simp: free_def)

lemma region_grows: "region G1 s c \<Longrightarrow> grows G G1 \<Longrightarrow> region G s c"
proof (induction rule: region.induct)
  case start
  show ?case by (rule region.start [OF grows_free [OF start(2,1)]])
next
  case (spread c d)
  then show ?case using grows_same [OF spread.prems] grows_free [OF spread.prems] by (intro region.spread [of G s c d]) auto
qed

lemma settledD:
  "settled G G' \<Longrightarrow> in_field c \<Longrightarrow> is_open G' c \<Longrightarrow> \<not> is_open G c \<Longrightarrow> no_mine_beside G c \<Longrightarrow> d \<in> set (beside c) \<Longrightarrow>
   in_field d \<Longrightarrow> is_mark G d \<or> is_open G' d"
  unfolding settled_def by blast

lemma settled_trans:
  assumes "settled G G1" and "settled G1 G2" and "grows G G1" and "grows G1 G2"
  shows "settled G G2"
  unfolding settled_def
proof (intro allI impI ballI)
  fix c d
  assume c: "in_field c" "is_open G2 c" "\<not> is_open G c" "no_mine_beside G c" and d: "d \<in> set (beside c)" "in_field d"
  note same = grows_same [OF assms(3)]
  show "is_mark G d \<or> is_open G2 d"
  proof (cases "is_open G1 c")
    case True
    then show ?thesis using settledD [OF assms(1) c(1) True c(3,4) d] grows_open [OF assms(4) d(2)] by blast
  next
    case False
    then show ?thesis using settledD [OF assms(2) c(1,2) False _ d] same c(4) by simp
  qed
qed

lemma reaches_trans: "reaches S G G1 \<Longrightarrow> reaches T G1 G2 \<Longrightarrow> grows G G1 \<Longrightarrow> reaches (S \<union> T) G G2"
  unfolding reaches_def using region_grows by blast

text \<open>Opening one square.\<close>

lemma open_square:
  assumes "game_ok G" and "free G (x, y)" and "length (out_text G) + 20 * closed G < MINE_BUFSIZE"
  shows "\<exists>o' G1. set_square (mine_o G) x y True = Some o' \<and> winsh x y (G\<lparr>mine_o := o'\<rparr>) = Some G1 \<and> grows G G1 \<and>
    closed G1 < closed G \<and> (\<forall>c. in_field c \<longrightarrow> is_open G1 c = (c = (x, y) \<or> is_open G c))"
proof -
  have f: "in_field (x, y)" "\<not> is_open G (x, y)" using assms(2) by (auto simp: free_def)
  obtain o' where o': "set_square (mine_o G) x y True = Some o'" "grid_ok o'"
      "\<forall>c. in_array c \<longrightarrow> cell o' c = (if c = (x, y) then True else cell (mine_o G) c)"
    using set_square_ok [OF _ in_field_array [OF f(1)], of "mine_o G" True] assms(1) unfolding game_ok_def by blast
  let ?G = "G\<lparr>mine_o := o'\<rparr>"
  have op: "is_open ?G c = (c = (x, y) \<or> is_open G c)" if "in_field c" for c
    using o'(3) in_field_array [OF that] unfolding is_open_def by (auto simp del: split_paired_All cell.simps)
  have "{c. in_field c \<and> \<not> is_open ?G c} \<subset> {c. in_field c \<and> \<not> is_open G c}" using op f by blast
  then have less: "closed ?G < closed G" unfolding closed_def by (rule psubset_card_mono [OF finite_field])
  have ok: "game_ok ?G" using assms(1) o'(2) by (simp add: game_ok_def)
  obtain t where t: "winsh x y ?G = Some (?G\<lparr>out_text := out_text ?G @ t\<rparr>)" "length t \<le> 20"
    using winsh_ok [OF ok f(1)] less assms(3) by auto
  define G1 where "G1 = ?G\<lparr>out_text := out_text ?G @ t\<rparr>"
  have op1: "\<forall>c. in_field c \<longrightarrow> is_open G1 c = (c = (x, y) \<or> is_open G c)" using op by (simp add: G1_def is_open_def)
  have less1: "closed G1 < closed G" using less by (simp add: G1_def closed_def is_open_def)
  have "game_ok G1" using ok by (simp add: G1_def game_ok_def)
  then have "grows G G1" using op1 t(2) less1 unfolding grows_def by (auto simp: G1_def)
  then show ?thesis using o'(1) t(1) op1 less1 unfolding G1_def [symmetric] by blast
qed

definition digs :: "pos \<Rightarrow> mine_game \<Rightarrow> mine_game \<Rightarrow> bool" where
  "digs c G G' \<longleftrightarrow> windig (fst c) (snd c) G = Some G' \<and> grows G G' \<and> settled G G' \<and> reaches {c} G G' \<and>
     (free G c \<longrightarrow> is_open G' c)"

lemma settled_refl: "settled G G" and reaches_refl: "reaches S G G"
  by (simp_all add: settled_def reaches_def)

lemma windig_not_free:
  assumes "game_ok G" and "\<not> free G (x, y)"
  shows "digs (x, y) G G"
proof -
  have "windig x y G = Some G"
  proof (cases "in_field (x, y)")
    case True
    then show ?thesis
      using assms in_field_array [OF True] by (auto simp: windig.simps [of x] game_ok_def square_ok free_def is_open_def is_mark_def)
  qed (auto simp: windig.simps [of x])
  then show ?thesis using assms by (simp add: digs_def grows_refl settled_refl reaches_refl)
qed

lemma dig_all_spec:
  assumes "\<And>c G. c \<in> set cs \<Longrightarrow> grows G0 G \<Longrightarrow> \<exists>G'. digs c G G'" and "grows G0 G"
  shows "\<exists>G'. dig_all cs G = Some G' \<and> grows G G' \<and> settled G G' \<and> reaches (set cs) G G' \<and>
    (\<forall>c\<in>set cs. in_field c \<longrightarrow> is_mark G c \<or> is_open G' c)"
  using assms
proof (induction cs arbitrary: G)
  case Nil
  then show ?case by (auto simp: grows_def settled_refl reaches_refl simp del: split_paired_All)
next
  case (Cons c cs)
  obtain G1 where G1: "windig (fst c) (snd c) G = Some G1" "grows G G1" "settled G G1" "reaches {c} G G1" "free G c \<longrightarrow> is_open G1 c"
    using Cons.prems(1) [of c G] Cons.prems(2) by (auto simp: digs_def)
  obtain G2 where G2: "dig_all cs G1 = Some G2" "grows G1 G2" "settled G1 G2" "reaches (set cs) G1 G2"
      "\<forall>c\<in>set cs. in_field c \<longrightarrow> is_mark G1 c \<or> is_open G2 c"
    using Cons.IH [of G1] Cons.prems(1) grows_trans [OF Cons.prems(2) G1(2)] by auto
  have "dig_all (c # cs) G = Some G2" using G1(1) G2(1) by (cases c) simp
  moreover have "is_mark G c \<or> is_open G2 c" if "in_field c"
    using that G1(5) grows_open [OF G1(2) that] grows_open [OF G2(2) that] by (auto simp: free_def)
  moreover have "reaches (set (c # cs)) G G2" using reaches_trans [OF G1(4) G2(4) G1(2)] by simp
  ultimately show ?case
    using grows_trans [OF G1(2) G2(2)] settled_trans [OF G1(3) G2(3) G1(2) G2(2)] G2(5) grows_same [OF G1(2)]
    by (intro exI [of _ G2]) auto
qed

lemma windig_step:
  assumes "game_ok G" and "free G (x, y)" and "set_square (mine_o G) x y True = Some o'" and "winsh x y (G\<lparr>mine_o := o'\<rparr>) = Some G1"
    and "grows G G1" and "\<not> is_mine G (x, y)"
  shows "windig x y G = (if no_mine_beside G (x, y) then dig_all (around x y) G1 else Some G1)"
proof -
  have f: "in_field (x, y)" "\<not> cell (mine_o G) (x, y)" "\<not> cell (mine_m G) (x, y)"
    using assms(2) by (auto simp: free_def is_open_def is_mark_def simp del: cell.simps)
  have ok1: "game_ok G1" "mine_a G1 = mine_a G" using assms(5) by (simp_all add: grows_def)
  note arr = in_field_array [OF f(1)]
  have sq: "square (mine_o G) x y = Some False" "square (mine_m G) x y = Some False" "square (mine_a G1) x y = Some False"
    using square_ok [OF _ arr] assms(1,6) f(2,3) ok1 by (simp_all add: game_ok_def is_mine_def del: cell.simps in_array.simps)
  have n: "num_mine_beside x y G1 = Some (beside_count (mine_a G) (x, y))" using num_mine_beside_ok [OF ok1(1) f(1)] ok1(2) by simp
  have "dig_all (around x y) G1 = do {
      g \<leftarrow> windig (x - 1) (y - 1) G1; g \<leftarrow> windig (x - 1) y g; g \<leftarrow> windig (x - 1) (y + 1) g;
      g \<leftarrow> windig x (y - 1) g; g \<leftarrow> windig x y g; g \<leftarrow> windig x (y + 1) g;
      g \<leftarrow> windig (x + 1) (y - 1) g; g \<leftarrow> windig (x + 1) y g; windig (x + 1) (y + 1) g }"
  proof -
    have cons: "dig_all ((u, v) # cs) = (\<lambda>g. do { g \<leftarrow> windig u v g; dig_all cs g })" "dig_all [] = Some" for u v cs by (rule ext, simp)+
    show ?thesis by (simp add: around_def cons del: dig_all.simps)
  qed
  then show ?thesis
    using f(1) sq n assms(3,4) by (subst windig.simps) (simp add: no_mine_beside_def)
qed

lemma windig_digs:
  assumes "game_ok G" and "length (out_text G) + 20 * closed G < MINE_BUFSIZE" and "in_field c \<Longrightarrow> \<not> is_mine G c"
  shows "\<exists>G'. digs c G G'"
  using assms
proof (induction "closed G" arbitrary: G c rule: less_induct)
  case less
  obtain x y where c: "c = (x, y)" by (cases c)
  show ?case
  proof (cases "free G c")
    case False
    then show ?thesis using windig_not_free [OF less.prems(1)] c by blast
  next
    case True
    then have fc: "in_field c" "\<not> is_open G c" "\<not> is_mine G c" using less.prems(3) by (auto simp: free_def)
    obtain o' G1 where o: "set_square (mine_o G) x y True = Some o'" "winsh x y (G\<lparr>mine_o := o'\<rparr>) = Some G1" "grows G G1"
        "closed G1 < closed G" "\<forall>d. in_field d \<longrightarrow> is_open G1 d = (d = c \<or> is_open G d)"
      using open_square [OF less.prems(1) True [unfolded c] less.prems(2)] c by blast
    have step: "windig x y G = (if no_mine_beside G c then dig_all (beside c) G1 else Some G1)"
      using windig_step [OF less.prems(1) True [unfolded c] o(1-3)] fc(3) c by simp
    have start: "region G c c" using True by (rule region.start)
    have open1: "is_open G1 c" using o(5) fc(1) by simp
    have new1: "d = c" if "in_field d" "is_open G1 d" "\<not> is_open G d" for d using o(5) that by blast
    have reach1: "reaches {c} G G1" unfolding reaches_def using start new1 by blast
    show ?thesis
    proof (cases "no_mine_beside G c")
      case False
      then have "settled G G1" unfolding settled_def using new1 by blast
      then show ?thesis using step False o(3) reach1 open1 c by (auto simp: digs_def)
    next
      case True
      note same = grows_same [OF o(3)]
      have rec: "\<exists>G'. digs d H G'" if "d \<in> set (beside c)" "grows G1 H" for d H
      proof (rule less.hyps)
        show "closed H < closed G" using grows_closed [OF that(2)] o(4) by simp
        show "game_ok H" using that(2) by (simp add: grows_def)
        show "length (out_text H) + 20 * closed H < MINE_BUFSIZE"
          using that(2) o(3) less.prems(2) by (simp add: grows_def)
        show "in_field d \<Longrightarrow> \<not> is_mine H d"
          using blank_no_mine [OF True that(1)] grows_same [OF that(2)] same fc(3) by (cases "d = c") auto
      qed
      have "game_ok G1" using o(3) by (simp add: grows_def)
      then obtain G2 where G2: "dig_all (beside c) G1 = Some G2" "grows G1 G2" "settled G1 G2" "reaches (set (beside c)) G1 G2"
          "\<forall>d\<in>set (beside c). in_field d \<longrightarrow> is_mark G1 d \<or> is_open G2 d"
        using dig_all_spec [OF rec grows_refl] by blast
      have "settled G G2" unfolding settled_def
      proof (intro allI impI ballI)
        fix d e
        assume d: "in_field d" "is_open G2 d" "\<not> is_open G d" "no_mine_beside G d" and e: "e \<in> set (beside d)" "in_field e"
        show "is_mark G e \<or> is_open G2 e"
        proof (cases "d = c")
          case True
          then show ?thesis using G2(5) e same by auto
        next
          case False
          then have "\<not> is_open G1 d" using new1 d by blast
          then show ?thesis using settledD [OF G2(3) d(1,2) _ _ e] d(4) same by simp
        qed
      qed
      moreover have "reaches {c} G G2" unfolding reaches_def
      proof (intro allI impI)
        fix d
        assume d: "in_field d" "is_open G2 d" "\<not> is_open G d"
        show "\<exists>s\<in>{c}. region G s d"
        proof (cases "is_open G1 d")
          case False
          then obtain s where s: "s \<in> set (beside c)" "region G1 s d" using G2(4) d unfolding reaches_def by blast
          have "region G s d" by (rule region_grows [OF s(2) o(3)])
          moreover have "free G s" using calculation by (induction rule: region.induct) auto
          ultimately show ?thesis using region_trans [OF _ region.spread [OF start True s(1)]] by blast
        qed (use start new1 d in blast)
      qed
      moreover have "is_open G2 c" using grows_open [OF G2(2) fc(1) open1] .
      ultimately show ?thesis
        using step True G2(1) grows_trans [OF o(3) G2(2)] c by (intro exI [of _ G2]) (simp add: digs_def)
    qed
  qed
qed

lemma closed_le: "closed G \<le> 480"
proof -
  have "closed G \<le> card ({1..30} \<times> {1..16} :: pos set)" unfolding closed_def by (rule card_mono) auto
  then show ?thesis by simp
qed

lemma digs_region:
  assumes "digs c G G'" and "in_field d"
  shows "is_open G' d \<longleftrightarrow> is_open G d \<or> region G c d"
proof
  assume "is_open G' d"
  then show "is_open G d \<or> region G c d" using assms unfolding digs_def reaches_def by blast
next
  have "is_open G' e" if "region G c e" for e
    using that
  proof (induction rule: region.induct)
    case start
    then show ?case using assms(1) by (simp add: digs_def)
  next
    case (spread e f)
    have "free G e" using spread.hyps(1) by (rule region_free)
    then show ?case
      using settledD [of G G' e f] assms(1) spread by (auto simp: digs_def free_def)
  qed
  moreover have "is_open G d \<Longrightarrow> is_open G' d" using assms grows_open [of G G' d] by (auto simp: digs_def)
  ultimately show "is_open G d \<or> region G c d \<Longrightarrow> is_open G' d" by blast
qed

text \<open>Claim C8: digging a square without a mine ends, stays inside the arrays and the output buffer, and opens exactly
  the area that spreads from it over squares with no mine beside them; mines, marks and the state of the game stay.\<close>

theorem windig_opens_region:
  assumes "game_ok G" and "in_field (x, y)" and "\<not> is_mine G (x, y)" and "length (out_text G) < 400"
  shows "\<exists>G'. windig x y G = Some G' \<and> game_ok G' \<and> mine_a G' = mine_a G \<and> mine_m G' = mine_m G \<and> gameover G' = gameover G \<and>
    (\<forall>d. in_field d \<longrightarrow> is_open G' d = (is_open G d \<or> region G (x, y) d))"
proof -
  have "length (out_text G) + 20 * closed G < MINE_BUFSIZE" using assms(4) closed_le [of G] by (simp add: MINE_BUFSIZE_def)
  then obtain G' where G': "digs (x, y) G G'" using windig_digs assms(1,3) by blast
  then show ?thesis using digs_region [OF G'] by (auto simp: digs_def grows_def)
qed

definition empty_game :: mine_game where
  "empty_game = \<lparr>mine_a = no_squares, mine_m = no_squares, mine_o = no_squares, gameover = False, out_text = [], mine_sent = []\<rparr>"

lemma no_squares_ok: "grid_ok no_squares" "in_array c \<Longrightarrow> \<not> cell no_squares c"
  by (cases c; auto simp: grid_ok_def no_squares_def)+

theorem windig_opens_region_witness:
  "\<exists>G'. windig 10 8 empty_game = Some G' \<and> is_open G' (10, 8) \<and> is_open G' (11, 9)"
proof -
  have ok: "game_ok empty_game" by (simp add: game_ok_def empty_game_def no_squares_ok)
  have none: "\<not> cell (mine_a empty_game) c" "\<not> is_open empty_game c" "\<not> is_mark empty_game c" if "in_array c" for c
    using no_squares_ok(2) [OF that] by (simp_all add: empty_game_def is_open_def is_mark_def)
  have free: "free empty_game (10, 8)" "free empty_game (11, 9)" using none by (simp_all add: free_def)
  have "no_mine_beside empty_game (10, 8)"
    using none(1) beside_array [of "(10, 8)"] by (auto simp: no_mine_beside_def beside_count_def filter_empty_conv)
  moreover have "(11, 9) \<in> set (beside (10, 8))" by (simp add: around_def)
  ultimately have "region empty_game (10, 8) (10, 8)" "region empty_game (10, 8) (11, 9)"
    using region.start [OF free(1)] region.spread [OF region.start [OF free(1)]] free(2) by blast+
  moreover have "length (out_text empty_game) < 400" "\<not> is_mine empty_game (10, 8)" "in_field (10, 8)" "in_field (11, 9)"
    using none(1) [of "(10, 8)"] by (simp_all add: empty_game_def is_mine_def)
  ultimately show ?thesis using windig_opens_region [OF ok, of 10 8] by blast
qed

end
