(* ===== verification/FB_MineStart.thy ===== *)
theory FB_MineStart
  imports FB_MineField
begin

text \<open>
  The first click: the mines are laid away from it, so it always opens an area.  The random numbers are fair: from
  every point on, each square of the field is drawn some time.
\<close>

definition drawn :: "(nat \<Rightarrow> int) \<Rightarrow> nat \<Rightarrow> pos" where
  "drawn rand i = (c_mod (rand i) 30 + 1, c_mod (rand (Suc i)) 16 + 1)"

definition fair :: "(nat \<Rightarrow> int) \<Rightarrow> bool" where
  "fair rand \<longleftrightarrow> (\<forall>i. 0 \<le> rand i) \<and> (\<forall>i c. in_field c \<longrightarrow> (\<exists>k. drawn rand (2 * (i + k)) = c))"

lemma drawn_field: "fair rand \<Longrightarrow> in_field (drawn rand i)"
proof -
  have "rand i mod 30 \<le> 29" "rand (Suc i) mod 16 \<le> 15"
    using pos_mod_bound [of 30 "rand i"] pos_mod_bound [of 16 "rand (Suc i)"] by linarith+
  then show "fair rand \<Longrightarrow> ?thesis" by (simp add: fair_def drawn_def c_mod_nonneg)
qed

fun near :: "pos \<Rightarrow> pos \<Rightarrow> bool" where
  "near (x1, y1) (x, y) \<longleftrightarrow> \<bar>x - x1\<bar> < 2 \<and> \<bar>y - y1\<bar> < 2"

lemma near_beside: "near c d \<longleftrightarrow> d \<in> set (beside c)"
proof -
  have "\<bar>x - x1\<bar> < 2 \<longleftrightarrow> x = x1 - 1 \<or> x = x1 \<or> x = x1 + 1" for x x1 :: int by presburger
  then show ?thesis by (cases c; cases d) (auto simp: around_def)
qed

definition added :: "pos \<Rightarrow> grid \<Rightarrow> grid \<Rightarrow> bool" where
  "added c a a' \<longleftrightarrow> grid_ok a' \<and> (\<forall>d. in_array d \<longrightarrow> cell a' d = (d = c \<or> cell a d))"

lemma place_mine_spec:
  assumes "fair rand" and "grid_ok a" and "\<not> cell a (drawn rand (2 * (i + k)))" and "\<not> near (x1, y1) (drawn rand (2 * (i + k)))"
  shows "\<exists>a' j c. place_mine x1 y1 a rand (2 * i) = Some (a', 2 * j) \<and> in_field c \<and> \<not> cell a c \<and> \<not> near (x1, y1) c \<and> added c a a'"
  using assms(3,4)
proof (induction k arbitrary: i)
  case (0 i)
  obtain x y where d: "drawn rand (2 * i) = (x, y)" by (cases "drawn rand (2 * i)")
  have f: "in_field (x, y)" using drawn_field [OF assms(1), of "2 * i"] d by simp
  have sq: "square a x y = Some False" using square_ok [OF assms(2) in_field_array [OF f]] 0(1) d by (simp del: cell.simps)
  obtain a' where a': "set_square a x y True = Some a'" "added (x, y) a a'"
    using set_square_ok [OF assms(2) in_field_array [OF f], of True] unfolding added_def by auto
  have xy: "c_mod (rand (2 * i)) 30 + 1 = x" "c_mod (rand (Suc (2 * i))) 16 + 1 = y" using d by (simp_all add: drawn_def)
  have "place_mine x1 y1 a rand (2 * i) = Some (a', 2 * Suc i)"
    using xy sq 0(2) d a'(1) by (subst place_mine.simps) (auto simp: xy)
  then show ?case using a'(2) f 0 d by (intro exI [of _ a'] exI [of _ "Suc i"] exI [of _ "(x, y)"]) simp
next
  case (Suc k)
  obtain x y where d: "drawn rand (2 * i) = (x, y)" by (cases "drawn rand (2 * i)")
  have f: "in_field (x, y)" using drawn_field [OF assms(1), of "2 * i"] d by simp
  have sq: "square a x y = Some (cell a (x, y))" using square_ok [OF assms(2) in_field_array [OF f]] .
  have xy: "c_mod (rand (2 * i)) 30 + 1 = x" "c_mod (rand (Suc (2 * i))) 16 + 1 = y" using d by (simp_all add: drawn_def)
  show ?case
  proof (cases "cell a (x, y) \<or> near (x1, y1) (x, y)")
    case True
    then have "place_mine x1 y1 a rand (2 * i) = place_mine x1 y1 a rand (2 * Suc i)"
      using sq by (subst place_mine.simps) (auto simp: xy)
    then show ?thesis using Suc.IH [of "Suc i"] Suc.prems by simp
  next
    case False
    obtain a' where a': "set_square a x y True = Some a'" "added (x, y) a a'"
      using set_square_ok [OF assms(2) in_field_array [OF f], of True] unfolding added_def by auto
    have "place_mine x1 y1 a rand (2 * i) = Some (a', 2 * Suc i)"
      using sq False a'(1) by (subst place_mine.simps) (auto simp: xy)
    then show ?thesis using a'(2) f False by (intro exI [of _ a'] exI [of _ "Suc i"] exI [of _ "(x, y)"]) simp
  qed
qed

definition mine_set :: "grid \<Rightarrow> pos set" where
  "mine_set a = {c. in_field c \<and> cell a c}"

lemma card_field: "card {c. in_field c} = 480"
proof -
  have "{c. in_field c} = {1..30} \<times> {1..16}" by auto
  then show ?thesis by simp
qed

lemma room_for_mine:
  assumes "card (mine_set a) < 471"
  shows "\<exists>c. in_field c \<and> \<not> cell a c \<and> \<not> near p c"
proof (rule ccontr)
  assume "\<not> ?thesis"
  then have "{c. in_field c} \<subseteq> mine_set a \<union> set (beside p)" by (auto simp: mine_set_def near_beside)
  then have "480 \<le> card (mine_set a \<union> set (beside p))" unfolding card_field [symmetric]
    by (rule card_mono [rotated]) (simp add: mine_set_def finite_field)
  also have "\<dots> \<le> card (mine_set a) + card (set (beside p))" by (rule card_Un_le)
  also have "card (set (beside p)) \<le> length (beside p)" by (rule card_length)
  also have "length (beside p) = 9" by (cases p) (simp add: around_def)
  finally show False using assms by simp
qed

lemma place_mines_spec:
  assumes "fair rand" and "grid_ok a" and "card (mine_set a) + n \<le> 471" and "\<forall>c. in_field c \<longrightarrow> near (x1, y1) c \<longrightarrow> \<not> cell a c"
    and "\<forall>c. in_array c \<longrightarrow> \<not> in_field c \<longrightarrow> \<not> cell a c"
  shows "\<exists>a' j. place_mines n x1 y1 a rand (2 * i) = Some (a', j) \<and> grid_ok a' \<and> card (mine_set a') = card (mine_set a) + n \<and>
    (\<forall>c. in_field c \<longrightarrow> near (x1, y1) c \<longrightarrow> \<not> cell a' c) \<and> (\<forall>c. in_array c \<longrightarrow> \<not> in_field c \<longrightarrow> \<not> cell a' c)"
  using assms(2-)
proof (induction n arbitrary: a i)
  case (Suc n)
  have "card (mine_set a) < 471" using Suc.prems(2) by simp
  then obtain d where d: "in_field d" "\<not> cell a d" "\<not> near (x1, y1) d" using room_for_mine by blast
  obtain k where "drawn rand (2 * (i + k)) = d" using assms(1) d(1) unfolding fair_def by blast
  then obtain a1 j c where one: "place_mine x1 y1 a rand (2 * i) = Some (a1, 2 * j)" "in_field c" "\<not> cell a c" "\<not> near (x1, y1) c" "added c a a1"
    using place_mine_spec [OF assms(1) Suc.prems(1), of i k x1 y1] d(2,3) by blast
  have cells: "cell a1 e = (e = c \<or> cell a e)" if "in_array e" for e using one(5) that unfolding added_def by blast
  have "mine_set a1 = insert c (mine_set a)" using cells one(2) in_field_array by (auto simp: mine_set_def)
  moreover have "c \<notin> mine_set a" "finite (mine_set a)" using one(3) by (auto simp: mine_set_def finite_field)
  ultimately have count: "card (mine_set a1) = Suc (card (mine_set a))" by simp
  have near1: "\<forall>e. in_field e \<longrightarrow> near (x1, y1) e \<longrightarrow> \<not> cell a1 e"
    using cells in_field_array Suc.prems(3) one(4) by blast
  have out1: "\<forall>e. in_array e \<longrightarrow> \<not> in_field e \<longrightarrow> \<not> cell a1 e" using cells Suc.prems(4) one(2) by blast
  have "grid_ok a1" using one(5) by (simp add: added_def)
  from Suc.IH [OF this _ near1 out1, of j] count Suc.prems(2) one(1) show ?case by auto
qed auto

lemma wininit_spec:
  assumes "fair rand"
  shows "\<exists>G'. wininit x y rand (new_game G) = Some G' \<and> game_ok G' \<and> mine_m G' = no_squares \<and> mine_o G' = no_squares \<and>
    gameover G' = gameover G \<and> out_text G' = out_text G \<and> card (mine_set (mine_a G')) = 99 \<and>
    (\<forall>c. in_array c \<longrightarrow> near (x, y) c \<longrightarrow> \<not> is_mine G' c)"
proof -
  have empty: "mine_set no_squares = {}" using no_squares_ok(2) in_field_array by (auto simp: mine_set_def)
  obtain a' j where a': "place_mines 99 x y no_squares rand 0 = Some (a', j)" "grid_ok a'" "card (mine_set a') = 99"
      "\<forall>c. in_field c \<longrightarrow> near (x, y) c \<longrightarrow> \<not> cell a' c" "\<forall>c. in_array c \<longrightarrow> \<not> in_field c \<longrightarrow> \<not> cell a' c"
    using place_mines_spec [OF assms no_squares_ok(1), of 99 x y 0] no_squares_ok(2) in_field_array empty by auto
  have "wininit x y rand (new_game G) = Some ((new_game G)\<lparr>mine_a := a'\<rparr>)"
    using a'(1) by (simp add: wininit_def new_game_def)
  moreover have "\<not> is_mine ((new_game G)\<lparr>mine_a := a'\<rparr>) c" if "in_array c" "near (x, y) c" for c
    using a'(4,5) that by (cases "in_field c") (auto simp: is_mine_def)
  ultimately show ?thesis using a'(2,3) by (auto simp: new_game_def game_ok_def no_squares_ok)
qed

lemma first_dig:
  assumes "fair rand" and "in_field (x, y)" and "length (out_text G) < 400"
  shows "\<exists>G'. key_dig x y False rand (new_game G) = Some (True, G') \<and> gameover G' = gameover G \<and>
    card (mine_set (mine_a G')) = 99 \<and> (\<forall>c\<in>set (beside (x, y)). in_field c \<longrightarrow> is_open G' c)"
proof -
  obtain G1 where G1: "wininit x y rand (new_game G) = Some G1" "game_ok G1" "mine_m G1 = no_squares" "mine_o G1 = no_squares"
      "gameover G1 = gameover G" "out_text G1 = out_text G" "card (mine_set (mine_a G1)) = 99"
      "\<forall>c. in_array c \<longrightarrow> near (x, y) c \<longrightarrow> \<not> is_mine G1 c"
    using wininit_spec [OF assms(1), of x y G] by blast
  have far: "\<not> is_mine G1 c" if "c \<in> set (beside (x, y))" for c
    using G1(8) that beside_array [OF assms(2)] near_beside by blast
  have none: "free G1 c" if "in_field c" for c
    using that no_squares_ok(2) [OF in_field_array [OF that]] G1(3,4) by (simp add: free_def is_open_def is_mark_def)
  have blank: "no_mine_beside G1 (x, y)"
    using far by (auto simp: no_mine_beside_def beside_count_def is_mine_def filter_empty_conv)
  have budget: "length (out_text G1) + 20 * closed G1 < MINE_BUFSIZE"
    using assms(3) closed_le [of G1] G1(6) by (simp add: MINE_BUFSIZE_def)
  obtain G' where G': "digs (x, y) G1 G'"
    using windig_digs [OF G1(2) budget, of "(x, y)"] far [OF beside_self] by blast
  have "is_open G' c" if "c \<in> set (beside (x, y))" "in_field c" for c
    using digs_region [OF G' that(2)] region.spread [OF region.start [OF none [OF assms(2)]] blank that(1) none [OF that(2)]] by blast
  moreover have "square (mine_o G1) x y = Some False"
    using square_ok [OF no_squares_ok(1) in_field_array [OF assms(2)]] no_squares_ok(2) [OF in_field_array [OF assms(2)]] G1(4)
    by (simp del: cell.simps)
  ultimately show ?thesis
    using G1(1,5,7) G' by (auto simp: key_dig_def dig_def digs_def grows_def simp del: beside.simps)
qed


text \<open>A sequence that draws the squares one after the other is fair.\<close>

definition rolling :: "nat \<Rightarrow> int" where
  "rolling i = (if even i then int (i div 32) else int (i div 2))"

lemma rolling_fair: "fair rolling"
proof -
  have "\<exists>k. drawn rolling (2 * (i + k)) = (x, y)" if f: "in_field (x, y)" for i x y
  proof -
    define u v where "u = nat (x - 1)" and "v = nat (y - 1)"
    have uv: "u < 30" "v < 16" "int u = x - 1" "int v = y - 1" using f by (auto simp: u_def v_def)
    define t where "t = 16 * (30 * i + u) + v"
    have div_mod: "t div 16 = 30 * i + u" "t mod 16 = v"
      unfolding t_def using uv(2) div_mult_self4 [of 16 v "30 * i + u"] mod_mult_self4 [of 16 "30 * i + u" v] by (simp_all only: div_less mod_less) auto
    have "rolling (2 * t) = int (t div 16)" "rolling (Suc (2 * t)) = int t"
      by (simp_all add: rolling_def div_mult2_eq [of _ 2 16, simplified])
    then have "drawn rolling (2 * t) = (x, y)"
      using uv div_mod by (simp add: drawn_def c_mod_nonneg zmod_int [of t 16, symmetric, simplified])
    moreover have "t = i + (t - i)" by (simp add: t_def)
    ultimately show ?thesis by metis
  qed
  then show ?thesis by (auto simp: fair_def rolling_def)
qed


end
