(* ===== verification/FB_MineRank.thy ===== *)
theory FB_MineRank
  imports FB_Mine
begin

text \<open>
  The table of the best times of \<open>game/winmine.c\<close>: twenty entries in a text file, sorted by exchange.  A string of
  the table is its text; the arrays have room for 19 characters of a name and 31 of a host.
\<close>

type_synonym ranks = "rank list"

definition ID_SIZE :: nat where "ID_SIZE = 20"
definition FROM_SIZE :: nat where "FROM_SIZE = 32"

definition no_rank :: rank where
  "no_rank = \<lparr>top_id = lit ''null.'', top_time = 999, top_from = lit ''unknown.''\<rparr>"

section \<open>The file\<close>

text \<open>\<open>%s\<close> and \<open>%d\<close> of \<open>fscanf\<close>: the inner \<open>None\<close> is a failure that ends the call, the outer one a string that does
  not fit its array.\<close>

definition space :: "byte \<Rightarrow> bool" where
  "space c \<longleftrightarrow> isspace (uint c)"

definition scan_word :: "nat \<Rightarrow> buf \<Rightarrow> (buf option \<times> buf) option" where
  "scan_word n s =
     (let s = dropWhile space s; w = takeWhile (\<lambda>c. \<not> space c) s in
      if w = [] then Some (None, s)
      else if length w < n then Some (Some (cstr w), drop (length w) s)
      else None)"

definition scan_int :: "buf \<Rightarrow> int option \<times> buf" where
  "scan_int s =
     (let s = dropWhile space s;
          neg = (s \<noteq> [] \<and> hd s = 45);
          s = (if s \<noteq> [] \<and> (hd s = 45 \<or> hd s = 43) then tl s else s);
          ds = takeWhile (\<lambda>c. isdigit (uint c)) s in
      if ds = [] then (None, s)
      else (Some (to_int (if neg then - int (dec_value ds) else int (dec_value ds))), drop (length ds) s))"

definition scan_rank :: "rank \<Rightarrow> buf \<Rightarrow> (rank \<times> buf) option" where
  "scan_rank r s = do {
     (id', s) \<leftarrow> scan_word ID_SIZE s;
     (case id' of None \<Rightarrow> Some (r, s) | Some i \<Rightarrow> do {
       let r = r\<lparr>top_id := i\<rparr>;
       let (t, s) = scan_int s;
       (case t of None \<Rightarrow> Some (r, s) | Some n \<Rightarrow> do {
         let r = r\<lparr>top_time := n\<rparr>;
         (f, s) \<leftarrow> scan_word FROM_SIZE s;
         (case f of None \<Rightarrow> Some (r, s) | Some x \<Rightarrow> Some (r\<lparr>top_from := x\<rparr>, dropWhile space s))
       })
     })
   }"

fun scan_ranks :: "ranks \<Rightarrow> buf \<Rightarrow> ranks option" where
  "scan_ranks [] s = Some []"
| "scan_ranks (r # rs) s = do { (r, s) \<leftarrow> scan_rank r s; rs \<leftarrow> scan_ranks rs s; Some (r # rs) }"

definition print_rank :: "rank \<Rightarrow> buf" where
  "print_rank r = top_id r @ lit '' '' @ decimal (top_time r) @ lit '' '' @ top_from r @ [10]"

definition win_saverec :: "ranks \<Rightarrow> buf" where
  "win_saverec t = concat (map print_rank t)"

text \<open>The table read, and the file afterwards: a missing file is written.\<close>

definition win_loadrec :: "buf option \<Rightarrow> (ranks \<times> buf) option" where
  "win_loadrec fl =
     (case fl of
        None \<Rightarrow> Some (replicate 20 no_rank, win_saverec (replicate 20 no_rank))
      | Some s \<Rightarrow> do { t \<leftarrow> scan_ranks (replicate 20 no_rank) s; Some (t, s) })"

section \<open>Sorting\<close>

text \<open>Exchanging two entries goes through a buffer of 20 bytes, for the hosts too.\<close>

definition swap_ranks :: "ranks \<Rightarrow> nat \<Rightarrow> nat \<Rightarrow> ranks option" where
  "swap_ranks t n k = do {
     a \<leftarrow> rd t n;
     b \<leftarrow> rd t k;
     (if length (top_id a) < ID_SIZE \<and> length (top_from a) < ID_SIZE then Some (t[n := b, k := a]) else None)
   }"

fun sort_inner :: "nat \<Rightarrow> nat list \<Rightarrow> ranks \<Rightarrow> ranks option" where
  "sort_inner n [] t = Some t"
| "sort_inner n (k # ks) t = do {
     a \<leftarrow> rd t n;
     b \<leftarrow> rd t k;
     t \<leftarrow> (if top_time a > top_time b then swap_ranks t n k else Some t);
     sort_inner n ks t
   }"

fun sort_outer :: "nat list \<Rightarrow> ranks \<Rightarrow> ranks option" where
  "sort_outer [] t = Some t"
| "sort_outer (n # ns) t = do { t \<leftarrow> sort_inner n [n + 1..<20] t; sort_outer ns t }"

definition record_message :: buf where
  "record_message = [215, 163, 186, 216, 33, 32, 196, 250, 203, 162, 208, 194, 193, 203, 215, 212, 188, 186, 181, 196, 188, 205,
     194, 188, 33, 13, 10]"

definition win_sort :: "ranks \<Rightarrow> mine_game \<Rightarrow> (ranks \<times> mine_game) option" where
  "win_sort t g = do {
     g \<leftarrow> mine_screen_clear g;
     g \<leftarrow> mine_prints record_message g;
     let g = mine_refresh (mine_refresh g);
     t \<leftarrow> sort_outer [0..<19] t;
     Some (t, g)
   }"

fun find_id :: "buf \<Rightarrow> nat \<Rightarrow> ranks \<Rightarrow> nat option" where
  "find_id i n [] = None"
| "find_id i n (r # rs) = (if top_id r = i then Some n else find_id i (Suc n) rs)"

definition win_checkrec :: "int \<Rightarrow> buf \<Rightarrow> buf \<Rightarrow> buf option \<Rightarrow> mine_game \<Rightarrow> (buf \<times> mine_game) option" where
  "win_checkrec dt userid fromhost fl g = do {
     (t, s) \<leftarrow> win_loadrec fl;
     (case find_id userid 0 t of
        Some n \<Rightarrow> do {
          r \<leftarrow> rd t n;
          (if dt < top_time r then do {
             (t, g) \<leftarrow> win_sort (t[n := r\<lparr>top_time := dt, top_from := fromhost\<rparr>]) g;
             Some (win_saverec t, g)
           } else Some (s, g))
        }
      | None \<Rightarrow> do {
          r \<leftarrow> rd t 19;
          (if dt < top_time r then do {
             (t, g) \<leftarrow> win_sort (t[19 := \<lparr>top_id = userid, top_time = dt, top_from = fromhost\<rparr>]) g;
             Some (win_saverec t, g)
           } else Some (s, g))
        })
   }"

section \<open>The exchange sort\<close>

definition short_ranks :: "ranks \<Rightarrow> bool" where
  "short_ranks t \<longleftrightarrow> (\<forall>r\<in>set t. length (top_id r) < ID_SIZE \<and> length (top_from r) < ID_SIZE)"

lemma swap_ranks_ok:
  assumes "short_ranks t" and "n < length t" and "k < length t"
  shows "swap_ranks t n k = Some (t[n := t ! k, k := t ! n])"
  using assms by (simp add: swap_ranks_def rd_def short_ranks_def)

lemma mset_swap_ranks:
  assumes "n < length t" and "k < length t"
  shows "mset (t[n := t ! k, k := t ! n]) = mset t"
  using mset_swap [OF assms(2,1)] by simp

text \<open>After the inner loop, entry \<open>n\<close> is not worse than those compared with it; the ones before it are untouched.\<close>

lemma sort_inner_spec:
  assumes "short_ranks t" and "n < k" and "k \<le> m" and "m \<le> length t"
    and "\<forall>j. n < j \<longrightarrow> j < k \<longrightarrow> top_time (t ! n) \<le> top_time (t ! j)"
  shows "\<exists>t'. sort_inner n [k..<m] t = Some t' \<and> mset t' = mset t \<and> take n t' = take n t \<and>
    (\<forall>j. n < j \<longrightarrow> j < m \<longrightarrow> top_time (t' ! n) \<le> top_time (t' ! j)) \<and> (\<forall>j\<ge>m. t' ! j = t ! j)"
  using assms
proof (induction "m - k" arbitrary: k t)
  case 0
  then show ?case by auto
next
  case (Suc d)
  then have k: "k < m" "n < length t" "k < length t" by simp_all
  have list: "[k..<m] = k # [Suc k..<m]" using k(1) by (simp add: upt_conv_Cons)
  define t1 where "t1 = (if top_time (t ! n) > top_time (t ! k) then t[n := t ! k, k := t ! n] else t)"
  have step: "sort_inner n [k..<m] t = sort_inner n [Suc k..<m] t1"
    using k swap_ranks_ok [OF Suc.prems(1) k(2,3)] by (simp add: list rd_def t1_def)
  have t1: "mset t1 = mset t" "length t1 = length t" "take n t1 = take n t" "\<forall>j\<ge>m. t1 ! j = t ! j"
    using k Suc.prems(2) mset_swap_ranks [OF k(2,3)] by (auto simp: t1_def)
  have "short_ranks t1" using Suc.prems(1) mset_eq_setD [OF t1(1)] by (simp add: short_ranks_def)
  moreover have "top_time (t1 ! n) \<le> top_time (t1 ! j)" if "n < j" "j < Suc k" for j
    using Suc.prems(2,5) that k by (auto simp: t1_def nth_list_update less_Suc_eq)
  moreover have "d = m - Suc k" using Suc.hyps(2) by simp
  ultimately obtain t' where "sort_inner n [Suc k..<m] t1 = Some t'" "mset t' = mset t1" "take n t' = take n t1"
      "\<forall>j. n < j \<longrightarrow> j < m \<longrightarrow> top_time (t' ! n) \<le> top_time (t' ! j)" "\<forall>j\<ge>m. t' ! j = t1 ! j"
    using Suc.hyps(1) [of "Suc k" t1] Suc.hyps(2) Suc.prems(2-4) k t1(2) by auto
  with step t1 show ?case by auto
qed

lemma sort_outer_spec:
  assumes "short_ranks t" and "length t = 20" and "n \<le> 19"
    and "\<forall>i j. i < n \<longrightarrow> i < j \<longrightarrow> j < 20 \<longrightarrow> top_time (t ! i) \<le> top_time (t ! j)"
  shows "\<exists>t'. sort_outer [n..<19] t = Some t' \<and> mset t' = mset t \<and>
    (\<forall>i j. i < 19 \<longrightarrow> i < j \<longrightarrow> j < 20 \<longrightarrow> top_time (t' ! i) \<le> top_time (t' ! j))"
  using assms
proof (induction "19 - n" arbitrary: n t)
  case 0
  then show ?case by simp
next
  case (Suc d)
  then have n: "n < 19" "Suc n \<le> 20" by simp_all
  obtain t1 where t1: "sort_inner n [Suc n..<20] t = Some t1" "mset t1 = mset t" "take n t1 = take n t"
      "\<forall>j. n < j \<longrightarrow> j < 20 \<longrightarrow> top_time (t1 ! n) \<le> top_time (t1 ! j)"
    using sort_inner_spec [OF Suc.prems(1), of n "Suc n" 20] n Suc.prems(2) by auto
  have len: "length t1 = 20" using t1(2) Suc.prems(2) by (metis size_mset)
  have tail: "mset (drop n t1) = mset (drop n t)"
    using t1(2,3) by (metis add_left_cancel append_take_drop_id mset_append)
  have "top_time (t1 ! i) \<le> top_time (t1 ! j)" if "i < Suc n" "i < j" "j < 20" for i j
  proof (cases "i = n")
    case True
    then show ?thesis using t1(4) that by blast
  next
    case False
    then have i: "i < n" "t1 ! i = t ! i" using that(1) t1(3) by (simp, metis less_Suc_eq nth_take that(1) False)
    show ?thesis
    proof (cases "j < n")
      case True
      then have "t1 ! j = t ! j" using t1(3) by (metis nth_take)
      then show ?thesis using i True that(2,3) Suc.prems(4) by simp
    next
      case False
      then have "drop n t1 ! (j - n) = t1 ! j" "j - n < length (drop n t1)" using that(3) len by simp_all
      then have "t1 ! j \<in> set (drop n t1)" by (metis nth_mem)
      then have "t1 ! j \<in> set (drop n t)" using mset_eq_setD [OF tail] by simp
      then obtain m where "m < 20 - n" "t1 ! j = t ! (n + m)" using Suc.prems(2) by (auto simp: in_set_conv_nth)
      then obtain k where "n \<le> k" "k < 20" "t1 ! j = t ! k" using less_diff_conv2 [of n 20 m] n(1) by (metis add.commute le_add1 less_diff_conv)
      then show ?thesis using i Suc.prems(4) by (metis order_less_le_trans)
    qed
  qed
  moreover have "short_ranks t1" using Suc.prems(1) mset_eq_setD [OF t1(2)] by (simp add: short_ranks_def)
  moreover have "d = 19 - Suc n" using Suc.hyps(2) by simp
  ultimately obtain t' where "sort_outer [Suc n..<19] t1 = Some t'" "mset t' = mset t1"
      "\<forall>i j. i < 19 \<longrightarrow> i < j \<longrightarrow> j < 20 \<longrightarrow> top_time (t' ! i) \<le> top_time (t' ! j)"
    using Suc.hyps(1) [of "Suc n" t1] Suc.hyps(2) n len by auto
  then show ?case using t1(1,2) n by (simp add: upt_conv_Cons)
qed

lemma sort_ranks:
  assumes "short_ranks t" and "length t = 20"
  shows "\<exists>t'. sort_outer [0..<19] t = Some t' \<and> mset t' = mset t \<and> sorted (map top_time t')"
proof -
  obtain t' where t': "sort_outer [0..<19] t = Some t'" "mset t' = mset t"
      "\<forall>i j. i < 19 \<longrightarrow> i < j \<longrightarrow> j < 20 \<longrightarrow> top_time (t' ! i) \<le> top_time (t' ! j)"
    using sort_outer_spec [OF assms, of 0] by auto
  have "length t' = 20" using t'(2) assms(2) by (metis size_mset)
  then have "sorted (map top_time t')" using t'(3) by (simp add: sorted_wrt_iff_nth_less sorted_wrt_map)
  with t' show ?thesis by blast
qed

lemma win_sort_message:
  assumes "length (out_text g) < 9000"
  shows "\<exists>g'. win_sort t g = map_option (\<lambda>t. (t, g')) (sort_outer [0..<19] t)"
proof -
  have "length (27 # lit ''[H'' @ 27 # lit ''[J'') = 6" "length record_message = 27"
    by (simp_all add: lit_def record_message_def)
  then show ?thesis
    using assms by (auto simp: win_sort_def mine_screen_clear_def mine_prints_def MINE_BUFSIZE_def map_conv_bind_option split: Option.bind_splits)
qed

text \<open>Sorting the table of the best times orders it by time and loses no entry, as long as every host has
  fewer than twenty characters.\<close>

theorem win_sort_correct:
  assumes "short_ranks t" and "length t = 20" and "length (out_text g) < 9000"
  shows "\<exists>t' g'. win_sort t g = Some (t', g') \<and> mset t' = mset t \<and> sorted (map top_time t')"
proof -
  obtain t' where t': "sort_outer [0..<19] t = Some t'" "mset t' = mset t" "sorted (map top_time t')"
    using sort_ranks [OF assms(1,2)] by blast
  obtain g' where "win_sort t g = map_option (\<lambda>t. (t, g')) (sort_outer [0..<19] t)" using win_sort_message [OF assms(3)] ..
  with t' show ?thesis by simp
qed

section \<open>The file keeps the table\<close>

declare digits.simps [simp del]

definition word_text :: "buf \<Rightarrow> bool" where
  "word_text w \<longleftrightarrow> w \<noteq> [] \<and> (\<forall>c\<in>set w. \<not> space c \<and> c \<noteq> 0)"

definition rank_ok :: "rank \<Rightarrow> bool" where
  "rank_ok r \<longleftrightarrow> word_text (top_id r) \<and> length (top_id r) < ID_SIZE \<and> word_text (top_from r) \<and> length (top_from r) < FROM_SIZE \<and>
     - (2 ^ 31) \<le> top_time r \<and> top_time r < 2 ^ 31"

lemma takeWhile_split: "\<forall>c\<in>set w. P c \<Longrightarrow> \<not> P d \<Longrightarrow> takeWhile P (w @ d # s) = w \<and> dropWhile P (w @ d # s) = d # s"
  by (induction w) auto

lemma space_chars: "space 32" "space 10" "\<not> space 45"
  by (simp_all add: space_def isspace_def)

lemma digit_not_space: "isdigit (uint c) \<Longrightarrow> \<not> space c \<and> c \<noteq> 45 \<and> c \<noteq> 43"
  by (auto simp: space_def isspace_def isdigit_def)

lemma word_cstr: "word_text w \<Longrightarrow> cstr w = w"
  by (auto simp: word_text_def intro!: cstr_id)

lemma scan_word_read:
  assumes "word_text w" and "length w < n" and "space d" and "\<forall>c\<in>set pre. space c"
  shows "scan_word n (pre @ w @ d # s) = Some (Some w, d # s)"
proof -
  have "dropWhile space (pre @ w @ d # s) = w @ d # s"
    using assms(1,4) by (induction pre) (auto simp: word_text_def neq_Nil_conv)
  moreover have "takeWhile (\<lambda>c. \<not> space c) (w @ d # s) = w"
    using takeWhile_split [of w "\<lambda>c. \<not> space c" d s] assms(1,3) by (simp add: word_text_def)
  ultimately show ?thesis using assms(1,2) word_cstr [OF assms(1)] by (simp add: scan_word_def Let_def word_text_def)
qed

lemma decimal_digits: "\<forall>c\<in>set (lit (digits n)). isdigit (uint c)"
  using digits_bytes [of n] by (simp add: isdigit_def word_le_def)

lemma digits_nonempty: "lit (digits n) \<noteq> []"
  by (subst digits.simps) (simp add: lit_def)

lemma scan_int_read:
  assumes "- (2 ^ 31) \<le> n" and "n < 2 ^ 31"
  shows "scan_int (32 # decimal n @ 32 # s) = (Some n, 32 # s)"
proof -
  define m where "m = nat \<bar>n\<bar>"
  let ?ds = "lit (digits m)"
  have dec: "decimal n = (if n < 0 then 45 # ?ds else ?ds)" by (simp add: decimal_def m_def lit_def)
  have tw: "takeWhile (\<lambda>c. isdigit (uint c)) (?ds @ 32 # s) = ?ds"
    using takeWhile_split [OF decimal_digits [of m], of 32 s] by (simp add: isdigit_def)
  obtain d ds where hd: "?ds = d # ds" using digits_nonempty by (meson neq_Nil_conv)
  have d: "\<not> space d" "d \<noteq> 45" "d \<noteq> 43" using decimal_digits [of m] digit_not_space [of d] hd by auto
  have dw: "dropWhile space (32 # decimal n @ 32 # s) = decimal n @ 32 # s" using d hd by (simp add: dec space_chars)
  have val: "to_int (if n < 0 then - int (dec_value ?ds) else int (dec_value ?ds)) = n"
    using to_int_id [OF assms] by (simp add: dec_value_digits m_def)
  show ?thesis
  proof (cases "n < 0")
    case True
    then show ?thesis using dw tw val digits_nonempty [of m] by (simp add: scan_int_def Let_def dec)
  next
    case False
    then have "hd (decimal n @ 32 # s) = d" "decimal n = ?ds" using hd by (simp_all add: dec)
    then show ?thesis using False dw tw val digits_nonempty [of m] d by (simp add: scan_int_def Let_def)
  qed
qed

lemma scan_rank_read:
  assumes "rank_ok r" and "s = [] \<or> (\<exists>c s'. s = c # s' \<and> \<not> space c)"
  shows "scan_rank r0 (print_rank r @ s) = Some (r, s)"
proof -
  have id: "scan_word ID_SIZE (print_rank r @ s) = Some (Some (top_id r), 32 # decimal (top_time r) @ 32 # top_from r @ 10 # s)"
    using scan_word_read [of "top_id r" ID_SIZE 32 "[]"] assms(1) space_chars by (simp add: print_rank_def rank_ok_def lit_def)
  have int: "scan_int (32 # decimal (top_time r) @ 32 # top_from r @ 10 # s) = (Some (top_time r), 32 # top_from r @ 10 # s)"
    using scan_int_read [of "top_time r"] assms(1) by (simp add: rank_ok_def)
  have from': "scan_word FROM_SIZE (32 # top_from r @ 10 # s) = Some (Some (top_from r), 10 # s)"
    using scan_word_read [of "top_from r" FROM_SIZE 10 "[32]" s] assms(1) space_chars by (simp add: rank_ok_def)
  have "dropWhile space (10 # s) = s" using assms(2) space_chars by auto
  then show ?thesis using id int from' by (simp add: scan_rank_def)
qed

lemma scan_ranks_read:
  "\<forall>r\<in>set t. rank_ok r \<Longrightarrow> length t0 = length t \<Longrightarrow> scan_ranks t0 (win_saverec t) = Some t"
proof (induction t arbitrary: t0)
  case Nil
  then show ?case by simp
next
  case (Cons r t)
  obtain r0 t1 where t0: "t0 = r0 # t1" "length t1 = length t" using Cons.prems(2) by (cases t0) auto
  have "win_saverec t = [] \<or> (\<exists>c s'. win_saverec t = c # s' \<and> \<not> space c)"
  proof (cases t)
    case (Cons q u)
    then have "word_text (top_id q)" using Cons.prems(1) by (simp add: rank_ok_def)
    then obtain c w where "top_id q = c # w" "\<not> space c" by (auto simp: word_text_def neq_Nil_conv)
    then show ?thesis using Cons by (simp add: win_saverec_def print_rank_def)
  qed (simp add: win_saverec_def)
  then have "scan_rank r0 (print_rank r @ win_saverec t) = Some (r, win_saverec t)"
    using Cons.prems(1) by (intro scan_rank_read) simp_all
  then show ?case using Cons.IH [of t1] Cons.prems(1) t0 by (simp add: win_saverec_def)
qed

text \<open>Claim C40: a table of twenty well-formed entries that is saved is read back unchanged.\<close>

theorem ranks_round_trip:
  assumes "\<forall>r\<in>set t. rank_ok r" and "length t = 20"
  shows "win_loadrec (Some (win_saverec t)) = Some (t, win_saverec t)"
  using scan_ranks_read [OF assms(1), of "replicate 20 no_rank"] assms(2) by (simp add: win_loadrec_def)

lemma no_rank_ok: "rank_ok no_rank" "short_ranks (replicate 20 no_rank)"
  by (simp_all add: rank_ok_def no_rank_def word_text_def lit_def space_def isspace_def ID_SIZE_def FROM_SIZE_def short_ranks_def)

theorem ranks_round_trip_witness:
  "win_loadrec (Some (win_saverec (replicate 20 no_rank))) = Some (replicate 20 no_rank, win_saverec (replicate 20 no_rank))"
  by (rule ranks_round_trip) (simp_all add: no_rank_ok)

theorem win_sort_correct_witness:
  "\<exists>t' g'. win_sort (replicate 20 no_rank)
      \<lparr>mine_a = [], mine_m = [], mine_o = [], gameover = False, out_text = [], mine_sent = []\<rparr> = Some (t', g') \<and>
    mset t' = mset (replicate 20 no_rank) \<and> sorted (map top_time t')"
  by (rule win_sort_correct) (simp_all add: no_rank_ok)

text \<open>A host of twenty characters overruns the buffer of the exchange.\<close>

lemma swap_ranks_overrun: "n < length t \<Longrightarrow> k < length t \<Longrightarrow> ID_SIZE \<le> length (top_from (t ! n)) \<Longrightarrow> swap_ranks t n k = None"
  by (simp add: swap_ranks_def rd_def)

end
