(* ===== verification/FB_Pool.thy ===== *)
theory FB_Pool
  imports FB_Prelude
begin

text \<open>
  Memory pools, \<open>lib/pool.c\<close>: blocks from which pieces are cut one after the other, and large pieces of their own.
  Blocks start at addresses that \<open>malloc\<close> aligns, so positions in a block are offsets.  A block begins with its
  header of 24 bytes, the first one also holds the pool of 16 bytes.  The size of a page is a parameter.
\<close>

definition ALIGNMENT :: nat where "ALIGNMENT = 8"
definition BLOCK_HEADER :: nat where "BLOCK_HEADER = 24"
definition POOL_HEADER :: nat where "POOL_HEADER = 16"
definition LARGE_HEADER :: nat where "LARGE_HEADER = 16"

record pool_block_t =
  pb_id :: nat
  pb_last :: nat
  pb_end :: nat

text \<open>A pointer into a block, or a piece of its own.\<close>

datatype piece = In_block nat nat | Large nat

text \<open>The head of the chain of blocks, the rest of the chain, the large pieces (\<open>None\<close> when \<open>malloc\<close> failed), and a
  name for the next piece of memory the allocator hands out.\<close>

record pool_t =
  pl_head :: pool_block_t
  pl_next :: "pool_block_t list"
  pl_large :: "piece option list"
  pl_fresh :: nat

definition align_ptr :: "nat \<Rightarrow> nat" where
  "align_ptr x = (x + ALIGNMENT - 1) div ALIGNMENT * ALIGNMENT"

definition pool_create :: "heap \<Rightarrow> nat \<Rightarrow> nat \<Rightarrow> pool_t option option" where
  "pool_create h page sz =
     (let sz = (if sz = 0 then page * 2 else sz) in
      if sz \<le> BLOCK_HEADER then Some None
      else if \<not> alloc_ok h sz then Some None
      else
        let p = align_ptr BLOCK_HEADER in
        if p + POOL_HEADER > sz then None
        else Some (Some \<lparr>pl_head = \<lparr>pb_id = 0, pb_last = p + POOL_HEADER, pb_end = sz\<rparr>, pl_next = [], pl_large = [], pl_fresh = 1\<rparr>))"

definition pool_clear :: "pool_t \<Rightarrow> pool_t" where
  "pool_clear p =
     p\<lparr>pl_large := [], pl_next := map (\<lambda>b. b\<lparr>pb_last := BLOCK_HEADER\<rparr>) (pl_next p),
       pl_head := (pl_head p)\<lparr>pb_last := align_ptr BLOCK_HEADER + POOL_HEADER\<rparr>\<rparr>"

text \<open>What \<open>pool_destroy\<close> gives back: the large pieces and the blocks.\<close>

definition pool_destroy :: "pool_t \<Rightarrow> piece list \<times> nat list" where
  "pool_destroy p = (map the (filter (\<lambda>l. l \<noteq> None) (pl_large p)), map pb_id (pl_head p # pl_next p))"

definition pool_alloc_block :: "heap \<Rightarrow> pool_t \<Rightarrow> nat \<Rightarrow> piece option \<times> pool_t" where
  "pool_alloc_block h p sz =
     (let bsize = pb_end (pl_head p) in
      if \<not> alloc_ok h bsize then (None, p)
      else
        let ret = align_ptr BLOCK_HEADER;
            b = \<lparr>pb_id = pl_fresh p, pb_last = ret + sz, pb_end = bsize\<rparr> in
        (Some (In_block (pl_fresh p) ret), p\<lparr>pl_next := b # pl_next p, pl_fresh := Suc (pl_fresh p)\<rparr>))"

text \<open>\<open>b->end - ret >= size\<close> compares as unsigned numbers: with \<open>ret\<close> behind the end the difference is huge.\<close>

definition fits :: "pool_block_t \<Rightarrow> nat \<Rightarrow> bool" where
  "fits b sz \<longleftrightarrow> align_ptr (pb_last b) > pb_end b \<or> sz \<le> pb_end b - align_ptr (pb_last b)"

fun take_from :: "nat \<Rightarrow> pool_block_t list \<Rightarrow> (piece \<times> pool_block_t list) option" where
  "take_from sz [] = None"
| "take_from sz (b # bs) =
     (if fits b sz then Some (In_block (pb_id b) (align_ptr (pb_last b)), b\<lparr>pb_last := align_ptr (pb_last b) + sz\<rparr> # bs)
      else map_option (\<lambda>(r, bs). (r, b # bs)) (take_from sz bs))"

definition pool_alloc_small :: "heap \<Rightarrow> pool_t \<Rightarrow> nat \<Rightarrow> piece option \<times> pool_t" where
  "pool_alloc_small h p sz =
     (case take_from sz (pl_head p # pl_next p) of
        Some (r, b # bs) \<Rightarrow> (Some r, p\<lparr>pl_head := b, pl_next := bs\<rparr>)
      | _ \<Rightarrow> pool_alloc_block h p sz)"

text \<open>The entry of a large piece is itself cut from a block (a page has more than 16 bytes).\<close>

definition pool_alloc_large :: "heap \<Rightarrow> pool_t \<Rightarrow> nat \<Rightarrow> piece option \<times> pool_t" where
  "pool_alloc_large h p sz =
     (case pool_alloc_small h p LARGE_HEADER of
        (None, p) \<Rightarrow> (None, p)
      | (Some _, p) \<Rightarrow>
          if alloc_ok h sz then
            (Some (Large (pl_fresh p)), p\<lparr>pl_large := Some (Large (pl_fresh p)) # pl_large p, pl_fresh := Suc (pl_fresh p)\<rparr>)
          else (None, p\<lparr>pl_large := None # pl_large p\<rparr>))"

definition pool_alloc :: "heap \<Rightarrow> nat \<Rightarrow> pool_t \<Rightarrow> nat \<Rightarrow> piece option \<times> pool_t" where
  "pool_alloc h page p sz = (if sz < page then pool_alloc_small h p sz else pool_alloc_large h p sz)"

text \<open>The bytes of a duplicate: the string with its terminator, or as many bytes as asked for.\<close>

definition pool_strdup :: "heap \<Rightarrow> nat \<Rightarrow> pool_t \<Rightarrow> buf option \<Rightarrow> nat \<Rightarrow> ((piece \<times> buf) option \<times> pool_t) option" where
  "pool_strdup h page p str sz =
     (case str of
        None \<Rightarrow> Some (None, p)
      | Some s \<Rightarrow> do {
          sz \<leftarrow> (if sz = 0 then do { n \<leftarrow> strlen s; Some (n + 1) } else Some sz);
          (case pool_alloc h page p sz of
             (None, p) \<Rightarrow> Some (None, p)
           | (Some r, p) \<Rightarrow> do { bs \<leftarrow> mem_read s 0 sz; Some (Some (r, bs), p) })
        })"

section \<open>Pieces do not overlap\<close>

text \<open>The blocks of a pool of well-formed shape: distinct, of one size that is a multiple of the alignment, and with
  their headers below the free part.\<close>

definition block_ok :: "nat \<Rightarrow> pool_block_t \<Rightarrow> bool" where
  "block_ok sz b \<longleftrightarrow> pb_end b = sz \<and> BLOCK_HEADER \<le> pb_last b \<and> pb_last b \<le> pb_end b"

definition pool_ok :: "nat \<Rightarrow> pool_t \<Rightarrow> bool" where
  "pool_ok page p \<longleftrightarrow>
     (let bs = pl_head p # pl_next p; sz = pb_end (pl_head p) in
      (\<forall>b\<in>set bs. block_ok sz b \<and> pb_id b < pl_fresh p) \<and> distinct (map pb_id bs) \<and>
      sz mod ALIGNMENT = 0 \<and> BLOCK_HEADER + page \<le> sz \<and> LARGE_HEADER < page)"

text \<open>A piece of a given size that was handed out: inside its block, behind the header and below the free part.\<close>

fun in_use :: "pool_t \<Rightarrow> piece \<times> nat \<Rightarrow> bool" where
  "in_use p (In_block i off, n) \<longleftrightarrow>
     (\<exists>b\<in>set (pl_head p # pl_next p). pb_id b = i \<and> BLOCK_HEADER \<le> off \<and> off + n \<le> pb_last b)"
| "in_use p (Large k, n) \<longleftrightarrow> Some (Large k) \<in> set (pl_large p) \<and> k < pl_fresh p"

fun apart :: "piece \<times> nat \<Rightarrow> piece \<times> nat \<Rightarrow> bool" where
  "apart (In_block i a, n) (In_block j b, m) \<longleftrightarrow> i \<noteq> j \<or> a + n \<le> b \<or> b + m \<le> a"
| "apart (Large i, n) (Large j, m) \<longleftrightarrow> i \<noteq> j"
| "apart _ _ \<longleftrightarrow> True"

fun aligned :: "piece \<Rightarrow> bool" where
  "aligned (In_block i off) \<longleftrightarrow> off mod ALIGNMENT = 0"
| "aligned (Large k) \<longleftrightarrow> True"

lemma align_ptr_bounds: "x \<le> align_ptr x" "align_ptr x mod ALIGNMENT = 0" "align_ptr x < x + ALIGNMENT"
  by (simp_all add: align_ptr_def ALIGNMENT_def)

lemma align_ptr_end:
  assumes "x \<le> e" and "e mod ALIGNMENT = 0"
  shows "align_ptr x \<le> e"
  using assms by (simp add: align_ptr_def ALIGNMENT_def) presburger

lemma header_aligned: "align_ptr BLOCK_HEADER = 24"
  by (simp add: align_ptr_def ALIGNMENT_def BLOCK_HEADER_def)

lemma take_from_spec:
  assumes "take_from sz bs = Some (r, bs')" and "\<forall>b\<in>set bs. block_ok e b" and "e mod ALIGNMENT = 0"
  shows "\<exists>pre b post. bs = pre @ b # post \<and> bs' = pre @ b\<lparr>pb_last := align_ptr (pb_last b) + sz\<rparr> # post \<and>
    r = In_block (pb_id b) (align_ptr (pb_last b)) \<and> align_ptr (pb_last b) + sz \<le> e"
  using assms
proof (induction sz bs arbitrary: bs' rule: take_from.induct)
  case (2 sz b bs)
  show ?case
  proof (cases "fits b sz")
    case True
    have "align_ptr (pb_last b) \<le> e" using align_ptr_end "2.prems"(2,3) by (simp add: block_ok_def)
    with True "2.prems" show ?thesis by (intro exI [of _ "[]"]) (auto simp: fits_def block_ok_def)
  next
    case False
    then obtain bs1 where bs1: "take_from sz bs = Some (r, bs1)" "bs' = b # bs1" using "2.prems"(1) by auto
    from "2.IH" [OF False bs1(1)] "2.prems"(2,3) obtain pre c post where "bs = pre @ c # post"
        "bs1 = pre @ c\<lparr>pb_last := align_ptr (pb_last c) + sz\<rparr> # post" "r = In_block (pb_id c) (align_ptr (pb_last c))"
        "align_ptr (pb_last c) + sz \<le> e"
      by auto
    then show ?thesis using bs1(2) by (intro exI [of _ "b # pre"]) auto
  qed
qed simp

lemma pool_alloc_small_spec:
  assumes "pool_ok page p" and "sz \<le> page" and "pool_alloc_small h p sz = (r, p')"
  shows "pool_ok page p' \<and> (\<forall>q. in_use p q \<longrightarrow> in_use p' q) \<and>
    (\<forall>x. r = Some x \<longrightarrow> in_use p' (x, sz) \<and> aligned x \<and> (\<forall>q. in_use p q \<longrightarrow> apart q (x, sz)))"
proof -
  let ?bs = "pl_head p # pl_next p" and ?e = "pb_end (pl_head p)"
  have ok: "\<forall>b\<in>set ?bs. block_ok ?e b \<and> pb_id b < pl_fresh p" "distinct (map pb_id ?bs)" "?e mod ALIGNMENT = 0"
    "BLOCK_HEADER + page \<le> ?e" "LARGE_HEADER < page"
    using assms(1) by (auto simp: pool_ok_def Let_def)
  show ?thesis
  proof (cases "take_from sz ?bs")
    case None
    then have pa: "pool_alloc_block h p sz = (r, p')" using assms(3) by (simp add: pool_alloc_small_def)
    show ?thesis
    proof (cases "alloc_ok h ?e")
      case False
      then show ?thesis using pa assms(1) by (auto simp: pool_alloc_block_def Let_def)
    next
      case True
      define b where "b = \<lparr>pb_id = pl_fresh p, pb_last = 24 + sz, pb_end = ?e\<rparr>"
      have p': "p' = p\<lparr>pl_next := b # pl_next p, pl_fresh := Suc (pl_fresh p)\<rparr>" "r = Some (In_block (pl_fresh p) 24)"
        using pa True by (auto simp: pool_alloc_block_def Let_def header_aligned b_def)
      have "pool_ok page p'"
        using ok assms(2) by (auto simp: pool_ok_def Let_def p' b_def block_ok_def BLOCK_HEADER_def less_Suc_eq)
      moreover have "in_use p' q" if "in_use p q" for q
        using that by (cases q; cases "fst q") (auto simp: p')
      moreover have "apart q (In_block (pl_fresh p) 24, sz)" if "in_use p q" for q
        using that ok(1) by (cases q; cases "fst q") auto
      moreover have "in_use p' (In_block (pl_fresh p) 24, sz)" by (simp add: p' b_def BLOCK_HEADER_def)
      ultimately show ?thesis by (simp add: p'(2) ALIGNMENT_def)
    qed
  next
    case (Some t)
    obtain x bs' where t: "t = (x, bs')" by (cases t)
    obtain pre b post where sp: "?bs = pre @ b # post" "bs' = pre @ b\<lparr>pb_last := align_ptr (pb_last b) + sz\<rparr> # post"
        "x = In_block (pb_id b) (align_ptr (pb_last b))" "align_ptr (pb_last b) + sz \<le> ?e"
      using take_from_spec [of sz ?bs x bs' ?e] Some t ok(1,3) by blast
    define b' where "b' = b\<lparr>pb_last := align_ptr (pb_last b) + sz\<rparr>"
    obtain hd' tl' where bs': "bs' = hd' # tl'" using sp(2) by (cases pre) auto
    have r: "r = Some x" and p': "p' = p\<lparr>pl_head := hd', pl_next := tl'\<rparr>"
      using assms(3) Some t bs' by (auto simp: pool_alloc_small_def)
    have blocks: "pl_head p' # pl_next p' = pre @ b' # post" using bs' sp(2) by (simp add: p' b'_def)
    have same: "pl_large p' = pl_large p" "pl_fresh p' = pl_fresh p" by (simp_all add: p')
    have b: "block_ok ?e b" using ok(1) sp(1) by auto
    have last: "pb_last b \<le> align_ptr (pb_last b)" "BLOCK_HEADER \<le> align_ptr (pb_last b)"
      using align_ptr_bounds(1) [of "pb_last b"] b by (auto simp: block_ok_def)
    have b': "block_ok ?e b'" "pb_id b' = pb_id b" using b sp(4) last by (auto simp: block_ok_def b'_def)
    have mem: "set (pl_head p' # pl_next p') = set pre \<union> {b'} \<union> set post" "set ?bs = set pre \<union> {b} \<union> set post"
      unfolding blocks sp(1) by auto
    have all: "\<forall>c\<in>set (pl_head p' # pl_next p'). block_ok ?e c \<and> pb_id c < pl_fresh p'"
      using ok(1) b' unfolding mem same by auto
    have e': "pb_end (pl_head p') = ?e" using all by (auto simp: block_ok_def)
    have dist: "distinct (map pb_id (pl_head p' # pl_next p'))" using ok(2) unfolding blocks sp(1) by (simp add: b'(2))
    have "pool_ok page p'"
      using all dist ok(3-5) unfolding pool_ok_def Let_def e' by blast
    moreover have keep: "in_use p' q" if u: "in_use p q" for q
    proof -
      obtain y n where q: "q = (y, n)" by (cases q)
      show ?thesis
      proof (cases y)
        case (In_block i off)
        then obtain c where c: "c \<in> set ?bs" "pb_id c = i" "BLOCK_HEADER \<le> off" "off + n \<le> pb_last c" using u q by auto
        have "\<exists>c'\<in>set (pl_head p' # pl_next p'). pb_id c' = i \<and> off + n \<le> pb_last c'"
        proof (cases "c = b")
          case True
          then have "off + n \<le> pb_last b'" "pb_id b' = i" using c last(1) b'(2) by (auto simp: b'_def)
          then show ?thesis unfolding mem by auto
        next
          case False
          then show ?thesis using c unfolding mem by auto
        qed
        then show ?thesis using c(3) by (auto simp: q In_block)
      qed (use u q in \<open>auto simp: same\<close>)
    qed
    moreover have "apart q (x, sz)" if u: "in_use p q" for q
    proof -
      obtain y n where q: "q = (y, n)" by (cases q)
      show ?thesis
      proof (cases y)
        case (In_block i off)
        then obtain c where c: "c \<in> set ?bs" "pb_id c = i" "off + n \<le> pb_last c" using u q by auto
        have "c = b" if "i = pb_id b"
          using ok(2) c(1,2) that unfolding sp(1) by (auto simp: image_iff)
        then show ?thesis using c(3) last(1) by (auto simp: q In_block sp(3))
      qed (simp add: q sp(3))
    qed
    moreover have "in_use p' (x, sz)" using last(2) b'(2) unfolding sp(3) in_use.simps mem by (auto simp: b'_def)
    moreover have "aligned x" using align_ptr_bounds(2) by (simp add: sp(3))
    ultimately show ?thesis using r by blast
  qed
qed

lemma in_use_fresh: "in_use p (Large k, n) \<Longrightarrow> k < pl_fresh p"
  by simp

lemma pool_alloc_spec:
  assumes "pool_ok page p" and "pool_alloc h page p sz = (r, p')"
  shows "pool_ok page p' \<and> (\<forall>q. in_use p q \<longrightarrow> in_use p' q) \<and>
    (\<forall>x. r = Some x \<longrightarrow> in_use p' (x, sz) \<and> aligned x \<and> (\<forall>q. in_use p q \<longrightarrow> apart q (x, sz)))"
proof (cases "sz < page")
  case True
  then show ?thesis using pool_alloc_small_spec [OF assms(1), of sz h r p'] assms(2) by (simp add: pool_alloc_def)
next
  case False
  obtain e p1 where small: "pool_alloc_small h p LARGE_HEADER = (e, p1)" by (cases "pool_alloc_small h p LARGE_HEADER")
  have "LARGE_HEADER \<le> page" using assms(1) by (simp add: pool_ok_def Let_def)
  note s1 = pool_alloc_small_spec [OF assms(1) this small]
  have large: "pool_alloc_large h p sz = (r, p')" using False assms(2) by (simp add: pool_alloc_def)
  define p2 where "p2 = p1\<lparr>pl_large := None # pl_large p1\<rparr>"
  define p3 where "p3 = p1\<lparr>pl_large := Some (Large (pl_fresh p1)) # pl_large p1, pl_fresh := Suc (pl_fresh p1)\<rparr>"
  have "(r, p') = (if e = None then (None, p1) else if alloc_ok h sz then (Some (Large (pl_fresh p1)), p3) else (None, p2))"
    unfolding large [symmetric] using small by (cases e) (simp_all add: pool_alloc_large_def p2_def p3_def)
  then consider "r = None" "p' = p1" | "r = None" "p' = p2" | "r = Some (Large (pl_fresh p1))" "p' = p3"
    by (meson prod.inject)
  then show ?thesis
  proof cases
    case 1
    then show ?thesis using s1 by simp
  next
    case 2
    have "in_use p' q" if "in_use p1 q" for q using that by (cases q; cases "fst q") (auto simp: 2 p2_def)
    moreover have "pool_ok page p'" using s1 by (simp add: 2 p2_def pool_ok_def Let_def)
    ultimately show ?thesis using s1 by (simp add: 2(1))
  next
    case 3
    have keep: "in_use p' q" if "in_use p1 q" for q using that by (cases q; cases "fst q") (auto simp: 3 p3_def)
    have "apart q (Large (pl_fresh p1), sz)" if "in_use p1 q" for q using that by (cases q; cases "fst q") auto
    moreover have "pool_ok page p'" using s1 by (auto simp: 3 p3_def pool_ok_def Let_def)
    moreover have "in_use p' (Large (pl_fresh p1), sz)" by (simp add: 3 p3_def)
    ultimately show ?thesis using s1 keep 3(1) by simp
  qed
qed

section \<open>Serving requests\<close>

text \<open>What a client of an allocator relies on: pieces in use stay in use, and a new one is apart from them.\<close>

fun serve :: "('s \<Rightarrow> nat \<Rightarrow> 'r option \<times> 's) \<Rightarrow> nat list \<Rightarrow> 's \<Rightarrow> ('r \<times> nat) list \<times> 's" where
  "serve alloc [] s = ([], s)"
| "serve alloc (n # ns) s =
     (let (r, s) = alloc s n; (rs, s) = serve alloc ns s in ((case r of None \<Rightarrow> rs | Some x \<Rightarrow> (x, n) # rs), s))"

locale arena =
  fixes good :: "'s \<Rightarrow> bool" and used :: "'s \<Rightarrow> 'r \<times> nat \<Rightarrow> bool" and separate :: "'r \<times> nat \<Rightarrow> 'r \<times> nat \<Rightarrow> bool"
    and alloc :: "'s \<Rightarrow> nat \<Rightarrow> 'r option \<times> 's"
  assumes keeps_good: "good s \<Longrightarrow> alloc s n = (r, s') \<Longrightarrow> good s'"
    and keeps_used: "good s \<Longrightarrow> alloc s n = (r, s') \<Longrightarrow> used s q \<Longrightarrow> used s' q"
    and new_used: "good s \<Longrightarrow> alloc s n = (Some x, s') \<Longrightarrow> used s' (x, n)"
    and new_apart: "good s \<Longrightarrow> alloc s n = (Some x, s') \<Longrightarrow> used s q \<Longrightarrow> separate q (x, n)"
begin

lemma serve_apart:
  assumes "good s" and "serve alloc ns s = (rs, s')"
  shows "good s' \<and> (\<forall>q. used s q \<longrightarrow> used s' q \<and> (\<forall>r\<in>set rs. separate q r)) \<and> (\<forall>r\<in>set rs. used s' r) \<and> sorted_wrt separate rs"
  using assms
proof (induction ns arbitrary: s rs)
  case Nil
  then show ?case by simp
next
  case (Cons n ns)
  obtain r s1 where a: "alloc s n = (r, s1)" by (cases "alloc s n")
  obtain rs1 where b: "serve alloc ns s1 = (rs1, s')" "rs = (case r of None \<Rightarrow> rs1 | Some x \<Rightarrow> (x, n) # rs1)"
    using Cons.prems(2) a by (auto split: prod.splits)
  note IH = Cons.IH [OF keeps_good [OF Cons.prems(1) a] b(1)]
  show ?case
  proof (cases r)
    case None
    then show ?thesis using IH b(2) keeps_used [OF Cons.prems(1) a] by simp
  next
    case (Some x)
    note a' = a [unfolded Some]
    have u: "used s1 (x, n)" by (rule new_used [OF Cons.prems(1) a'])
    show ?thesis
      using IH b(2) Some u keeps_used [OF Cons.prems(1) a] new_apart [OF Cons.prems(1) a'] by simp
  qed
qed

end

interpretation pool_arena: arena "pool_ok page" in_use apart "pool_alloc h page" for h page
proof
  fix s n r s' q
  assume ok: "pool_ok page s" and "pool_alloc h page s n = (r, s')"
  from pool_alloc_spec [OF this] show "pool_ok page s'" "in_use s q \<Longrightarrow> in_use s' q" by blast+
next
  fix s n x s' q
  assume ok: "pool_ok page s" and "pool_alloc h page s n = (Some x, s')"
  from pool_alloc_spec [OF this] show "in_use s' (x, n)" "in_use s q \<Longrightarrow> apart q (x, n)" by blast+
qed

lemma pool_create_ok:
  assumes "pool_create h page 0 = Some (Some p)" and "24 \<le> page" and "page mod 4 = 0"
  shows "pool_ok page p"
proof -
  have "2 * page mod 8 = 0" using assms(3) by presburger
  then show ?thesis
    using assms(1,2)
    by (auto simp: pool_create_def Let_def header_aligned [unfolded BLOCK_HEADER_def] pool_ok_def block_ok_def BLOCK_HEADER_def POOL_HEADER_def
        ALIGNMENT_def LARGE_HEADER_def mult.commute split: if_splits)
qed



text \<open>With blocks whose size is no multiple of the alignment, a block that is full up to its last bytes serves any
  request from behind its end.\<close>

lemma fits_behind_end: "fits \<lparr>pb_id = 0, pb_last = 97, pb_end = 100\<rparr> 1000"
  by (simp add: fits_def align_ptr_def ALIGNMENT_def)

end
