(* ===== verification/FB_Pstring.thy ===== *)
theory FB_Pstring
  imports FB_Pool
begin

text \<open>
  Growing strings on a pool, the end of \<open>lib/string.c\<close>.  The string has its piece of the pool with the bytes in
  it (\<open>None\<close> is NULL), its length and its size.  Fresh memory holds what the allocator left there.
\<close>

record pstring_t =
  ps_str :: "(piece \<times> buf) option"
  ps_len :: u32
  ps_size :: u32

definition PSTRING_DEFAULT_LEN :: u32 where "PSTRING_DEFAULT_LEN = 7"
definition FB_UINT_MAX :: u32 where "FB_UINT_MAX = 0xffffffff"

record arena_state =
  ar_heap :: heap
  ar_page :: nat

definition pool_new :: "arena_state \<Rightarrow> pool_t \<Rightarrow> nat \<Rightarrow> (piece \<times> buf) option \<times> pool_t" where
  "pool_new a p n =
     (case pool_alloc (ar_heap a) (ar_page a) p n of
        (None, p) \<Rightarrow> (None, p)
      | (Some r, p) \<Rightarrow> (Some (r, map (junk (ar_heap a)) [0..<n]), p))"

partial_function (option) round_loop :: "u32 \<Rightarrow> u32 \<Rightarrow> u32 option" where
  "round_loop sz s = (if s \<le> sz then round_loop sz (s * 2) else Some s)"

definition pstring_round_size :: "u32 \<Rightarrow> u32 option" where
  "pstring_round_size sz = (if sz = FB_UINT_MAX then Some FB_UINT_MAX else round_loop sz (PSTRING_DEFAULT_LEN + 1))"

definition pstring_sized_new :: "arena_state \<Rightarrow> pool_t \<Rightarrow> u32 \<Rightarrow> (pstring_t \<times> pool_t) option" where
  "pstring_sized_new a p sz = do {
     sz \<leftarrow> pstring_round_size sz;
     (case pool_new a p 16 of
        (None, p) \<Rightarrow> None
      | (Some _, p) \<Rightarrow> (let (str, p) = pool_new a p (unat sz) in Some (\<lparr>ps_str = str, ps_len = 0, ps_size = sz\<rparr>, p)))
   }"

definition pstring_new :: "arena_state \<Rightarrow> pool_t \<Rightarrow> (pstring_t \<times> pool_t) option" where
  "pstring_new a p = pstring_sized_new a p PSTRING_DEFAULT_LEN"

definition pstring_realloc_to :: "arena_state \<Rightarrow> pool_t \<Rightarrow> pstring_t \<Rightarrow> u32 \<Rightarrow> (pstring_t \<times> pool_t) option" where
  "pstring_realloc_to a p s sz =
     (case (pool_new a p (unat sz), ps_str s) of
        ((Some (r, b), p), Some (_, old)) \<Rightarrow> do {
          x \<leftarrow> mem_read old 0 (unat (ps_len s + 1));
          b \<leftarrow> mem_write b 0 x;
          Some (s\<lparr>ps_size := sz, ps_str := Some (r, b)\<rparr>, p)
        }
      | _ \<Rightarrow> None)"

definition pstring_realloc :: "arena_state \<Rightarrow> pool_t \<Rightarrow> pstring_t \<Rightarrow> (pstring_t \<times> pool_t) option" where
  "pstring_realloc a p s =
     (if ps_size s = FB_UINT_MAX then Some (s, p) else pstring_realloc_to a p s (ps_size s * 2))"

text \<open>Storing bytes at a position of the string.\<close>

definition ps_store :: "pstring_t \<Rightarrow> nat \<Rightarrow> buf \<Rightarrow> pstring_t option" where
  "ps_store s i bs =
     (case ps_str s of
        None \<Rightarrow> None
      | Some (r, b) \<Rightarrow> map_option (\<lambda>b. s\<lparr>ps_str := Some (r, b)\<rparr>) (mem_write b i bs))"

definition pstring_append_c :: "arena_state \<Rightarrow> pool_t \<Rightarrow> pstring_t \<Rightarrow> int \<Rightarrow> (pstring_t \<times> pool_t) option" where
  "pstring_append_c a p s c = do {
     (s, p) \<leftarrow> (if ps_len s = ps_size s - 1 then pstring_realloc a p s else Some (s, p));
     s \<leftarrow> ps_store s (unat (ps_len s)) [word_of_int c];
     Some (s\<lparr>ps_len := ps_len s + 1\<rparr>, p)
   }"

definition pstring_append_string :: "arena_state \<Rightarrow> pool_t \<Rightarrow> pstring_t \<Rightarrow> buf \<Rightarrow> (pstring_t \<times> pool_t) option" where
  "pstring_append_string a p s str = do {
     len \<leftarrow> strlen str;
     (s, p) \<leftarrow> (if unat (ps_len s) + len \<ge> unat (ps_size s) then pstring_realloc a p s else Some (s, p));
     s \<leftarrow> ps_store s (unat (ps_len s)) (take len str);
     Some (s\<lparr>ps_len := ps_len s + word_of_nat len\<rparr>, p)
   }"

text \<open>\<open>out\<close> is the text that the format and its arguments give; \<open>vsnprintf\<close> has no count for one of more than
  \<open>INT_MAX\<close> bytes.\<close>

definition pstring_append_printf :: "arena_state \<Rightarrow> pool_t \<Rightarrow> pstring_t \<Rightarrow> buf \<Rightarrow> (pstring_t \<times> pool_t) option" where
  "pstring_append_printf a p s out = do {
     let remain = ps_size s - ps_len s;
     chars \<leftarrow> (if length out < 2 ^ 31 then Some (word_of_nat (length out) :: u32) else None);
     s \<leftarrow> (if remain = 0 then Some s else ps_store s (unat (ps_len s)) (take (unat remain - 1) out @ [0]));
     (s, p) \<leftarrow> (if chars \<ge> remain then do {
         sz \<leftarrow> pstring_round_size (ps_len s + chars + 1);
         (s, p) \<leftarrow> pstring_realloc_to a p s sz;
         s \<leftarrow> ps_store s (unat (ps_len s)) (take (unat (ps_size s - ps_len s) - 1) out @ [0]);
         Some (s, p)
       } else Some (s, p));
     Some (s\<lparr>ps_len := ps_len s + chars\<rparr>, p)
   }"

definition pstring_append_space :: "arena_state \<Rightarrow> pool_t \<Rightarrow> pstring_t \<Rightarrow> (pstring_t \<times> pool_t) option" where
  "pstring_append_space a p s =
     (if ps_len s = 0 then Some (s, p)
      else case ps_str s of
        None \<Rightarrow> None
      | Some (_, b) \<Rightarrow> do {
          c \<leftarrow> rd b (unat (ps_len s - 1));
          (if \<not> isspace (sint c) then pstring_append_c a p s 32 else Some (s, p))
        })"

definition pstring :: "pstring_t \<Rightarrow> (pstring_t \<times> buf) option" where
  "pstring s = do {
     s \<leftarrow> ps_store s (unat (ps_len s)) [0];
     (_, b) \<leftarrow> ps_str s;
     Some (s, b)
   }"

section \<open>What a string holds\<close>

definition holds :: "pstring_t \<Rightarrow> buf \<Rightarrow> bool" where
  "holds s xs \<longleftrightarrow> (\<exists>r b. ps_str s = Some (r, b) \<and> length b = unat (ps_size s) \<and> length xs = unat (ps_len s) \<and>
     take (length xs) b = xs \<and> length xs < length b)"

lemma ps_store_holds:
  assumes "holds s xs" and "length xs + length bs \<le> unat (ps_size s)" and "n \<le> length bs" and "length xs + n < unat (ps_size s)"
  shows "\<exists>s'. ps_store s (unat (ps_len s)) bs = Some s' \<and> ps_size s' = ps_size s \<and> ps_len s' = ps_len s \<and>
    holds (s'\<lparr>ps_len := ps_len s + word_of_nat n\<rparr>) (xs @ take n bs)"
proof -
  obtain r b where b: "ps_str s = Some (r, b)" "length b = unat (ps_size s)" "length xs = unat (ps_len s)" "take (length xs) b = xs"
    using assms(1) by (auto simp: holds_def)
  have lt: "length xs + n < 2 ^ 32" using assms(4) unat_u32 [of "ps_size s"] by linarith
  have w: "mem_write b (length xs) bs = Some (xs @ bs @ drop (length xs + length bs) b)"
    using b(2,4) assms(2) by (simp add: mem_write_def)
  have len: "unat (ps_len s + word_of_nat n) = length xs + n"
    using lt b(3) by (simp add: unat_word_ariths unat_of_nat)
  show ?thesis using w b assms(2-4) len by (auto simp: ps_store_def holds_def)
qed

lemma holds_same_len: "ps_len s' = l \<Longrightarrow> holds (s'\<lparr>ps_len := l\<rparr>) xs \<Longrightarrow> holds s' xs"
  by (simp add: holds_def)

lemma pool_new_total:
  assumes "alloc_ok (ar_heap a) = (\<lambda>_. True)"
  shows "\<exists>r p'. pool_new a p n = (Some (r, map (junk (ar_heap a)) [0..<n]), p')"
proof -
  have small: "\<exists>r p'. pool_alloc_small (ar_heap a) p m = (Some r, p')" for p m
    using assms by (auto simp: pool_alloc_small_def pool_alloc_block_def Let_def split: option.splits list.splits prod.splits)
  have "\<exists>r p'. pool_alloc (ar_heap a) (ar_page a) p n = (Some r, p')"
    using small [of p n] small [of p LARGE_HEADER] assms by (auto simp: pool_alloc_def pool_alloc_large_def)
  then show ?thesis by (auto simp: pool_new_def)
qed

lemma pstring_realloc_to_holds:
  assumes "alloc_ok (ar_heap a) = (\<lambda>_. True)" and "holds s xs" and "length xs < unat sz"
  shows "\<exists>s' p'. pstring_realloc_to a p s sz = Some (s', p') \<and> ps_size s' = sz \<and> ps_len s' = ps_len s \<and> holds s' xs"
proof -
  obtain r b where b: "ps_str s = Some (r, b)" "length b = unat (ps_size s)" "length xs = unat (ps_len s)" "take (length xs) b = xs"
      "length xs < length b"
    using assms(2) by (auto simp: holds_def)
  obtain r' p' where new: "pool_new a p (unat sz) = (Some (r', map (junk (ar_heap a)) [0..<unat sz]), p')"
    using pool_new_total [OF assms(1)] by blast
  have len: "unat (ps_len s + 1) = Suc (length xs)"
    using b(2,3,5) unat_u32 [of "ps_size s"] by (simp add: unat_word_ariths)
  let ?x = "take (Suc (length xs)) b" and ?j = "map (junk (ar_heap a)) [0..<unat sz]"
  have "mem_read b 0 (Suc (length xs)) = Some ?x" using b(5) by (simp add: mem_read_def)
  moreover have "mem_write ?j 0 ?x = Some (?x @ drop (Suc (length xs)) ?j)"
    using assms(3) b(5) by (simp add: mem_write_def)
  ultimately have "pstring_realloc_to a p s sz = Some (s\<lparr>ps_size := sz, ps_str := Some (r', ?x @ drop (Suc (length xs)) ?j)\<rparr>, p')"
    using new b(1) len by (simp add: pstring_realloc_to_def)
  moreover have "holds (s\<lparr>ps_size := sz, ps_str := Some (r', ?x @ drop (Suc (length xs)) ?j)\<rparr>) xs"
    using b assms(3) by (simp add: holds_def)
  ultimately show ?thesis by auto
qed

section \<open>Sizes\<close>

text \<open>The size of a string is a power of two from 8 on; doubling and rounding keep it one, up to \<open>2 ^ 31\<close>.\<close>

definition pow_size :: "u32 \<Rightarrow> bool" where
  "pow_size sz \<longleftrightarrow> (\<exists>k. 3 \<le> k \<and> k \<le> 31 \<and> sz = 2 ^ k)"

lemma unat_pow:
  assumes "k \<le> 31"
  shows "unat (2 ^ k :: u32) = 2 ^ k"
proof -
  have "(2 :: nat) ^ k \<le> 2 ^ 31" using assms by (intro power_increasing) simp_all
  then show ?thesis using unat_of_nat [of "2 ^ k", where 'a = 32] by simp
qed

lemma round_loop_pow:
  assumes "k \<le> 31" and "unat sz < 2 ^ 31"
  shows "\<exists>j. k \<le> j \<and> j \<le> 31 \<and> round_loop sz (2 ^ k) = Some (2 ^ j) \<and> sz < 2 ^ j"
  using assms
proof (induction "31 - k" arbitrary: k)
  case 0
  then have "sz < 2 ^ k" using unat_pow [of k] by (simp add: word_less_nat_alt)
  then show ?case using 0 by (subst round_loop.simps) (auto simp: not_le [symmetric])
next
  case (Suc d)
  show ?case
  proof (cases "sz < 2 ^ k")
    case True
    then show ?thesis using Suc.prems by (subst round_loop.simps) (auto simp: not_le [symmetric])
  next
    case False
    have d: "d = 31 - Suc k" "Suc k \<le> 31" using Suc.hyps(2) by simp_all
    obtain j where "Suc k \<le> j" "j \<le> 31" "round_loop sz (2 ^ Suc k) = Some (2 ^ j)" "sz < 2 ^ j"
      using Suc.hyps(1) [OF d Suc.prems(2)] by blast
    then show ?thesis using False by (subst round_loop.simps) (auto simp: mult.commute intro!: exI [of _ j])
  qed
qed

lemma pstring_round_size_pow:
  assumes "unat sz < 2 ^ 31"
  shows "\<exists>s. pstring_round_size sz = Some s \<and> pow_size s \<and> sz < s"
proof -
  have "sz \<noteq> FB_UINT_MAX" using assms by (auto simp: FB_UINT_MAX_def)
  moreover obtain j where "3 \<le> j" "j \<le> 31" "round_loop sz 8 = Some (2 ^ j)" "sz < 2 ^ j"
    using round_loop_pow [of 3 sz] assms by auto
  ultimately show ?thesis by (auto simp: pstring_round_size_def pow_size_def PSTRING_DEFAULT_LEN_def)
qed

text \<open>Rounding does not return for other sizes: the power of two wraps to 0 and stays there.\<close>

lemma round_loop_result:
  assumes "round_loop sz s = Some r"
  shows "sz < r \<and> (\<exists>k. r = s * 2 ^ k)"
proof (rule round_loop.raw_induct [where P = "\<lambda>sz s r. sz < r \<and> (\<exists>k. r = s * 2 ^ k)", OF _ assms])
  fix f sz s r
  assume IH: "\<And>sz s r. f sz s = Some r \<Longrightarrow> sz < r \<and> (\<exists>k. r = s * 2 ^ k)"
    and body: "(if s \<le> sz then f sz (s * 2) else Some s) = Some (r :: u32)"
  show "sz < r \<and> (\<exists>k. r = s * 2 ^ k)"
  proof (cases "s \<le> sz")
    case True
    then have "f sz (s * 2) = Some r" using body by simp
    from IH [OF this] obtain k where "sz < r" "r = s * 2 * 2 ^ k" by blast
    then show ?thesis by (intro conjI exI [of _ "Suc k"]) (auto simp: mult.assoc)
  next
    case False
    then show ?thesis using body by (intro conjI exI [of _ 0]) auto
  qed
qed

lemma pow_wraps: "unat (8 * 2 ^ k :: u32) \<le> 2 ^ 31"
proof (cases "k \<le> 28")
  case True
  have "8 * 2 ^ k = (2 ^ (k + 3) :: u32)" by (simp add: power_add)
  then show ?thesis using True unat_pow [of "k + 3"] power_increasing [of "k + 3" 31 "2 :: nat"] by simp
next
  case False
  then obtain j where "k = 29 + j" using less_imp_Suc_add [of 28 k] by auto
  then have "8 * 2 ^ k = (2 ^ 32 * 2 ^ j :: u32)" by (simp add: power_add)
  also have "(2 ^ 32 :: u32) = 0" by simp
  finally show ?thesis by simp
qed

text \<open>Rounding a size up to a power of two returns exactly for sizes below \<open>2 ^ 31\<close> and for the largest
  one; for the others the loop never ends.\<close>

theorem pstring_round_size_returns:
  "(\<exists>s. pstring_round_size sz = Some s) \<longleftrightarrow> unat sz < 2 ^ 31 \<or> sz = FB_UINT_MAX"
proof (cases "unat sz < 2 ^ 31 \<or> sz = FB_UINT_MAX")
  case True
  then show ?thesis using pstring_round_size_pow [of sz] by (auto simp: pstring_round_size_def)
next
  case False
  have "round_loop sz 8 \<noteq> Some r" for r
    using round_loop_result [of sz 8 r] pow_wraps False by (auto simp: word_less_nat_alt not_less) (meson le_trans not_le)
  then show ?thesis using False by (auto simp: pstring_round_size_def PSTRING_DEFAULT_LEN_def)
qed

section \<open>Appending\<close>

definition built :: "pstring_t \<Rightarrow> buf \<Rightarrow> bool" where
  "built s xs \<longleftrightarrow> holds s xs \<and> pow_size (ps_size s)"

definition delivers :: "arena_state \<Rightarrow> bool" where
  "delivers a \<longleftrightarrow> alloc_ok (ar_heap a) = (\<lambda>_. True)"

lemma built_length: "built s xs \<Longrightarrow> length xs = unat (ps_len s) \<and> length xs < unat (ps_size s)"
  by (auto simp: built_def holds_def)

lemma pstring_new_built:
  assumes "delivers a"
  shows "\<exists>s p'. pstring_new a p = Some (s, p') \<and> built s []"
proof -
  obtain sz where sz: "pstring_round_size PSTRING_DEFAULT_LEN = Some sz" "pow_size sz" "PSTRING_DEFAULT_LEN < sz"
    using pstring_round_size_pow [of PSTRING_DEFAULT_LEN] by (auto simp: PSTRING_DEFAULT_LEN_def)
  obtain r p1 where 1: "pool_new a p 16 = (Some r, p1)" using pool_new_total [of a p 16] assms by (auto simp: delivers_def)
  obtain r2 p2 where 2: "pool_new a p1 (unat sz) = (Some (r2, map (junk (ar_heap a)) [0..<unat sz]), p2)"
    using pool_new_total [of a p1 "unat sz"] assms by (auto simp: delivers_def)
  have "0 < unat sz" using sz(3) by (simp add: word_less_nat_alt)
  then show ?thesis
    using sz(1,2) 1 2 by (simp add: pstring_new_def pstring_sized_new_def built_def holds_def)
qed

lemma pstring_append_c_built:
  assumes "delivers a" and "built s xs" and "length xs < 2 ^ 31 - 1"
  shows "\<exists>s' p'. pstring_append_c a p s c = Some (s', p') \<and> built s' (xs @ [word_of_int c])"
proof -
  have len: "length xs = unat (ps_len s)" "length xs < unat (ps_size s)" using built_length [OF assms(2)] by simp_all
  obtain k where k: "3 \<le> k" "k \<le> 31" "ps_size s = 2 ^ k" using assms(2) by (auto simp: built_def pow_size_def)
  have pred: "unat (ps_size s - 1) = unat (ps_size s) - 1"
    using len(2) by (simp add: unat_sub word_le_nat_alt)
  have "\<exists>s1 p1. (if ps_len s = ps_size s - 1 then pstring_realloc a p s else Some (s, p)) = Some (s1, p1) \<and> built s1 xs \<and>
      ps_len s1 = ps_len s \<and> length xs + 1 < unat (ps_size s1)"
  proof (cases "ps_len s = ps_size s - 1")
    case True
    then have full: "length xs = 2 ^ k - 1" using len pred unat_pow [OF k(2)] k(3) by simp
    then have "k \<noteq> 31" using assms(3) by auto
    then have k': "Suc k \<le> 31" using k(2) by simp
    have dbl: "ps_size s * 2 = 2 ^ Suc k" using k(3) by (simp add: mult.commute)
    have pos: "(1::nat) \<le> 2 ^ k" by simp
    have "ps_size s \<noteq> FB_UINT_MAX"
    proof
      assume "ps_size s = FB_UINT_MAX"
      then have "(2::nat) ^ k = 2 ^ 32 - 1" using unat_pow [OF k(2)] k(3) by (simp add: FB_UINT_MAX_def)
      moreover have "even ((2::nat) ^ k)" using k(1) by simp
      ultimately show False by simp
    qed
    then have re: "pstring_realloc a p s = pstring_realloc_to a p s (2 ^ Suc k)" by (simp add: pstring_realloc_def dbl)
    have "length xs + 1 < 2 ^ Suc k" using full pos by simp
    then show ?thesis
      using pstring_realloc_to_holds [of a s xs "2 ^ Suc k" p] assms(1,2) True re k(1) k' unat_pow [OF k']
      by (auto simp: delivers_def built_def pow_size_def simp del: power_Suc intro!: exI [of _ "Suc k"])
  next
    case False
    then have "length xs \<noteq> unat (ps_size s) - 1" using len(1) pred by (metis word_unat_eq_iff)
    then show ?thesis using False assms(2) len by simp
  qed
  then obtain s1 p1 where s1: "(if ps_len s = ps_size s - 1 then pstring_realloc a p s else Some (s, p)) = Some (s1, p1)"
      "built s1 xs" "ps_len s1 = ps_len s" "length xs + 1 < unat (ps_size s1)" by blast
  obtain s2 where s2: "ps_store s1 (unat (ps_len s1)) [word_of_int c] = Some s2" "ps_size s2 = ps_size s1" "ps_len s2 = ps_len s1"
      "holds (s2\<lparr>ps_len := ps_len s1 + 1\<rparr>) (xs @ [word_of_int c])"
    using ps_store_holds [of s1 xs "[word_of_int c]" 1] s1(2,4) by (auto simp: built_def)
  have "pstring_append_c a p s c = Some (s2\<lparr>ps_len := ps_len s2 + 1\<rparr>, p1)"
    unfolding pstring_append_c_def s1(1) using s2(1) by simp
  then show ?thesis using s2 s1(2) by (simp add: built_def)
qed

lemma pstring_append_space_built:
  assumes "delivers a" and "built s xs" and "length xs < 2 ^ 31 - 1"
  shows "\<exists>s' p'. pstring_append_space a p s = Some (s', p') \<and>
    built s' (if xs = [] \<or> isspace (sint (List.last xs)) then xs else xs @ [32])"
proof (cases "xs = []")
  case True
  then show ?thesis using assms(2) built_length [OF assms(2)] by (simp add: pstring_append_space_def unat_eq_0)
next
  case False
  have len: "length xs = unat (ps_len s)" "length xs < unat (ps_size s)" using built_length [OF assms(2)] by simp_all
  obtain r b where b: "ps_str s = Some (r, b)" "length b = unat (ps_size s)" "take (length xs) b = xs"
    using assms(2) by (auto simp: built_def holds_def)
  have nz: "ps_len s \<noteq> 0" using False len(1) by auto
  then have pred: "unat (ps_len s - 1) = length xs - 1" using len(1) by (simp add: unat_minus_one)
  have "List.last xs = b ! (length xs - 1)" using b(3) False
    by (metis last_conv_nth nth_take diff_less length_greater_0_conv zero_less_one)
  then have rd: "rd b (unat (ps_len s - 1)) = Some (List.last xs)" using len b(2) False by (simp add: pred rd_def)
  show ?thesis
    using pstring_append_c_built [OF assms, of p 32] assms(2) False nz rd b(1) by (simp add: pstring_append_space_def)
qed

lemma pstring_append_printf_built:
  assumes "delivers a" and "built s xs" and "length xs + length out < 2 ^ 31 - 1"
  shows "\<exists>s' p'. pstring_append_printf a p s out = Some (s', p') \<and> built s' (xs @ out)"
proof -
  have len: "length xs = unat (ps_len s)" "length xs < unat (ps_size s)" using built_length [OF assms(2)] by simp_all
  let ?rem = "ps_size s - ps_len s" and ?n = "length out"
  have rem: "unat ?rem = unat (ps_size s) - length xs" "?rem \<noteq> 0"
    using len by (auto simp: unat_sub word_le_nat_alt)
  have chars: "unat (word_of_nat ?n :: u32) = ?n" using assms(3) by (simp add: unat_of_nat)
  let ?w = "take (unat ?rem - 1) out @ [0]"
  have room: "length xs + length ?w \<le> unat (ps_size s)" using rem(1) len(2) by simp
  show ?thesis
  proof (cases "word_of_nat ?n \<ge> ?rem")
    case False
    then have short: "?n < unat ?rem" using chars by (simp add: word_le_nat_alt)
    obtain s1 where s1: "ps_store s (unat (ps_len s)) ?w = Some s1" "ps_size s1 = ps_size s" "ps_len s1 = ps_len s"
        "holds (s1\<lparr>ps_len := ps_len s + word_of_nat ?n\<rparr>) (xs @ take ?n ?w)"
      using ps_store_holds [of s xs ?w ?n] room short rem(1) assms(2) by (auto simp: built_def)
    have "pstring_append_printf a p s out = Some (s1\<lparr>ps_len := ps_len s1 + word_of_nat ?n\<rparr>, p)"
      using s1(1) rem(2) False assms(3) by (simp add: pstring_append_printf_def Let_def)
    then show ?thesis using s1 assms(2) short by (simp add: built_def)
  next
    case True
    obtain s1 where s1: "ps_store s (unat (ps_len s)) ?w = Some s1" "ps_size s1 = ps_size s" "ps_len s1 = ps_len s" "holds s1 xs"
      using ps_store_holds [of s xs ?w 0] room len(2) assms(2) by (auto simp: built_def dest: holds_same_len)
    have want: "unat (ps_len s1 + word_of_nat ?n + 1) = length xs + ?n + 1"
      using chars assms(3) len(1) s1(3) by (simp add: unat_word_ariths)
    obtain sz where sz: "pstring_round_size (ps_len s1 + word_of_nat ?n + 1) = Some sz" "pow_size sz" "length xs + ?n + 1 < unat sz"
      using pstring_round_size_pow [of "ps_len s1 + word_of_nat ?n + 1"] want assms(3) by (auto simp: word_less_nat_alt)
    obtain s2 p2 where s2: "pstring_realloc_to a p s1 sz = Some (s2, p2)" "ps_size s2 = sz" "ps_len s2 = ps_len s1" "holds s2 xs"
      using pstring_realloc_to_holds [of a s1 xs sz p] assms(1) s1(4) sz(3) by (auto simp: delivers_def)
    have rem2: "unat (ps_size s2 - ps_len s2) = unat sz - length xs"
      using s2(2,3) s1(3) sz(3) len(1) by (simp add: unat_sub word_le_nat_alt)
    have all: "take (unat (ps_size s2 - ps_len s2) - 1) out = out" using sz(3) by (simp add: rem2)
    obtain s3 where s3: "ps_store s2 (unat (ps_len s2)) (out @ [0]) = Some s3" "ps_size s3 = sz" "ps_len s3 = ps_len s2"
        "holds (s3\<lparr>ps_len := ps_len s2 + word_of_nat ?n\<rparr>) (xs @ out)"
      using ps_store_holds [of s2 xs "out @ [0]" ?n] s2 sz(3) by auto
    have "pstring_append_printf a p s out = Some (s3\<lparr>ps_len := ps_len s3 + word_of_nat ?n\<rparr>, p2)"
      using s1(1) rem(2) True assms(3) sz(1) s2(1) s3(1) by (simp add: pstring_append_printf_def Let_def all [simplified])
    then show ?thesis using s3 sz(2) by (simp add: built_def)
  qed
qed

text \<open>A program of appends, and the text it means.\<close>

datatype append_op = Add_char int | Add_text buf | Add_space

fun run_append :: "arena_state \<Rightarrow> append_op \<Rightarrow> pstring_t \<times> pool_t \<Rightarrow> (pstring_t \<times> pool_t) option" where
  "run_append a (Add_char c) (s, p) = pstring_append_c a p s c"
| "run_append a (Add_text out) (s, p) = pstring_append_printf a p s out"
| "run_append a Add_space (s, p) = pstring_append_space a p s"

fun run_appends :: "arena_state \<Rightarrow> append_op list \<Rightarrow> pstring_t \<times> pool_t \<Rightarrow> (pstring_t \<times> pool_t) option" where
  "run_appends a [] x = Some x"
| "run_appends a (op # ops) x = do { x \<leftarrow> run_append a op x; run_appends a ops x }"

fun append_text :: "buf \<Rightarrow> append_op \<Rightarrow> buf" where
  "append_text xs (Add_char c) = xs @ [word_of_int c]"
| "append_text xs (Add_text out) = xs @ out"
| "append_text xs Add_space = (if xs = [] \<or> isspace (sint (List.last xs)) then xs else xs @ [32])"

lemma append_text_longer: "length xs \<le> length (foldl append_text xs ops)"
proof (induction ops arbitrary: xs)
  case (Cons op ops)
  have "length xs \<le> length (append_text xs op)" by (cases op) auto
  then show ?case using Cons.IH [of "append_text xs op"] by simp
qed simp

lemma run_append_built:
  assumes "delivers a" and "built s xs" and "length (append_text xs op) < 2 ^ 31 - 1"
  shows "\<exists>s' p'. run_append a op (s, p) = Some (s', p') \<and> built s' (append_text xs op)"
proof (cases op)
  case (Add_char c)
  then show ?thesis using pstring_append_c_built [OF assms(1,2), of p c] assms(3) by simp
next
  case (Add_text out)
  then show ?thesis using pstring_append_printf_built [OF assms(1,2), of out p] assms(3) by simp
next
  case Add_space
  have "length xs < 2 ^ 31 - 1" using assms(3) append_text_longer [of xs "[op]"] by (simp del: append_text.simps)
  from pstring_append_space_built [OF assms(1,2) this, of p] show ?thesis by (simp add: Add_space)
qed

lemma run_appends_built:
  assumes "delivers a" and "built s xs" and "length (foldl append_text xs ops) < 2 ^ 31 - 1"
  shows "\<exists>s' p'. run_appends a ops (s, p) = Some (s', p') \<and> built s' (foldl append_text xs ops)"
  using assms(2,3)
proof (induction ops arbitrary: xs s p)
  case (Cons op ops)
  have "length (append_text xs op) < 2 ^ 31 - 1"
    using Cons.prems(2) append_text_longer [of "append_text xs op" ops] by simp
  from run_append_built [OF assms(1) Cons.prems(1) this, of p] obtain s1 p1
    where "run_append a op (s, p) = Some (s1, p1)" "built s1 (append_text xs op)" by blast
  then show ?case using Cons.IH [of s1 "append_text xs op" p1] Cons.prems(2) by simp
qed simp

lemma pstring_built:
  assumes "built s xs"
  shows "\<exists>s' b. pstring s = Some (s', b) \<and> take (Suc (length xs)) b = xs @ [0]"
proof -
  obtain r b where b: "ps_str s = Some (r, b)" "length b = unat (ps_size s)" "length xs = unat (ps_len s)" "take (length xs) b = xs"
      "length xs < length b"
    using assms by (auto simp: built_def holds_def)
  have "mem_write b (length xs) [0] = Some (xs @ 0 # drop (Suc (length xs)) b)" using b(4,5) by (simp add: mem_write_def)
  then show ?thesis using b(1,3) by (simp add: pstring_def ps_store_def)
qed

text \<open>Claim C33: while memory is available, any sequence of characters, formatted pieces and separating blanks
  appended to a new string, of less than \<open>2 ^ 31 - 1\<close> bytes in all, is stored inside the buffer and read back in
  order with its terminator.\<close>

theorem pstring_appends_correct:
  assumes "delivers a" and "length (foldl append_text [] ops) < 2 ^ 31 - 1"
  shows "\<exists>b. do { x \<leftarrow> pstring_new a p; (s, _) \<leftarrow> run_appends a ops x; (_, b) \<leftarrow> pstring s; Some b } = Some b \<and>
    take (Suc (length (foldl append_text [] ops))) b = foldl append_text [] ops @ [0]"
proof -
  obtain s1 p1 where 1: "pstring_new a p = Some (s1, p1)" "built s1 []" using pstring_new_built [OF assms(1)] by blast
  obtain s2 p2 where 2: "run_appends a ops (s1, p1) = Some (s2, p2)" "built s2 (foldl append_text [] ops)"
    using run_appends_built [OF assms(1) 1(2) assms(2)] by blast
  show ?thesis using pstring_built [OF 2(2)] 1(1) 2(1) by auto
qed

theorem pstring_appends_correct_witness:
  "\<exists>p b. pool_create heap_total 4096 0 = Some (Some p) \<and>
    do { x \<leftarrow> pstring_new \<lparr>ar_heap = heap_total, ar_page = 4096\<rparr> p;
      (s, _) \<leftarrow> run_appends \<lparr>ar_heap = heap_total, ar_page = 4096\<rparr> [Add_text (replicate 20 97), Add_space, Add_char 98] x;
      (_, b) \<leftarrow> pstring s; Some b } = Some b \<and> take 23 b = replicate 20 97 @ [32, 98, 0]"
proof -
  let ?ops = "[Add_text (replicate 20 97), Add_space, Add_char 98]" and ?a = "\<lparr>ar_heap = heap_total, ar_page = 4096\<rparr>"
  have d: "delivers ?a" by (simp add: delivers_def heap_total_def)
  have t: "foldl append_text [] ?ops = replicate 20 97 @ [32, 98]" by code_simp
  obtain p where p: "pool_create heap_total 4096 0 = Some (Some p)"
    by (simp add: pool_create_def header_aligned BLOCK_HEADER_def POOL_HEADER_def heap_total_def align_ptr_def ALIGNMENT_def)
  show ?thesis using pstring_appends_correct [OF d, of ?ops p] p unfolding t by auto
qed

text \<open>Claim C34: appending a C string is right as long as twice the size has room for it with its terminator; when it
  has none for the bytes themselves they are written behind the buffer, since the buffer is doubled only once.\<close>

theorem pstring_append_string_bound:
  assumes "delivers a" and "built s xs" and "unat (ps_size s) < 2 ^ 31" and "terminated str"
  shows "if length xs + length (cstr str) < 2 * unat (ps_size s)
    then \<exists>s' p'. pstring_append_string a p s str = Some (s', p') \<and> built s' (xs @ cstr str)
    else length xs + length (cstr str) > 2 * unat (ps_size s) \<longrightarrow> pstring_append_string a p s str = None"
proof -
  have len: "length xs = unat (ps_len s)" "length xs < unat (ps_size s)" using built_length [OF assms(2)] by simp_all
  let ?n = "length (cstr str)"
  have n: "strlen str = Some ?n" "take ?n str = cstr str" by (simp_all add: strlen_terminated assms(4) takeWhile_eq_take [symmetric])
  have put: "pstring_append_string a p s str = do {
      (s, p) \<leftarrow> (if length xs + ?n \<ge> unat (ps_size s) then pstring_realloc a p s else Some (s, p));
      s \<leftarrow> ps_store s (unat (ps_len s)) (cstr str);
      Some (s\<lparr>ps_len := ps_len s + word_of_nat ?n\<rparr>, p)
    }" by (simp add: pstring_append_string_def n len(1))
  have stored: "\<exists>s'. ps_store s1 (unat (ps_len s1)) (cstr str) = Some s' \<and> built (s'\<lparr>ps_len := ps_len s' + word_of_nat ?n\<rparr>) (xs @ cstr str)"
    if b: "built s1 xs" "length xs + ?n < unat (ps_size s1)" for s1
    using ps_store_holds [of s1 xs "cstr str" ?n] b by (auto simp: built_def)
  show ?thesis
  proof (cases "length xs + ?n < unat (ps_size s)")
    case True
    then show ?thesis using stored [OF assms(2)] put by auto
  next
    case False
    obtain k where k: "3 \<le> k" "k \<le> 31" "ps_size s = 2 ^ k" using assms(2) by (auto simp: built_def pow_size_def)
    have k': "Suc k \<le> 31" using assms(3) k unat_pow [OF k(2)] by (cases "k = 31") auto
    have dbl: "ps_size s * 2 = 2 ^ Suc k" "unat (2 ^ Suc k :: u32) = 2 * unat (ps_size s)"
      using k(3) unat_pow [OF k'] unat_pow [OF k(2)] by (simp_all add: mult.commute)
    have "ps_size s \<noteq> FB_UINT_MAX" using assms(3) by (auto simp: FB_UINT_MAX_def)
    then obtain s1 p1 where s1: "pstring_realloc a p s = Some (s1, p1)" "ps_size s1 = 2 ^ Suc k" "ps_len s1 = ps_len s" "holds s1 xs"
      using pstring_realloc_to_holds [of a s xs "2 ^ Suc k" p] assms(1,2) len(2) dbl
      by (auto simp: pstring_realloc_def delivers_def built_def simp del: power_Suc)
    have b1: "built s1 xs" using s1 k(1) k' by (auto simp: built_def pow_size_def simp del: power_Suc intro!: exI [of _ "Suc k"])
    have "ps_store s1 (unat (ps_len s1)) (cstr str) = None" if "length xs + ?n > 2 * unat (ps_size s)"
      using that s1(2-4) dbl(2) len(1) by (auto simp: ps_store_def holds_def mem_write_def)
    then show ?thesis using stored [OF b1] put s1(1,2) dbl(2) False by auto
  qed
qed

theorem pstring_append_string_bound_witness:
  "\<exists>s p. pstring_append_string \<lparr>ar_heap = heap_total, ar_page = 4096\<rparr> p s (replicate 17 97 @ [0]) = None \<and> built s []"
proof -
  let ?a = "\<lparr>ar_heap = heap_total, ar_page = 4096\<rparr>" and ?s = "\<lparr>ps_str = Some (Large 0, replicate 8 0), ps_len = 0, ps_size = 8\<rparr>"
  have b: "built ?s []" by (auto simp: built_def holds_def pow_size_def intro!: exI [of _ 3])
  have d: "delivers ?a" by (simp add: delivers_def heap_total_def)
  obtain p :: pool_t where True by simp
  have "cstr (replicate 17 97 @ [0]) = (replicate 17 97 :: buf)" by code_simp
  then show ?thesis using pstring_append_string_bound [OF d b, of "replicate 17 97 @ [0]" p] b by auto
qed

end
