(* ===== verification/FB_Edit.thy ===== *)
theory FB_Edit
  imports FB_Input
begin

text \<open>
  The text editor, \<open>src/edit.c\<close>, built with \<open>ALLOWAUTOWRAP\<close>: a doubly linked list of lines in an explicit
  store of allocated lines, with pointers to its first line, the editable range, the top of the window, the current line
  and the ends of the marked block.  Drawing and prompts are not modelled; \<open>reports\<close> collects the calls of
  \<open>indigestion\<close>.  A process that gives up (\<open>abort_bbs\<close>) does not return.
\<close>

definition M_MARK :: byte where "M_MARK = 1"

type_synonym lptr = "nat option"

record textline =
  tl_prev :: lptr
  tl_next :: lptr
  tl_len :: int
  tl_attr :: byte
  tl_data :: buf

record editor =
  ed_lines :: "nat \<Rightarrow> textline option"
  ed_fresh :: nat
  firstline :: lptr
  can_edit_begin :: lptr
  can_edit_end :: lptr
  top_of_win :: lptr
  currline :: lptr
  mark_begin :: lptr
  mark_end :: lptr
  currpnt :: int
  moveln :: int
  curr_window_line :: int
  currln :: int
  redraw_everything :: bool
  insert_character :: bool
  linelen :: int
  mark_on :: int
  editansi :: bool
  enabledbchar :: bool
  lastindent :: int
  reports :: "int list"

section \<open>Following pointers\<close>

definition line_at :: "editor \<Rightarrow> lptr \<Rightarrow> textline option" where
  "line_at st p = (case p of None \<Rightarrow> None | Some a \<Rightarrow> ed_lines st a)"

definition put_line :: "lptr \<Rightarrow> (textline \<Rightarrow> textline) \<Rightarrow> editor \<Rightarrow> editor option" where
  "put_line p f st =
     (case p of
        None \<Rightarrow> None
      | Some a \<Rightarrow> map_option (\<lambda>l. st\<lparr>ed_lines := (ed_lines st)(a \<mapsto> f l)\<rparr>) (ed_lines st a))"

definition next_of :: "editor \<Rightarrow> lptr \<Rightarrow> lptr option" where
  "next_of st p = map_option tl_next (line_at st p)"

definition prev_of :: "editor \<Rightarrow> lptr \<Rightarrow> lptr option" where
  "prev_of st p = map_option tl_prev (line_at st p)"

text \<open>The byte before the text of a line is the one of its attributes.\<close>

definition data_at :: "textline \<Rightarrow> int \<Rightarrow> byte option" where
  "data_at l i = (if i = -1 then Some (tl_attr l) else rdi (tl_data l) i)"

definition indigestion :: "int \<Rightarrow> editor \<Rightarrow> editor" where
  "indigestion i st = st\<lparr>reports := i # reports st\<rparr>"

section \<open>Moving\<close>

text \<open>The second argument counts the steps that were made, \<open>moveln\<close>.\<close>

fun back_loop :: "editor \<Rightarrow> int \<Rightarrow> nat \<Rightarrow> lptr \<Rightarrow> (lptr \<times> int) option" where
  "back_loop st n 0 pt = Some (pt, n)"
| "back_loop st n (Suc k) pt =
     (if pt \<noteq> None \<and> pt \<noteq> can_edit_begin st then do { pt \<leftarrow> prev_of st pt; back_loop st (n + 1) k pt }
      else Some (pt, n))"

definition back_line :: "lptr \<Rightarrow> int \<Rightarrow> editor \<Rightarrow> (lptr \<times> editor) option" where
  "back_line pt num st = do { (pt, n) \<leftarrow> back_loop st 0 (nat num) pt; Some (pt, st\<lparr>moveln := n\<rparr>) }"

fun forward_loop :: "editor \<Rightarrow> int \<Rightarrow> nat \<Rightarrow> lptr \<Rightarrow> (lptr \<times> int) option" where
  "forward_loop st n 0 pt = Some (pt, n)"
| "forward_loop st n (Suc k) pt = do {
     nx \<leftarrow> next_of st pt;
     (if nx \<noteq> None \<and> nx \<noteq> can_edit_end st then forward_loop st (n + 1) k nx else Some (pt, n))
   }"

definition forward_line :: "lptr \<Rightarrow> int \<Rightarrow> editor \<Rightarrow> (lptr \<times> editor) option" where
  "forward_line pt num st = do { (pt, n) \<leftarrow> forward_loop st 0 (nat num) pt; Some (pt, st\<lparr>moveln := n\<rparr>) }"

partial_function (option) count_loop :: "editor \<Rightarrow> int \<Rightarrow> lptr \<Rightarrow> int option" where
  "count_loop st n pt =
     (if pt = can_edit_end st then Some n
      else do { nx \<leftarrow> next_of st pt; (if nx \<noteq> None then count_loop st (n + 1) nx else Some n) })"

definition countline :: "editor \<Rightarrow> editor option" where
  "countline st = do { n \<leftarrow> count_loop st 0 (can_edit_begin st); Some (st\<lparr>moveln := n\<rparr>) }"

partial_function (option) lineno_loop :: "editor \<Rightarrow> int \<Rightarrow> lptr \<Rightarrow> int option" where
  "lineno_loop st n p =
     (if p = top_of_win st \<or> p = None then Some n else do { p \<leftarrow> prev_of st p; lineno_loop st (n + 1) p })"

definition getlineno :: "editor \<Rightarrow> int option" where
  "getlineno st = lineno_loop st 0 (currline st)"

fun killsp :: "buf \<Rightarrow> buf option" where
  "killsp [] = None"
| "killsp (c # s) = (if c = 32 then killsp s else Some (c # s))"

text \<open>Steps forward from line number \<open>count\<close>, until \<open>n\<close> or the end of the text.\<close>

fun go_loop :: "editor \<Rightarrow> int \<Rightarrow> nat \<Rightarrow> lptr \<Rightarrow> (lptr \<times> int) option" where
  "go_loop st count 0 p = Some (p, count)"
| "go_loop st count (Suc k) p =
     (if p = None then Some (p, count)
      else do {
        nx \<leftarrow> next_of st p;
        (if nx \<noteq> can_edit_end st then go_loop st (count + 1) k nx else Some (p, count))
      })"

definition goline :: "int \<Rightarrow> editor \<Rightarrow> editor option" where
  "goline n st =
     (let n = (if n < 0 then 1 else n) in
      if n = 0 then Some st
      else do {
        (p, count) \<leftarrow> go_loop st 1 (nat (n - 1)) (can_edit_begin st);
        let count = (if count = n then count - 1 else count);
        Some (st\<lparr>currln := count - 1, curr_window_line := 0, top_of_win := p, currline := p\<rparr>)
      })"

text \<open>\<open>strstr\<close>: the offset of the first occurrence.\<close>

fun strstr :: "buf \<Rightarrow> buf \<Rightarrow> nat option" where
  "strstr [] pat = (if pat = [] then Some 0 else None)"
| "strstr (c # s) pat = (if take (length pat) (c # s) = pat then Some 0 else map_option Suc (strstr s pat))"

partial_function (option) search_loop :: "editor \<Rightarrow> buf \<Rightarrow> int \<Rightarrow> int \<Rightarrow> lptr \<Rightarrow> (lptr \<times> int \<times> int option) option" where
  "search_loop st pat count tt p =
     (if p = None \<or> p = can_edit_end st then Some (p, count, None)
      else do {
        l \<leftarrow> line_at st p;
        (if tt < 0 \<or> int (length (tl_data l)) \<le> tt then None
         else do {
           n \<leftarrow> strlen (drop (nat tt) (tl_data l));
           (case strstr (take n (drop (nat tt) (tl_data l))) pat of
              Some i \<Rightarrow> Some (p, count + 1, Some (tt + int i + int (length pat)))
            | None \<Rightarrow> search_loop st pat (count + 1) 0 (tl_next l))
         })
      })"

definition searchline :: "buf \<Rightarrow> editor \<Rightarrow> editor option" where
  "searchline str st = do {
     n \<leftarrow> strlen str;
     (p, count, found) \<leftarrow> search_loop st (take n str) 0 (currpnt st) (currline st);
     (case found of
        Some addr \<Rightarrow> Some (st\<lparr>currpnt := addr, currln := currln st + count - 1, curr_window_line := 0, top_of_win := p, currline := p\<rparr>)
      | None \<Rightarrow> goline (currln st + 1) st)
   }"

section \<open>Lines of the list\<close>

definition alloc_line :: "heap \<Rightarrow> editor \<Rightarrow> (nat \<times> editor) option" where
  "alloc_line h st =
     (if alloc_ok h 280 then
        Some (ed_fresh st,
          st\<lparr>ed_lines := (ed_lines st)(ed_fresh st \<mapsto> \<lparr>tl_prev = None, tl_next = None, tl_len = 0, tl_attr = 0,
               tl_data = 0 # map (junk h) [1..<256]\<rparr>),
             ed_fresh := Suc (ed_fresh st)\<rparr>)
      else None)"

definition append_line :: "lptr \<Rightarrow> lptr \<Rightarrow> editor \<Rightarrow> editor option" where
  "append_line p line st =
     (if p = None then Some st
      else do {
        nx \<leftarrow> next_of st line;
        st \<leftarrow> put_line p (\<lambda>l. l\<lparr>tl_next := nx\<rparr>) st;
        let st = (if line = can_edit_end st then st\<lparr>can_edit_end := p\<rparr> else st);
        st \<leftarrow> (if nx \<noteq> None then put_line nx (\<lambda>l. l\<lparr>tl_prev := p\<rparr>) st else Some st);
        st \<leftarrow> put_line line (\<lambda>l. l\<lparr>tl_next := p\<rparr>) st;
        put_line p (\<lambda>l. l\<lparr>tl_prev := line\<rparr>) st
      })"

text \<open>The marks and the begin of the text move off a line that is deleted.\<close>

definition leave_line :: "lptr \<Rightarrow> textline \<Rightarrow> editor \<Rightarrow> editor" where
  "leave_line line l st =
     st\<lparr>mark_begin := (if mark_begin st = line then if tl_next l = can_edit_end st then None else tl_next l else mark_begin st),
        mark_end := (if mark_end st = line then if line = can_edit_begin st then None else tl_prev l else mark_end st),
        can_edit_begin := (if line = can_edit_begin st then tl_next l else can_edit_begin st)\<rparr>"

definition unlink :: "lptr \<Rightarrow> textline \<Rightarrow> editor \<Rightarrow> editor option" where
  "unlink line l st =
     (if line = firstline st then do {
        st \<leftarrow> put_line (tl_next l) (\<lambda>l. l\<lparr>tl_prev := None\<rparr>) st;
        Some (st\<lparr>firstline := tl_next l\<rparr>)
      } else do {
        st \<leftarrow> put_line (tl_next l) (\<lambda>n. n\<lparr>tl_prev := tl_prev l\<rparr>) st;
        put_line (tl_prev l) (\<lambda>p. p\<lparr>tl_next := tl_next l\<rparr>) st
      })"

definition delete_line :: "lptr \<Rightarrow> editor \<Rightarrow> editor option" where
  "delete_line line st =
     (case line of
        None \<Rightarrow> Some st
      | Some a \<Rightarrow> do {
          l \<leftarrow> line_at st line;
          (if line = can_edit_begin st \<and> tl_next l = can_edit_end st then do {
             d \<leftarrow> wr (tl_data l) 0 0;
             st \<leftarrow> put_line line (\<lambda>l. l\<lparr>tl_data := d, tl_len := 0, tl_attr := tl_attr l AND NOT M_MARK\<rparr>) st;
             Some (st\<lparr>mark_begin := None, mark_end := None, currpnt := 0\<rparr>)
           } else do {
             st \<leftarrow> unlink line l (leave_line line l st);
             Some (st\<lparr>ed_lines := (ed_lines st)(a := None)\<rparr>)
           })
        })"

section \<open>Splitting a line\<close>

definition high :: "byte \<Rightarrow> bool" where
  "high c \<longleftrightarrow> c AND 0x80 \<noteq> 0"

text \<open>The number of bytes of double-byte characters right before a position.\<close>

fun high_run :: "buf \<Rightarrow> nat \<Rightarrow> nat option" where
  "high_run d 0 = Some 0"
| "high_run d (Suc i) = do { c \<leftarrow> rd d i; (if high c then map_option Suc (high_run d i) else Some 0) }"

text \<open>\<open>strchr\<close> finds the terminator of the list as well.\<close>

definition ansi_param :: "byte \<Rightarrow> bool" where
  "ansi_param c \<longleftrightarrow> c = 0 \<or> c \<in> set (lit ''[0123456789;'')"

fun ansi_back :: "buf \<Rightarrow> nat \<Rightarrow> nat option" where
  "ansi_back d 0 = Some 0"
| "ansi_back d (Suc i) = do {
     c \<leftarrow> rd d (Suc i);
     (if c = 27 \<or> \<not> ansi_param c then Some (Suc i) else ansi_back d i)
   }"

definition split_pos :: "textline \<Rightarrow> int \<Rightarrow> int option" where
  "split_pos l pt = do {
     c \<leftarrow> data_at l (pt - 1);
     pt \<leftarrow> (if high c then do { n \<leftarrow> high_run (tl_data l) (nat pt); Some (if odd n then pt - 1 else pt) } else Some pt);
     (if pt = 0 then Some pt
      else do {
        c \<leftarrow> data_at l (pt - 1);
        (if c = 27 \<or> ansi_param c then do {
           i \<leftarrow> ansi_back (tl_data l) (nat (pt - 1));
           e \<leftarrow> rd (tl_data l) i;
           Some (if e = 27 then if pt - int i < 20 then int i else pt - 1 else pt)
         } else Some pt)
      })
   }"

text \<open>The end of the block and the cursor move to the new line.\<close>

definition after_split :: "lptr \<Rightarrow> nat \<Rightarrow> int \<Rightarrow> editor \<Rightarrow> editor" where
  "after_split line p pt st =
     (let st = (if (mark_end st = None \<and> line = mark_begin st) \<or> line = mark_end st then st\<lparr>mark_end := Some p\<rparr> else st);
          st = (if line = currline st \<and> pt \<le> currpnt st then
            st\<lparr>currline := Some p, currpnt := currpnt st - pt, curr_window_line := curr_window_line st + 1, currln := currln st + 1\<rparr>
          else st) in
      st\<lparr>redraw_everything := True\<rparr>)"

definition split_at :: "heap \<Rightarrow> lptr \<Rightarrow> int \<Rightarrow> editor \<Rightarrow> editor option" where
  "split_at h line pt st = do {
     l \<leftarrow> line_at st line;
     (if pt > tl_len l then Some st
      else do {
        pt \<leftarrow> split_pos l pt;
        (p, st) \<leftarrow> alloc_line h st;
        n \<leftarrow> strlen (drop (nat pt) (tl_data l));
        st \<leftarrow> put_line line (\<lambda>l. l\<lparr>tl_len := pt\<rparr>) st;
        q \<leftarrow> line_at st (Some p);
        d \<leftarrow> mem_write (tl_data q) 0 (take (Suc n) (drop (nat pt) (tl_data l)));
        st \<leftarrow> put_line (Some p) (\<lambda>q. q\<lparr>tl_len := tl_len l - pt, tl_data := d, tl_attr := tl_attr l\<rparr>) st;
        d \<leftarrow> wri (tl_data l) pt 0;
        st \<leftarrow> put_line line (\<lambda>l. l\<lparr>tl_data := d\<rparr>) st;
        st \<leftarrow> append_line (Some p) line st;
        Some (after_split line p pt st)
      })
   }"

section \<open>Joining lines\<close>

text \<open>Stops after \<open>num\<close> characters; a negative number never reaches 0.\<close>

fun seek_str_loop :: "buf \<Rightarrow> int \<Rightarrow> nat \<Rightarrow> nat" where
  "seek_str_loop [] num i = i"
| "seek_str_loop (c # s) num i = (if num = 0 then i else seek_str_loop s (num - 1) (Suc i))"

definition seekthestr :: "buf \<Rightarrow> int \<Rightarrow> nat option" where
  "seekthestr str num = do { n \<leftarrow> strlen str; Some (seek_str_loop (take n str) num 0) }"

text \<open>Going back while a condition holds, down to the first character.\<close>

fun back_while :: "(byte \<Rightarrow> bool) \<Rightarrow> buf \<Rightarrow> nat \<Rightarrow> nat option" where
  "back_while P d 0 = Some 0"
| "back_while P d (Suc i) = do { c \<leftarrow> rd d (Suc i); (if P c then back_while P d i else Some (Suc i)) }"

definition strcat :: "buf \<Rightarrow> buf \<Rightarrow> buf option" where
  "strcat d s = do { n \<leftarrow> strlen d; m \<leftarrow> strlen s; mem_write d n (take (Suc m) s) }"

text \<open>The characters of a line that are shown.\<close>

definition shown_len :: "textline \<Rightarrow> int option" where
  "shown_len l = do { n \<leftarrow> num_ans_chr (tl_data l); Some (tl_len l - int n) }"

definition join_short :: "lptr \<Rightarrow> textline \<Rightarrow> textline \<Rightarrow> editor \<Rightarrow> editor option" where
  "join_short line l n st = do {
     d \<leftarrow> strcat (tl_data l) (tl_data n);
     st \<leftarrow> put_line line (\<lambda>l. l\<lparr>tl_data := d, tl_len := tl_len l + tl_len n,
         tl_attr := (if tl_attr n AND M_MARK \<noteq> 0 then tl_attr n else tl_attr l)\<rparr>) st;
     let st = (if mark_begin st = tl_next l then st\<lparr>mark_begin := line\<rparr> else st);
     let st = (if mark_end st = tl_next l then st\<lparr>mark_end := line\<rparr> else st);
     delete_line (tl_next l) st
   }"

text \<open>The test for a signature assigns to the second character of the next line.\<close>

definition touch_dash :: "lptr \<Rightarrow> editor \<Rightarrow> (bool \<times> editor) option" where
  "touch_dash p st = do {
     n \<leftarrow> line_at st p;
     c \<leftarrow> rd (tl_data n) 0;
     (if c = 45 then do {
        d \<leftarrow> wr (tl_data n) 1 45;
        st \<leftarrow> put_line p (\<lambda>n. n\<lparr>tl_data := d\<rparr>) st;
        Some (tl_len n = 2, st)
      } else Some (False, st))
   }"

partial_function (option) join :: "heap \<Rightarrow> lptr \<Rightarrow> editor \<Rightarrow> (bool \<times> editor) option" where
  "join h line st = do {
     p \<leftarrow> next_of st line;
     (if p = None \<or> p = can_edit_end st then Some (True, st)
      else do {
        (signature, st) \<leftarrow> touch_dash p st;
        (if signature then Some (True, st)
         else do {
           l \<leftarrow> line_at st line;
           n \<leftarrow> line_at st p;
           a \<leftarrow> shown_len l;
           b \<leftarrow> shown_len n;
           let ovfl = a + b - linelen st;
           (if ovfl < 0 then do { st \<leftarrow> join_short line l n st; Some (True, st) }
            else do {
              s \<leftarrow> seekthestr (tl_data n) (tl_len n - ovfl - 1);
              s \<leftarrow> back_while (\<lambda>c. c = 32) (tl_data n) s;
              s \<leftarrow> back_while (\<lambda>c. c \<noteq> 32) (tl_data n) s;
              (if s = 0 \<or> linelen st - int s > 8 then Some (True, st)
               else do {
                 st \<leftarrow> split_at h p (int s + 1) st;
                 l \<leftarrow> line_at st line;
                 n \<leftarrow> line_at st p;
                 a \<leftarrow> shown_len l;
                 b \<leftarrow> shown_len n;
                 (if a + b \<ge> linelen st then Some (True, indigestion 0 st)
                  else do {
                    (_, st) \<leftarrow> join h line st;
                    p \<leftarrow> next_of st line;
                    n \<leftarrow> line_at st p;
                    b \<leftarrow> shown_len n;
                    st \<leftarrow> (if tl_len n \<ge> 1 \<and> b + 1 < linelen st then do {
                        c \<leftarrow> data_at n (tl_len n - 1);
                        (if c \<noteq> 32 then do {
                           d \<leftarrow> strcat (tl_data n) [32, 0];
                           put_line p (\<lambda>n. n\<lparr>tl_data := d, tl_len := tl_len n + 1\<rparr>) st
                         } else Some st)
                      } else Some st);
                    Some (False, st)
                  })
               })
            })
         })
      })
   }"

text \<open>Joining on until nothing wrapped; \<open>lost\<close> is what happens when the lines end first.\<close>

partial_function (option) join_loop :: "heap \<Rightarrow> (editor \<Rightarrow> editor option) \<Rightarrow> lptr \<Rightarrow> editor \<Rightarrow> editor option" where
  "join_loop h lost p st = do {
     (ok, st) \<leftarrow> join h p st;
     (if ok then Some st
      else do {
        p \<leftarrow> next_of st p;
        (if p = None then lost (indigestion 2 st) else join_loop h lost p st)
      })
   }"

section \<open>Typing\<close>

partial_function (option) wrap_long :: "heap \<Rightarrow> lptr \<Rightarrow> editor \<Rightarrow> editor option" where
  "wrap_long h p st = do {
     l \<leftarrow> line_at st p;
     n \<leftarrow> shown_len l;
     (if n > linelen st then do {
        k \<leftarrow> seekthestr (tl_data l) (linelen st);
        st \<leftarrow> split_at h p (int k) st;
        p \<leftarrow> next_of st p;
        wrap_long h p st
      } else Some st)
   }"

text \<open>Making room for a character: the bytes from the cursor up to the terminator move up, the last one first.\<close>

definition shift_up :: "buf \<Rightarrow> int \<Rightarrow> int \<Rightarrow> buf option" where
  "shift_up d len k =
     (if len < k then Some d
      else if k < 0 then None
      else mem_move d (Suc (nat k)) (nat k) (Suc (nat (len - k))))"

definition type_char :: "byte \<Rightarrow> lptr \<Rightarrow> editor \<Rightarrow> editor option" where
  "type_char ch p st = do {
     l \<leftarrow> line_at st p;
     (if currpnt st < tl_len l \<and> \<not> insert_character st then do {
        d \<leftarrow> wri (tl_data l) (currpnt st) ch;
        st \<leftarrow> put_line p (\<lambda>l. l\<lparr>tl_data := d\<rparr>) st;
        Some (st\<lparr>currpnt := currpnt st + 1\<rparr>)
      } else if tl_len l < WRAPMARGIN then do {
        d \<leftarrow> shift_up (tl_data l) (tl_len l) (currpnt st);
        d \<leftarrow> wri d (currpnt st) ch;
        st \<leftarrow> put_line p (\<lambda>l. l\<lparr>tl_data := d, tl_len := tl_len l + 1\<rparr>) st;
        Some (st\<lparr>currpnt := currpnt st + 1\<rparr>)
      } else Some st)
   }"

text \<open>Where an overlong line is broken, and whether that is between words.\<close>

definition wrap_point :: "textline \<Rightarrow> (nat \<times> bool) option" where
  "wrap_point l = do {
     s \<leftarrow> seekthestr (tl_data l) (tl_len l - 1);
     s \<leftarrow> back_while (\<lambda>c. c = 32) (tl_data l) s;
     c \<leftarrow> rd (tl_data l) s;
     (s, wordwrap) \<leftarrow> (if \<not> high c then do {
         s \<leftarrow> back_while (\<lambda>c. c \<noteq> 32 \<and> \<not> high c) (tl_data l) s;
         c \<leftarrow> rd (tl_data l) s;
         Some (s, c = 32)
       } else Some (s, False));
     (if wordwrap then Some (s, True) else do { s \<leftarrow> seekthestr (tl_data l) (tl_len l - 2); Some (s, False) })
   }"

definition insert_char :: "heap \<Rightarrow> int \<Rightarrow> editor \<Rightarrow> editor option" where
  "insert_char h ch st = do {
     let p = currline st;
     l \<leftarrow> line_at st p;
     (if currpnt st > tl_len l then Some (indigestion 1 st)
      else do {
        let i = currln st;
        st \<leftarrow> wrap_long h p st;
        st \<leftarrow> type_char (word_of_int ch) p (st\<lparr>currln := i\<rparr>);
        l \<leftarrow> line_at st p;
        n \<leftarrow> shown_len l;
        (if n < linelen st - 1 \<and> tl_len l < WRAPMARGIN then Some st
         else do {
           (s, wordwrap) \<leftarrow> wrap_point l;
           st \<leftarrow> split_at h p (int s + 1) st;
           p \<leftarrow> next_of st p;
           l \<leftarrow> line_at st p;
           st \<leftarrow> (if wordwrap \<and> tl_len l \<ge> 1 then do {
               c \<leftarrow> data_at l (tl_len l - 1);
               (if c \<noteq> 32 then do {
                  d \<leftarrow> wri (tl_data l) (tl_len l) 32;
                  d \<leftarrow> wri d (tl_len l + 1) 0;
                  put_line p (\<lambda>l. l\<lparr>tl_data := d, tl_len := tl_len l + 1\<rparr>) st
                } else Some st)
             } else Some st);
           join_loop h Some p st
         })
      })
   }"

fun ve_insert_str :: "heap \<Rightarrow> buf \<Rightarrow> editor \<Rightarrow> editor option" where
  "ve_insert_str h [] st = None"
| "ve_insert_str h (c # s) st = (if c = 0 then Some st else do { st \<leftarrow> insert_char h (sint c) st; ve_insert_str h s st })"

text \<open>The same for a string that is itself the text of a line.\<close>

partial_function (option) ve_insert_line :: "heap \<Rightarrow> lptr \<Rightarrow> nat \<Rightarrow> editor \<Rightarrow> editor option" where
  "ve_insert_line h p i st = do {
     l \<leftarrow> line_at st p;
     c \<leftarrow> rd (tl_data l) i;
     (if c = 0 then Some st else do { st \<leftarrow> insert_char h (sint c) st; ve_insert_line h p (Suc i) st })
   }"

text \<open>How many extra bytes are deleted with the one under the cursor, and whether the cursor is on a second byte.\<close>

definition delete_span :: "editor \<Rightarrow> textline \<Rightarrow> (nat \<times> bool) option" where
  "delete_span st l = do {
     c \<leftarrow> rdi (tl_data l) (currpnt st);
     (if enabledbchar st \<and> high c then do {
        n \<leftarrow> high_run (tl_data l) (nat (currpnt st));
        pair \<leftarrow> (if even n \<and> currpnt st < tl_len l - 1 then do { c \<leftarrow> rdi (tl_data l) (currpnt st + 1); Some (high c) } else Some False);
        Some (if pair then (1, False) else if odd n then (1, True) else (0, False))
      } else Some (0, False))
   }"

definition delete_char :: "editor \<Rightarrow> editor option" where
  "delete_char st = do {
     l \<leftarrow> line_at st (currline st);
     (if tl_len l = 0 then Some st
      else if currpnt st \<ge> tl_len l then Some (indigestion 1 st)
      else do {
        (patch, currDEC) \<leftarrow> delete_span st l;
        let k = (if currDEC then currpnt st - 1 else currpnt st);
        d \<leftarrow> (if k < 0 then None else mem_move (tl_data l) (nat k) (nat k + 1 + patch) (nat (tl_len l - k)));
        st \<leftarrow> put_line (currline st) (\<lambda>l. l\<lparr>tl_data := d, tl_len := tl_len l - 1 - int patch\<rparr>) st;
        Some (st\<lparr>currpnt := k\<rparr>)
      })
   }"

end
