(* ===== verification/FB_EditKeys.thy ===== *)
theory FB_EditKeys
  imports FB_Edit
begin

text \<open>
  The rest of \<open>src/edit.c\<close>: blocks of marked lines, keys, reading a file into the editor and writing it back.
\<close>

section \<open>Marked blocks\<close>

definition mark :: "bool \<Rightarrow> textline \<Rightarrow> textline" where
  "mark on l = l\<lparr>tl_attr := (if on then tl_attr l OR M_MARK else tl_attr l AND NOT M_MARK)\<rparr>"

definition marked :: "textline \<Rightarrow> bool" where
  "marked l \<longleftrightarrow> tl_attr l AND M_MARK \<noteq> 0"

partial_function (option) unmark_loop :: "lptr \<Rightarrow> editor \<Rightarrow> editor option" where
  "unmark_loop p st =
     (if p = None \<or> p = can_edit_end st then Some st
      else do { st \<leftarrow> put_line p (mark False) st; p \<leftarrow> next_of st p; unmark_loop p st })"

partial_function (option) mark_lines_loop :: "int \<Rightarrow> lptr \<Rightarrow> editor \<Rightarrow> editor option" where
  "mark_lines_loop pass_mark p st =
     (if p = can_edit_end st then Some st
      else if p = mark_begin st \<or> p = mark_end st then do {
        st \<leftarrow> put_line p (mark True) st;
        p \<leftarrow> next_of st p;
        mark_lines_loop (pass_mark + 1) p st
      } else do {
        st \<leftarrow> put_line p (mark (pass_mark = 1)) st;
        p \<leftarrow> next_of st p;
        mark_lines_loop pass_mark p st
      })"

definition mark_block :: "editor \<Rightarrow> (int \<times> editor) option" where
  "mark_block st = do {
     st \<leftarrow> unmark_loop (can_edit_begin st) st;
     (if mark_begin st = None \<and> mark_end st = None then Some (0, st)
      else if mark_begin st = mark_end st then do { st \<leftarrow> put_line (mark_begin st) (mark True) st; Some (2, st) }
      else if mark_begin st = None then do { st \<leftarrow> put_line (mark_end st) (mark True) st; Some (1, st) }
      else if mark_end st = None then do { st \<leftarrow> put_line (mark_begin st) (mark True) st; Some (1, st) }
      else do { st \<leftarrow> mark_lines_loop 0 (can_edit_begin st) st; Some (2, st) })
   }"

definition set_mark_on :: "editor \<Rightarrow> editor option" where
  "set_mark_on st = do { (n, st) \<leftarrow> mark_block st; Some (st\<lparr>mark_on := n\<rparr>) }"

definition CLEAR_MARK :: "editor \<Rightarrow> editor" where
  "CLEAR_MARK st = st\<lparr>mark_on := 0, mark_begin := None, mark_end := None\<rparr>"

partial_function (option) copy_loop :: "heap \<Rightarrow> lptr \<Rightarrow> editor \<Rightarrow> editor option" where
  "copy_loop h p st =
     (if p = can_edit_end st then Some st
      else do {
        l \<leftarrow> line_at st p;
        (if marked l then do {
           st \<leftarrow> ve_insert_line h p 0 st;
           st \<leftarrow> split_at h (currline st) (currpnt st) st;
           p \<leftarrow> next_of st p;
           copy_loop h p st
         } else Some st)
      })"

partial_function (option) delete_loop :: "lptr \<Rightarrow> editor \<Rightarrow> editor option" where
  "delete_loop p st =
     (if p = can_edit_end st then Some st
      else do {
        l \<leftarrow> line_at st p;
        (if marked l then do { st \<leftarrow> delete_line p st; delete_loop (can_edit_begin st) st }
         else delete_loop (tl_next l) st)
      })"

text \<open>The action for a key from \<open>0\<close> to \<open>3\<close>; the result says whether there is a message for the user.\<close>

definition process_MARK_action :: "heap \<Rightarrow> int \<Rightarrow> editor \<Rightarrow> (bool \<times> editor) option" where
  "process_MARK_action h arg st =
     (if arg = 48 then do { st \<leftarrow> unmark_loop (can_edit_begin st) st; Some (False, CLEAR_MARK st) }
      else if arg = 49 then do {
        let st = (if mark_begin st \<noteq> None then st\<lparr>mark_end := currline st\<rparr> else st\<lparr>mark_begin := currline st\<rparr>);
        st \<leftarrow> set_mark_on st;
        Some (False, st)
      } else if arg = 50 then do {
        st \<leftarrow> set_mark_on st;
        inside \<leftarrow> (if mark_on st \<noteq> 0 then map_option marked (line_at st (currline st)) else Some True);
        (if mark_on st \<noteq> 0 \<and> \<not> inside then do { st \<leftarrow> copy_loop h (mark_begin st) st; Some (False, st) }
         else Some (True, st))
      } else if arg = 51 then do {
        st \<leftarrow> set_mark_on st;
        (if mark_on st = 0 then Some (False, st)
         else do { st \<leftarrow> delete_loop (can_edit_begin st) st; st \<leftarrow> goline 1 (CLEAR_MARK st); Some (False, st) })
      } else Some (True, st))"

text \<open>The two calls with action \<open>M\<close> that the keys make.\<close>

definition mark_action :: "heap \<Rightarrow> int \<Rightarrow> editor \<Rightarrow> editor option" where
  "mark_action h arg st = do { (_, st) \<leftarrow> process_MARK_action h arg st; Some (st\<lparr>redraw_everything := True\<rparr>) }"

section \<open>Files\<close>

definition no_text :: editor where
  "no_text = \<lparr>ed_lines = (\<lambda>_. None), ed_fresh = 0, firstline = None, can_edit_begin = None, can_edit_end = None,
     top_of_win = None, currline = None, mark_begin = None, mark_end = None, currpnt = 0, moveln = 0, curr_window_line = 0,
     currln = 0, redraw_everything = False, insert_character = True, linelen = WRAPMARGIN, mark_on = 0, editansi = False,
     enabledbchar = True, lastindent = -1, reports = []\<rparr>"

definition vedit_init :: "heap \<Rightarrow> editor \<Rightarrow> editor option" where
  "vedit_init h st = do {
     (p, st) \<leftarrow> alloc_line h st;
     let st = st\<lparr>firstline := Some p, can_edit_begin := Some p, currline := Some p, currpnt := 0\<rparr>;
     st \<leftarrow> mark_action h 48 st;
     let st = st\<lparr>top_of_win := Some p\<rparr>;
     (q, st) \<leftarrow> alloc_line h st;
     st \<leftarrow> put_line (can_edit_begin st) (\<lambda>l. l\<lparr>tl_next := Some q\<rparr>) st;
     st \<leftarrow> put_line (Some q) (\<lambda>l. l\<lparr>tl_prev := can_edit_begin st\<rparr>) st;
     Some (CLEAR_MARK (st\<lparr>can_edit_end := Some q, curr_window_line := 0, currln := 0, redraw_everything := False\<rparr>))
   }"

text \<open>A tabulator becomes blanks up to the next multiple of four.\<close>

partial_function (option) tab_loop :: "heap \<Rightarrow> editor \<Rightarrow> editor option" where
  "tab_loop h st = do {
     st \<leftarrow> insert_char h 32 st;
     (if currpnt st mod 4 \<noteq> 0 then tab_loop h st else Some st)
   }"

definition insertch_from_fp :: "heap \<Rightarrow> int \<Rightarrow> editor \<Rightarrow> editor option" where
  "insertch_from_fp h ch st = do {
     let backup = linelen st;
     let st = st\<lparr>linelen := WRAPMARGIN\<rparr>;
     st \<leftarrow> (if isprint2 (word_of_int ch) \<or> ch = 27 then
         if currpnt st < 254 then insert_char h ch st
         else if currpnt st < 255 then insert_char h 46 st
         else Some st
       else if ch = 9 then tab_loop h st
       else if ch = 10 then split_at h (currline st) (currpnt st) st
       else Some st);
     Some (st\<lparr>linelen := backup\<rparr>)
   }"

fun insert_from_fp :: "heap \<Rightarrow> buf \<Rightarrow> editor \<Rightarrow> editor option" where
  "insert_from_fp h [] st = Some st"
| "insert_from_fp h (c # cs) st = do { st \<leftarrow> insertch_from_fp h (sint c) st; insert_from_fp h cs st }"

definition ANSI_RESET :: buf where "ANSI_RESET = [27, 91, 48, 109]"

partial_function (option) to_fp_loop :: "editor \<Rightarrow> bool \<Rightarrow> buf \<Rightarrow> lptr \<Rightarrow> (bool \<times> buf) option" where
  "to_fp_loop st ansi out p =
     (if p = can_edit_end st then Some (ansi, out)
      else do {
        l \<leftarrow> line_at st p;
        c \<leftarrow> rd (tl_data l) 0;
        (if c \<noteq> 0 then do {
           n \<leftarrow> strlen (tl_data l);
           to_fp_loop st (ansi \<or> 27 \<in> set (take n (tl_data l))) (out @ take n (tl_data l) @ [10]) (tl_next l)
         } else to_fp_loop st ansi out (tl_next l))
      })"

definition insert_to_fp :: "editor \<Rightarrow> buf option" where
  "insert_to_fp st = do {
     (ansi, out) \<leftarrow> to_fp_loop st False [] (can_edit_begin st);
     Some (if ansi then out @ ANSI_RESET @ [10] else out)
   }"

text \<open>The origin line of a post ends the part that can be edited; \<open>tmp\<close> is what marks it.\<close>

partial_function (option) origin_loop :: "editor \<Rightarrow> buf \<Rightarrow> lptr \<Rightarrow> (lptr \<times> editor) option" where
  "origin_loop st tmp p =
     (if p = can_edit_begin st then Some (p, st)
      else do {
        l \<leftarrow> line_at st p;
        n \<leftarrow> strlen (tl_data l);
        c \<leftarrow> rd (tl_data l) 0;
        (if strstr (take n (tl_data l)) tmp \<noteq> None \<and> c \<noteq> 58 then Some (p, st\<lparr>can_edit_end := p\<rparr>)
         else origin_loop st tmp (tl_prev l))
      })"

definition read_file :: "heap \<Rightarrow> buf \<Rightarrow> buf option \<Rightarrow> editor \<Rightarrow> (int \<times> editor) option" where
  "read_file h tmp content st = do {
     st \<leftarrow> (if currline st = None then vedit_init h st else Some st);
     (case content of
        None \<Rightarrow> Some (0, st)
      | Some bs \<Rightarrow> do {
          st \<leftarrow> insert_from_fp h bs st;
          (p, st) \<leftarrow> origin_loop st tmp (can_edit_end st);
          Some (if p \<noteq> can_edit_end st then 1 else 0, st)
        })
   }"

partial_function (option) last_line :: "editor \<Rightarrow> lptr \<Rightarrow> lptr option" where
  "last_line st p = do { n \<leftarrow> next_of st p; (if n \<noteq> None then last_line st n else Some p) }"

partial_function (option) trim_loop :: "lptr \<Rightarrow> editor \<Rightarrow> editor option" where
  "trim_loop p st = do {
     l \<leftarrow> line_at st p;
     n \<leftarrow> strlen (tl_data l);
     (if p \<noteq> can_edit_begin st \<and> (n = 0 \<or> take n (tl_data l) = [10]) then do {
        let st = st\<lparr>ed_lines := (ed_lines st)(the p := None)\<rparr>;
        st \<leftarrow> put_line (tl_prev l) (\<lambda>v. v\<lparr>tl_next := None\<rparr>) st;
        trim_loop (tl_prev l) st
      } else Some (st\<lparr>can_edit_end := p\<rparr>))
   }"

text \<open>The mark that an earlier edit left; such lines are not written again.\<close>

definition EDIT_MARK :: buf where
  "EDIT_MARK = [27, 91, 109, 27, 91, 49, 59, 51, 54, 109, 0xa1, 0xf9, 32, 0xd0, 0xde, 0xb8, 0xc4]"

partial_function (option) write_loop :: "bool \<Rightarrow> buf \<Rightarrow> lptr \<Rightarrow> editor \<Rightarrow> (buf \<times> editor) option" where
  "write_loop aborted out p st =
     (if p = None then Some (out, st)
      else do {
        l \<leftarrow> line_at st p;
        n \<leftarrow> (if aborted then Some 0 else strlen (tl_data l));
        let out = (if \<not> aborted \<and> take 17 (take n (tl_data l)) \<noteq> EDIT_MARK then out @ take n (tl_data l) @ [10] else out);
        write_loop aborted out (tl_next l) (st\<lparr>ed_lines := (ed_lines st)(the p := None)\<rparr>)
      })"

text \<open>\<open>write_file\<close> after the user was asked: the lines are trimmed, written and released.\<close>

definition write_lines :: "bool \<Rightarrow> editor \<Rightarrow> (buf \<times> editor) option" where
  "write_lines aborted st = do {
     p \<leftarrow> (if can_edit_end st = None then Some None else last_line st (can_edit_end st));
     st \<leftarrow> trim_loop p st;
     (out, st) \<leftarrow> write_loop aborted [] (firstline st) st;
     Some (out, st\<lparr>currline := None, can_edit_end := None, firstline := None, can_edit_begin := None\<rparr>)
   }"

partial_function (option) keep_loop :: "buf \<Rightarrow> lptr \<Rightarrow> editor \<Rightarrow> (buf \<times> editor) option" where
  "keep_loop out p st =
     (if p = None then Some (out, st)
      else do {
        l \<leftarrow> line_at st p;
        n \<leftarrow> strlen (tl_data l);
        let out = (if tl_next l \<noteq> None \<or> n \<noteq> 0 then out @ take n (tl_data l) @ [10] else out);
        keep_loop out (tl_next l) (st\<lparr>ed_lines := (ed_lines st)(the p := None)\<rparr>)
      })"

definition keep_fail_post :: "editor \<Rightarrow> (buf \<times> editor) option" where
  "keep_fail_post st = keep_loop [] (firstline st) st"

section \<open>Keys\<close>

text \<open>Lines with escape sequences are not changed in the mode that shows colours.\<close>

definition no_touch :: "editor \<Rightarrow> bool option" where
  "no_touch st =
     (if editansi st then do { l \<leftarrow> line_at st (currline st); n \<leftarrow> strlen (tl_data l); Some (27 \<in> set (take n (tl_data l))) }
      else Some False)"

text \<open>Scrolling so that the current line stays in the window of \<open>rows\<close> lines.\<close>

fun scroll_window :: "nat \<Rightarrow> editor \<Rightarrow> editor option" where
  "scroll_window 0 st = Some st"
| "scroll_window (Suc k) st = do {
     n \<leftarrow> next_of st (top_of_win st);
     scroll_window k (if n \<noteq> can_edit_end st
       then st\<lparr>curr_window_line := curr_window_line st - 1, top_of_win := n, redraw_everything := True\<rparr>
       else st\<lparr>curr_window_line := curr_window_line st - 1\<rparr>)
   }"

definition keep_in_window :: "int \<Rightarrow> editor \<Rightarrow> editor option" where
  "keep_in_window rows st = do {
     st \<leftarrow> (if curr_window_line st < 0 then
         if top_of_win st \<noteq> can_edit_begin st then do {
           p \<leftarrow> prev_of st (top_of_win st);
           Some (st\<lparr>curr_window_line := 0, top_of_win := p, redraw_everything := True\<rparr>)
         } else Some (st\<lparr>curr_window_line := 0\<rparr>)
       else Some st);
     st \<leftarrow> (if curr_window_line st \<ge> rows - 1 then scroll_window (nat (curr_window_line st - rows + 2)) st else Some st);
     Some (if editansi st then st\<lparr>redraw_everything := True\<rparr> else st)
   }"

definition key_kill :: "heap \<Rightarrow> editor \<Rightarrow> editor option" where
  "key_kill h st = do {
     l \<leftarrow> line_at st (currline st);
     (if tl_next l = can_edit_end st then do {
        let (len, k) = (if tl_len l > currpnt st then (currpnt st, currpnt st) else if currpnt st \<noteq> 0 then (0, 0) else (tl_len l, currpnt st));
        d \<leftarrow> wri (tl_data l) k 0;
        st \<leftarrow> put_line (currline st) (\<lambda>l. l\<lparr>tl_len := len, tl_data := d\<rparr>) st;
        Some (st\<lparr>currpnt := k\<rparr>)
      } else if tl_len l = 0 then do {
        let st = (if currline st = top_of_win st then st\<lparr>top_of_win := tl_next l\<rparr> else st);
        st \<leftarrow> delete_line (currline st) st;
        Some (st\<lparr>currline := tl_next l, redraw_everything := True\<rparr>)
      } else if tl_len l = currpnt st then do {
        st \<leftarrow> join_loop h (\<lambda>_. None) (currline st) st;
        Some (st\<lparr>redraw_everything := True\<rparr>)
      } else do {
        n \<leftarrow> high_run (tl_data l) (nat (currpnt st));
        let k = (if odd n then currpnt st - 1 else currpnt st);
        d \<leftarrow> wri (tl_data l) k 0;
        st \<leftarrow> put_line (currline st) (\<lambda>l. l\<lparr>tl_len := k, tl_data := d\<rparr>) st;
        Some (st\<lparr>currpnt := k\<rparr>)
      })
   }"

text \<open>\<open>vedit_key (Ctrl ('K'))\<close>, which other keys call.\<close>

definition vedit_kill :: "heap \<Rightarrow> int \<Rightarrow> editor \<Rightarrow> editor option" where
  "vedit_kill h rows st = do {
     nt \<leftarrow> no_touch st;
     st \<leftarrow> (if nt then Some (st\<lparr>lastindent := -1\<rparr>) else key_kill h (st\<lparr>lastindent := -1\<rparr>));
     keep_in_window rows st
   }"

definition key_backspace :: "heap \<Rightarrow> editor \<Rightarrow> editor option" where
  "key_backspace h st =
     (if currpnt st = 0 then
        if currline st = can_edit_begin st then Some st
        else do {
          p \<leftarrow> prev_of st (currline st);
          v \<leftarrow> line_at st p;
          let st = st\<lparr>currln := currln st - 1, currline := p, currpnt := tl_len v, curr_window_line := curr_window_line st - 1\<rparr>;
          st \<leftarrow> (if curr_window_line st < 0 then do { t \<leftarrow> next_of st (top_of_win st); Some (st\<lparr>top_of_win := t\<rparr>) } else Some st);
          n \<leftarrow> line_at st (tl_next v);
          s \<leftarrow> killsp (tl_data n);
          st \<leftarrow> (if hd s = 0 then delete_line (tl_next v) st else join_loop h (\<lambda>_. None) p st);
          Some (st\<lparr>redraw_everything := True\<rparr>)
        }
      else delete_char (st\<lparr>currpnt := currpnt st - 1\<rparr>))"

fun tab_key :: "heap \<Rightarrow> nat \<Rightarrow> editor \<Rightarrow> editor option" where
  "tab_key h 0 st = Some st"
| "tab_key h (Suc k) st = do {
     st \<leftarrow> insert_char h 32 st;
     (if currpnt st mod 4 = 0 then Some st else tab_key h k st)
   }"

definition clip_column :: "editor \<Rightarrow> editor option" where
  "clip_column st = do { l \<leftarrow> line_at st (currline st); Some (if currpnt st > tl_len l then st\<lparr>currpnt := tl_len l\<rparr> else st) }"

definition key_updown :: "int \<Rightarrow> lptr \<Rightarrow> editor \<Rightarrow> editor option" where
  "key_updown d p st = do {
     l \<leftarrow> line_at st p;
     Some (st\<lparr>currln := currln st + d, curr_window_line := curr_window_line st + d, currline := p,
       currpnt := (if tl_len l > lastindent st then lastindent st else tl_len l)\<rparr>)
   }"

text \<open>The keys that move the cursor.\<close>

definition key_cursor :: "int \<Rightarrow> int \<Rightarrow> editor \<Rightarrow> editor option" where
  "key_cursor rows ch st = do {
     l \<leftarrow> line_at st (currline st);
     (if ch = KEY_LEFT then
        if currpnt st > 0 then Some (st\<lparr>currpnt := currpnt st - 1\<rparr>)
        else if currline st \<noteq> can_edit_begin st \<and> tl_prev l \<noteq> None then do {
          v \<leftarrow> line_at st (tl_prev l);
          Some (st\<lparr>curr_window_line := curr_window_line st - 1, currln := currln st - 1, currline := tl_prev l, currpnt := tl_len v\<rparr>)
        } else Some st
      else if ch = 22 \<or> ch = KEY_RIGHT then
        if tl_len l \<noteq> currpnt st then Some (st\<lparr>currpnt := currpnt st + 1\<rparr>)
        else if tl_next l \<noteq> None \<and> tl_next l \<noteq> can_edit_end st then
          Some (st\<lparr>currpnt := 0, curr_window_line := curr_window_line st + 1, currln := currln st + 1, currline := tl_next l\<rparr>)
        else Some st
      else if ch = 16 \<or> ch = KEY_UP then
        if currline st \<noteq> can_edit_begin st then key_updown (-1) (tl_prev l) st else Some st
      else if ch = 14 \<or> ch = KEY_DOWN then
        if tl_next l \<noteq> can_edit_end st then key_updown 1 (tl_next l) st else Some st
      else if ch = 2 \<or> ch = KEY_PGUP then do {
        (t, st) \<leftarrow> back_line (top_of_win st) (rows - 2) st;
        (p, st) \<leftarrow> back_line (currline st) (rows - 2) (st\<lparr>top_of_win := t\<rparr>);
        let st = st\<lparr>currline := p, currln := currln st - moveln st\<rparr>;
        n \<leftarrow> getlineno st;
        clip_column (st\<lparr>curr_window_line := n, redraw_everything := True\<rparr>)
      } else if ch = 6 \<or> ch = KEY_PGDN then do {
        (t, st) \<leftarrow> forward_line (top_of_win st) 22 st;
        (p, st) \<leftarrow> forward_line (currline st) 22 (st\<lparr>top_of_win := t\<rparr>);
        let st = st\<lparr>currline := p, currln := currln st + moveln st\<rparr>;
        n \<leftarrow> getlineno st;
        clip_column (st\<lparr>curr_window_line := n, redraw_everything := True\<rparr>)
      } else if ch = 1 \<or> ch = KEY_HOME then Some (st\<lparr>currpnt := 0\<rparr>)
      else if ch = 5 \<or> ch = KEY_END then Some (st\<lparr>currpnt := tl_len l\<rparr>)
      else if ch = 19 then
        Some (st\<lparr>top_of_win := can_edit_begin st, currline := can_edit_begin st, currpnt := 0, curr_window_line := 0, currln := 0,
          redraw_everything := True\<rparr>)
      else if ch = 20 then do {
        e \<leftarrow> prev_of st (can_edit_end st);
        (t, st) \<leftarrow> back_line e 22 st;
        st \<leftarrow> countline (st\<lparr>top_of_win := t\<rparr>);
        let st = st\<lparr>currln := moveln st, currline := e\<rparr>;
        n \<leftarrow> getlineno st;
        Some (st\<lparr>curr_window_line := n, currpnt := 0, redraw_everything := True\<rparr>)
      } else Some st)
   }"

text \<open>The keys that change the text or the mode.\<close>

definition key_edit :: "heap \<Rightarrow> int \<Rightarrow> int \<Rightarrow> bool \<Rightarrow> editor \<Rightarrow> editor option" where
  "key_edit h rows ch nt st =
     (if ch = 9 then if nt then Some st else tab_key h 4 st
      else if ch = 13 \<or> ch = 10 then if nt then Some st else split_at h (currline st) (currpnt st) st
      else if ch = 18 then Some (st\<lparr>enabledbchar := \<not> enabledbchar st\<rparr>)
      else if ch = 7 \<or> ch = 17 then Some (st\<lparr>redraw_everything := True\<rparr>)
      else if ch = 3 then mark_action h 50 st
      else if ch = 21 then mark_action h 49 st
      else if ch = 15 \<or> ch = KEY_INS then Some (st\<lparr>insert_character := \<not> insert_character st\<rparr>)
      else if ch = 8 \<or> ch = KEY_BACKSPACE then if nt then Some st else key_backspace h st
      else if ch = 4 \<or> ch = KEY_DEL then
        if nt then Some st
        else do { l \<leftarrow> line_at st (currline st); (if tl_len l = currpnt st then vedit_kill h rows st else delete_char st) }
      else if ch = 25 then do {
        st \<leftarrow> put_line (currline st) (\<lambda>l. l\<lparr>tl_len := 0\<rparr>) st;
        vedit_kill h rows (st\<lparr>currpnt := 0\<rparr>)
      } else if ch = 11 then if nt then Some st else key_kill h st
      else key_cursor rows ch st)"

definition vedit_key :: "heap \<Rightarrow> int \<Rightarrow> int \<Rightarrow> editor \<Rightarrow> editor option" where
  "vedit_key h rows ch st = do {
     let st = (if ch = 16 \<or> ch = KEY_UP \<or> ch = 14 \<or> ch = KEY_DOWN
       then if lastindent st = -1 then st\<lparr>lastindent := currpnt st\<rparr> else st
       else st\<lparr>lastindent := -1\<rparr>);
     nt \<leftarrow> no_touch st;
     st \<leftarrow> (if ch < 256 \<and> isprint2 (word_of_int ch) then if nt then Some st else insert_char h ch st
       else key_edit h rows ch nt st);
     keep_in_window rows st
   }"

section \<open>Sessions\<close>

text \<open>The marked lines, up to the first one that is not marked, as they are written to the clipboard.\<close>

partial_function (option) export_loop :: "editor \<Rightarrow> buf \<Rightarrow> lptr \<Rightarrow> buf option" where
  "export_loop st out p =
     (if p = can_edit_end st then Some out
      else do {
        l \<leftarrow> line_at st p;
        (if marked l then do { n \<leftarrow> strlen (tl_data l); export_loop st (out @ take n (tl_data l) @ [10]) (tl_next l) } else Some out)
      })"

definition export_clip :: "editor \<Rightarrow> buf option" where
  "export_clip st = (if mark_on st \<noteq> 0 then export_loop st [] (mark_begin st) else insert_to_fp st)"

text \<open>Colours are typed as escape sequences: \<open>F\<close> for the text, \<open>B\<close> for the background, \<open>R\<close> for none.\<close>

definition insert_color :: "heap \<Rightarrow> int \<Rightarrow> int \<Rightarrow> editor \<Rightarrow> editor option" where
  "insert_color h action arg st = do {
     st \<leftarrow> (if action = 70 then ve_insert_str h [27, 91, 51, word_of_int arg, 109, 0] st
       else if action = 66 then ve_insert_str h [27, 91, 52, word_of_int arg, 109, 0] st
       else ve_insert_str h (ANSI_RESET @ [0]) st);
     Some (st\<lparr>redraw_everything := True\<rparr>)
   }"

text \<open>Without the right to change the header, editing starts behind the first blank line.\<close>

partial_function (option) skip_header :: "editor \<Rightarrow> lptr \<Rightarrow> lptr option" where
  "skip_header st p = do {
     l \<leftarrow> line_at st p;
     (if tl_next l = can_edit_end st then Some p else if tl_len l > 0 then skip_header st (tl_next l) else Some (tl_next l))
   }"

definition start_edit :: "bool \<Rightarrow> editor \<Rightarrow> editor option" where
  "start_edit modifyheader st = do {
     st \<leftarrow> (if modifyheader then Some st
       else do { p \<leftarrow> skip_header st (firstline st); Some (st\<lparr>top_of_win := p, can_edit_begin := p\<rparr>) });
     Some (st\<lparr>currline := top_of_win st, curr_window_line := 0, currln := 0, currpnt := 0\<rparr>)
   }"

end
