(* ===== verification/FB_EditText.thy ===== *)
theory FB_EditText
  imports FB_EditKeys FB_Utf8
begin

text \<open>
  The editor as a list of texts.  The linked lines form a chain; splitting, joining, typing and deleting are compared
  with the same operations on lists of strings.
\<close>

section \<open>Chains of lines\<close>

definition first_or :: "nat list \<Rightarrow> lptr \<Rightarrow> lptr" where
  "first_or ps q = (case ps of [] \<Rightarrow> q | p # _ \<Rightarrow> Some p)"

definition last_or :: "lptr \<Rightarrow> nat list \<Rightarrow> lptr" where
  "last_or q ps = (if ps = [] then q else Some (List.last ps))"

fun chain :: "(nat \<Rightarrow> textline option) \<Rightarrow> lptr \<Rightarrow> nat list \<Rightarrow> lptr \<Rightarrow> bool" where
  "chain m pv [] nx \<longleftrightarrow> True"
| "chain m pv (a # as) nx \<longleftrightarrow>
     (\<exists>l. m a = Some l \<and> tl_prev l = pv \<and> tl_next l = first_or as nx) \<and> chain m (Some a) as nx"

lemma first_or_simps [simp]: "first_or [] q = q" "first_or (p # ps) q = Some p"
  by (simp_all add: first_or_def)

lemma last_or_simps [simp]: "last_or q [] = q" "last_or q (p # ps) = last_or (Some p) ps" "last_or q (ps @ [p]) = Some p"
  by (simp_all add: last_or_def)

lemma first_or_append [simp]: "first_or (xs @ ys) q = first_or xs (first_or ys q)"
  by (cases xs) simp_all

lemma chain_append: "chain m pv (xs @ ys) nx \<longleftrightarrow> chain m pv xs (first_or ys nx) \<and> chain m (last_or pv xs) ys nx"
  by (induction xs arbitrary: pv) simp_all

lemma chain_frame: "a \<notin> set ps \<Longrightarrow> chain (m(a := x)) pv ps nx = chain m pv ps nx"
  by (induction ps arbitrary: pv) auto

lemma chain_links:
  "chain m pv ps nx \<Longrightarrow> m a = Some l \<Longrightarrow> tl_prev l' = tl_prev l \<Longrightarrow> tl_next l' = tl_next l \<Longrightarrow>
   chain (m(a \<mapsto> l')) pv ps nx"
  by (induction ps arbitrary: pv) auto

lemma chain_prev:
  assumes "chain m pv ps nx" and "ps \<noteq> []" and "m (hd ps) = Some l" and "distinct ps"
  shows "chain (m(hd ps \<mapsto> l\<lparr>tl_prev := q\<rparr>)) q ps nx"
  using assms by (cases ps) (simp_all add: chain_frame)

lemma chain_next:
  assumes "chain m pv (ps @ [a]) nx" and "m a = Some l" and "distinct (ps @ [a])"
  shows "chain (m(a \<mapsto> l\<lparr>tl_next := q\<rparr>)) pv (ps @ [a]) q"
  using assms by (simp add: chain_append chain_frame)

section \<open>Well-formed lines\<close>

definition line_fine :: "textline \<Rightarrow> bool" where
  "line_fine l \<longleftrightarrow> length (tl_data l) = 256 \<and> terminated (tl_data l) \<and> tl_len l = int (length (cstr (tl_data l)))"

definition text_of :: "editor \<Rightarrow> nat \<Rightarrow> buf" where
  "text_of st a = (case ed_lines st a of None \<Rightarrow> [] | Some l \<Rightarrow> cstr (tl_data l))"

definition edit_ok :: "editor \<Rightarrow> nat list \<Rightarrow> bool" where
  "edit_ok st ps \<longleftrightarrow> chain (ed_lines st) None ps None \<and> distinct ps \<and> ps \<noteq> [] \<and> firstline st = Some (hd ps) \<and>
     (\<forall>a\<in>set ps. a < ed_fresh st \<and> (\<exists>l. ed_lines st a = Some l \<and> line_fine l))"

lemma edit_fields [simp]:
  "edit_ok (st\<lparr>can_edit_end := x\<rparr>) = edit_ok st" "edit_ok (st\<lparr>linelen := n\<rparr>) = edit_ok st" "edit_ok (st\<lparr>currpnt := n\<rparr>) = edit_ok st"
  "text_of (st\<lparr>can_edit_end := x\<rparr>) = text_of st" "text_of (st\<lparr>linelen := n\<rparr>) = text_of st" "text_of (st\<lparr>currpnt := n\<rparr>) = text_of st"
  "text_of (st\<lparr>ed_fresh := k\<rparr>) = text_of st"
  by (simp_all add: edit_ok_def text_of_def fun_eq_iff)

lemma line_fine_text: "line_fine l \<Longrightarrow> length (cstr (tl_data l)) < 256"
  using cstr_length_less [of "tl_data l"] by (simp add: line_fine_def)

lemma line_fine_split: "line_fine l \<Longrightarrow> tl_data l = cstr (tl_data l) @ 0 # drop (Suc (length (cstr (tl_data l)))) (tl_data l)"
  by (rule terminated_split) (simp add: line_fine_def)

lemma edit_okD:
  assumes "edit_ok st (xs @ a # ys)"
  obtains l where "ed_lines st a = Some l" "line_fine l" "tl_prev l = last_or None xs" "tl_next l = first_or ys None"
    "text_of st a = cstr (tl_data l)" "tl_len l = int (length (text_of st a))" "a < ed_fresh st" "a \<notin> set xs" "a \<notin> set ys"
  using assms by (auto simp: edit_ok_def chain_append text_of_def line_fine_def)

text \<open>Writing a string into a line.\<close>

lemma cstr_write:
  assumes "length d = 256" and "length t < 256" and "0 \<notin> set t" and "take (Suc (length t)) d = t @ [0]"
  shows "cstr d = t" "terminated d"
proof -
  have d: "d = t @ 0 # drop (Suc (length t)) d"
    using append_take_drop_id [of "Suc (length t)" d] assms(4) by simp
  show "cstr d = t" by (subst d) (simp add: assms(3))
  show "terminated d" by (subst d) simp
qed

lemma line_fineI:
  assumes "length (tl_data l) = 256" and "length t < 256" and "0 \<notin> set t" and "take (Suc (length t)) (tl_data l) = t @ [0]"
    and "tl_len l = int (length t)"
  shows "line_fine l \<and> cstr (tl_data l) = t"
  using cstr_write [OF assms(1-4)] assms by (simp add: line_fine_def)

lemma line_fine_prefix:
  assumes "line_fine l"
  shows "take (Suc (length (cstr (tl_data l)))) (tl_data l) = cstr (tl_data l) @ [0]"
proof -
  let ?t = "cstr (tl_data l)"
  have "take (Suc (length ?t)) (?t @ 0 # drop (Suc (length ?t)) (tl_data l)) = ?t @ [0]" by simp
  then show ?thesis using line_fine_split [OF assms] by metis
qed

section \<open>Linking and unlinking\<close>

text \<open>What a line holds, without its links.\<close>

definition payload :: "textline \<Rightarrow> int \<times> byte \<times> buf" where
  "payload l = (tl_len l, tl_attr l, tl_data l)"

definition same_payload :: "(nat \<Rightarrow> textline option) \<Rightarrow> (nat \<Rightarrow> textline option) \<Rightarrow> nat set \<Rightarrow> bool" where
  "same_payload m m' S \<longleftrightarrow> (\<forall>a\<in>S. map_option payload (m' a) = map_option payload (m a))"

lemma put_line_Some: "ed_lines st a = Some l \<Longrightarrow> put_line (Some a) f st = Some (st\<lparr>ed_lines := (ed_lines st)(a \<mapsto> f l)\<rparr>)"
  by (simp add: put_line_def)

lemma line_at_Some [simp]: "line_at st (Some a) = ed_lines st a" "line_at st None = None"
  by (simp_all add: line_at_def)

lemma same_payload_line:
  assumes "same_payload m m' S" and "a \<in> S" and "m a = Some l"
  obtains l' where "m' a = Some l'" "payload l' = payload l"
proof -
  have "map_option payload (m' a) = Some (payload l)" using assms by (simp add: same_payload_def)
  then show thesis using that by (cases "m' a") auto
qed

lemma payload_fine: "payload l' = payload l \<Longrightarrow> line_fine l' = line_fine l"
  by (simp add: payload_def line_fine_def)

lemma append_line_spec:
  assumes "chain (ed_lines st) None (xs @ a # ys) None" and "distinct (xs @ a # ys)" and "p \<notin> set (xs @ a # ys)" and "ed_lines st p = Some q"
  shows "\<exists>m. append_line (Some p) (Some a) st =
      Some (st\<lparr>ed_lines := m, can_edit_end := (if can_edit_end st = Some a then Some p else can_edit_end st)\<rparr>) \<and>
    chain m None (xs @ a # p # ys) None \<and> same_payload (ed_lines st) m UNIV"
proof -
  let ?m = "ed_lines st" and ?e = "if can_edit_end st = Some a then Some p else can_edit_end st"
  obtain l where l: "?m a = Some l" "tl_prev l = last_or None xs" "tl_next l = first_or ys None"
    and xs: "chain ?m None xs (Some a)" and ys: "chain ?m (Some a) ys None"
    using assms(1) by (auto simp: chain_append)
  have ne: "p \<noteq> a" "a \<notin> set xs" "a \<notin> set ys" "p \<notin> set xs" "p \<notin> set ys" "set xs \<inter> set ys = {}" using assms(2,3) by auto
  define new where "new m = m(a \<mapsto> l\<lparr>tl_next := Some p\<rparr>, p \<mapsto> q\<lparr>tl_next := first_or ys None, tl_prev := Some a\<rparr>)" for m
  have old: "chain (new m) None xs (Some a)" if "chain m None xs (Some a)" for m
    using that ne by (simp add: new_def chain_frame)
  show ?thesis
  proof (cases ys)
    case Nil
    then have "append_line (Some p) (Some a) st = Some (st\<lparr>ed_lines := new ?m, can_edit_end := ?e\<rparr>)"
      using l assms(4) ne by (auto simp: append_line_def next_of_def put_line_def new_def fun_upd_twist)
    moreover have "chain (new ?m) None (xs @ a # p # ys) None"
      using old [OF xs] l(2) ne Nil by (simp add: chain_append new_def)
    moreover have "same_payload ?m (new ?m) UNIV" using l assms(4) ne by (simp add: same_payload_def new_def payload_def)
    ultimately show ?thesis by blast
  next
    case (Cons b zs)
    obtain lb where lb: "?m b = Some lb" and zs: "chain ?m (Some b) zs None" "tl_next lb = first_or zs None"
      using ys Cons by auto
    let ?m1 = "?m(b \<mapsto> lb\<lparr>tl_prev := Some p\<rparr>)"
    have nb: "b \<noteq> a" "b \<noteq> p" "b \<notin> set xs" "b \<notin> set zs" using ne assms(2) Cons by auto
    have "append_line (Some p) (Some a) st = Some (st\<lparr>ed_lines := new ?m1, can_edit_end := ?e\<rparr>)"
      using l assms(4) ne lb nb Cons by (auto simp: append_line_def next_of_def put_line_def new_def fun_upd_twist)
    moreover have "chain (new ?m1) None (xs @ a # p # ys) None"
      using old [of ?m1] xs l(2) ne nb zs Cons by (simp add: chain_append new_def chain_frame)
    moreover have "same_payload ?m (new ?m1) UNIV" using l assms(4) ne lb nb by (simp add: same_payload_def new_def payload_def)
    ultimately show ?thesis by blast
  qed
qed

text \<open>Taking a line out of the chain, when it is not the only one of the text.\<close>

lemma delete_line_spec:
  assumes "chain (ed_lines st) None (xs @ a # ys) None" and "distinct (xs @ a # ys)" and "firstline st = Some (hd (xs @ a # ys))"
    and "ys \<noteq> []" and "can_edit_begin st \<noteq> Some a \<or> can_edit_end st \<noteq> first_or ys None"
  shows "\<exists>m mb me. delete_line (Some a) st =
      Some (st\<lparr>ed_lines := m, mark_begin := mb, mark_end := me, firstline := Some (hd (xs @ ys)),
        can_edit_begin := (if can_edit_begin st = Some a then first_or ys None else can_edit_begin st)\<rparr>) \<and>
    chain m None (xs @ ys) None \<and> same_payload (ed_lines st) m (- {a}) \<and>
    (mark_begin st \<noteq> Some a \<longrightarrow> mb = mark_begin st) \<and> (mark_end st \<noteq> Some a \<longrightarrow> me = mark_end st)"
proof -
  let ?m = "ed_lines st"
  obtain b zs where ys: "ys = b # zs" using assms(4) by (cases ys) auto
  obtain l lb where l: "?m a = Some l" "tl_prev l = last_or None xs" "tl_next l = Some b"
    and lb: "?m b = Some lb" "tl_next lb = first_or zs None"
    and xs: "chain ?m None xs (Some a)" and zs: "chain ?m (Some b) zs None"
    using assms(1) by (auto simp: chain_append ys)
  have ne: "a \<noteq> b" "a \<notin> set xs" "a \<notin> set zs" "b \<notin> set xs" "b \<notin> set zs" using assms(2) ys by auto
  define mb where "mb = mark_begin (leave_line (Some a) l st)"
  define me where "me = mark_end (leave_line (Some a) l st)"
  let ?cb = "if can_edit_begin st = Some a then first_or ys None else can_edit_begin st"
  have leave: "leave_line (Some a) l st = st\<lparr>mark_begin := mb, mark_end := me, can_edit_begin := ?cb\<rparr>"
    "mark_begin st \<noteq> Some a \<longrightarrow> mb = mark_begin st" "mark_end st \<noteq> Some a \<longrightarrow> me = mark_end st"
    using l(3) ys by (simp_all add: leave_line_def mb_def me_def)
  have several: "(Some a = can_edit_begin st \<and> tl_next l = can_edit_end st) = False"
    using assms(5) ys l(3) by auto
  have del: "delete_line (Some a) st = do {
      st \<leftarrow> unlink (Some a) l (st\<lparr>mark_begin := mb, mark_end := me, can_edit_begin := ?cb\<rparr>);
      Some (st\<lparr>ed_lines := (ed_lines st)(a := None)\<rparr>)
    }" unfolding delete_line_def option.case line_at_Some l(1) bind.bind_lunit several leave(1) if_False by (rule refl)
  show ?thesis
  proof (cases xs rule: rev_cases)
    case Nil
    let ?m' = "?m(b \<mapsto> lb\<lparr>tl_prev := None\<rparr>, a := None)"
    have hd: "hd (xs @ ys) = b" using Nil ys by simp
    have "delete_line (Some a) st =
        Some (st\<lparr>ed_lines := ?m', mark_begin := mb, mark_end := me, firstline := Some (hd (xs @ ys)), can_edit_begin := ?cb\<rparr>)"
      unfolding del hd using l(3) lb assms(3) Nil by (simp add: unlink_def put_line_def)
    moreover have "chain ?m' None (xs @ ys) None" using zs lb ne ys Nil by (simp add: chain_frame)
    moreover have "same_payload ?m ?m' (- {a})" using lb by (simp add: same_payload_def payload_def)
    ultimately show ?thesis using leave(2,3) by blast
  next
    case (snoc ws c)
    obtain lc where lc: "?m c = Some lc" "tl_prev lc = last_or None ws" and ws: "chain ?m None ws (Some c)"
      using xs snoc by (auto simp: chain_append)
    have nc: "c \<noteq> a" "c \<noteq> b" "c \<notin> set ws" "c \<notin> set zs" "b \<notin> set ws" "a \<notin> set ws" using ne assms(2) snoc ys by auto
    let ?m' = "?m(b \<mapsto> lb\<lparr>tl_prev := Some c\<rparr>, c \<mapsto> lc\<lparr>tl_next := Some b\<rparr>, a := None)"
    have first: "firstline st \<noteq> Some a" "hd (xs @ ys) = hd (xs @ a # ys)"
      using assms(2,3) snoc by (cases ws; auto)+
    have "st\<lparr>firstline := Some (hd (xs @ ys))\<rparr> = st" using first(2) assms(3) by simp
    then have "delete_line (Some a) st =
        Some (st\<lparr>ed_lines := ?m', mark_begin := mb, mark_end := me, firstline := Some (hd (xs @ ys)), can_edit_begin := ?cb\<rparr>)"
      unfolding del using l lb lc nc first snoc assms(3) by (simp add: unlink_def put_line_def)
    moreover have "chain ?m' None (xs @ ys) None" using ws zs lb lc ne nc ys snoc by (simp add: chain_append chain_frame)
    moreover have "same_payload ?m ?m' (- {a})" using lb lc by (simp add: same_payload_def payload_def)
    ultimately show ?thesis using leave(2,3) by blast
  qed
qed

section \<open>Splitting\<close>

lemma high_iff: "high c \<longleftrightarrow> 128 \<le> unat c"
proof -
  have "unat (c AND 0x80) = 2 ^ 7 * ((unat c div 2 ^ 7) mod 2 ^ 1)" by (rule byte_and_field) (simp add: push_bit_eq_mult mask_eq_exp_minus_1)
  also have "\<dots> = 128 * (unat c div 128)" using unat_byte [of c] by (simp add: less_mult_imp_div_less)
  finally show ?thesis by (simp add: high_def word_unat_eq_iff div_eq_0_iff not_less)
qed

lemma high_run_spec: "k \<le> length d \<Longrightarrow> high_run d k = Some (length (takeWhile high (rev (take k d))))"
  by (induction k) (simp_all add: mem_simps take_Suc_conv_app_nth)

lemma ansi_back_total: "i < length d \<Longrightarrow> \<exists>j\<le>i. ansi_back d i = Some j"
  by (induction i) (auto simp: mem_simps le_Suc_eq)

lemma takeWhile_rev_le: "length (takeWhile P (rev (take k d))) \<le> k"
  using length_takeWhile_le [of P "rev (take k d)"] by simp

lemma data_at_nat: "i < length (tl_data l) \<Longrightarrow> data_at l (int i) = Some (tl_data l ! i)"
  by (simp add: data_at_def mem_simps)

lemma data_at_pred: "0 < k \<Longrightarrow> k \<le> length (tl_data l) \<Longrightarrow> data_at l (int k - 1) = Some (tl_data l ! (k - 1))"
  using data_at_nat [of "k - 1" l] by (simp add: of_nat_diff)

lemma split_pos_range:
  assumes "length (tl_data l) = 256" and "k \<le> 256"
  shows "\<exists>j\<le>k. split_pos l (int k) = Some (int j)"
proof -
  obtain c where c: "data_at l (int k - 1) = Some c"
    using assms data_at_pred [of k l] by (cases "k = 0") (simp_all add: data_at_def)
  let ?n = "length (takeWhile high (rev (take k (tl_data l))))"
  define k1 where "k1 = (if high c \<and> odd ?n then k - 1 else k)"
  have odd: "0 < k" if "odd ?n" using that by (cases k) simp_all
  have k1: "k1 \<le> k" by (simp add: k1_def)
  have step: "(if high c then do { n \<leftarrow> high_run (tl_data l) (nat (int k)); Some (if odd n then int k - 1 else int k) } else Some (int k)) = Some (int k1)"
    using assms odd by (auto simp: high_run_spec k1_def of_nat_diff)
  show ?thesis
  proof (cases "k1 = 0")
    case True
    then show ?thesis using c step by (intro exI [of _ 0]) (simp add: split_pos_def)
  next
    case False
    have k1': "k1 \<le> 256" "0 < k1" using k1 assms(2) False by simp_all
    have below: "k1 - 1 < length (tl_data l)" using k1' assms(1) by simp
    obtain i where i: "i \<le> k1 - 1" "ansi_back (tl_data l) (k1 - 1) = Some i"
      using ansi_back_total [OF below] by blast
    have e: "rd (tl_data l) i = Some (tl_data l ! i)" using i(1) k1' assms(1) by (simp add: mem_simps)
    have n: "nat (int k1 - 1) = k1 - 1" by simp
    let ?d = "tl_data l ! (k1 - 1)"
    have d: "data_at l (int k1 - 1) = Some ?d" using data_at_pred k1' assms(1) by simp
    have "split_pos l (int k) = Some (int (if ?d = 27 \<or> ansi_param ?d then
        if tl_data l ! i = 27 then if int k1 - int i < 20 then i else k1 - 1 else k1 else k1))"
      using c step d i(2) e n k1'(2) by (simp add: split_pos_def of_nat_diff)
    then show ?thesis using k1 i(1) by (auto split: if_splits)
  qed
qed

text \<open>Without escape sequences, and between whole characters, a line is split where asked for.\<close>

definition whole_chars :: "buf \<Rightarrow> bool" where
  "whole_chars t \<longleftrightarrow> even (length (takeWhile high (rev t)))"

lemma ansi_back_plain:
  assumes "27 \<notin> set (take (Suc i) d)" and "i < length d"
  shows "\<exists>j\<le>i. ansi_back d i = Some j \<and> d ! j \<noteq> 27"
  using assms
proof (induction i)
  case 0
  then show ?case by (cases d) auto
next
  case (Suc i)
  have "d ! Suc i \<noteq> 27" using Suc.prems by (auto simp: take_Suc_conv_app_nth)
  moreover have "27 \<notin> set (take (Suc i) d)" using Suc.prems by (auto simp: take_Suc_conv_app_nth)
  ultimately show ?case using Suc by (auto simp: mem_simps le_Suc_eq)
qed

lemma split_pos_plain:
  assumes "length (tl_data l) = 256" and "k < 256" and "27 \<notin> set (take k (tl_data l))" and "whole_chars (take k (tl_data l))"
  shows "split_pos l (int k) = Some (int k)"
proof (cases "k = 0")
  case True
  then show ?thesis by (simp add: split_pos_def data_at_def)
next
  case False
  have d: "data_at l (int k - 1) = Some (tl_data l ! (k - 1))" using data_at_pred False assms by simp
  have "27 \<notin> set (take (Suc (k - 1)) (tl_data l))" using assms(3) False by simp
  moreover have "k - 1 < length (tl_data l)" using assms(1,2) by simp
  ultimately obtain j where "j \<le> k - 1" "ansi_back (tl_data l) (k - 1) = Some j" "tl_data l ! j \<noteq> 27"
    using ansi_back_plain by blast
  then show ?thesis
    using d False assms by (simp add: split_pos_def high_run_spec whole_chars_def nat_diff_distrib' mem_simps)
qed

abbreviation texts :: "editor \<Rightarrow> nat list \<Rightarrow> buf list" where
  "texts st ps \<equiv> map (text_of st) ps"

lemma after_split_keeps [simp]:
  "edit_ok (after_split line p k st) ps = edit_ok st ps" "text_of (after_split line p k st) = text_of st"
  by (auto simp: after_split_def Let_def edit_ok_def text_of_def fun_eq_iff)

lemma texts_same_payload:
  "same_payload (ed_lines st) (ed_lines st') (set ps) \<Longrightarrow> texts st' ps = texts st ps"
proof (rule map_cong [OF refl])
  fix a assume "same_payload (ed_lines st) (ed_lines st') (set ps)" and "a \<in> set ps"
  then have "map_option payload (ed_lines st' a) = map_option payload (ed_lines st a)" by (simp add: same_payload_def)
  then show "text_of st' a = text_of st a"
    by (cases "ed_lines st a"; cases "ed_lines st' a") (auto simp: text_of_def payload_def)
qed

lemma edit_okI:
  assumes "chain (ed_lines st') None ps' None" and "distinct ps'" and "ps' \<noteq> []" and "firstline st' = Some (hd ps')"
    and "\<And>a. a \<in> set ps' \<Longrightarrow> a < ed_fresh st'" and "\<And>a. a \<in> set ps' \<Longrightarrow> \<exists>l. ed_lines st' a = Some l \<and> line_fine l"
  shows "edit_ok st' ps'"
  using assms by (simp add: edit_ok_def)

lemma fine_same_payload:
  assumes "same_payload m m' S" and "a \<in> S" and "\<exists>l. m a = Some l \<and> line_fine l"
  shows "\<exists>l. m' a = Some l \<and> line_fine l"
  using assms same_payload_line payload_fine by metis

lemma split_left:
  assumes "line_fine l" and "k \<le> length (cstr (tl_data l))"
  shows "line_fine (l\<lparr>tl_len := int k, tl_data := (tl_data l)[k := 0], tl_next := x\<rparr>)" "cstr ((tl_data l)[k := 0]) = take k (cstr (tl_data l))"
proof -
  let ?t = "cstr (tl_data l)"
  have len: "length ?t < 256" "length (tl_data l) = 256" using line_fine_text [OF assms(1)] assms(1) by (auto simp: line_fine_def)
  have "take k (tl_data l) = take k ?t" using assms(2) by (metis take_all takeWhile_eq_take take_take min.absorb1)
  then have "take (Suc k) ((tl_data l)[k := 0]) = take k ?t @ [0]" using len assms(2) by (simp add: take_snoc_update)
  moreover have "0 \<notin> set (take k ?t)" using cstr_no_nul in_set_takeD by metis
  ultimately show "cstr ((tl_data l)[k := 0]) = take k ?t" "line_fine (l\<lparr>tl_len := int k, tl_data := (tl_data l)[k := 0], tl_next := x\<rparr>)"
    using line_fineI [of "l\<lparr>tl_len := int k, tl_data := (tl_data l)[k := 0], tl_next := x\<rparr>" "take k ?t"] len assms(2) by simp_all
qed

lemma split_right:
  assumes "line_fine l" and "k \<le> length (cstr (tl_data l))" and "length d = 256"
  shows "strlen (drop k (tl_data l)) = Some (length (cstr (tl_data l)) - k)"
    "\<exists>d'. mem_write d 0 (take (Suc (length (cstr (tl_data l)) - k)) (drop k (tl_data l))) = Some d' \<and> length d' = 256 \<and>
      take (Suc (length (cstr (tl_data l)) - k)) d' = drop k (cstr (tl_data l)) @ [0]"
proof -
  let ?t = "cstr (tl_data l)" and ?r = "drop (Suc (length (cstr (tl_data l)))) (tl_data l)"
  have len: "length ?t < 256" using line_fine_text [OF assms(1)] .
  have nul: "0 \<notin> set (drop k ?t)" using cstr_no_nul in_set_dropD by metis
  have dr: "drop k (tl_data l) = drop k ?t @ 0 # ?r"
    using assms(2) arg_cong [OF line_fine_split [OF assms(1)], of "drop k"] by simp
  have "cstr (drop k ?t @ 0 # ?r) = drop k ?t" using nul by simp
  then show "strlen (drop k (tl_data l)) = Some (length ?t - k)" unfolding dr by (simp add: strlen_terminated)
  show "\<exists>d'. mem_write d 0 (take (Suc (length ?t - k)) (drop k (tl_data l))) = Some d' \<and> length d' = 256 \<and>
      take (Suc (length ?t - k)) d' = drop k ?t @ [0]"
    unfolding dr using len assms(3) by (simp add: mem_write_def)
qed

text \<open>The lines and the end of the text after a split of line \<open>a\<close>, before the cursor moves.\<close>

lemma split_at_spec:
  assumes "alloc_ok h 280" and ok: "edit_ok st (xs @ a # ys)" and "ed_lines st a = Some l" and "split_pos l k = Some (int j)"
    and "k \<le> tl_len l" and "j \<le> length (text_of st a)"
  shows "\<exists>m. split_at h (Some a) k st = Some (after_split (Some a) (ed_fresh st) (int j) (st\<lparr>ed_lines := m, ed_fresh := Suc (ed_fresh st),
        can_edit_end := (if can_edit_end st = Some a then Some (ed_fresh st) else can_edit_end st)\<rparr>)) \<and>
    edit_ok (st\<lparr>ed_lines := m, ed_fresh := Suc (ed_fresh st)\<rparr>) (xs @ a # ed_fresh st # ys) \<and>
    text_of (st\<lparr>ed_lines := m\<rparr>) = (text_of st)(a := take j (text_of st a), ed_fresh st := drop j (text_of st a))"
proof -
  let ?p = "ed_fresh st" and ?t = "text_of st a" and ?m = "ed_lines st"
  obtain fine: "line_fine l" and t: "?t = cstr (tl_data l)" and fresh: "a < ?p" "a \<notin> set xs" "a \<notin> set ys"
    using edit_okD [OF ok] assms(3) by (metis option.inject)
  have pfresh: "?p \<notin> set (xs @ a # ys)" and dist: "distinct (xs @ a # ys)" and ch: "chain ?m None (xs @ a # ys) None"
    using ok by (auto simp: edit_ok_def)
  have j: "j \<le> length (cstr (tl_data l))" using assms(6) t by simp
  let ?junk = "0 # map (junk h) [1..<256]"
  note right = split_right [OF fine j, of ?junk]
  obtain d where d: "mem_write ?junk 0 (take (Suc (length ?t - j)) (drop j (tl_data l))) = Some d" "length d = 256"
      "take (Suc (length ?t - j)) d = drop j ?t @ [0]"
    using right(2) t by auto
  define la where "la = l\<lparr>tl_len := int j, tl_data := (tl_data l)[j := 0]\<rparr>"
  define lp where "lp = \<lparr>tl_prev = None, tl_next = None, tl_len = tl_len l - int j, tl_attr = tl_attr l, tl_data = d\<rparr>"
  define m1 where "m1 = ?m(?p \<mapsto> lp, a \<mapsto> la)"
  have jd: "j < length (tl_data l)" using j line_fine_text [OF fine] fine by (simp add: line_fine_def)
  have swap: "st\<lparr>ed_lines := m1, ed_fresh := Suc ?p\<rparr> = st\<lparr>ed_fresh := Suc ?p, ed_lines := m1\<rparr>" by simp
  have pre: "split_at h (Some a) k st = do {
      st \<leftarrow> append_line (Some ?p) (Some a) (st\<lparr>ed_lines := m1, ed_fresh := Suc ?p\<rparr>);
      Some (after_split (Some a) ?p (int j) st)
    }"
    unfolding swap using assms(1,3-5) right(1) d(1) jd fresh(1) t
    by (simp add: split_at_def alloc_line_def put_line_def m1_def la_def lp_def wri_of_nat wr_Some fun_upd_twist)
  have ch1: "chain m1 None (xs @ a # ys) None"
  proof -
    have "chain (?m(?p \<mapsto> lp)) None (xs @ a # ys) None" using ch pfresh chain_frame by blast
    then show ?thesis
      unfolding m1_def using assms(3) fresh(1) chain_links [of "?m(?p \<mapsto> lp)" None _ None a l la] by (simp add: la_def)
  qed
  obtain m where m: "append_line (Some ?p) (Some a) (st\<lparr>ed_lines := m1, ed_fresh := Suc ?p\<rparr>) = Some (st\<lparr>ed_lines := m, ed_fresh := Suc ?p,
        can_edit_end := (if can_edit_end st = Some a then Some ?p else can_edit_end st)\<rparr>)"
      "chain m None (xs @ a # ?p # ys) None" "same_payload m1 m UNIV"
  proof -
    let ?st = "st\<lparr>ed_lines := m1, ed_fresh := Suc ?p\<rparr>"
    have "m1 ?p = Some lp" using fresh(1) by (simp add: m1_def)
    then obtain m where m: "append_line (Some ?p) (Some a) ?st =
          Some (?st\<lparr>ed_lines := m, can_edit_end := (if can_edit_end ?st = Some a then Some ?p else can_edit_end ?st)\<rparr>)"
        "chain m None (xs @ a # ?p # ys) None" "same_payload m1 m UNIV"
      using append_line_spec [of ?st xs a ys ?p lp] ch1 dist pfresh by auto
    show thesis by (rule that [OF _ m(2,3)], subst m(1)) simp
  qed
  have nul: "0 \<notin> set (drop j ?t)" unfolding t using cstr_no_nul in_set_dropD by metis
  have lp: "line_fine lp \<and> cstr (tl_data lp) = drop j ?t"
  proof (rule line_fineI)
    show "length (drop j ?t) < 256" using line_fine_text [OF fine] t by simp
    show "tl_len lp = int (length (drop j ?t))" using fine j t by (simp add: lp_def line_fine_def)
  qed (use d nul in \<open>simp_all add: lp_def\<close>)
  have la: "line_fine la \<and> cstr (tl_data la) = take j ?t"
    using split_left(1) [OF fine j, of "tl_next l"] split_left(2) [OF fine j] t by (simp add: la_def)
  have old: "m1 b = ?m b" if "b \<noteq> a" "b \<noteq> ?p" for b using that by (simp add: m1_def)
  have fine1: "\<exists>l. m1 b = Some l \<and> line_fine l" if b: "b \<in> set (xs @ a # ?p # ys)" for b
  proof (cases "b = a \<or> b = ?p")
    case True
    then show ?thesis using la lp fresh(1) by (auto simp: m1_def)
  next
    case False
    then show ?thesis using b ok old [of b] by (auto simp: edit_ok_def)
  qed
  have "edit_ok (st\<lparr>ed_lines := m, ed_fresh := Suc ?p\<rparr>) (xs @ a # ?p # ys)"
  proof (rule edit_okI)
    show "\<exists>l. ed_lines (st\<lparr>ed_lines := m, ed_fresh := Suc ?p\<rparr>) b = Some l \<and> line_fine l" if "b \<in> set (xs @ a # ?p # ys)" for b
      using fine_same_payload [OF m(3) _ fine1 [OF that]] by simp
    show "b < ed_fresh (st\<lparr>ed_lines := m, ed_fresh := Suc ?p\<rparr>)" if "b \<in> set (xs @ a # ?p # ys)" for b
      using that ok by (auto simp: edit_ok_def intro: less_SucI)
    show "firstline (st\<lparr>ed_lines := m, ed_fresh := Suc ?p\<rparr>) = Some (hd (xs @ a # ?p # ys))"
      using ok by (cases xs) (simp_all add: edit_ok_def)
  qed (use m(2) dist pfresh in auto)
  moreover have "text_of (st\<lparr>ed_lines := m\<rparr>) = (text_of st)(a := take j ?t, ?p := drop j ?t)"
  proof
    fix b
    have "texts (st\<lparr>ed_lines := m\<rparr>) [b] = texts (st\<lparr>ed_lines := m1\<rparr>) [b]"
      using m(3) by (intro texts_same_payload) (simp add: same_payload_def)
    then show "text_of (st\<lparr>ed_lines := m\<rparr>) b = ((text_of st)(a := take j ?t, ?p := drop j ?t)) b"
      using la lp fresh(1) by (simp add: text_of_def m1_def)
  qed
  ultimately show ?thesis using pre m(1) by auto
qed

section \<open>Typing and erasing\<close>

text \<open>The line \<open>a\<close> gets a new text.\<close>

definition new_text :: "editor \<Rightarrow> nat \<Rightarrow> buf \<Rightarrow> editor \<Rightarrow> bool" where
  "new_text st a t st' \<longleftrightarrow> text_of st' = (text_of st)(a := t) \<and> (\<exists>m k. st' = st\<lparr>ed_lines := m, currpnt := k\<rparr>)"

lemma new_text_fields:
  assumes "new_text st a t st'"
  shows "text_of st' = (text_of st)(a := t)" "linelen st' = linelen st" "currline st' = currline st" "insert_character st' = insert_character st"
    "can_edit_begin st' = can_edit_begin st" "can_edit_end st' = can_edit_end st" "firstline st' = firstline st" "ed_fresh st' = ed_fresh st"
    "mark_begin st' = mark_begin st" "mark_end st' = mark_end st" "enabledbchar st' = enabledbchar st"
  using assms by (auto simp: new_text_def)

lemma edit_ok_put:
  assumes "edit_ok st (xs @ a # ys)" and "ed_lines st a = Some l" and "line_fine l'" and "tl_prev l' = tl_prev l" and "tl_next l' = tl_next l"
  shows "edit_ok (st\<lparr>ed_lines := (ed_lines st)(a \<mapsto> l'), currpnt := k\<rparr>) (xs @ a # ys)"
    "new_text st a (cstr (tl_data l')) (st\<lparr>ed_lines := (ed_lines st)(a \<mapsto> l'), currpnt := k\<rparr>)"
proof -
  have "chain ((ed_lines st)(a \<mapsto> l')) None (xs @ a # ys) None"
    using chain_links [of "ed_lines st" None "xs @ a # ys" None a l l'] assms by (simp add: edit_ok_def)
  then show "edit_ok (st\<lparr>ed_lines := (ed_lines st)(a \<mapsto> l'), currpnt := k\<rparr>) (xs @ a # ys)"
    using assms(1,3) by (auto simp: edit_ok_def)
  show "new_text st a (cstr (tl_data l')) (st\<lparr>ed_lines := (ed_lines st)(a \<mapsto> l'), currpnt := k\<rparr>)"
    by (auto simp: new_text_def text_of_def fun_eq_iff)
qed

lemma shown_len_le:
  assumes "line_fine l"
  shows "\<exists>n. shown_len l = Some n \<and> n \<le> tl_len l"
  using assms by (auto simp: shown_len_def num_ans_chr_def strlen_terminated line_fine_def)

lemma wrap_long_short:
  assumes "ed_lines st a = Some l" and "line_fine l" and "tl_len l \<le> linelen st"
  shows "wrap_long h (Some a) st = Some st"
  using shown_len_le [OF assms(2)] assms(1,3) by (subst wrap_long.simps) auto

lemma shift_up_text:
  assumes "line_fine l" and "k \<le> length (cstr (tl_data l))" and "length (cstr (tl_data l)) < 255"
  shows "\<exists>d. shift_up (tl_data l) (tl_len l) (int k) = Some d \<and> length d = 256 \<and>
    take k d = take k (cstr (tl_data l)) \<and> take (length (cstr (tl_data l)) - k + 1) (drop (Suc k) d) = drop k (cstr (tl_data l)) @ [0]"
proof -
  let ?t = "cstr (tl_data l)" and ?n = "length (cstr (tl_data l))" and ?d = "tl_data l"
  have len: "length ?d = 256" "tl_len l = int ?n" using assms(1) by (simp_all add: line_fine_def)
  have pre: "take (Suc ?n) ?d = ?t @ [0]" by (rule line_fine_prefix [OF assms(1)])
  have tk: "take k ?d = take k ?t" using assms(2) arg_cong [OF pre, of "take k"] by simp
  have mid: "take (Suc (?n - k)) (drop k ?d) = drop k ?t @ [0]"
    using assms(2) arg_cong [OF pre, of "drop k"] by (simp add: drop_take Suc_diff_le)
  have "nat (tl_len l - int k) = ?n - k" using len(2) by simp
  then have "shift_up ?d (tl_len l) (int k) = Some (take (Suc k) ?d @ take (Suc (?n - k)) (drop k ?d) @ drop (Suc k + Suc (?n - k)) ?d)"
    using len assms(2,3) by (simp add: shift_up_def mem_move_Some)
  then show ?thesis using len(1) assms(2,3) tk mid by (simp add: take_append)
qed

lemma type_char_insert:
  assumes "edit_ok st (xs @ a # ys)" and "k \<le> length (text_of st a)" and "currpnt st = int k" and "c \<noteq> 0"
    and "insert_character st \<or> k = length (text_of st a)" and "length (text_of st a) < 255"
  shows "\<exists>st'. type_char c (Some a) st = Some st' \<and> edit_ok st' (xs @ a # ys) \<and> currpnt st' = int k + 1 \<and>
    new_text st a (take k (text_of st a) @ c # drop k (text_of st a)) st'"
proof -
  let ?t = "text_of st a"
  obtain l where l: "ed_lines st a = Some l" "line_fine l" "?t = cstr (tl_data l)" "tl_len l = int (length ?t)"
    using edit_okD [OF assms(1)] by metis
  obtain d where d: "shift_up (tl_data l) (tl_len l) (int k) = Some d" "length d = 256" "take k d = take k ?t"
      "take (length ?t - k + 1) (drop (Suc k) d) = drop k ?t @ [0]"
    using shift_up_text [OF l(2), of k] assms(2,6) l(3) by auto
  let ?l = "l\<lparr>tl_data := d[k := c], tl_len := tl_len l + 1\<rparr>"
  let ?u = "take k ?t @ c # drop k ?t"
  have "line_fine ?l \<and> cstr (tl_data ?l) = ?u"
  proof (rule line_fineI)
    have no: "0 \<notin> set ?t" unfolding l(3) by simp
    then show "0 \<notin> set ?u" using assms(4) by (auto dest: in_set_takeD in_set_dropD)
    have n: "Suc (length ?u) = Suc k + (length ?t - k + 1)" using assms(2) by simp
    have "take (Suc (length ?u)) (d[k := c]) = take (Suc k) (d[k := c]) @ take (length ?t - k + 1) (drop (Suc k) (d[k := c]))"
      unfolding n by (rule take_add)
    also have "\<dots> = (take k ?t @ [c]) @ (drop k ?t @ [0])"
      using d(2-4) assms(2,6) by (simp add: take_snoc_update)
    finally show "take (Suc (length ?u)) (tl_data ?l) = ?u @ [0]" by simp
  qed (use d(2) assms(2,6) l(4) in simp_all)
  moreover have "type_char c (Some a) st = Some (st\<lparr>ed_lines := (ed_lines st)(a \<mapsto> ?l), currpnt := int k + 1\<rparr>)"
    using l(1,4) d(1,2) assms(2,3,5,6) by (auto simp: type_char_def put_line_def WRAPMARGIN_def wri_of_nat wr_Some)
  ultimately show ?thesis using edit_ok_put [OF assms(1) l(1), of ?l "int k + 1"] by auto
qed

lemma type_char_overwrite:
  assumes "edit_ok st (xs @ a # ys)" and "k < length (text_of st a)" and "currpnt st = int k" and "c \<noteq> 0" and "\<not> insert_character st"
  shows "\<exists>st'. type_char c (Some a) st = Some st' \<and> edit_ok st' (xs @ a # ys) \<and> currpnt st' = int k + 1 \<and>
    new_text st a ((text_of st a)[k := c]) st'"
proof -
  let ?t = "text_of st a"
  obtain l where l: "ed_lines st a = Some l" "line_fine l" "?t = cstr (tl_data l)" "tl_len l = int (length ?t)"
    using edit_okD [OF assms(1)] by metis
  let ?l = "l\<lparr>tl_data := (tl_data l)[k := c]\<rparr>"
  have len: "length (tl_data l) = 256" "length ?t < 256" using l(2,3) line_fine_text [OF l(2)] by (auto simp: line_fine_def)
  have "line_fine ?l \<and> cstr (tl_data ?l) = ?t[k := c]"
  proof (rule line_fineI)
    have "0 \<notin> set ?t" unfolding l(3) by simp
    then show "0 \<notin> set (?t[k := c])" using assms(4) set_update_subset_insert [of ?t k c] by auto
    show "take (Suc (length (?t[k := c]))) (tl_data ?l) = ?t[k := c] @ [0]"
      using line_fine_prefix [OF l(2)] assms(2) l(3) by (simp add: take_update_swap list_update_append)
  qed (use len l(4) in simp_all)
  moreover have "type_char c (Some a) st = Some (st\<lparr>ed_lines := (ed_lines st)(a \<mapsto> ?l), currpnt := int k + 1\<rparr>)"
    using l(1,4) len assms(2,3,5) by (simp add: type_char_def put_line_def wri_of_nat wr_Some)
  ultimately show ?thesis using edit_ok_put [OF assms(1) l(1), of ?l "int k + 1"] by auto
qed

text \<open>What typing a character makes of a line.\<close>

definition typed :: "bool \<Rightarrow> buf \<Rightarrow> nat \<Rightarrow> byte \<Rightarrow> buf" where
  "typed ins t k c = (if ins \<or> k = length t then take k t @ c # drop k t else t[k := c])"

lemma insert_char_short:
  assumes "edit_ok st (xs @ a # ys)" and "currline st = Some a" and "currpnt st = int k" and "k \<le> length (text_of st a)"
    and "word_of_int ch \<noteq> (0 :: byte)" and "int (length (text_of st a)) + 2 < linelen st" and "length (text_of st a) < 254"
  shows "\<exists>st'. insert_char h ch st = Some st' \<and> edit_ok st' (xs @ a # ys) \<and> currpnt st' = int k + 1 \<and>
    new_text st a (typed (insert_character st) (text_of st a) k (word_of_int ch)) st'"
proof -
  let ?t = "text_of st a" and ?c = "word_of_int ch :: byte"
  obtain l where l: "ed_lines st a = Some l" "line_fine l" "?t = cstr (tl_data l)" "tl_len l = int (length ?t)"
    using edit_okD [OF assms(1)] by metis
  have wrap: "wrap_long h (Some a) st = Some st" using wrap_long_short [OF l(1,2)] assms(6) l(4) by simp
  obtain st' where st': "type_char ?c (Some a) st = Some st'" "edit_ok st' (xs @ a # ys)" "currpnt st' = int k + 1"
      "new_text st a (typed (insert_character st) ?t k ?c) st'"
  proof (cases "insert_character st \<or> k = length ?t")
    case True
    then show thesis using type_char_insert [OF assms(1,4,3,5)] assms(7) that by (auto simp: typed_def)
  next
    case False
    then show thesis using type_char_overwrite [OF assms(1) _ assms(3,5)] assms(4) that by (auto simp: typed_def)
  qed
  obtain l' where l': "ed_lines st' a = Some l'" "line_fine l'" "tl_len l' = int (length (text_of st' a))"
    using edit_okD [OF st'(2)] by metis
  obtain n where n: "shown_len l' = Some n" "n \<le> tl_len l'" using shown_len_le [OF l'(2)] by blast
  have "length (text_of st' a) \<le> length ?t + 1" using st'(4) assms(4) by (simp add: new_text_fields typed_def)
  then have short: "n < linelen st' - 1" "tl_len l' < 255"
    using n(2) l'(3) assms(6,7) new_text_fields(2) [OF st'(4)] by auto
  have "insert_char h ch st = Some st'"
    using l(1,4) assms(2-4) wrap st'(1) l'(1) n(1) short by (simp add: insert_char_def WRAPMARGIN_def)
  then show ?thesis using st' by blast
qed

text \<open>The bytes deleted with the one at position \<open>k\<close>: where the deletion starts and how many bytes go.\<close>

definition erase_span :: "bool \<Rightarrow> buf \<Rightarrow> nat \<Rightarrow> nat \<times> nat" where
  "erase_span dbc t k =
     (if dbc \<and> high (t ! k) then
        if whole_chars (take k t) then if Suc k < length t \<and> high (t ! Suc k) then (k, 2) else (k, 1)
        else (k - 1, 2)
      else (k, 1))"

definition erased :: "bool \<Rightarrow> buf \<Rightarrow> nat \<Rightarrow> buf" where
  "erased dbc t k = (let (i, n) = erase_span dbc t k in take i t @ drop (i + n) t)"

lemma erase_span_range:
  assumes "k < length t" and "erase_span dbc t k = (i, n)"
  shows "i \<le> k" "i + n \<le> length t" "1 \<le> n" "n \<le> 2"
proof -
  have "0 < k" if "\<not> whole_chars (take k t)" using that by (cases k) (simp_all add: whole_chars_def)
  then show "i \<le> k" "i + n \<le> length t" "1 \<le> n" "n \<le> 2" using assms by (auto simp: erase_span_def split: if_splits)
qed

lemma delete_span_spec:
  assumes "line_fine l" and "k < length (cstr (tl_data l))" and "currpnt st = int k" and "erase_span (enabledbchar st) (cstr (tl_data l)) k = (i, n)"
  shows "delete_span st l = Some (n - 1, i < k)"
proof -
  let ?t = "cstr (tl_data l)" and ?d = "tl_data l"
  have len: "length ?d = 256" "length ?t < 256" "tl_len l = int (length ?t)" using assms(1) line_fine_text [OF assms(1)] by (auto simp: line_fine_def)
  have nth: "?d ! j = ?t ! j" if "j < length ?t" for j using that nth_cstr by blast
  have tk: "take k ?d = take k ?t"
    using assms(2) arg_cong [OF line_fine_prefix [OF assms(1)], of "take k"] by simp
  have rd: "rdi ?d (int k) = Some (?t ! k)" "high_run ?d k = Some (length (takeWhile high (rev (take k ?t))))"
    using assms(2) len nth by (simp_all add: mem_simps high_run_spec tk)
  have rd1: "rdi ?d (int k + 1) = Some (?t ! Suc k)" if "Suc k < length ?t"
    using that len nth rdi_of_nat [of ?d "Suc k"] by (simp add: mem_simps add.commute)
  have "0 < k" if "\<not> whole_chars (take k ?t)" using that by (cases k) (simp_all add: whole_chars_def)
  then show ?thesis
    using assms(3,4) rd rd1 len(3) unfolding delete_span_def erase_span_def
    by (auto simp: whole_chars_def split: if_splits)
qed

lemma delete_char_spec:
  assumes "edit_ok st (xs @ a # ys)" and "currline st = Some a" and "currpnt st = int k" and "k < length (text_of st a)"
    and "erase_span (enabledbchar st) (text_of st a) k = (i, n)" and "length (text_of st a) + n \<le> 256"
  shows "\<exists>st'. delete_char st = Some st' \<and> edit_ok st' (xs @ a # ys) \<and> currpnt st' = int i \<and>
    new_text st a (erased (enabledbchar st) (text_of st a) k) st'"
proof -
  let ?t = "text_of st a"
  obtain l where l: "ed_lines st a = Some l" "line_fine l" "?t = cstr (tl_data l)" "tl_len l = int (length ?t)"
    using edit_okD [OF assms(1)] by metis
  have r: "i \<le> k" "i + n \<le> length ?t" "1 \<le> n" "n \<le> 2" using erase_span_range [OF assms(4,5)] by simp_all
  have sp: "delete_span st l = Some (n - 1, i < k)" using delete_span_spec [OF l(2)] assms(3-5) l(3) by simp
  have dec: "(if i < k then int k - 1 else int k) = int i"
    using assms(5) r(1) by (auto simp: erase_span_def of_nat_diff split: if_splits)
  let ?d = "take i (tl_data l) @ take (length ?t - i) (drop (i + n) (tl_data l)) @ drop (length ?t) (tl_data l)"
  have len: "length (tl_data l) = 256" using l(2) by (simp add: line_fine_def)
  have mv: "mem_move (tl_data l) i (i + 1 + (n - 1)) (nat (tl_len l - int i)) = Some ?d"
  proof -
    have "nat (tl_len l - int i) = length ?t - i" using l(4) by simp
    moreover have "i + (length ?t - i) = length ?t" "i + 1 + (n - 1) = i + n" using r by simp_all
    ultimately show ?thesis using len assms(6) r by (simp add: mem_move_Some)
  qed
  let ?l = "l\<lparr>tl_data := ?d, tl_len := tl_len l - 1 - int (n - 1)\<rparr>" and ?u = "take i ?t @ drop (i + n) ?t"
  have pre: "take (Suc (length ?t)) (tl_data l) = ?t @ [0]" using line_fine_prefix [OF l(2)] l(3) by simp
  have "line_fine ?l \<and> cstr (tl_data ?l) = ?u"
  proof (rule line_fineI)
    have "0 \<notin> set ?t" unfolding l(3) by simp
    then show "0 \<notin> set ?u" by (auto dest: in_set_takeD in_set_dropD)
    have "take i (tl_data l) = take i ?t" using r arg_cong [OF pre, of "take i"] by simp
    moreover have "take (Suc (length ?t) - (i + n)) (drop (i + n) (tl_data l)) = drop (i + n) ?t @ [0]"
      using r arg_cong [OF pre, of "drop (i + n)"] by (simp add: drop_take)
    ultimately show "take (Suc (length ?u)) (tl_data ?l) = ?u @ [0]"
      using r len assms(6) by (simp add: Suc_diff_le min_def) (auto simp: add.commute)
    show "length ?u < 256" using r assms(6) by simp
    show "tl_len ?l = int (length ?u)" using r l(4) by simp
  qed (use len assms(6) r in simp)
  moreover have "delete_char st = Some (st\<lparr>ed_lines := (ed_lines st)(a \<mapsto> ?l), currpnt := int i\<rparr>)"
    using assms(2-4) l(1,4) sp dec mv by (auto simp: delete_char_def put_line_def Let_def)
  ultimately show ?thesis using edit_ok_put [OF assms(1) l(1), of ?l "int i"] assms(5) by (auto simp: erased_def)
qed

lemma erased_typed:
  assumes "k \<le> length t" and "\<not> high c"
  shows "erase_span dbc (take k t @ c # drop k t) k = (k, 1)" "erased dbc (take k t @ c # drop k t) k = t"
  using assms by (simp_all add: erase_span_def erased_def nth_append)

end
