(* ===== verification/FB_EditFile.thy ===== *)
theory FB_EditFile
  imports FB_EditText
begin

text \<open>
  Files in the editor: a file that is loaded and saved comes out as it went in.
\<close>

section \<open>Loading\<close>

text \<open>While a file is loaded the cursor stands at the end of the last line of text; an empty line follows it.\<close>

definition loaded :: "editor \<Rightarrow> nat list \<Rightarrow> nat \<Rightarrow> nat \<Rightarrow> buf list \<Rightarrow> buf \<Rightarrow> bool" where
  "loaded st ps c e ts t \<longleftrightarrow> edit_ok st (ps @ [c, e]) \<and> texts st (ps @ [c, e]) = ts @ [t, []] \<and> currline st = Some c \<and>
     currpnt st = int (length t) \<and> insert_character st \<and> can_edit_begin st = Some (hd (ps @ [c])) \<and> can_edit_end st = Some e \<and>
     mark_begin st = None \<and> mark_end st = None"

definition plain_line :: "buf \<Rightarrow> bool" where
  "plain_line l \<longleftrightarrow> length l \<le> 253 \<and> (\<forall>x\<in>set l. isprint2 x) \<and> whole_chars l"

definition file_of :: "buf list \<Rightarrow> buf" where
  "file_of ls = concat (map (\<lambda>l. l @ [10]) ls)"

lemma vedit_init_loaded:
  assumes "alloc_ok h 280"
  shows "\<exists>st. vedit_init h no_text = Some st \<and> loaded st [] 0 1 [] []"
proof -
  let ?l = "\<lparr>tl_prev = None, tl_next = None, tl_len = 0, tl_attr = 0, tl_data = 0 # map (junk h) [1..<256]\<rparr>"
  let ?st = "no_text\<lparr>ed_lines := [0 \<mapsto> ?l\<lparr>tl_next := Some 1\<rparr>, 1 \<mapsto> ?l\<lparr>tl_prev := Some 0\<rparr>], ed_fresh := 2, firstline := Some 0,
    can_edit_begin := Some 0, can_edit_end := Some 1, top_of_win := Some 0, currline := Some 0\<rparr>"
  have "unmark_loop (Some 0) st = Some (st\<lparr>ed_lines := (ed_lines st)(0 \<mapsto> mark False l)\<rparr>)"
    if "ed_lines st 0 = Some l" "can_edit_end st = None" "tl_next l = None" for st l
    using that by (subst unmark_loop.simps, subst unmark_loop.simps) (simp add: put_line_def next_of_def mark_def)
  then have "vedit_init h no_text = Some ?st"
    using assms by (simp add: vedit_init_def alloc_line_def no_text_def mark_action_def process_MARK_action_def CLEAR_MARK_def
        put_line_def mark_def fun_upd_twist numeral_2_eq_2)
  moreover have "loaded ?st [] 0 1 [] []"
    by (simp add: loaded_def edit_ok_def line_fine_def text_of_def no_text_def)
  ultimately show ?thesis by blast
qed

lemma loaded_text: "loaded st ps c e ts t \<Longrightarrow> text_of st c = t \<and> texts st ps = ts \<and> text_of st e = []"
proof -
  assume "loaded st ps c e ts t"
  then have "texts st ps @ [text_of st c, text_of st e] = ts @ [t, []]" by (simp add: loaded_def)
  then show ?thesis by (simp add: append_eq_append_conv [of "[text_of st c, text_of st e]" "[t, []]"])
qed

lemma isprint2_byte: "isprint2 x \<Longrightarrow> x \<noteq> 0 \<and> x \<noteq> 27 \<and> x \<noteq> 10"
  by (auto simp: isprint2_def ctype_defs)

lemma loaded_linelen [simp]: "loaded (st\<lparr>linelen := n\<rparr>) ps c e ts t = loaded st ps c e ts t"
  by (simp add: loaded_def)

lemma insert_at_end:
  assumes "loaded st ps c e ts t" and "isprint2 x" and "length t \<le> 252" and "linelen st = WRAPMARGIN"
  shows "\<exists>st'. insert_char h (sint x) st = Some st' \<and> loaded st' ps c e ts (t @ [x])"
proof -
  have ok: "edit_ok st (ps @ c # [e])" using assms(1) by (simp add: loaded_def)
  have t: "text_of st c = t" "texts st ps = ts" "text_of st e = []" using loaded_text [OF assms(1)] by simp_all
  have st: "currline st = Some c" "currpnt st = int (length (text_of st c))" "insert_character st"
    using assms(1) t by (simp_all add: loaded_def)
  obtain st1 where st1: "insert_char h (sint x) st = Some st1" "edit_ok st1 (ps @ c # [e])" "currpnt st1 = int (length t) + 1"
      "new_text st c (t @ [x]) st1"
    using insert_char_short [OF ok st(1,2), of "sint x" h] assms isprint2_byte t st(3) by (auto simp: WRAPMARGIN_def typed_def)
  have "c \<notin> set ps" "c \<noteq> e" using ok by (auto simp: edit_ok_def)
  then have "texts st1 (ps @ [c, e]) = ts @ [t @ [x], []]" using t new_text_fields(1) [OF st1(4)] by simp
  then have "loaded st1 ps c e ts (t @ [x])"
    using assms(1) st1(2,3) new_text_fields [OF st1(4)] by (simp add: loaded_def)
  then show ?thesis using st1(1) by blast
qed

lemma split_at_end:
  assumes "loaded st ps c e ts t" and "alloc_ok h 280" and "27 \<notin> set t" and "whole_chars t"
  shows "\<exists>st'. split_at h (currline st) (currpnt st) st = Some st' \<and> loaded st' (ps @ [c]) (ed_fresh st) e (ts @ [t]) []"
proof -
  let ?n = "int (length t)" and ?p = "ed_fresh st"
  have ok: "edit_ok st (ps @ c # [e])" using assms(1) by (simp add: loaded_def)
  have t: "text_of st c = t" "texts st ps = ts" "text_of st e = []" using loaded_text [OF assms(1)] by simp_all
  have s: "currline st = Some c" "currpnt st = ?n" "can_edit_end st = Some e" "mark_end st = None" "mark_begin st = None"
    using assms(1) by (simp_all add: loaded_def)
  obtain l where l: "ed_lines st c = Some l" "line_fine l" "t = cstr (tl_data l)" "tl_len l = int (length t)"
    using edit_okD [OF ok] t by metis
  have tk: "take (length t) (tl_data l) = t" using arg_cong [OF line_fine_prefix [OF l(2)], of "take (length t)"] l(3) by simp
  have sp: "split_pos l ?n = Some ?n"
    using split_pos_plain [of l "length t"] l(2,3) line_fine_text [OF l(2)] assms(3,4) tk by (simp add: line_fine_def)
  have fresh: "?p \<noteq> c" "?p \<noteq> e" "?p \<notin> set ps" "c \<noteq> e" "c \<notin> set ps" using ok by (auto simp: edit_ok_def)
  obtain m where m: "split_at h (Some c) ?n st = Some (after_split (Some c) ?p ?n (st\<lparr>ed_lines := m, ed_fresh := Suc ?p,
        can_edit_end := (if can_edit_end st = Some c then Some ?p else can_edit_end st)\<rparr>))"
      "edit_ok (st\<lparr>ed_lines := m, ed_fresh := Suc ?p\<rparr>) (ps @ c # ?p # [e])"
      "text_of (st\<lparr>ed_lines := m\<rparr>) = (text_of st)(c := t, ?p := [])"
    using split_at_spec [OF assms(2) ok l(1) sp] l(4) t by (auto simp del: fun_upd_apply)
  let ?st' = "after_split (Some c) ?p ?n (st\<lparr>ed_lines := m, ed_fresh := Suc ?p,
    can_edit_end := (if can_edit_end st = Some c then Some ?p else can_edit_end st)\<rparr>)"
  have "text_of ?st' = (text_of st)(c := t, ?p := [])" using m(3) by simp
  then have "texts ?st' ((ps @ [c]) @ [?p, e]) = (ts @ [t]) @ [[], []]" using fresh t by simp
  moreover have "edit_ok ?st' ((ps @ [c]) @ [?p, e])" using m(2) by simp
  moreover have "currline ?st' = Some ?p" "currpnt ?st' = 0" "can_edit_end ?st' = Some e" "mark_end ?st' = None" "mark_begin ?st' = None"
      "insert_character ?st' = insert_character st" "can_edit_begin ?st' = can_edit_begin st"
    using s fresh by (simp_all add: after_split_def Let_def)
  ultimately have "loaded ?st' (ps @ [c]) ?p e (ts @ [t]) []" using assms(1) unfolding loaded_def by (cases ps) simp_all
  then show ?thesis using m(1) s(1,2) by auto
qed

lemma load_char:
  assumes "loaded st ps c e ts t" and "isprint2 x" and "length t \<le> 252"
  shows "\<exists>st'. insertch_from_fp h (sint x) st = Some st' \<and> loaded st' ps c e ts (t @ [x])"
proof -
  obtain st1 where "insert_char h (sint x) (st\<lparr>linelen := WRAPMARGIN\<rparr>) = Some st1" "loaded st1 ps c e ts (t @ [x])"
    using insert_at_end [of "st\<lparr>linelen := WRAPMARGIN\<rparr>" ps c e ts t x h] assms by auto
  moreover have "currpnt st < 254" using assms(1,3) by (simp add: loaded_def)
  ultimately show ?thesis using assms(2) by (simp add: insertch_from_fp_def Let_def)
qed

lemma load_newline:
  assumes "loaded st ps c e ts t" and "alloc_ok h 280" and "27 \<notin> set t" and "whole_chars t"
  shows "\<exists>st'. insertch_from_fp h 10 st = Some st' \<and> loaded st' (ps @ [c]) (ed_fresh st) e (ts @ [t]) []"
  using split_at_end [of "st\<lparr>linelen := WRAPMARGIN\<rparr>" ps c e ts t h] assms
  by (auto simp: insertch_from_fp_def Let_def isprint2_def ctype_defs)

lemma load_text:
  assumes "loaded st ps c e ts t" and "\<forall>x\<in>set l. isprint2 x" and "length t + length l \<le> 253"
  shows "\<exists>st'. insert_from_fp h l st = Some st' \<and> loaded st' ps c e ts (t @ l)"
  using assms
proof (induction l arbitrary: st t)
  case (Cons x l)
  obtain st1 where "insertch_from_fp h (sint x) st = Some st1" "loaded st1 ps c e ts (t @ [x])"
    using load_char [OF Cons.prems(1), of x h] Cons.prems(2,3) by auto
  then show ?case using Cons.IH [of st1 "t @ [x]"] Cons.prems by auto
qed auto

lemma insert_from_fp_append: "insert_from_fp h (xs @ ys) st = do { st \<leftarrow> insert_from_fp h xs st; insert_from_fp h ys st }"
proof (induction xs arbitrary: st)
  case (Cons x xs)
  have "insert_from_fp h (xs @ ys) = (\<lambda>st. do { st \<leftarrow> insert_from_fp h xs st; insert_from_fp h ys st })"
    by (rule ext) (rule Cons.IH)
  then show ?case by simp
qed simp

lemma load_lines:
  assumes "alloc_ok h 280" and "loaded st ps c e ts []" and "\<forall>l\<in>set ls. plain_line l"
  shows "\<exists>st' ps' c'. insert_from_fp h (file_of ls) st = Some st' \<and> loaded st' ps' c' e (ts @ ls) []"
  using assms(2,3)
proof (induction ls arbitrary: st ps c ts)
  case Nil
  then show ?case by (auto simp: file_of_def)
next
  case (Cons l ls)
  have l: "\<forall>x\<in>set l. isprint2 x" "length l \<le> 253" "whole_chars l" using Cons.prems(2) by (auto simp: plain_line_def)
  obtain st1 where 1: "insert_from_fp h l st = Some st1" "loaded st1 ps c e ts l"
    using load_text [OF Cons.prems(1) l(1)] l(2) by auto
  obtain st2 where 2: "insertch_from_fp h 10 st1 = Some st2" "loaded st2 (ps @ [c]) (ed_fresh st1) e (ts @ [l]) []"
    using load_newline [OF 1(2) assms(1) _ l(3)] l(1) isprint2_byte by blast
  obtain st3 ps' c' where 3: "insert_from_fp h (file_of ls) st2 = Some st3" "loaded st3 ps' c' e ((ts @ [l]) @ ls) []"
    using Cons.IH [OF 2(2)] Cons.prems(2) by auto
  have "insert_from_fp h (file_of (l # ls)) st = Some st3" using 1(1) 2(1) 3(1) by (simp add: file_of_def insert_from_fp_append)
  then show ?case using 3(2) by auto
qed

section \<open>The origin line\<close>

lemma strstr_empty: "pat \<noteq> [] \<Longrightarrow> strstr [] pat = None"
  by simp

lemma origin_loop_none:
  assumes "edit_ok st (xs @ a # ys)" and "can_edit_begin st = Some (hd (xs @ [a]))" and "\<forall>b\<in>set (xs @ [a]). strstr (text_of st b) tmp = None"
  shows "origin_loop st tmp (Some a) = Some (can_edit_begin st, st)"
  using assms
proof (induction xs arbitrary: a ys rule: rev_induct)
  case Nil
  then show ?case by (subst origin_loop.simps) simp
next
  case (snoc b xs)
  obtain l where l: "ed_lines st a = Some l" "line_fine l" "tl_prev l = Some b" "text_of st a = cstr (tl_data l)"
    using edit_okD [OF snoc.prems(1)] by auto
  have "a \<noteq> hd ((xs @ [b]) @ [a])" using snoc.prems(1) by (cases xs) (auto simp: edit_ok_def)
  moreover have "strlen (tl_data l) = Some (length (text_of st a))" "take (length (text_of st a)) (tl_data l) = text_of st a"
      "rd (tl_data l) 0 = Some (tl_data l ! 0)"
    using l(2,4) by (auto simp: line_fine_def strlen_terminated takeWhile_eq_take [symmetric] rd_def)
  moreover have "origin_loop st tmp (Some b) = Some (can_edit_begin st, st)"
    using snoc.IH [of b "a # ys"] snoc.prems by (cases xs) auto
  ultimately show ?case using l snoc.prems(2,3) by (subst origin_loop.simps) simp
qed

section \<open>Saving\<close>

lemma edit_okD_last:
  assumes "edit_ok st (ps @ [a])"
  obtains l where "ed_lines st a = Some l" "line_fine l" "tl_prev l = last_or None ps" "tl_next l = None" "strlen (tl_data l) = Some (length (text_of st a))"
    "take (length (text_of st a)) (tl_data l) = text_of st a"
  using assms by (auto simp: edit_ok_def chain_append text_of_def line_fine_def strlen_terminated takeWhile_eq_take [symmetric])

lemma trim_step:
  assumes "edit_ok st (ps @ [a])" and "ps \<noteq> []" and "can_edit_begin st = Some (hd ps)" and "text_of st a = []"
  shows "\<exists>m. trim_loop (Some a) st = trim_loop (Some (List.last ps)) (st\<lparr>ed_lines := m\<rparr>) \<and> edit_ok (st\<lparr>ed_lines := m\<rparr>) ps \<and>
    (\<forall>b\<in>set ps. text_of (st\<lparr>ed_lines := m\<rparr>) b = text_of st b)"
proof -
  obtain qs b where ps: "ps = qs @ [b]" using assms(2) by (cases ps rule: rev_cases) auto
  obtain l where l: "ed_lines st a = Some l" "tl_prev l = Some b" "strlen (tl_data l) = Some (length (text_of st a))"
    using edit_okD_last [OF assms(1)] ps by (metis last_or_simps(3))
  obtain lb where lb: "ed_lines st b = Some lb" "line_fine lb"
    using edit_okD [of st qs b "[a]"] assms(1) ps by auto
  have ne: "a \<noteq> b" "a \<notin> set qs" "b \<notin> set qs" "distinct (qs @ [b])" using assms(1) ps by (auto simp: edit_ok_def)
  let ?m = "(ed_lines st)(a := None, b \<mapsto> lb\<lparr>tl_next := None\<rparr>)"
  have "can_edit_begin st \<noteq> Some a" using assms(3) ps ne by (cases qs) auto
  then have "trim_loop (Some a) st = trim_loop (Some (List.last ps)) (st\<lparr>ed_lines := ?m\<rparr>)"
    using l lb(1) ne(1) assms(4) ps by (subst trim_loop.simps) (simp add: put_line_def)
  moreover have "edit_ok (st\<lparr>ed_lines := ?m\<rparr>) ps"
  proof -
    have "chain (ed_lines st) None (qs @ [b]) (Some a)" using assms(1) ps by (simp add: edit_ok_def chain_append)
    then have "chain ?m None (qs @ [b]) None"
      using chain_next [of "(ed_lines st)(a := None)" None qs b "Some a" lb None] lb(1) ne by (simp add: chain_frame chain_append)
    moreover have "firstline st = Some (hd ps)" using assms(1) ps by (cases qs) (simp_all add: edit_ok_def)
    ultimately show ?thesis using assms(1) lb ne ps by (auto simp: edit_ok_def line_fine_def)
  qed
  moreover have "\<forall>c\<in>set ps. text_of (st\<lparr>ed_lines := ?m\<rparr>) c = text_of st c" using ps ne lb(1) by (auto simp: text_of_def)
  ultimately show ?thesis by blast
qed

lemma trim_loop_spec:
  assumes "edit_ok st (ps @ qs)" and "ps \<noteq> []" and "can_edit_begin st = Some (hd ps)" and "text_of st (List.last ps) \<noteq> []"
    and "text_of st (List.last ps) \<noteq> [10]" and "\<forall>a\<in>set qs. text_of st a = []"
  shows "\<exists>m. trim_loop (Some (List.last (ps @ qs))) st = Some (st\<lparr>ed_lines := m, can_edit_end := Some (List.last ps)\<rparr>) \<and>
    edit_ok (st\<lparr>ed_lines := m\<rparr>) ps \<and> texts (st\<lparr>ed_lines := m\<rparr>) ps = texts st ps"
  using assms
proof (induction qs arbitrary: st rule: rev_induct)
  case Nil
  obtain rs a where ps: "ps = rs @ [a]" using assms(2) by (cases ps rule: rev_cases) auto
  obtain l where "ed_lines st a = Some l" "strlen (tl_data l) = Some (length (text_of st a))" "take (length (text_of st a)) (tl_data l) = text_of st a"
    using edit_okD_last [of st rs a] Nil.prems(1) ps by auto
  then have "trim_loop (Some a) st = Some (st\<lparr>can_edit_end := Some a\<rparr>)"
    using Nil.prems(4,5) ps by (subst trim_loop.simps) simp
  then show ?case using Nil.prems(1) ps by (intro exI [of _ "ed_lines st"]) simp
next
  case (snoc a qs)
  have pq: "ps @ qs \<noteq> []" "hd (ps @ qs) = hd ps" using assms(2) by simp_all
  obtain m where m: "trim_loop (Some a) st = trim_loop (Some (List.last (ps @ qs))) (st\<lparr>ed_lines := m\<rparr>)" "edit_ok (st\<lparr>ed_lines := m\<rparr>) (ps @ qs)"
      "\<forall>b\<in>set (ps @ qs). text_of (st\<lparr>ed_lines := m\<rparr>) b = text_of st b"
    using trim_step [of st "ps @ qs" a] snoc.prems pq by auto
  have "List.last ps \<in> set (ps @ qs)" using assms(2) by simp
  then obtain m' where "trim_loop (Some (List.last (ps @ qs))) (st\<lparr>ed_lines := m\<rparr>) = Some (st\<lparr>ed_lines := m, ed_lines := m', can_edit_end := Some (List.last ps)\<rparr>)"
      "edit_ok (st\<lparr>ed_lines := m, ed_lines := m'\<rparr>) ps" "texts (st\<lparr>ed_lines := m, ed_lines := m'\<rparr>) ps = texts (st\<lparr>ed_lines := m\<rparr>) ps"
    using snoc.IH [OF m(2) assms(2)] snoc.prems(3-6) m(3) by (auto simp del: editor.update_convs)
  then show ?case using m(1,3) by (intro exI [of _ m']) simp
qed

lemma write_loop_spec:
  assumes "chain (ed_lines st) pv ps None" and "distinct ps" and "\<forall>a\<in>set ps. \<exists>l. ed_lines st a = Some l \<and> line_fine l"
    and "\<forall>a\<in>set ps. 27 \<notin> set (text_of st a)"
  shows "\<exists>m. write_loop False out (first_or ps None) st = Some (out @ file_of (texts st ps), st\<lparr>ed_lines := m\<rparr>)"
  using assms
proof (induction ps arbitrary: st pv out)
  case Nil
  then show ?case by (subst write_loop.simps) (auto simp: file_of_def intro!: exI [of _ "ed_lines st"])
next
  case (Cons a ps)
  let ?t = "text_of st a" and ?st = "st\<lparr>ed_lines := (ed_lines st)(a := None)\<rparr>"
  obtain l where l: "ed_lines st a = Some l" "line_fine l" "tl_next l = first_or ps None" using Cons.prems(1,3) by auto
  have t: "?t = cstr (tl_data l)" using l(1) by (simp add: text_of_def)
  have n: "strlen (tl_data l) = Some (length ?t)" "take (length ?t) (tl_data l) = ?t"
    using l(2) t by (auto simp: line_fine_def strlen_terminated takeWhile_eq_take [symmetric])
  have "27 \<notin> set ?t" using Cons.prems(4) by simp
  then have no_mark: "take 17 ?t \<noteq> EDIT_MARK"
    using set_take_subset [of 17 ?t] by (auto simp: EDIT_MARK_def)
  have ne: "a \<notin> set ps" "distinct ps" using Cons.prems(2) by simp_all
  have same: "text_of ?st b = text_of st b" if "b \<in> set ps" for b using that ne(1) by (auto simp: text_of_def)
  have "chain (ed_lines ?st) (Some a) ps None" using Cons.prems(1) ne(1) by (simp add: chain_frame)
  moreover have "\<forall>b\<in>set ps. \<exists>l. ed_lines ?st b = Some l \<and> line_fine l" using Cons.prems(3) ne(1) by auto
  moreover have "\<forall>b\<in>set ps. 27 \<notin> set (text_of ?st b)" using Cons.prems(4) same by simp
  ultimately obtain m where "write_loop False (out @ ?t @ [10]) (first_or ps None) ?st =
      Some ((out @ ?t @ [10]) @ file_of (texts ?st ps), ?st\<lparr>ed_lines := m\<rparr>)"
    using Cons.IH [of ?st "Some a" "out @ ?t @ [10]"] ne(2) by blast
  moreover have "texts ?st ps = texts st ps" using same by simp
  moreover have "write_loop False out (Some a) st = write_loop False (out @ ?t @ [10]) (first_or ps None) ?st"
    using l n no_mark by (subst write_loop.simps) (simp del: take_take)
  ultimately show ?case by (intro exI [of _ m]) (simp add: file_of_def)
qed

text \<open>Claim C5: a file of printable lines of at most 253 bytes, whose double-byte characters are whole and whose last
  line is not blank, is loaded into a new editor and saved again byte for byte.\<close>

theorem edit_file_round_trip:
  assumes "alloc_ok h 280" and "\<forall>l\<in>set ls. plain_line l" and "ls \<noteq> []" and "List.last ls \<noteq> []"
    and "origin \<noteq> []" and "\<forall>l\<in>set ls. strstr l origin = None"
  shows "\<exists>st st'. read_file h origin (Some (file_of ls)) no_text = Some (1, st) \<and> write_lines False st = Some (file_of ls, st')"
proof -
  obtain st0 where st0: "vedit_init h no_text = Some st0" "loaded st0 [] 0 1 [] []" using vedit_init_loaded [OF assms(1)] by blast
  obtain st ps c where st: "insert_from_fp h (file_of ls) st0 = Some st" "loaded st ps c 1 ls []"
    using load_lines [OF assms(1) st0(2) assms(2)] by auto
  have ok: "edit_ok st (ps @ [c, 1])" and ends: "can_edit_begin st = Some (hd (ps @ [c]))" "can_edit_end st = Some 1"
    using st(2) by (simp_all add: loaded_def)
  have t: "texts st ps = ls" "text_of st c = []" "text_of st 1 = []" using loaded_text [OF st(2)] by simp_all
  have ps: "ps \<noteq> []" using t(1) assms(3) by auto
  have hd: "hd (ps @ [c]) = hd ps" using ps by simp
  have last: "text_of st (List.last ps) = List.last ls" using t(1) ps last_map [of ps "text_of st"] by simp
  have distinct: "hd ps \<noteq> 1" using ok ps by (cases ps) (auto simp: edit_ok_def)
  have none: "strstr (text_of st b) origin = None" if "b \<in> set ((ps @ [c]) @ [1])" for b
  proof -
    have "text_of st b \<in> set ls \<or> text_of st b = []" using that t by auto
    then show ?thesis using assms(5,6) by auto
  qed
  have "origin_loop st origin (Some 1) = Some (can_edit_begin st, st)"
    using origin_loop_none [of st "ps @ [c]" 1 "[]" origin] ok ends none ps hd by (cases ps) auto
  then have read: "read_file h origin (Some (file_of ls)) no_text = Some (1, st)"
    using st0(1) st(1) ends distinct hd by (simp add: read_file_def no_text_def)
  have plain: "plain_line (List.last ls)" using assms(2,3) by simp
  have "List.last ls \<noteq> [10]" using plain isprint2_byte [of 10] by (auto simp: plain_line_def)
  then obtain m where m: "trim_loop (Some 1) st = Some (st\<lparr>ed_lines := m, can_edit_end := Some (List.last ps)\<rparr>)" "edit_ok (st\<lparr>ed_lines := m\<rparr>) ps"
      "texts (st\<lparr>ed_lines := m\<rparr>) ps = ls"
    using trim_loop_spec [of st ps "[c, 1]"] ok ps hd ends(1) last assms(4) t by auto
  let ?st = "st\<lparr>ed_lines := m, can_edit_end := Some (List.last ps)\<rparr>"
  have tx: "text_of ?st = text_of (st\<lparr>ed_lines := m\<rparr>)" by simp
  have esc: "\<forall>a\<in>set ps. 27 \<notin> set (text_of ?st a)"
  proof
    fix a assume "a \<in> set ps"
    then have "text_of ?st a \<in> set ls" using m(3) tx by (metis image_eqI list.set_map)
    then show "27 \<notin> set (text_of ?st a)" using assms(2) isprint2_byte by (auto simp: plain_line_def)
  qed
  have "edit_ok ?st ps" using m(2) by simp
  then have okm: "chain (ed_lines ?st) None ps None" "distinct ps" "\<forall>a\<in>set ps. \<exists>l. ed_lines ?st a = Some l \<and> line_fine l"
      "firstline ?st = first_or ps None"
    using ps by (auto simp: edit_ok_def first_or_def split: list.splits)
  obtain m' where m': "write_loop False [] (firstline ?st) ?st = Some ([] @ file_of (texts ?st ps), ?st\<lparr>ed_lines := m'\<rparr>)"
    using write_loop_spec [OF okm(1-3) esc, of "[]"] okm(4) by auto
  obtain l1 where "ed_lines st 1 = Some l1" "tl_next l1 = None" using edit_okD_last [of st "ps @ [c]" 1] ok by auto
  then have "last_line st (Some 1) = Some (Some 1)" by (subst last_line.simps) (simp add: next_of_def)
  then have "\<exists>st'. write_lines False st = Some (file_of ls, st')"
    using m(1,3) m' ends(2) tx by (simp add: write_lines_def)
  then show ?thesis using read by blast
qed

theorem edit_file_round_trip_witness:
  "\<exists>st st'. read_file heap_total [65] (Some (file_of [[104, 105], [], [0xb0, 0xa1]])) no_text = Some (1, st) \<and>
    write_lines False st = Some ([104, 105, 10, 10, 0xb0, 0xa1, 10], st')"
proof -
  have "\<forall>l\<in>set [[104, 105], [], [0xb0, 0xa1]]. plain_line l" by code_simp
  moreover have "\<forall>l\<in>set [[104, 105], [], [0xb0, 0xa1]]. strstr l [65] = None" by code_simp
  moreover have "alloc_ok heap_total 280" by (simp add: heap_total_def)
  moreover have "file_of [[104, 105], [], [0xb0, 0xa1]] = [104, 105, 10, 10, 0xb0, 0xa1, 10]" by (simp add: file_of_def)
  ultimately show ?thesis using edit_file_round_trip [of heap_total "[[104, 105], [], [0xb0, 0xa1]]" "[65]"] by simp
qed

end
