(* ===== verification/FB_EditJoin.thy ===== *)
theory FB_EditJoin
  imports FB_EditFile
begin

text \<open>
  Joining lines, and what the keys of the editor make of its text.
\<close>

section \<open>Typing, erasing and splitting\<close>

text \<open>Splitting a line anywhere in its text cuts it in two pieces that make up the old text, at most
  at the position asked for, puts the second one on a new line behind it, and leaves the other lines alone.\<close>

theorem split_at_text:
  assumes "alloc_ok h 280" and "edit_ok st (xs @ a # ys)" and "k \<le> length (text_of st a)"
  shows "\<exists>st' j. split_at h (Some a) (int k) st = Some st' \<and> j \<le> k \<and> edit_ok st' (xs @ a # ed_fresh st # ys) \<and>
    texts st' (xs @ a # ed_fresh st # ys) = texts st xs @ [take j (text_of st a), drop j (text_of st a)] @ texts st ys"
proof -
  obtain l where l: "ed_lines st a = Some l" "line_fine l" "text_of st a = cstr (tl_data l)" "tl_len l = int (length (text_of st a))"
    using edit_okD [OF assms(2)] by metis
  have "length (tl_data l) = 256" "k \<le> 256" using l(2,3) line_fine_text [OF l(2)] assms(3) by (auto simp: line_fine_def)
  then obtain j where j: "j \<le> k" "split_pos l (int k) = Some (int j)" using split_pos_range by blast
  have fresh: "a \<noteq> ed_fresh st" "a \<notin> set xs" "a \<notin> set ys" "ed_fresh st \<notin> set xs" "ed_fresh st \<notin> set ys"
    using assms(2) by (auto simp: edit_ok_def)
  obtain m where m: "split_at h (Some a) (int k) st = Some (after_split (Some a) (ed_fresh st) (int j) (st\<lparr>ed_lines := m,
        ed_fresh := Suc (ed_fresh st), can_edit_end := (if can_edit_end st = Some a then Some (ed_fresh st) else can_edit_end st)\<rparr>))"
      "edit_ok (st\<lparr>ed_lines := m, ed_fresh := Suc (ed_fresh st)\<rparr>) (xs @ a # ed_fresh st # ys)"
      "text_of (st\<lparr>ed_lines := m\<rparr>) = (text_of st)(a := take j (text_of st a), ed_fresh st := drop j (text_of st a))"
    using split_at_spec [OF assms(1,2) l(1) j(2)] assms(3) j(1) l(4) by auto
  let ?st = "st\<lparr>ed_lines := m, ed_fresh := Suc (ed_fresh st), can_edit_end := (if can_edit_end st = Some a then Some (ed_fresh st) else can_edit_end st)\<rparr>"
  have "text_of ?st = text_of (st\<lparr>ed_lines := m\<rparr>)" by (simp add: text_of_def fun_eq_iff)
  then have "texts ?st (xs @ a # ed_fresh st # ys) = texts st xs @ [take j (text_of st a), drop j (text_of st a)] @ texts st ys"
    using fresh m(3) by simp
  moreover have "edit_ok ?st (xs @ a # ed_fresh st # ys)" using m(2) by (simp add: edit_ok_def)
  ultimately show ?thesis
    using m(1) j(1) by (intro exI [of _ "after_split (Some a) (ed_fresh st) (int j) ?st"] exI [of _ j]) simp
qed


text \<open>Deleting a double-byte character in a line of 255 bytes, the longest one, reads the byte behind
  the array.\<close>

theorem delete_char_overrun:
  assumes "edit_ok st (xs @ a # ys)" and "currline st = Some a" and "currpnt st = int k" and "k < length (text_of st a)"
    and "erase_span (enabledbchar st) (text_of st a) k = (i, 2)" and "length (text_of st a) = 255"
  shows "delete_char st = None"
proof -
  let ?t = "text_of st a"
  obtain l where l: "ed_lines st a = Some l" "line_fine l" "?t = cstr (tl_data l)" "tl_len l = int (length ?t)"
    using edit_okD [OF assms(1)] by metis
  have sp: "delete_span st l = Some (1, i < k)" using delete_span_spec [OF l(2)] assms(3-5) l(3) by simp
  have dec: "(if i < k then int k - 1 else int k) = int i"
    using assms(5) erase_span_range(1) [OF assms(4,5)] by (auto simp: erase_span_def of_nat_diff split: if_splits)
  have "i + 2 \<le> 255" using erase_span_range(2) [OF assms(4,5)] assms(6) by simp
  then have "mem_move (tl_data l) i (i + 1 + 1) (nat (tl_len l - int i)) = None"
    using l(2,4) assms(6) by (intro mem_move_None) (simp add: line_fine_def)
  then show ?thesis using assms(2-4) l(1,4) sp dec by (auto simp: delete_char_def Let_def)
qed

section \<open>Joining\<close>

lemma strcat_text:
  assumes "line_fine l" and "line_fine n" and "length (cstr (tl_data l)) + length (cstr (tl_data n)) < 256"
  shows "\<exists>d. strcat (tl_data l) (tl_data n) = Some d \<and> length d = 256 \<and>
    take (Suc (length (cstr (tl_data l)) + length (cstr (tl_data n)))) d = cstr (tl_data l) @ cstr (tl_data n) @ [0]"
proof -
  let ?t = "cstr (tl_data l)" and ?u = "cstr (tl_data n)"
  have len: "length (tl_data l) = 256" and sl: "strlen (tl_data l) = Some (length ?t)" "strlen (tl_data n) = Some (length ?u)"
    using assms(1,2) by (simp_all add: line_fine_def strlen_terminated)
  have "take (length ?t) (tl_data l) = ?t" by (simp add: takeWhile_eq_take [symmetric])
  then show ?thesis using len sl assms(3) line_fine_prefix [OF assms(2)] by (simp add: strcat_def mem_write_def)
qed

lemma join_short_spec:
  assumes ok: "edit_ok st (xs @ a # b # ys)" and ys: "ys \<noteq> []" and "can_edit_begin st \<noteq> Some b"
    and la: "ed_lines st a = Some la" and lb: "ed_lines st b = Some lb"
    and short: "length (text_of st a) + length (text_of st b) < 256"
  shows "\<exists>m mb me. join_short (Some a) la lb st = Some (st\<lparr>ed_lines := m, mark_begin := mb, mark_end := me\<rparr>) \<and>
    edit_ok (st\<lparr>ed_lines := m\<rparr>) (xs @ a # ys) \<and> text_of (st\<lparr>ed_lines := m\<rparr>) a = text_of st a @ text_of st b \<and>
    (\<forall>c\<in>set xs \<union> set ys. text_of (st\<lparr>ed_lines := m\<rparr>) c = text_of st c)"
proof -
  let ?t = "text_of st a" and ?u = "text_of st b"
  have fine: "line_fine la" "line_fine lb" and t: "?t = cstr (tl_data la)" "?u = cstr (tl_data lb)"
    and nx: "tl_next la = Some b"
    using ok la lb by (auto simp: edit_ok_def chain_append text_of_def)
  have ne: "a \<noteq> b" "a \<notin> set xs" "a \<notin> set ys" "b \<notin> set xs" "b \<notin> set ys" using ok by (auto simp: edit_ok_def)
  obtain d where d: "strcat (tl_data la) (tl_data lb) = Some d" "length d = 256" "take (Suc (length ?t + length ?u)) d = ?t @ ?u @ [0]"
    using strcat_text [OF fine] short t by auto
  define l' where "l' = la\<lparr>tl_data := d, tl_len := tl_len la + tl_len lb, tl_attr := (if tl_attr lb AND M_MARK \<noteq> 0 then tl_attr lb else tl_attr la)\<rparr>"
  have l': "line_fine l' \<and> cstr (tl_data l') = ?t @ ?u"
  proof (rule line_fineI)
    show "0 \<notin> set (?t @ ?u)" unfolding t by simp
    show "tl_len l' = int (length (?t @ ?u))" using fine t by (simp add: l'_def line_fine_def)
  qed (use d short in \<open>simp_all add: l'_def\<close>)
  define mb where "mb = (if mark_begin st = Some b then Some a else mark_begin st)"
  define me where "me = (if mark_end st = Some b then Some a else mark_end st)"
  let ?m1 = "(ed_lines st)(a \<mapsto> l')"
  let ?st = "st\<lparr>ed_lines := ?m1, mark_begin := mb, mark_end := me\<rparr>"
  have step: "join_short (Some a) la lb st = delete_line (Some b) ?st"
    using d(1) la nx by (simp add: join_short_def put_line_def l'_def [symmetric] mb_def me_def Let_def)
  have "chain (ed_lines st) None (xs @ a # b # ys) None" using ok by (simp add: edit_ok_def)
  from chain_links [OF this la, of l'] have "chain ?m1 None ((xs @ [a]) @ b # ys) None" by (simp add: l'_def)
  moreover have "distinct ((xs @ [a]) @ b # ys)" "firstline st = Some (hd ((xs @ [a]) @ b # ys))" using ok by (auto simp: edit_ok_def)
  ultimately obtain m mb' me' where m: "delete_line (Some b) ?st = Some (?st\<lparr>ed_lines := m, mark_begin := mb', mark_end := me',
        firstline := Some (hd ((xs @ [a]) @ ys)), can_edit_begin := can_edit_begin st\<rparr>)"
      "chain m None ((xs @ [a]) @ ys) None" "same_payload ?m1 m (- {b})"
    using delete_line_spec [of ?st "xs @ [a]" b ys] ys assms(3) by auto
  have hd: "firstline st = Some (hd ((xs @ [a]) @ ys))" using ok by (cases xs) (simp_all add: edit_ok_def)
  have "?st\<lparr>ed_lines := m, mark_begin := mb', mark_end := me', firstline := Some (hd ((xs @ [a]) @ ys)), can_edit_begin := can_edit_begin st\<rparr> =
      st\<lparr>ed_lines := m, mark_begin := mb', mark_end := me'\<rparr>" unfolding hd [symmetric] by simp
  moreover have "edit_ok (st\<lparr>ed_lines := m\<rparr>) (xs @ a # ys)"
  proof (rule edit_okI)
    show "\<exists>l. ed_lines (st\<lparr>ed_lines := m\<rparr>) c = Some l \<and> line_fine l" if c: "c \<in> set (xs @ a # ys)" for c
    proof -
      have "\<exists>l. ?m1 c = Some l \<and> line_fine l" using c ok l' by (auto simp: edit_ok_def)
      moreover have "c \<in> - {b}" using c ne by auto
      ultimately show ?thesis using fine_same_payload [OF m(3)] by simp
    qed
    show "firstline (st\<lparr>ed_lines := m\<rparr>) = Some (hd (xs @ a # ys))" using hd by simp
  qed (use m(2) ok in \<open>auto simp: edit_ok_def\<close>)
  moreover have tx: "text_of (st\<lparr>ed_lines := m\<rparr>) c = text_of (st\<lparr>ed_lines := ?m1\<rparr>) c" if "c \<noteq> b" for c
    using texts_same_payload [of "st\<lparr>ed_lines := ?m1\<rparr>" "st\<lparr>ed_lines := m\<rparr>" "[c]"] m(3) that by (simp add: same_payload_def)
  have "text_of (st\<lparr>ed_lines := m\<rparr>) a = ?t @ ?u" using tx ne(1) l' by (simp add: text_of_def)
  moreover have "\<forall>c\<in>set xs \<union> set ys. text_of (st\<lparr>ed_lines := m\<rparr>) c = text_of st c"
  proof
    fix c assume "c \<in> set xs \<union> set ys"
    then have "c \<noteq> a" "c \<noteq> b" using ne by auto
    then show "text_of (st\<lparr>ed_lines := m\<rparr>) c = text_of st c" using tx by (simp add: text_of_def)
  qed
  ultimately show ?thesis using step m(1) by metis
qed

lemma join_fits:
  assumes ok: "edit_ok st (xs @ a # b # ys)" and ys: "ys \<noteq> []" and "can_edit_begin st \<noteq> Some b" and "can_edit_end st \<noteq> Some b"
    and touch: "touch_dash (Some b) st0 = Some (False, st)" and st0: "next_of st0 (Some a) = Some (Some b)" "can_edit_end st0 = can_edit_end st"
    and short: "length (text_of st a) + length (text_of st b) < 256" "int (length (text_of st a) + length (text_of st b)) < linelen st"
  shows "\<exists>m mb me. join h (Some a) st0 = Some (True, st\<lparr>ed_lines := m, mark_begin := mb, mark_end := me\<rparr>) \<and>
    edit_ok (st\<lparr>ed_lines := m\<rparr>) (xs @ a # ys) \<and> text_of (st\<lparr>ed_lines := m\<rparr>) a = text_of st a @ text_of st b \<and>
    (\<forall>c\<in>set xs \<union> set ys. text_of (st\<lparr>ed_lines := m\<rparr>) c = text_of st c)"
proof -
  have ok': "edit_ok st ((xs @ [a]) @ b # ys)" using ok by simp
  obtain la where la: "ed_lines st a = Some la" "line_fine la" "tl_len la = int (length (text_of st a))"
    using edit_okD [OF ok] by metis
  obtain lb where lb: "ed_lines st b = Some lb" "line_fine lb" "tl_len lb = int (length (text_of st b))"
    using edit_okD [OF ok'] by metis
  obtain x y where xy: "shown_len la = Some x" "x \<le> tl_len la" "shown_len lb = Some y" "y \<le> tl_len lb"
    using shown_len_le [OF la(2)] shown_len_le [OF lb(2)] by blast
  have "x + y - linelen st < 0" using xy(2,4) la(3) lb(3) short(2) by simp
  then have "join h (Some a) st0 = do { st \<leftarrow> join_short (Some a) la lb st; Some (True, st) }"
    using st0 touch assms(4) la(1) lb(1) xy(1,3) by (subst join.simps) (simp add: Let_def)
  moreover obtain m mb me where m: "join_short (Some a) la lb st = Some (st\<lparr>ed_lines := m, mark_begin := mb, mark_end := me\<rparr>)"
      "edit_ok (st\<lparr>ed_lines := m\<rparr>) (xs @ a # ys)" "text_of (st\<lparr>ed_lines := m\<rparr>) a = text_of st a @ text_of st b"
      "\<forall>c\<in>set xs \<union> set ys. text_of (st\<lparr>ed_lines := m\<rparr>) c = text_of st c"
    using join_short_spec [OF ok ys assms(3) la(1) lb(1) short(1)] by blast
  ultimately have "join h (Some a) st0 = Some (True, st\<lparr>ed_lines := m, mark_begin := mb, mark_end := me\<rparr>)" by simp
  then show ?thesis using m(2-4) by blast
qed

lemma first_byte:
  assumes "line_fine l"
  shows "rd (tl_data l) 0 = Some (case cstr (tl_data l) of [] \<Rightarrow> 0 | c # _ \<Rightarrow> c)"
  using assms by (cases "tl_data l") (auto simp: line_fine_def rd_def)

lemma touch_dash_plain:
  assumes "edit_ok st (xs @ b # ys)" and "\<not> (\<exists>v. text_of st b = 45 # v)"
  shows "touch_dash (Some b) st = Some (False, st)"
proof -
  obtain l where l: "ed_lines st b = Some l" "line_fine l" "text_of st b = cstr (tl_data l)" using edit_okD [OF assms(1)] by metis
  then show ?thesis using first_byte [OF l(2)] assms(2) by (auto simp: touch_dash_def split: list.splits)
qed

lemma touch_dash_writes:
  assumes "edit_ok st (xs @ b # ys)" and "text_of st b = 45 # x # v" and "v \<noteq> []"
  shows "\<exists>m. touch_dash (Some b) st = Some (False, st\<lparr>ed_lines := m\<rparr>) \<and> edit_ok (st\<lparr>ed_lines := m\<rparr>) (xs @ b # ys) \<and>
    text_of (st\<lparr>ed_lines := m\<rparr>) = (text_of st)(b := 45 # 45 # v) \<and> (\<exists>l'. m = (ed_lines st)(b \<mapsto> l'))"
proof -
  obtain l where l: "ed_lines st b = Some l" "line_fine l" "text_of st b = cstr (tl_data l)" "tl_len l = int (length (text_of st b))"
    using edit_okD [OF assms(1)] by metis
  let ?l = "l\<lparr>tl_data := (tl_data l)[1 := 45]\<rparr>"
  have "length (text_of st b) < 256" using line_fine_text [OF l(2)] l(3) by simp
  then have len: "length (tl_data l) = 256" "length v + 2 < 256" using l(2) assms(2) by (simp_all add: line_fine_def)
  have "line_fine ?l \<and> cstr (tl_data ?l) = 45 # 45 # v"
  proof (rule line_fineI)
    have pre: "take (Suc (length (45 # x # v))) (tl_data l) = 45 # x # v @ [0]" using line_fine_prefix [OF l(2)] l(3) assms(2) by simp
    show "take (Suc (length (45 # 45 # v))) (tl_data ?l) = (45 # 45 # v) @ [0]"
      using pre by (simp add: take_update_swap)
    have "0 \<notin> set (text_of st b)" unfolding l(3) by simp
    then show "0 \<notin> set (45 # 45 # v)" using assms(2) by simp
  qed (use len l(4) assms(2) in simp_all)
  moreover have "touch_dash (Some b) st = Some (False, st\<lparr>ed_lines := (ed_lines st)(b \<mapsto> ?l)\<rparr>)"
  proof -
    have "cstr (tl_data l) = 45 # x # v" using l(3) assms(2) by simp
    moreover have "tl_len l \<noteq> 2" using l(4) assms(2,3) by (cases v) simp_all
    ultimately show ?thesis using l(1) first_byte [OF l(2)] len by (simp add: touch_dash_def put_line_def wr_Some)
  qed
  moreover have "st\<lparr>ed_lines := (ed_lines st)(b \<mapsto> ?l), currpnt := currpnt st\<rparr> = st\<lparr>ed_lines := (ed_lines st)(b \<mapsto> ?l)\<rparr>" by simp
  ultimately show ?thesis
    using edit_ok_put [OF assms(1) l(1), of ?l "currpnt st"] new_text_fields(1) [of st b "cstr (tl_data ?l)"] by auto
qed

text \<open>Joining a line with a next line that begins with a dash overwrites the second character of that
  line with a dash, because the test for a signature assigns.\<close>

theorem join_overwrites_dash:
  assumes "edit_ok st (xs @ a # b # ys)" and "ys \<noteq> []" and "can_edit_begin st \<noteq> Some b" and "can_edit_end st \<noteq> Some b"
    and "text_of st b = 45 # x # v" and "v \<noteq> []" and "length (text_of st a) + length v + 2 < 256"
    and "int (length (text_of st a) + length v + 2) < linelen st"
  shows "\<exists>st'. join h (Some a) st = Some (True, st') \<and> edit_ok st' (xs @ a # ys) \<and> text_of st' a = text_of st a @ 45 # 45 # v"
proof -
  have ok: "edit_ok st ((xs @ [a]) @ b # ys)" using assms(1) by simp
  obtain m where m: "touch_dash (Some b) st = Some (False, st\<lparr>ed_lines := m\<rparr>)" "edit_ok (st\<lparr>ed_lines := m\<rparr>) (xs @ a # b # ys)"
      "text_of (st\<lparr>ed_lines := m\<rparr>) = (text_of st)(b := 45 # 45 # v)"
    using touch_dash_writes [OF ok assms(5,6)] by auto
  have ne: "a \<noteq> b" using assms(1) by (auto simp: edit_ok_def)
  obtain l where "ed_lines st a = Some l" "tl_next l = Some b" using edit_okD [OF assms(1)] by (metis first_or_simps(2))
  then have nx: "next_of st (Some a) = Some (Some b)" by (simp add: next_of_def)
  let ?st = "st\<lparr>ed_lines := m\<rparr>"
  have t: "text_of ?st a = text_of st a" "text_of ?st b = 45 # 45 # v" using m(3) ne by simp_all
  obtain m' mb me where j: "join h (Some a) st = Some (True, ?st\<lparr>ed_lines := m', mark_begin := mb, mark_end := me\<rparr>)"
      "edit_ok (?st\<lparr>ed_lines := m'\<rparr>) (xs @ a # ys)" "text_of (?st\<lparr>ed_lines := m'\<rparr>) a = text_of st a @ 45 # 45 # v"
  proof -
    have "can_edit_begin ?st \<noteq> Some b" "can_edit_end ?st \<noteq> Some b" "can_edit_end st = can_edit_end ?st" using assms(3,4) by simp_all
    moreover have "length (text_of ?st a) + length (text_of ?st b) < 256" "int (length (text_of ?st a) + length (text_of ?st b)) < linelen ?st"
      using t assms(7,8) by simp_all
    ultimately show thesis using join_fits [OF m(2) assms(2) _ _ m(1) nx, of h] that unfolding t by blast
  qed
  let ?st' = "?st\<lparr>ed_lines := m', mark_begin := mb, mark_end := me\<rparr>"
  have "edit_ok ?st' (xs @ a # ys)" "text_of ?st' a = text_of st a @ 45 # 45 # v"
    using j(2,3) by (simp_all add: edit_ok_def text_of_def)
  then show ?thesis using j(1) by blast
qed

lemma killsp_text:
  assumes "x \<in> set t" and "x \<noteq> 32" and "0 \<notin> set t"
  shows "\<exists>s. killsp (t @ r) = Some s \<and> hd s \<noteq> 0"
  using assms by (induction t) auto

text \<open>Where a line is split between whole characters, at the cursor.\<close>

lemma split_at_cursor:
  assumes "alloc_ok h 280" and ok: "edit_ok st (xs @ a # ys)" and cur: "currline st = Some a" "currpnt st = int k"
    and k: "k \<le> length (text_of st a)" and plain: "27 \<notin> set (take k (text_of st a))" "whole_chars (take k (text_of st a))"
    and "can_edit_end st \<noteq> Some a"
  shows "\<exists>st1. split_at h (Some a) (int k) st = Some st1 \<and> edit_ok st1 (xs @ a # ed_fresh st # ys) \<and>
    text_of st1 = (text_of st)(a := take k (text_of st a), ed_fresh st := drop k (text_of st a)) \<and>
    currline st1 = Some (ed_fresh st) \<and> currpnt st1 = 0 \<and> curr_window_line st1 = curr_window_line st + 1 \<and>
    can_edit_begin st1 = can_edit_begin st \<and> can_edit_end st1 = can_edit_end st \<and> linelen st1 = linelen st"
proof -
  let ?t = "text_of st a" and ?p = "ed_fresh st"
  obtain l where l: "ed_lines st a = Some l" "line_fine l" "?t = cstr (tl_data l)" "tl_len l = int (length ?t)"
    using edit_okD [OF ok] by metis
  have tk: "take k (tl_data l) = take k ?t"
    using arg_cong [OF line_fine_prefix [OF l(2)], of "take k"] l(3) k by simp
  have sp: "split_pos l (int k) = Some (int k)"
    using split_pos_plain [of l k] l(2,3) line_fine_text [OF l(2)] k plain tk by (simp add: line_fine_def)
  obtain m where m: "split_at h (Some a) (int k) st = Some (after_split (Some a) ?p (int k) (st\<lparr>ed_lines := m, ed_fresh := Suc ?p,
        can_edit_end := (if can_edit_end st = Some a then Some ?p else can_edit_end st)\<rparr>))"
      "edit_ok (st\<lparr>ed_lines := m, ed_fresh := Suc ?p\<rparr>) (xs @ a # ?p # ys)"
      "text_of (st\<lparr>ed_lines := m\<rparr>) = (text_of st)(a := take k ?t, ?p := drop k ?t)"
    using split_at_spec [OF assms(1) ok l(1) sp _ k] l(4) k by (auto simp del: fun_upd_apply)
  let ?st = "after_split (Some a) ?p (int k) (st\<lparr>ed_lines := m, ed_fresh := Suc ?p,
        can_edit_end := (if can_edit_end st = Some a then Some ?p else can_edit_end st)\<rparr>)"
  have "edit_ok ?st (xs @ a # ?p # ys)" "text_of ?st = (text_of st)(a := take k ?t, ?p := drop k ?t)" using m(2,3) by simp_all
  moreover have "currline ?st = Some ?p" "currpnt ?st = 0" "curr_window_line ?st = curr_window_line st + 1"
      "can_edit_begin ?st = can_edit_begin st" "can_edit_end ?st = can_edit_end st" "linelen ?st = linelen st"
    using cur assms(8) by (simp_all add: after_split_def Let_def)
  ultimately show ?thesis using m(1) by blast
qed

text \<open>Claim C13: Enter between whole characters of a line, followed by Backspace, restores all lines and the cursor, when
  the rest of the line is not blank and does not begin with a dash.\<close>

theorem enter_then_backspace:
  assumes "alloc_ok h 280" and ok: "edit_ok st (xs @ a # ys)" and cur: "currline st = Some a" "currpnt st = int k" "0 \<le> curr_window_line st"
    and cb: "can_edit_begin st \<in> Some ` set (xs @ [a])" and ce: "can_edit_end st \<in> Some ` set ys"
    and k: "k \<le> length (text_of st a)" and plain: "27 \<notin> set (take k (text_of st a))" "whole_chars (take k (text_of st a))"
    and rest: "x \<in> set (drop k (text_of st a))" "x \<noteq> 32" "hd (drop k (text_of st a)) \<noteq> 45"
    and len: "int (length (text_of st a)) < linelen st"
  shows "\<exists>st1 st2. split_at h (Some a) (int k) st = Some st1 \<and> text_of st1 a = take k (text_of st a) \<and>
    key_backspace h st1 = Some st2 \<and> edit_ok st2 (xs @ a # ys) \<and> texts st2 (xs @ a # ys) = texts st (xs @ a # ys) \<and>
    currline st2 = Some a \<and> currpnt st2 = int k"
proof -
  let ?t = "text_of st a" and ?p = "ed_fresh st"
  have fresh: "?p \<notin> set (xs @ a # ys)" "distinct (xs @ a # ys)" "ys \<noteq> []" using ok ce by (auto simp: edit_ok_def)
  have bounds: "can_edit_begin st \<noteq> Some ?p" "can_edit_end st \<noteq> Some ?p" "can_edit_end st \<noteq> Some a" using cb ce fresh by auto
  obtain st1 where st1: "split_at h (Some a) (int k) st = Some st1" "edit_ok st1 (xs @ a # ?p # ys)"
      "text_of st1 = (text_of st)(a := take k ?t, ?p := drop k ?t)" "currline st1 = Some ?p" "currpnt st1 = 0"
      "curr_window_line st1 = curr_window_line st + 1" "can_edit_begin st1 = can_edit_begin st" "can_edit_end st1 = can_edit_end st"
      "linelen st1 = linelen st"
    using split_at_cursor [OF assms(1) ok cur(1,2) k plain bounds(3)] by blast
  have tx: "text_of st1 a = take k ?t" "text_of st1 ?p = drop k ?t" using st1(3) fresh(1) by auto
  have ok1: "edit_ok st1 ((xs @ [a]) @ ?p # ys)" using st1(2) by simp
  obtain la where la: "ed_lines st1 a = Some la" "tl_len la = int k" "tl_next la = Some ?p" "line_fine la" "tl_len la = int (length (text_of st1 a))"
    using edit_okD [OF st1(2)] tx(1) k by (metis first_or_simps(2) length_take min.absorb2)
  obtain lp where lp: "ed_lines st1 ?p = Some lp" "line_fine lp" "tl_prev lp = Some a" "text_of st1 ?p = cstr (tl_data lp)"
    using edit_okD [OF ok1] by (metis last_or_simps(3))
  obtain s where s: "killsp (tl_data lp) = Some s" "hd s \<noteq> 0"
    using killsp_text [OF rest(1,2), of "0 # drop (Suc (length (drop k ?t))) (tl_data lp)"] line_fine_split [OF lp(2)] lp(4) tx(2)
    by (metis cstr_no_nul)
  define st2 where "st2 = st1\<lparr>currln := currln st1 - 1, currline := Some a, currpnt := int k, curr_window_line := curr_window_line st\<rparr>"
  have same: "text_of st2 = text_of st1" "edit_ok st2 = edit_ok st1" by (simp_all add: st2_def text_of_def edit_ok_def fun_eq_iff)
  have "\<not> (\<exists>v. text_of st2 ?p = 45 # v)" using rest(3) tx(2) same(1) by auto
  then have touch: "touch_dash (Some ?p) st2 = Some (False, st2)" using touch_dash_plain ok1 same(2) by metis
  have nx: "next_of st2 (Some a) = Some (Some ?p)" using la by (simp add: next_of_def st2_def)
  have "edit_ok st2 (xs @ a # ?p # ys)" using st1(2) same(2) by simp
  moreover have "can_edit_begin st2 \<noteq> Some ?p" "can_edit_end st2 \<noteq> Some ?p" using bounds st1(7,8) by (simp_all add: st2_def)
  moreover have "length ?t < 256" using edit_okD [OF ok] line_fine_text by metis
  then have "length (text_of st2 a) + length (text_of st2 ?p) < 256"
      "int (length (text_of st2 a) + length (text_of st2 ?p)) < linelen st2"
    using tx same(1) k len st1(9) by (simp_all add: st2_def)
  ultimately obtain m mb me where m: "join h (Some a) st2 = Some (True, st2\<lparr>ed_lines := m, mark_begin := mb, mark_end := me\<rparr>)"
      "edit_ok (st2\<lparr>ed_lines := m\<rparr>) (xs @ a # ys)" "text_of (st2\<lparr>ed_lines := m\<rparr>) a = text_of st2 a @ text_of st2 ?p"
      "\<forall>c\<in>set xs \<union> set ys. text_of (st2\<lparr>ed_lines := m\<rparr>) c = text_of st2 c"
    using join_fits [OF _ fresh(3) _ _ touch nx refl, of xs h] by blast
  let ?st = "st2\<lparr>ed_lines := m, mark_begin := mb, mark_end := me, redraw_everything := True\<rparr>"
  have "join_loop h (\<lambda>_. None) (Some a) st2 = Some (st2\<lparr>ed_lines := m, mark_begin := mb, mark_end := me\<rparr>)"
    using m(1) by (subst join_loop.simps) simp
  moreover have "ed_lines st2 = ed_lines st1" by (simp add: st2_def)
  ultimately have "key_backspace h st1 = Some ?st"
    using st1(4-7) bounds(1) lp(1,3) la(1-3) s cur(3) by (simp add: key_backspace_def prev_of_def st2_def [symmetric])
  moreover have "text_of ?st = text_of (st2\<lparr>ed_lines := m\<rparr>)" "edit_ok ?st = edit_ok (st2\<lparr>ed_lines := m\<rparr>)"
    by (simp_all add: text_of_def edit_ok_def fun_eq_iff)
  moreover have "texts (st2\<lparr>ed_lines := m\<rparr>) (xs @ a # ys) = texts st (xs @ a # ys)"
    using m(3,4) same(1) st1(3) tx fresh by auto
  ultimately show ?thesis using st1(1) tx(1) m(2) by (intro exI [of _ st1] exI [of _ ?st]) (simp add: st2_def)
qed

text \<open>The characters of a text that are shown.\<close>

definition visible :: "buf \<Rightarrow> int" where
  "visible t = int (length t) - int (ans_chr_loop t False 0)"

lemma shown_len_visible: "line_fine l \<Longrightarrow> shown_len l = Some (visible (cstr (tl_data l)))"
  by (auto simp: shown_len_def num_ans_chr_def strlen_terminated line_fine_def visible_def takeWhile_eq_take [symmetric])

text \<open>Two lines with few visible characters but, with their escape sequences, 256 bytes or more are
  joined all the same, which writes behind the buffer of the line.\<close>

theorem join_ansi_overrun:
  assumes "edit_ok st (xs @ a # b # ys)" and "can_edit_end st \<noteq> Some b" and "\<not> (\<exists>v. text_of st b = 45 # v)"
    and "visible (text_of st a) + visible (text_of st b) < linelen st" and "256 \<le> length (text_of st a) + length (text_of st b)"
  shows "join h (Some a) st = None"
proof -
  have ok': "edit_ok st ((xs @ [a]) @ b # ys)" using assms(1) by simp
  obtain la where la: "ed_lines st a = Some la" "line_fine la" "text_of st a = cstr (tl_data la)" "tl_next la = Some b"
    using edit_okD [OF assms(1)] by (metis first_or_simps(2))
  obtain lb where lb: "ed_lines st b = Some lb" "line_fine lb" "text_of st b = cstr (tl_data lb)" using edit_okD [OF ok'] by metis
  have n: "strlen (tl_data la) = Some (length (text_of st a))" "strlen (tl_data lb) = Some (length (text_of st b))" "length (tl_data la) = 256"
      "length (tl_data lb) = 256" "length (text_of st b) < 256"
    using la(2,3) lb(2,3) line_fine_text [OF lb(2)] by (simp_all add: line_fine_def strlen_terminated)
  have "strcat (tl_data la) (tl_data lb) = None" using n assms(5) by (simp add: strcat_def mem_write_def)
  then have "join_short (Some a) la lb st = None" by (simp add: join_short_def)
  then show ?thesis
    using la lb assms(2,4) touch_dash_plain [OF ok' assms(3)] shown_len_visible [OF la(2)] shown_len_visible [OF lb(2)]
    by (subst join.simps) (simp add: next_of_def Let_def)
qed

section \<open>Going to a line\<close>

lemma edit_next:
  assumes "edit_ok st ps" and "Suc i < length ps"
  shows "next_of st (Some (ps ! i)) = Some (Some (ps ! Suc i))"
proof -
  have "ps = take i ps @ ps ! i # ps ! Suc i # drop (Suc (Suc i)) ps" using assms(2) by (metis Cons_nth_drop_Suc Suc_lessD append_take_drop_id)
  then have "edit_ok st (take i ps @ ps ! i # ps ! Suc i # drop (Suc (Suc i)) ps)" using assms(1) by metis
  then obtain l where "ed_lines st (ps ! i) = Some l" "tl_next l = Some (ps ! Suc i)" by (rule edit_okD) auto
  then show ?thesis by (simp add: next_of_def)
qed

lemma go_loop_spec:
  assumes "edit_ok st (ps @ [e])" and "can_edit_end st = Some e" and "i + k < length ps"
  shows "go_loop st n k (Some (ps ! i)) = Some (Some (ps ! (i + k)), n + int k)"
  using assms(3)
proof (induction k arbitrary: i n)
  case (Suc k)
  have "next_of st (Some (ps ! i)) = Some (Some (ps ! Suc i))"
    using edit_next [OF assms(1), of i] Suc.prems by (simp add: nth_append)
  moreover have "ps ! Suc i \<noteq> e" using assms(1) Suc.prems by (auto simp: edit_ok_def)
  ultimately show ?case using Suc.IH [of "Suc i" "n + 1"] Suc.prems assms(2) by simp
qed simp

text \<open>Going to line \<open>n\<close> of the text moves the cursor to that line, but sets the line number, which
  counts from 0, to \<open>n - 2\<close> instead of \<open>n - 1\<close>.\<close>

theorem goline_number_off:
  assumes "edit_ok st (ps @ [e])" and "can_edit_begin st = Some (hd ps)" and "can_edit_end st = Some e" and "1 \<le> n" and "n \<le> length ps"
  shows "\<exists>st'. goline (int n) st = Some st' \<and> currline st' = Some (ps ! (n - 1)) \<and> currln st' = int n - 2"
proof -
  have "hd ps = ps ! 0" using assms(4,5) by (cases ps) auto
  then have "go_loop st 1 (nat (int n - 1)) (can_edit_begin st) = Some (Some (ps ! (n - 1)), int n)"
    using go_loop_spec [OF assms(1,3), of 0 "n - 1" 1] assms(2,4,5) by (simp add: nat_diff_distrib')
  then show ?thesis using assms(4) by (simp add: goline_def)
qed

section \<open>Instances\<close>

definition line_with :: "lptr \<Rightarrow> lptr \<Rightarrow> buf \<Rightarrow> textline" where
  "line_with pv nx t = \<lparr>tl_prev = pv, tl_next = nx, tl_len = int (length t), tl_attr = 0, tl_data = t @ replicate (256 - length t) 0\<rparr>"

definition two_lines :: "buf \<Rightarrow> buf \<Rightarrow> editor" where
  "two_lines t u = no_text\<lparr>ed_lines := [0 \<mapsto> line_with None (Some 1) t, 1 \<mapsto> line_with (Some 0) (Some 2) u, 2 \<mapsto> line_with (Some 1) None []],
     ed_fresh := 3, firstline := Some 0, can_edit_begin := Some 0, can_edit_end := Some 2, top_of_win := Some 0, currline := Some 0, currpnt := 1\<rparr>"

lemma line_with_fine:
  assumes "length t < 256" and "0 \<notin> set t"
  shows "line_fine (line_with pv nx t) \<and> cstr (tl_data (line_with pv nx t)) = t"
proof (rule line_fineI)
  have "replicate (256 - length t) 0 = (0 :: byte) # replicate (255 - length t) 0"
    using assms(1) by (cases "256 - length t") auto
  then show "take (Suc (length t)) (tl_data (line_with pv nx t)) = t @ [0]" by (simp add: line_with_def)
qed (use assms in \<open>simp_all add: line_with_def\<close>)

lemma two_lines_ok:
  assumes "length t < 256" and "0 \<notin> set t" and "length u < 256" and "0 \<notin> set u"
  shows "edit_ok (two_lines t u) [0, 1, 2]" "text_of (two_lines t u) 0 = t" "text_of (two_lines t u) 1 = u"
proof -
  note f = line_with_fine [OF assms(1,2)] line_with_fine [OF assms(3,4)] line_with_fine [of "[]"]
  show "edit_ok (two_lines t u) [0, 1, 2]"
    using f by (simp add: edit_ok_def two_lines_def no_text_def) (simp add: line_with_def)
  show "text_of (two_lines t u) 0 = t" "text_of (two_lines t u) 1 = u" using f by (simp_all add: text_of_def two_lines_def no_text_def)
qed

lemma two_lines_fields:
  "currline (two_lines t u) = Some 0" "currpnt (two_lines t u) = 1" "can_edit_begin (two_lines t u) = Some 0" "can_edit_end (two_lines t u) = Some 2"
  "linelen (two_lines t u) = 255" "insert_character (two_lines t u)" "enabledbchar (two_lines t u)" "curr_window_line (two_lines t u) = 0"
  by (simp_all add: two_lines_def no_text_def WRAPMARGIN_def)

theorem split_at_text_witness:
  "\<exists>st' j. split_at heap_total (Some 0) 1 (two_lines [97, 98] [99]) = Some st' \<and> j \<le> 1 \<and>
    texts st' [0, 3, 1] = [take j [97, 98], drop j [97, 98], [99]]"
proof -
  let ?st = "two_lines [97, 98] [99]"
  have ok: "edit_ok ?st ([] @ 0 # [1, 2])" "text_of ?st 0 = [97, 98]" "text_of ?st 1 = [99]" using two_lines_ok [of "[97, 98]" "[99]"] by simp_all
  have "ed_fresh ?st = 3" by (simp add: two_lines_def)
  then show ?thesis using split_at_text [OF _ ok(1), of heap_total 1] ok(2,3) by (auto simp: heap_total_def)
qed


theorem delete_char_overrun_witness: "delete_char (two_lines (replicate 255 0xb0) []) = None"
proof -
  let ?st = "two_lines (replicate 255 0xb0) []"
  have ok: "edit_ok ?st ([] @ 0 # [1, 2])" "text_of ?st 0 = replicate 255 0xb0"
    using two_lines_ok [of "replicate 255 0xb0" "[]"] by simp_all
  have "erase_span True (replicate 255 0xb0) 1 = (0, 2)" by code_simp
  then show ?thesis using delete_char_overrun [OF ok(1) two_lines_fields(1), of 1 0] ok(2) by (simp add: two_lines_fields)
qed

theorem join_overwrites_dash_witness:
  "\<exists>st'. join heap_total (Some 0) (two_lines [97] [45, 120, 121]) = Some (True, st') \<and> text_of st' 0 = [97, 45, 45, 121]"
proof -
  let ?st = "two_lines [97] [45, 120, 121]"
  have ok: "edit_ok ?st ([] @ 0 # 1 # [2])" "text_of ?st 0 = [97]" "text_of ?st 1 = [45, 120, 121]"
    using two_lines_ok [of "[97]" "[45, 120, 121]"] by simp_all
  show ?thesis using join_overwrites_dash [OF ok(1), of 120 "[121]" heap_total] ok(2,3) by (auto simp: two_lines_fields)
qed

lemma escape_hidden: "ans_chr_loop (replicate n 48) True m = m + n"
  by (induction n arbitrary: m) (simp_all add: lit_def)

theorem join_ansi_overrun_witness: "join heap_total (Some 0) (two_lines (27 # replicate 199 48) (27 # replicate 99 48)) = None"
proof -
  let ?t = "27 # replicate 199 48" and ?u = "27 # replicate 99 48"
  have ok: "edit_ok (two_lines ?t ?u) ([] @ 0 # 1 # [2])" "text_of (two_lines ?t ?u) 0 = ?t" "text_of (two_lines ?t ?u) 1 = ?u"
    using two_lines_ok [of ?t ?u] by simp_all
  have "visible ?t = 0" "visible ?u = 0" by (simp_all add: visible_def escape_hidden)
  then show ?thesis using join_ansi_overrun [OF ok(1), of heap_total] ok(2,3) by (simp add: two_lines_fields)
qed

theorem enter_then_backspace_witness:
  "\<exists>st1 st2. split_at heap_total (Some 0) 1 (two_lines [97, 98] []) = Some st1 \<and> text_of st1 0 = [97] \<and>
    key_backspace heap_total st1 = Some st2 \<and> text_of st2 0 = [97, 98] \<and> currpnt st2 = 1"
proof -
  let ?st = "two_lines [97, 98] []"
  have ok: "edit_ok ?st ([] @ 0 # [1, 2])" "text_of ?st 0 = [97, 98]" using two_lines_ok [of "[97, 98]" "[]"] by simp_all
  have "whole_chars [97]" by code_simp
  then show ?thesis
    using enter_then_backspace [OF _ ok(1) two_lines_fields(1), of heap_total 1 98] ok(2) by (auto simp: two_lines_fields heap_total_def)
qed

theorem goline_number_off_witness:
  "\<exists>st'. goline 2 (two_lines [97] [98]) = Some st' \<and> currline st' = Some 1 \<and> currln st' = 0"
proof -
  have "edit_ok (two_lines [97] [98]) ([0, 1] @ [2])" using two_lines_ok [of "[97]" "[98]"] by simp
  from goline_number_off [OF this, of 2] show ?thesis by (simp add: two_lines_fields)
qed

end
