(* ===== verification/FB_EditCursor.thy ===== *)
theory FB_EditCursor
  imports FB_EditJoin
begin

text \<open>
  The cursor of the editor: moving it changes no text and keeps it inside the part that can be edited.
\<close>

text \<open>The lines before the editable part, the editable lines, the line that ends them and the lines behind it.\<close>

definition editable :: "editor \<Rightarrow> nat list \<Rightarrow> nat list \<Rightarrow> nat \<Rightarrow> nat list \<Rightarrow> bool" where
  "editable st pre mid e post \<longleftrightarrow> edit_ok st (pre @ mid @ e # post) \<and> mid \<noteq> [] \<and> can_edit_begin st = Some (hd mid) \<and> can_edit_end st = Some e"

definition cursor_in :: "editor \<Rightarrow> nat list \<Rightarrow> bool" where
  "cursor_in st mid \<longleftrightarrow> (\<exists>i<length mid. currline st = Some (mid ! i) \<and> 0 \<le> currpnt st \<and> currpnt st \<le> int (length (text_of st (mid ! i))))"

text \<open>The keys for one step, for the ends of a line and for the start of the text.\<close>

definition step_keys :: "int set" where
  "step_keys = {KEY_LEFT, 22, KEY_RIGHT, 16, KEY_UP, 14, KEY_DOWN, 1, KEY_HOME, 5, KEY_END, 19}"

lemmas key_defs = KEY_LEFT_def KEY_RIGHT_def KEY_UP_def KEY_DOWN_def KEY_HOME_def KEY_END_def KEY_PGUP_def KEY_PGDN_def

lemma editable_line:
  assumes "editable st pre mid e post" and "i < length mid"
  obtains l where "ed_lines st (mid ! i) = Some l" "tl_len l = int (length (text_of st (mid ! i)))"
    "0 < i \<longrightarrow> tl_prev l = Some (mid ! (i - 1))" "tl_next l = Some (if Suc i < length mid then mid ! Suc i else e)"
proof -
  have ok: "edit_ok st ((pre @ take i mid) @ mid ! i # (drop (Suc i) mid @ e # post))"
    using assms(1) arg_cong [OF id_take_nth_drop [OF assms(2)], of "\<lambda>m. pre @ m @ e # post"] by (simp add: editable_def)
  have pv: "last_or None (pre @ take i mid) = Some (mid ! (i - 1))" if "0 < i"
  proof -
    have "take i mid \<noteq> []" using that assms(2) by auto
    moreover have "List.last (take i mid) = mid ! (i - 1)" using that assms(2) by (cases i) (simp_all add: take_Suc_conv_app_nth)
    ultimately show ?thesis by (simp add: last_or_def)
  qed
  have nx: "first_or (drop (Suc i) mid @ e # post) None = Some (if Suc i < length mid then mid ! Suc i else e)"
    using Cons_nth_drop_Suc [of "Suc i" mid, symmetric] by simp
  show thesis using edit_okD [OF ok] pv nx that by metis
qed

lemma editable_distinct:
  assumes "editable st pre mid e post" and "i < length mid"
  shows "mid ! i = hd mid \<longleftrightarrow> i = 0" "mid ! i \<noteq> e"
proof -
  have d: "distinct mid" "e \<notin> set mid" using assms(1) by (auto simp: editable_def edit_ok_def)
  then show "mid ! i = hd mid \<longleftrightarrow> i = 0" using assms(2) by (cases mid) (auto simp: nth_Cons split: nat.splits)
  show "mid ! i \<noteq> e" using d(2) assms(2) by auto
qed

lemma cursor_inI:
  "i < length mid \<Longrightarrow> currline st' = Some (mid ! i) \<Longrightarrow> 0 \<le> currpnt st' \<Longrightarrow> currpnt st' \<le> int (length (text_of st (mid ! i))) \<Longrightarrow>
   ed_lines st' = ed_lines st \<Longrightarrow> cursor_in st' mid"
  by (auto simp: cursor_in_def text_of_def)

text \<open>What a key leaves as it is, with the cursor inside the editable lines.\<close>

definition moved :: "nat list \<Rightarrow> editor \<Rightarrow> editor \<Rightarrow> bool" where
  "moved mid st st' \<longleftrightarrow> ed_lines st' = ed_lines st \<and> can_edit_begin st' = can_edit_begin st \<and> can_edit_end st' = can_edit_end st \<and>
     firstline st' = firstline st \<and> ed_fresh st' = ed_fresh st \<and> cursor_in st' mid"

lemma moved_editable: "moved mid st st' \<Longrightarrow> editable st pre mid e post \<Longrightarrow> editable st' pre mid e post"
  by (auto simp: moved_def editable_def edit_ok_def)

text \<open>The cursor is in line \<open>i\<close>, whose record is \<open>l\<close>.\<close>

definition cursor_at :: "editor \<Rightarrow> nat list \<Rightarrow> nat \<Rightarrow> textline \<Rightarrow> bool" where
  "cursor_at st mid i l \<longleftrightarrow>
     i < length mid \<and> currline st = Some (mid ! i) \<and> 0 \<le> currpnt st \<and> currpnt st \<le> tl_len l \<and>
     tl_len l = int (length (text_of st (mid ! i))) \<and> line_at st (currline st) = Some l \<and>
     (0 < i \<longrightarrow> tl_prev l = Some (mid ! (i - 1))) \<and> (Suc i < length mid \<longrightarrow> tl_next l = Some (mid ! Suc i)) \<and> tl_next l \<noteq> None \<and>
     (currline st = can_edit_begin st \<longleftrightarrow> i = 0) \<and> (tl_next l = can_edit_end st \<longleftrightarrow> \<not> Suc i < length mid)"

lemma cursor_at_exists:
  assumes "editable st pre mid e post" and "cursor_in st mid"
  obtains i l where "cursor_at st mid i l"
proof -
  obtain i where i: "i < length mid" "currline st = Some (mid ! i)" "0 \<le> currpnt st" "currpnt st \<le> int (length (text_of st (mid ! i)))"
    using assms(2) by (auto simp: cursor_in_def)
  obtain l where l: "ed_lines st (mid ! i) = Some l" "tl_len l = int (length (text_of st (mid ! i)))"
    "0 < i \<longrightarrow> tl_prev l = Some (mid ! (i - 1))" "tl_next l = Some (if Suc i < length mid then mid ! Suc i else e)"
    using editable_line [OF assms(1) i(1)] .
  have ends: "can_edit_begin st = Some (hd mid)" "can_edit_end st = Some e" using assms(1) by (auto simp: editable_def)
  have "currline st = can_edit_begin st \<longleftrightarrow> i = 0" using editable_distinct(1) [OF assms(1) i(1)] i(2) ends(1) by simp
  moreover have "tl_next l = can_edit_end st \<longleftrightarrow> \<not> Suc i < length mid"
    using editable_distinct(2) [OF assms(1), of "Suc i"] l(4) ends(2) by auto
  ultimately have "cursor_at st mid i l" using i l by (simp add: cursor_at_def)
  then show thesis by (rule that)
qed

lemma cursor_atD:
  assumes "cursor_at st mid i l"
  shows "i < length mid" "currline st = Some (mid ! i)" "0 \<le> currpnt st" "currpnt st \<le> tl_len l"
    "tl_len l = int (length (text_of st (mid ! i)))" "line_at st (currline st) = Some l"
    "0 < i \<Longrightarrow> tl_prev l = Some (mid ! (i - 1))" "Suc i < length mid \<Longrightarrow> tl_next l = Some (mid ! Suc i)" "tl_next l \<noteq> None"
    "currline st = can_edit_begin st \<longleftrightarrow> i = 0" "tl_next l = can_edit_end st \<longleftrightarrow> \<not> Suc i < length mid"
  using assms by (auto simp: cursor_at_def)

lemma moved_self: "cursor_in st mid \<Longrightarrow> moved mid st st"
  by (simp add: moved_def)

lemma movedI:
  "i < length mid \<Longrightarrow> currline st' = Some (mid ! i) \<Longrightarrow> 0 \<le> currpnt st' \<Longrightarrow> currpnt st' \<le> int (length (text_of st (mid ! i))) \<Longrightarrow>
   ed_lines st' = ed_lines st \<Longrightarrow> can_edit_begin st' = can_edit_begin st \<Longrightarrow> can_edit_end st' = can_edit_end st \<Longrightarrow>
   firstline st' = firstline st \<Longrightarrow> ed_fresh st' = ed_fresh st \<Longrightarrow> moved mid st st'"
  using cursor_inI by (simp add: moved_def)

lemma key_updown_in:
  assumes "editable st pre mid e post" and "i < length mid" and "0 \<le> lastindent st"
  shows "\<exists>st'. key_updown d (Some (mid ! i)) st = Some st' \<and> moved mid st st'"
proof -
  obtain l where l: "ed_lines st (mid ! i) = Some l" "tl_len l = int (length (text_of st (mid ! i)))"
    using editable_line [OF assms(1,2)] by metis
  let ?st = "st\<lparr>currln := currln st + d, curr_window_line := curr_window_line st + d, currline := Some (mid ! i),
    currpnt := (if tl_len l > lastindent st then lastindent st else tl_len l)\<rparr>"
  have "moved mid st ?st" using assms(2,3) l(2) by (intro movedI [of i]) simp_all
  then show ?thesis using l(1) by (intro exI [of _ ?st]) (simp add: key_updown_def)
qed

lemma key_left_in:
  assumes "editable st pre mid e post" and "cursor_in st mid" and "cursor_at st mid i l"
  shows "\<exists>st'. key_cursor rows KEY_LEFT st = Some st' \<and> moved mid st st'"
proof -
  note at = cursor_atD [OF assms(3)]
  consider "currpnt st > 0" | "currpnt st = 0" "i = 0" | "currpnt st = 0" "0 < i" using at(3) by linarith
  then show ?thesis
  proof cases
    case 1
    let ?st = "st\<lparr>currpnt := currpnt st - 1\<rparr>"
    have "moved mid st ?st" using at(1-5) 1 by (intro movedI [of i]) simp_all
    then show ?thesis using 1 at(6) by (intro exI [of _ ?st]) (simp add: key_cursor_def)
  next
    case 2
    then show ?thesis using moved_self [OF assms(2)] at(6,10) by (intro exI [of _ st]) (simp add: key_cursor_def)
  next
    case 3
    obtain v where v: "ed_lines st (mid ! (i - 1)) = Some v" "tl_len v = int (length (text_of st (mid ! (i - 1))))"
      using editable_line [OF assms(1), of "i - 1"] at(1) by (metis less_imp_diff_less)
    let ?st = "st\<lparr>curr_window_line := curr_window_line st - 1, currln := currln st - 1, currline := tl_prev l, currpnt := tl_len v\<rparr>"
    have "moved mid st ?st" using at(1,7) 3 v(2) by (intro movedI [of "i - 1"]) simp_all
    moreover have "key_cursor rows KEY_LEFT st = Some ?st" using 3 at(6,7,10) v(1) by (simp add: key_cursor_def)
    ultimately show ?thesis by blast
  qed
qed

lemma key_right_in:
  assumes "cursor_in st mid" and "cursor_at st mid i l" and "ch = 22 \<or> ch = KEY_RIGHT"
  shows "\<exists>st'. key_cursor rows ch st = Some st' \<and> moved mid st st'"
proof -
  note at = cursor_atD [OF assms(2)]
  consider "tl_len l \<noteq> currpnt st" | "tl_len l = currpnt st" "Suc i < length mid" | "tl_len l = currpnt st" "\<not> Suc i < length mid" by blast
  then show ?thesis
  proof cases
    case 1
    let ?st = "st\<lparr>currpnt := currpnt st + 1\<rparr>"
    have "moved mid st ?st" using at(1-5) 1 by (intro movedI [of i]) simp_all
    moreover have "key_cursor rows ch st = Some ?st" using assms(3) at(6) 1 by (elim disjE) (simp_all add: key_cursor_def key_defs)
    ultimately show ?thesis by blast
  next
    case 2
    let ?st = "st\<lparr>currpnt := 0, curr_window_line := curr_window_line st + 1, currln := currln st + 1, currline := tl_next l\<rparr>"
    have "moved mid st ?st" using 2 at(8) by (intro movedI [of "Suc i"]) simp_all
    moreover have "key_cursor rows ch st = Some ?st"
      using assms(3) at(6,9,11) 2 by (elim disjE) (simp_all add: key_cursor_def key_defs)
    ultimately show ?thesis by blast
  next
    case 3
    then have "key_cursor rows ch st = Some st" using assms(3) at(6,11) by (elim disjE) (simp_all add: key_cursor_def key_defs)
    then show ?thesis using moved_self [OF assms(1)] by blast
  qed
qed

lemma key_up_in:
  assumes "editable st pre mid e post" and "cursor_in st mid" and "cursor_at st mid i l" and "0 \<le> lastindent st" and "ch = 16 \<or> ch = KEY_UP"
  shows "\<exists>st'. key_cursor rows ch st = Some st' \<and> moved mid st st'"
proof (cases "i = 0")
  note at = cursor_atD [OF assms(3)]
  case True
  then have "currline st = can_edit_begin st" using at(10) by simp
  then have "key_cursor rows ch st = Some st" using assms(5) at(6) by (elim disjE) (simp_all add: key_cursor_def key_defs)
  then show ?thesis using moved_self [OF assms(2)] by blast
next
  note at = cursor_atD [OF assms(3)]
  case False
  obtain st' where st': "key_updown (-1) (Some (mid ! (i - 1))) st = Some st'" "moved mid st st'"
    using key_updown_in [OF assms(1) less_imp_diff_less [OF at(1)] assms(4)] by blast
  have "currline st \<noteq> can_edit_begin st" "tl_prev l = Some (mid ! (i - 1))" using at(7,10) False by simp_all
  then have "key_cursor rows ch st = Some st'" using assms(5) at(6) st'(1) by (elim disjE) (simp_all add: key_cursor_def key_defs)
  then show ?thesis using st'(2) by blast
qed

lemma key_down_in:
  assumes "editable st pre mid e post" and "cursor_in st mid" and "cursor_at st mid i l" and "0 \<le> lastindent st" and "ch = 14 \<or> ch = KEY_DOWN"
  shows "\<exists>st'. key_cursor rows ch st = Some st' \<and> moved mid st st'"
proof (cases "Suc i < length mid")
  note at = cursor_atD [OF assms(3)]
  case False
  then have "key_cursor rows ch st = Some st" using assms(5) at(6,11) by (elim disjE) (simp_all add: key_cursor_def key_defs)
  then show ?thesis using moved_self [OF assms(2)] by blast
next
  note at = cursor_atD [OF assms(3)]
  case True
  obtain st' where st': "key_updown 1 (Some (mid ! Suc i)) st = Some st'" "moved mid st st'"
    using key_updown_in [OF assms(1) True assms(4)] by blast
  have "tl_next l \<noteq> can_edit_end st" "tl_next l = Some (mid ! Suc i)" using at(8,11) True by simp_all
  then have "key_cursor rows ch st = Some st'" using assms(5) at(6) st'(1) by (elim disjE) (simp_all add: key_cursor_def key_defs)
  then show ?thesis using st'(2) by blast
qed

text \<open>The ends of a line and the start of the text.\<close>

lemma key_ends_in:
  assumes "editable st pre mid e post" and "cursor_at st mid i l" and "ch = 1 \<or> ch = KEY_HOME \<or> ch = 5 \<or> ch = KEY_END \<or> ch = 19"
  shows "\<exists>st'. key_cursor rows ch st = Some st' \<and> moved mid st st'"
proof -
  note at = cursor_atD [OF assms(2)]
  have ends: "can_edit_begin st = Some (hd mid)" "mid \<noteq> []" using assms(1) by (auto simp: editable_def)
  let ?home = "st\<lparr>currpnt := 0\<rparr>" and ?stop = "st\<lparr>currpnt := tl_len l\<rparr>"
    and ?top = "st\<lparr>top_of_win := can_edit_begin st, currline := can_edit_begin st, currpnt := 0, curr_window_line := 0, currln := 0,
          redraw_everything := True\<rparr>"
  have "moved mid st ?home" "moved mid st ?stop" using at(1-5) by (auto intro!: movedI [of i])
  moreover have "moved mid st ?top" using ends by (intro movedI [of 0]) (simp_all add: hd_conv_nth)
  moreover have "key_cursor rows ch st = Some (if ch = 19 then ?top else if ch = 1 \<or> ch = KEY_HOME then ?home else ?stop)"
    using assms(3) at(6) by (elim disjE) (simp_all add: key_cursor_def key_defs)
  ultimately show ?thesis by simp
qed



end
