(* ===== verification/FB_Menu.thy ===== *)
theory FB_Menu
  imports FB_Input
begin

text \<open>
  The menus: their configuration (\<open>lib/sysconf.c\<close>), which is parsed once and kept as an image file, and the menu
  on the screen (\<open>src/comm_lists.c\<close>).  Pointers into the string buffer are addresses; the buffer starts at
  \<open>cf_base\<close>.
\<close>

definition SC_BUFSIZE :: nat where "SC_BUFSIZE = 20480"
definition SC_KEYSIZE :: nat where "SC_KEYSIZE = 256"
definition SC_CMDSIZE :: nat where "SC_CMDSIZE = 256"

record menuitem_t =
  mi_line :: int
  mi_col :: int
  mi_level :: int
  mi_name :: int
  mi_desc :: int
  mi_arg :: int
  mi_func :: int

record sdefine =
  sd_key :: int
  sd_str :: int
  sd_val :: int

text \<open>The counts of items and keys are the lengths of the lists.\<close>

record sysconf_t =
  cf_base :: int
  cf_buf :: buf
  cf_item :: "menuitem_t list"
  cf_var :: "sdefine list"
  cf_len :: nat

text \<open>The string at an address.\<close>

definition string_at :: "sysconf_t \<Rightarrow> int \<Rightarrow> buf option" where
  "string_at conf p =
     (if p < cf_base conf then None
      else do {
        n \<leftarrow> strlen (drop (nat (p - cf_base conf)) (cf_buf conf));
        Some (take n (drop (nat (p - cf_base conf)) (cf_buf conf)))
      })"

section \<open>Strings and keys\<close>

text \<open>A string is copied to the end of the used part; a used part beyond the buffer makes the room a huge number.\<close>

definition store_at :: "buf \<Rightarrow> sysconf_t \<Rightarrow> (buf \<times> nat) option" where
  "store_at str conf =
     (if cf_len conf > SC_BUFSIZE then None else strlcpy (drop (cf_len conf) (cf_buf conf)) str (SC_BUFSIZE - cf_len conf))"

definition sysconf_addstr :: "buf \<Rightarrow> sysconf_t \<Rightarrow> (int \<times> sysconf_t) option" where
  "sysconf_addstr str conf = do {
     (tail, n) \<leftarrow> store_at str conf;
     let len = cf_len conf + n + 1;
     Some (cf_base conf + int (cf_len conf),
       conf\<lparr>cf_buf := take (cf_len conf) (cf_buf conf) @ tail, cf_len := (if len > SC_BUFSIZE then SC_BUFSIZE else len)\<rparr>)
   }"

fun find_var :: "sysconf_t \<Rightarrow> buf \<Rightarrow> sdefine list \<Rightarrow> sdefine option option" where
  "find_var conf key [] = Some None"
| "find_var conf key (v # vs) = do {
     s \<leftarrow> string_at conf (sd_key v);
     (if cstr key = s then Some (Some v) else find_var conf key vs)
   }"

definition sysconf_str :: "sysconf_t \<Rightarrow> buf \<Rightarrow> int option option" where
  "sysconf_str conf key = do { v \<leftarrow> find_var conf key (cf_var conf); Some (map_option sd_str v) }"

text \<open>\<open>strtol\<close> with the base taken from the prefix, and with base 10.\<close>

definition digit_value :: "byte \<Rightarrow> nat" where
  "digit_value c =
     (if isdigit (uint c) then unat c - 48
      else if isupper (uint c) then unat c - 55
      else if islower (uint c) then unat c - 87
      else 99)"

fun digits_value :: "nat \<Rightarrow> buf \<Rightarrow> int \<Rightarrow> int" where
  "digits_value b [] n = n"
| "digits_value b (c # s) n = (if digit_value c < b then digits_value b s (int b * n + int (digit_value c)) else n)"

definition to_long :: "int \<Rightarrow> int" where
  "to_long n = (if n > 2 ^ 63 - 1 then 2 ^ 63 - 1 else if n < - (2 ^ 63) then - (2 ^ 63) else n)"

definition strtol_prefix :: "buf \<Rightarrow> int" where
  "strtol_prefix key =
     (let s = dropWhile (\<lambda>c. isspace (uint c)) (cstr key);
          neg = (s \<noteq> [] \<and> hd s = 45);
          s = (if s \<noteq> [] \<and> (hd s = 43 \<or> hd s = 45) then tl s else s);
          n = (if s \<noteq> [] \<and> hd s = 48 then
                 if length s \<ge> 3 \<and> (s ! 1 = 120 \<or> s ! 1 = 88) \<and> digit_value (s ! 2) < 16 then digits_value 16 (drop 2 s) 0
                 else digits_value 8 s 0
               else digits_value 10 s 0) in
      to_long (if neg then - n else n))"

definition atoi :: "buf \<Rightarrow> int" where
  "atoi str =
     (let s = dropWhile (\<lambda>c. isspace (uint c)) (cstr str);
          neg = (s \<noteq> [] \<and> hd s = 45);
          n = digits_value 10 (if s \<noteq> [] \<and> (hd s = 43 \<or> hd s = 45) then tl s else s) 0 in
      to_int (to_long (if neg then - n else n)))"

definition sysconf_eval :: "buf \<Rightarrow> sysconf_t \<Rightarrow> int option" where
  "sysconf_eval key conf = do {
     v \<leftarrow> find_var conf key (cf_var conf);
     Some (case v of Some v \<Rightarrow> sd_val v | None \<Rightarrow> to_int (strtol_prefix key))
   }"

definition sysconf_addkey :: "buf \<Rightarrow> buf option \<Rightarrow> int \<Rightarrow> sysconf_t \<Rightarrow> sysconf_t option" where
  "sysconf_addkey key str val conf =
     (if length (cf_var conf) < SC_KEYSIZE then do {
        (p, conf) \<leftarrow> (case str of None \<Rightarrow> Some (cf_base conf, conf) | Some s \<Rightarrow> sysconf_addstr s conf);
        (k, conf) \<leftarrow> sysconf_addstr key conf;
        Some (conf\<lparr>cf_var := cf_var conf @ [\<lparr>sd_key = k, sd_str = p, sd_val = val\<rparr>]\<rparr>)
      } else Some conf)"

section \<open>The configuration file\<close>

definition menu_arg :: "buf \<Rightarrow> buf" where
  "menu_arg t =
     (let s = dropWhile (\<lambda>c. c = 32 \<or> c = 9) t in
      if s \<noteq> [] \<and> hd s = 34 then takeWhile (\<lambda>c. c \<noteq> 34) (tl s) else takeWhile (\<lambda>c. c \<noteq> 32 \<and> c \<noteq> 9) s)"

fun menu_args :: "nat \<Rightarrow> buf \<Rightarrow> buf list" where
  "menu_args 0 s = []"
| "menu_args (Suc n) s =
     (case strtok [44, 10] s of None \<Rightarrow> replicate (Suc n) [] | Some (t, r) \<Rightarrow> menu_arg t # menu_args n r)"

text \<open>There is no check that the array of items has room.\<close>

definition add_item :: "menuitem_t \<Rightarrow> sysconf_t \<Rightarrow> sysconf_t option" where
  "add_item m conf = (if length (cf_item conf) < SC_CMDSIZE then Some (conf\<lparr>cf_item := cf_item conf @ [m]\<rparr>) else None)"

definition menu_item :: "buf \<Rightarrow> buf list \<Rightarrow> sysconf_t \<Rightarrow> sysconf_t option" where
  "menu_item cmd arg conf = do {
     line \<leftarrow> sysconf_eval (arg ! 0 @ [0]) conf;
     col \<leftarrow> sysconf_eval (arg ! 1 @ [0]) conf;
     (if cmd \<noteq> [] \<and> (hd cmd = 64 \<or> hd cmd = 33) then do {
        level \<leftarrow> sysconf_eval (arg ! 2 @ [0]) conf;
        (name, conf) \<leftarrow> sysconf_addstr (arg ! 3 @ [0]) conf;
        (desc, conf) \<leftarrow> sysconf_addstr (arg ! 4 @ [0]) conf;
        (if hd cmd = 64 then do {
           (func, conf) \<leftarrow> sysconf_addstr (tl cmd @ [0]) conf;
           add_item \<lparr>mi_line = line, mi_col = col, mi_level = level, mi_name = name, mi_desc = desc, mi_arg = name, mi_func = func\<rparr> conf
         } else do {
           (func, conf) \<leftarrow> sysconf_addstr (lit ''domenu'' @ [0]) conf;
           (a, conf) \<leftarrow> sysconf_addstr (tl cmd @ [0]) conf;
           add_item \<lparr>mi_line = line, mi_col = col, mi_level = level, mi_name = name, mi_desc = desc, mi_arg = a, mi_func = func\<rparr> conf
         })
      } else do {
        (name, conf) \<leftarrow> sysconf_addstr (cmd @ [0]) conf;
        (desc, conf) \<leftarrow> sysconf_addstr (arg ! 2 @ [0]) conf;
        add_item \<lparr>mi_line = line, mi_col = col, mi_level = -2, mi_name = name, mi_desc = desc, mi_arg = cf_base conf, mi_func = cf_base conf\<rparr> conf
      })
   }"

text \<open>The items up to the next line with a percent sign or the end of the file; \<open>old\<close> is what the last entry's
  line and column hold.\<close>

partial_function (option) menu_loop :: "int \<times> int \<Rightarrow> buf \<Rightarrow> sysconf_t \<Rightarrow> (buf \<times> sysconf_t) option" where
  "menu_loop old src conf =
     (case fgets 256 [] src of
        None \<Rightarrow> do {
          conf \<leftarrow> add_item \<lparr>mi_line = fst old, mi_col = snd old, mi_level = -1, mi_name = cf_base conf, mi_desc = cf_base conf,
            mi_arg = cf_base conf, mi_func = cf_base conf\<rparr> conf;
          Some (src, conf)
        }
      | Some (b, src) \<Rightarrow> do {
          c \<leftarrow> rd b 0;
          (if c = 37 then do {
             conf \<leftarrow> add_item \<lparr>mi_line = fst old, mi_col = snd old, mi_level = -1, mi_name = cf_base conf, mi_desc = cf_base conf,
               mi_arg = cf_base conf, mi_func = cf_base conf\<rparr> conf;
             Some (src, conf)
           } else case strtok [32, 9, 10] b of
               None \<Rightarrow> menu_loop old src conf
             | Some (cmd, r) \<Rightarrow>
                 if hd cmd = 35 then menu_loop old src conf
                 else do { conf \<leftarrow> menu_item cmd (menu_args 5 r) conf; menu_loop old src conf })
        })"

definition sysconf_addmenu :: "int \<times> int \<Rightarrow> buf \<Rightarrow> buf \<Rightarrow> sysconf_t \<Rightarrow> (buf \<times> sysconf_t) option" where
  "sysconf_addmenu old src key conf = do {
     conf \<leftarrow> sysconf_addkey key (Some (lit ''menu'' @ [0])) (int (length (cf_item conf))) conf;
     menu_loop old src conf
   }"

text \<open>Run-length encoding in place: \<open>i\<close> reads, \<open>j\<close> writes.\<close>

fun run_len :: "buf \<Rightarrow> byte \<Rightarrow> nat \<Rightarrow> nat \<Rightarrow> nat \<Rightarrow> (nat \<times> nat) option" where
  "run_len b ch 0 i n = Some (i, n)"
| "run_len b ch (Suc fuel) i n = do { c \<leftarrow> rd b i; (if c = ch \<and> n < 100 then run_len b ch fuel (Suc i) (Suc n) else Some (i, n)) }"

text \<open>Three more bytes like the one just read; a byte that differs ends the test.\<close>

definition run_starts :: "buf \<Rightarrow> byte \<Rightarrow> nat \<Rightarrow> bool option" where
  "run_starts b ch i = do {
     c \<leftarrow> rd b i;
     (if c \<noteq> ch then Some False
      else do { c \<leftarrow> rd b (i + 1); (if c \<noteq> ch then Some False else do { c \<leftarrow> rd b (i + 2); Some (c = ch) }) })
   }"

partial_function (option) encode_loop :: "buf \<Rightarrow> nat \<Rightarrow> nat \<Rightarrow> buf option" where
  "encode_loop b i j = do {
     ch \<leftarrow> rd b i;
     (if ch = 0 then wr b j 0
      else do {
        run \<leftarrow> run_starts b ch (i + 1);
        (if run then do {
           (i, n) \<leftarrow> run_len b ch 96 (i + 4) 4;
           b \<leftarrow> wr b j 1;
           b \<leftarrow> wr b (j + 1) ch;
           b \<leftarrow> wr b (j + 2) (word_of_nat n);
           encode_loop b i (j + 3)
         } else do { b \<leftarrow> wr b j ch; encode_loop b (i + 1) (j + 1) })
      })
   }"

definition encodestr :: "buf \<Rightarrow> buf option" where
  "encodestr b = encode_loop b 0 0"

partial_function (option) block_loop :: "buf \<Rightarrow> sysconf_t \<Rightarrow> (buf \<times> sysconf_t) option" where
  "block_loop src conf =
     (case fgets 256 [] src of
        None \<Rightarrow> Some (src, conf)
      | Some (b, src) \<Rightarrow> do {
          c \<leftarrow> rd b 0;
          (if c = 37 then Some (src, conf)
           else do {
             b \<leftarrow> encodestr b;
             (tail, n) \<leftarrow> store_at b conf;
             block_loop src (conf\<lparr>cf_buf := take (cf_len conf) (cf_buf conf) @ tail, cf_len := cf_len conf + n\<rparr>)
           })
        })"

partial_function (option) skip_block :: "buf \<Rightarrow> buf option" where
  "skip_block src =
     (case fgets 256 [] src of
        None \<Rightarrow> Some src
      | Some (b, src) \<Rightarrow> do { c \<leftarrow> rd b 0; (if c = 37 then Some src else skip_block src) })"

definition sysconf_addblock :: "buf \<Rightarrow> buf \<Rightarrow> sysconf_t \<Rightarrow> (buf \<times> sysconf_t) option" where
  "sysconf_addblock src key conf =
     (if length (cf_var conf) < SC_KEYSIZE then do {
        (k, conf) \<leftarrow> sysconf_addstr key conf;
        let conf = conf\<lparr>cf_var := cf_var conf @ [\<lparr>sd_key = k, sd_str = cf_base conf + int (cf_len conf), sd_val = -1\<rparr>]\<rparr>;
        (src, conf) \<leftarrow> block_loop src conf;
        Some (src, conf\<lparr>cf_len := cf_len conf + 1\<rparr>)
      } else do { src \<leftarrow> skip_block src; Some (src, conf) })"

text \<open>\<open>strtok\<close> on a string that goes on being used: the token after leading delimiters ends it.\<close>

definition cut_token :: "buf \<Rightarrow> buf \<Rightarrow> buf" where
  "cut_token delims s =
     takeWhile (\<lambda>c. c \<in> set delims) s @ takeWhile (\<lambda>c. c \<notin> set delims) (dropWhile (\<lambda>c. c \<in> set delims) s)"

partial_function (option) eval_tokens :: "buf \<Rightarrow> int \<Rightarrow> sysconf_t \<Rightarrow> int option" where
  "eval_tokens s val conf =
     (case strtok [44, 32, 9] s of
        None \<Rightarrow> Some val
      | Some (t, r) \<Rightarrow> do { v \<leftarrow> sysconf_eval (t @ [0]) conf; eval_tokens r (val OR v) conf })"

definition define_key :: "buf \<Rightarrow> buf \<Rightarrow> sysconf_t \<Rightarrow> sysconf_t option" where
  "define_key key str conf =
     (let key = cut_token [32, 9] key; str = dropWhile (\<lambda>c. c = 32 \<or> c = 9) str in
      if str \<noteq> [] \<and> hd str = 34 then
        let str = cut_token [34] (tl str) in sysconf_addkey (key @ [0]) (Some (str @ [0])) (atoi str) conf
      else do { val \<leftarrow> eval_tokens str 0 conf; sysconf_addkey (key @ [0]) None val conf })"

text \<open>What a line of the file is.\<close>

datatype config_line = Menu_line buf | Block_line buf | Include_line buf | Define_line buf buf | Other_line

definition classify :: "buf \<Rightarrow> config_line" where
  "classify b =
     (let ptr = dropWhile (\<lambda>c. c = 32 \<or> c = 9) (cstr b) in
      if ptr \<noteq> [] \<and> hd ptr = 37 then
        let word = takeWhile (\<lambda>c. c \<notin> {32, 9, 10}) ptr in
        if word = lit ''%menu'' then
          case strtok [32, 9, 10] (drop (Suc (length word)) ptr) of None \<Rightarrow> Other_line | Some (str, _) \<Rightarrow> Menu_line str
        else Block_line (tl word)
      else if ptr \<noteq> [] \<and> hd ptr = 35 then
        case strtok [32, 9, 34, 10] ptr of
          None \<Rightarrow> Other_line
        | Some (key, r) \<Rightarrow>
            (case strtok [32, 9, 34, 10] r of
               None \<Rightarrow> Other_line
             | Some (str, _) \<Rightarrow> if key = lit ''#include'' then Include_line str else Other_line)
      else if ptr = [] \<or> hd ptr \<noteq> 10 then
        case strtok [61, 35, 10] ptr of
          None \<Rightarrow> Other_line
        | Some (key, r) \<Rightarrow> (case strtok [35, 10] r of None \<Rightarrow> Other_line | Some (str, _) \<Rightarrow> Define_line key str)
      else Other_line)"

text \<open>\<open>fs\<close> gives the contents of files; a file that includes itself makes the parser run on.\<close>

partial_function (option) parse_lines :: "(buf \<Rightarrow> buf option) \<Rightarrow> int \<times> int \<Rightarrow> buf \<Rightarrow> sysconf_t \<Rightarrow> sysconf_t option" where
  "parse_lines fs old src conf =
     (case fgets 256 [] src of
        None \<Rightarrow> Some conf
      | Some (b, src) \<Rightarrow>
          (case classify b of
             Menu_line str \<Rightarrow> do { (src, conf) \<leftarrow> sysconf_addmenu old src (str @ [0]) conf; parse_lines fs old src conf }
           | Block_line str \<Rightarrow> do { (src, conf) \<leftarrow> sysconf_addblock src (str @ [0]) conf; parse_lines fs old src conf }
           | Include_line str \<Rightarrow>
               (case fs str of
                  None \<Rightarrow> parse_lines fs old src conf
                | Some inc \<Rightarrow> do {
                    (_, conf) \<leftarrow> sysconf_addstr (lit ''(null ptr)'' @ [0]) conf;
                    conf \<leftarrow> parse_lines fs old inc conf;
                    parse_lines fs old src conf
                  })
           | Define_line key str \<Rightarrow> do { conf \<leftarrow> define_key key str conf; parse_lines fs old src conf }
           | Other_line \<Rightarrow> parse_lines fs old src conf))"

definition sysconf_parse :: "(buf \<Rightarrow> buf option) \<Rightarrow> int \<times> int \<Rightarrow> buf \<Rightarrow> sysconf_t \<Rightarrow> sysconf_t option" where
  "sysconf_parse fs old fname conf =
     (case fs fname of
        None \<Rightarrow> Some conf
      | Some src \<Rightarrow> do { (_, conf) \<leftarrow> sysconf_addstr (lit ''(null ptr)'' @ [0]) conf; parse_lines fs old src conf })"

section \<open>The image\<close>

text \<open>What the image file holds, with the address of the buffer at the time it was written.\<close>

record sysimage =
  im_buf :: int
  im_item :: "menuitem_t list"
  im_var :: "sdefine list"
  im_bytes :: buf

text \<open>\<open>img\<close> is what the image file held before, \<open>writable\<close> that it can be opened for writing.
  The arrays are released when one of them could not be allocated, and used all the same.\<close>

definition sysconf_build ::
    "(buf \<Rightarrow> buf option) \<Rightarrow> heap \<Rightarrow> int \<Rightarrow> int \<times> int \<Rightarrow> bool \<Rightarrow> buf \<Rightarrow> sysimage option \<Rightarrow> (int \<times> sysimage option) option" where
  "sysconf_build fs h base old writable configfile img =
     (if alloc_ok h (SC_CMDSIZE * 48) \<and> alloc_ok h (SC_KEYSIZE * 24) \<and> alloc_ok h SC_BUFSIZE then do {
        conf \<leftarrow> sysconf_parse fs old configfile
          \<lparr>cf_base = base, cf_buf = map (junk h) [0..<SC_BUFSIZE], cf_item = [], cf_var = [], cf_len = 0\<rparr>;
        (if writable then do {
           bs \<leftarrow> mem_read (cf_buf conf) 0 (cf_len conf);
           Some (0, Some \<lparr>im_buf = base, im_item = cf_item conf, im_var = cf_var conf, im_bytes = bs\<rparr>)
         } else Some (-1, img))
      } else None)"

text \<open>The distance of the buffers is an \<open>int\<close>.\<close>

definition relocate :: "int \<Rightarrow> sysimage \<Rightarrow> sysconf_t" where
  "relocate base im =
     (let diff = to_int (base - im_buf im) in
      \<lparr>cf_base = base, cf_buf = im_bytes im,
       cf_item = map (\<lambda>m. m\<lparr>mi_name := mi_name m + diff, mi_desc := mi_desc m + diff, mi_arg := mi_arg m + diff, mi_func := mi_func m + diff\<rparr>)
         (im_item im),
       cf_var = map (\<lambda>v. v\<lparr>sd_key := sd_key v + diff, sd_str := sd_str v + diff\<rparr>) (im_var im),
       cf_len = length (im_bytes im)\<rparr>)"

definition image_size :: "sysimage \<Rightarrow> nat" where
  "image_size im = 24 + 48 * length (im_item im) + 24 * length (im_var im) + length (im_bytes im)"

text \<open>An image that cannot be opened leaves the configuration as it is, and is no error.\<close>

definition sysconf_load_image :: "heap \<Rightarrow> int \<Rightarrow> sysimage option \<Rightarrow> sysconf_t \<Rightarrow> int \<times> sysconf_t" where
  "sysconf_load_image h base img sys =
     (case img of
        None \<Rightarrow> (0, sys)
      | Some im \<Rightarrow> if alloc_ok h (image_size im) then (0, relocate base im) else (-1, sys))"

text \<open>The image is built when it is asked for or when there is none.\<close>

definition sysconf_load ::
    "(buf \<Rightarrow> buf option) \<Rightarrow> heap \<Rightarrow> int \<Rightarrow> int \<Rightarrow> int \<times> int \<Rightarrow> bool \<Rightarrow> bool \<Rightarrow> sysimage option \<Rightarrow> sysconf_t \<Rightarrow>
     (int \<times> sysimage option \<times> sysconf_t) option" where
  "sysconf_load fs h bbase base old writable rebuild img sys =
     (if rebuild \<or> img = None then do {
        (ret, img) \<leftarrow> sysconf_build fs h bbase old writable (lit ''etc/sysconf.ini'') img;
        (if ret \<noteq> 0 then Some (-1, img, sys)
         else let (ret, sys) = sysconf_load_image h base img sys in Some (ret, img, sys))
      } else let (ret, sys) = sysconf_load_image h base img sys in Some (ret, img, sys))"

section \<open>The menu on the screen\<close>

text \<open>The characters that are put on the screen.\<close>

function decodestr :: "buf \<Rightarrow> buf option" where
  "decodestr s =
     (case s of
        [] \<Rightarrow> None
      | ch # s \<Rightarrow>
          if ch = 0 then Some []
          else if ch \<noteq> 1 then map_option ((#) ch) (decodestr s)
          else case s of
              [] \<Rightarrow> None
            | c # s' \<Rightarrow>
                if c = 0 then decodestr s
                else case s' of
                    [] \<Rightarrow> None
                  | n # s'' \<Rightarrow>
                      if n = 0 then decodestr s
                      else map_option ((@) (replicate (nat (sint n)) c)) (decodestr s''))"
  by pat_completeness auto
termination by (relation "measure length") auto

declare decodestr.simps [simp del]

text \<open>What is drawn: the title, a background, an item.\<close>

datatype menu_out = Draw_title buf | Draw_block int int buf | Draw_item int int buf

text \<open>A property of the menu: its title or its background.\<close>

definition draw_property :: "sysconf_t \<Rightarrow> menuitem_t \<Rightarrow> menu_out list option" where
  "draw_property conf m = do {
     name \<leftarrow> string_at conf (mi_name m);
     (if name = lit ''title'' then do { desc \<leftarrow> string_at conf (mi_desc m); Some [Draw_title desc] }
      else if name = lit ''screen'' then do {
        desc \<leftarrow> string_at conf (mi_desc m);
        p \<leftarrow> sysconf_str conf (desc @ [0]);
        (case p of
           None \<Rightarrow> Some []
         | Some p \<Rightarrow>
             if p < cf_base conf then None
             else do {
               str \<leftarrow> decodestr (drop (nat (p - cf_base conf)) (cf_buf conf));
               Some [Draw_block (mi_line m) (mi_col m) str]
             })
      } else Some [])
   }"

text \<open>Drawing decides where each item stands and which items are shown; \<open>perm\<close> is the test for a permission.\<close>

fun draw_loop ::
    "sysconf_t \<Rightarrow> (int \<Rightarrow> bool) \<Rightarrow> int \<Rightarrow> int \<Rightarrow> int \<Rightarrow> menuitem_t list \<Rightarrow> (int \<times> menuitem_t list \<times> menu_out list) option" where
  "draw_loop conf perm line col num [] = None"
| "draw_loop conf perm line col num (m # ms) =
     (if mi_level m = -1 then Some (num, m # ms, [])
      else if mi_level m = -2 then do {
        p \<leftarrow> draw_property conf m;
        (n, ms, out) \<leftarrow> draw_loop conf perm line col (num + 1) ms;
        Some (n, m # ms, p @ out)
      } else if mi_line m \<ge> 0 \<and> perm (mi_level m) then do {
        let (m, line, col) = (if mi_line m = 0 then (m\<lparr>mi_line := line, mi_col := col\<rparr>, line, col) else (m, mi_line m, mi_col m));
        desc \<leftarrow> string_at conf (mi_desc m);
        (n, ms, out) \<leftarrow> draw_loop conf perm (line + 1) col (num + 1) ms;
        Some (n, m # ms, Draw_item line col desc # out)
      } else do {
        let (line, col) = (if mi_line m > 0 then (mi_line m, mi_col m) else (line, col));
        (n, ms, out) \<leftarrow> draw_loop conf perm line col (num + 1) ms;
        Some (n, m\<lparr>mi_line := -1\<rparr> # ms, out)
      })"

text \<open>The menu starts at entry \<open>off\<close> of the array; the result is its size, the array and the output.\<close>

definition draw_menu :: "(int \<Rightarrow> bool) \<Rightarrow> nat \<Rightarrow> sysconf_t \<Rightarrow> (int \<times> sysconf_t \<times> menu_out list) option" where
  "draw_menu perm off conf = do {
     (n, ms, out) \<leftarrow> draw_loop conf perm 3 0 0 (drop off (cf_item conf));
     Some (n, conf\<lparr>cf_item := take off (cf_item conf) @ ms\<rparr>, out)
   }"

section \<open>Keys in a menu\<close>

definition selectable :: "(int \<Rightarrow> bool) \<Rightarrow> menuitem_t \<Rightarrow> bool" where
  "selectable perm m \<longleftrightarrow> \<not> (mi_level m < 0 \<or> \<not> perm (mi_level m))"

text \<open>Before a key is read, the cursor goes on to an item that can be chosen.\<close>

partial_function (option) settle :: "(int \<Rightarrow> bool) \<Rightarrow> menuitem_t list \<Rightarrow> int \<Rightarrow> int \<Rightarrow> int \<Rightarrow> int option" where
  "settle perm items off sz now = do {
     m \<leftarrow> rdi items (off + now);
     (if selectable perm m then Some now
      else settle perm items off sz (if now + 1 \<ge> sz then 0 else now + 1))
   }"

partial_function (option) up_loop :: "(int \<Rightarrow> bool) \<Rightarrow> menuitem_t list \<Rightarrow> int \<Rightarrow> int \<Rightarrow> int \<Rightarrow> int option" where
  "up_loop perm items off sz now = do {
     m \<leftarrow> rdi items (off + now);
     (if selectable perm m then Some now
      else up_loop perm items off sz (if now > 0 then now - 1 else sz - 1))
   }"

partial_function (option) end_loop :: "(int \<Rightarrow> bool) \<Rightarrow> menuitem_t list \<Rightarrow> int \<Rightarrow> int \<Rightarrow> int option" where
  "end_loop perm items off now = do {
     m \<leftarrow> rdi items (off + now);
     (if selectable perm m then Some now else end_loop perm items off (now - 1))
   }"

text \<open>The first item from \<open>i\<close> on that passes a test, or the size of the menu.\<close>

fun find_item :: "(menuitem_t \<Rightarrow> bool option) \<Rightarrow> menuitem_t list \<Rightarrow> nat \<Rightarrow> nat \<Rightarrow> nat option" where
  "find_item test items i 0 = Some i"
| "find_item test items i (Suc n) = do {
     m \<leftarrow> rd items i;
     b \<leftarrow> test m;
     (if b then Some i else find_item test items (Suc i) n)
   }"

definition name_char :: "sysconf_t \<Rightarrow> int \<Rightarrow> int option" where
  "name_char conf p = do { c \<leftarrow> rdi (cf_buf conf) (p - cf_base conf); Some (sint c) }"

text \<open>What a key does: the cursor moves, the menu is left, the item at the cursor is carried out, the configuration is
  read again, notices are looked at, the menu is drawn again, the session ends.\<close>

datatype menu_event = Moved int | Left_menu | Carry_out int | Reload | Notices | Redraw_menu | Abort_session

definition enter_item :: "sysconf_t \<Rightarrow> int \<Rightarrow> int \<Rightarrow> menu_event option" where
  "enter_item conf off now = do {
     m \<leftarrow> rdi (cf_item conf) (off + now);
     a \<leftarrow> string_at conf (mi_arg m);
     Some (if a = lit ''..'' then Left_menu else Carry_out now)
   }"

definition beside :: "(int \<Rightarrow> bool) \<Rightarrow> (int \<Rightarrow> bool) \<Rightarrow> menuitem_t \<Rightarrow> menuitem_t \<Rightarrow> bool" where
  "beside perm col_ok cur m \<longleftrightarrow> mi_line m = mi_line cur \<and> mi_level m \<ge> 0 \<and> col_ok (mi_col m) \<and> perm (mi_level m)"

definition left_test :: "sysconf_t \<Rightarrow> (int \<Rightarrow> bool) \<Rightarrow> menuitem_t \<Rightarrow> menuitem_t \<Rightarrow> bool option" where
  "left_test conf perm cur m =
     (if beside perm (\<lambda>c. c < mi_col cur) cur m then Some True
      else do { f \<leftarrow> string_at conf (mi_func m); Some (f = lit ''LeaveBBS'') })"

definition letter_test :: "sysconf_t \<Rightarrow> (int \<Rightarrow> bool) \<Rightarrow> int \<Rightarrow> menuitem_t \<Rightarrow> bool option" where
  "letter_test conf perm ch m =
     (if mi_line m > 0 then do { c \<leftarrow> name_char conf (mi_name m); Some (ch = c \<and> perm (mi_level m)) } else Some False)"

definition PERM_ESYSFILE :: int where "PERM_ESYSFILE = 0x2000"

text \<open>\<open>topmenu\<close>: the menu is the main menu; \<open>refscreen\<close>: the end of the input asked for a new screen.\<close>

definition menu_key :: "sysconf_t \<Rightarrow> (int \<Rightarrow> bool) \<Rightarrow> bool \<Rightarrow> bool \<Rightarrow> int \<Rightarrow> int \<Rightarrow> int \<Rightarrow> int \<Rightarrow> menu_event option" where
  "menu_key conf perm topmenu refscreen off sz ch now = do {
     cur \<leftarrow> rdi (cf_item conf) (off + now);
     (if ch = -1 then Some (if refscreen then Redraw_menu else Abort_session)
      else if ch = KEY_RIGHT then do {
        i \<leftarrow> find_item (\<lambda>m. Some (beside perm (\<lambda>c. c > mi_col cur) cur m)) (drop (nat off) (cf_item conf)) 0 (nat sz);
        (if int i < sz then Some (Moved (int i)) else enter_item conf off now)
      } else if ch = 10 \<or> ch = 13 then enter_item conf off now
      else if ch = KEY_LEFT then do {
        i \<leftarrow> find_item (left_test conf perm cur) (drop (nat off) (cf_item conf)) 0 (nat sz);
        Some (if int i < sz then Moved (int i) else Left_menu)
      } else if ch = KEY_DOWN then Some (Moved (now + 1))
      else if ch = KEY_UP then map_option Moved (up_loop perm (cf_item conf) off sz (now - 1))
      else if ch = KEY_PGUP then Some (Moved 0)
      else if ch = KEY_PGDN then map_option Moved (end_loop perm (cf_item conf) off (sz - 1))
      else if ch = 126 then Some (if perm PERM_ESYSFILE then Reload else Moved now)
      else if ch = 33 then Some (if topmenu then Moved now else Left_menu)
      else if ch = 20 then Some Notices
      else do {
        let ch = (if 97 \<le> ch \<and> ch \<le> 122 then ch - 97 + 65 else ch);
        i \<leftarrow> find_item (letter_test conf perm ch) (drop (nat off) (cf_item conf)) 0 (nat sz);
        Some (Moved (if int i < sz then int i else now))
      })
   }"

end
