(* ===== verification/FB_MenuText.thy ===== *)
theory FB_MenuText
  imports FB_Menu
begin

text \<open>
  What the menu configuration keeps: the encoded backgrounds are shown as they were written, keys are found again, and
  an image is good wherever it is loaded, as long as the distance fits an \<open>int\<close>.
\<close>

section \<open>Run-length encoding\<close>

text \<open>Runs of 4 to 100 equal bytes become three bytes.\<close>

function rle :: "buf \<Rightarrow> buf" where
  "rle [] = []"
| "rle (c # s) =
     (if take 3 s = [c, c, c] then
        let n = min 96 (length (takeWhile (\<lambda>x. x = c) (drop 3 s))) in [1, c, word_of_nat (4 + n)] @ rle (drop (3 + n) s)
      else c # rle s)"
  by pat_completeness auto
termination by (relation "measure length") auto

declare rle.simps(2) [simp del]

lemma run_len_spec:
  assumes "drop i b = s @ 0 # r" and "0 \<notin> set s" and "ch \<noteq> 0" and "n + fuel = 100"
  shows "run_len b ch fuel i n = Some (i + min fuel (length (takeWhile (\<lambda>x. x = ch) s)), n + min fuel (length (takeWhile (\<lambda>x. x = ch) s)))"
  using assms
proof (induction fuel arbitrary: i n s)
  case (Suc fuel)
  show ?case
  proof (cases s)
    case Nil
    then have "rd b i = Some 0" using Suc.prems(1) rd_drop by force
    then show ?thesis using Suc.prems(3) Nil by simp
  next
    case (Cons c s')
    have d: "drop i b = c # s' @ 0 # r" using Suc.prems(1) Cons by simp
    then show ?thesis using rd_drop [OF d] drop_step [OF d] Suc.IH [of "Suc i" s' "Suc n"] Suc.prems(2-4) Cons by auto
  qed
qed simp

lemma run_starts_spec:
  assumes "drop i b = s @ 0 # r" and "0 \<notin> set s" and "ch \<noteq> 0"
  shows "run_starts b ch i = Some (take 3 s = [ch, ch, ch])"
proof -
  have at: "rd b (i + k) = Some ((s @ [0]) ! k)" if "k \<le> length s" for k
  proof -
    have "length b - i = length s + Suc (length r)" using arg_cong [OF assms(1), of length] by simp
    then have "i + k < length b" using that by linarith
    moreover have "b ! (i + k) = drop i b ! k" using \<open>i + k < length b\<close> by simp
    ultimately show ?thesis using that assms(1) by (simp add: rd_def nth_append)
  qed
  show ?thesis
  proof (cases s)
    case Nil
    then show ?thesis using at [of 0] assms(3) by (simp add: run_starts_def)
  next
    case s1: (Cons x s1)
    show ?thesis
    proof (cases s1)
      case Nil
      then show ?thesis using at [of 0] at [of 1] assms(3) s1 by (simp add: run_starts_def)
    next
      case s2: (Cons y s2)
      then show ?thesis using at [of 0] at [of 1] at [of 2] assms(3) s1 by (cases s2) (auto simp: run_starts_def numeral_2_eq_2 numeral_3_eq_3)
    qed
  qed
qed

lemma encode_loop_spec:
  assumes "drop i b = s @ 0 # r" and "0 \<notin> set s" and "j \<le> i"
  shows "\<exists>b'. encode_loop b i j = Some b' \<and> length b' = length b \<and> take (j + length (rle s) + 1) b' = take j b @ rle s @ [0]"
  using assms
proof (induction s arbitrary: b i j rule: rle.induct)
  case 1
  have "rd b i = Some 0" using 1(1) rd_drop by force
  moreover have "j < length b" using 1 by (metis append_Nil drop_all leD le_trans linorder_not_le list.distinct(1))
  ultimately show ?case by (subst encode_loop.simps) (simp add: wr_Some take_snoc_update)
next
  case (2 c s)
  have d: "drop i b = c # s @ 0 # r" using "2.prems"(1) by simp
  have c: "c \<noteq> 0" "0 \<notin> set s" using "2.prems"(2) by auto
  have d1: "drop (Suc i) b = s @ 0 # r" by (rule drop_step [OF d])
  have len: "i + length s + 1 < length b" using arg_cong [OF d, of length] by simp
  note starts = run_starts_spec [OF d1 c(2,1)]
  show ?case
  proof (cases "take 3 s = [c, c, c]")
    case False
    let ?b = "b[j := c]"
    have "drop (Suc i) ?b = s @ 0 # r" using d1 "2.prems"(3) by simp
    then obtain b' where b': "encode_loop ?b (Suc i) (Suc j) = Some b'" "length b' = length b"
        "take (Suc j + length (rle s) + 1) b' = take (Suc j) ?b @ rle s @ [0]"
      using "2.IH"(2) [OF False _ c(2), of "Suc i" ?b "Suc j"] "2.prems"(3) by auto
    have "encode_loop b i j = encode_loop ?b (Suc i) (Suc j)"
      using rd_drop [OF d] c(1) starts False len "2.prems"(3) by (subst encode_loop.simps) (simp add: wr_Some)
    then show ?thesis using b' False len "2.prems"(3) by (simp add: rle.simps(2) take_snoc_update)
  next
    case True
    define n where "n = min 96 (length (takeWhile (\<lambda>x. x = c) (drop 3 s)))"
    have l3: "3 \<le> length s" using arg_cong [OF True, of length] by simp
    have d4: "drop (i + 4) b = drop 3 s @ 0 # r"
      using arg_cong [OF d1, of "drop 3"] l3 by (simp add: add.commute)
    have run: "run_len b c 96 (i + 4) 4 = Some (i + 4 + n, 4 + n)"
      using run_len_spec [OF d4 _ c(1), of 4 96] c(2) by (auto simp: n_def dest: in_set_dropD)
    have n: "n \<le> length (drop 3 s)" using length_takeWhile_le [of "\<lambda>x. x = c" "drop 3 s"] by (simp add: n_def)
    define b1 where "b1 = b[j := 1, j + 1 := c, j + 2 := word_of_nat (4 + n)]"
    have "drop (i + 4 + n) b1 = drop (i + 4 + n) b" using "2.prems"(3) by (simp add: b1_def)
    also have "\<dots> = drop n (drop (i + 4) b)" by (simp add: add.commute)
    also have "\<dots> = drop (3 + n) s @ 0 # r" using d4 n by (simp add: add.commute)
    finally have dn: "drop (i + 4 + n) b1 = drop (3 + n) s @ 0 # r" .
    have "0 \<notin> set (drop (3 + n) s)" using c(2) by (auto dest: in_set_dropD)
    then obtain b' where b': "encode_loop b1 (i + 4 + n) (j + 3) = Some b'" "length b' = length b1"
        "take (j + 3 + length (rle (drop (3 + n) s)) + 1) b' = take (j + 3) b1 @ rle (drop (3 + n) s) @ [0]"
      using "2.IH"(1) [OF True n_def dn, of "j + 3"] "2.prems"(3) by auto
    have room: "j + 3 < length b" using len l3 "2.prems"(3) by simp
    have "take (Suc (Suc (Suc j))) b1 = ((take j b @ [1]) @ [c]) @ [word_of_nat (4 + n)]"
      using room by (simp add: b1_def take_snoc_update)
    then have pre: "take (j + 3) b1 = take j b @ [1, c, word_of_nat (4 + n)]" by (simp add: numeral_3_eq_3)
    have "encode_loop b i j = encode_loop b1 (i + 4 + n) (j + 3)"
      using rd_drop [OF d] c(1) starts True run room by (subst encode_loop.simps) (simp add: wr_Some b1_def)
    moreover have "rle (c # s) = [1, c, word_of_nat (4 + n)] @ rle (drop (3 + n) s)"
      using True by (simp add: rle.simps(2) n_def Let_def)
    ultimately show ?thesis using b' pre by (simp add: b1_def add.assoc numeral_3_eq_3)
  qed
qed

lemma decode_rle:
  assumes "0 \<notin> set s" and "1 \<notin> set s"
  shows "decodestr (rle s @ 0 # r) = Some s"
  using assms
proof (induction s rule: rle.induct)
  case 1
  then show ?case by (subst decodestr.simps) simp
next
  case (2 c s)
  have c: "c \<noteq> 0" "c \<noteq> 1" using "2.prems" by auto
  show ?case
  proof (cases "take 3 s = [c, c, c]")
    case False
    then show ?thesis using "2.IH"(2) [OF False] "2.prems" c by (subst decodestr.simps) (simp add: rle.simps(2))
  next
    case True
    define n where "n = min 96 (length (takeWhile (\<lambda>x. x = c) (drop 3 s)))"
    let ?s = "drop (3 + n) s" and ?n = "word_of_nat (4 + n) :: byte"
    have "n \<le> 96" by (simp add: n_def)
    then have un: "unat ?n = 4 + n" by (simp add: unat_of_nat del: of_nat_add)
    then have nz: "?n \<noteq> 0" by (metis add_is_0 unat_0 zero_neq_numeral)
    have sn: "nat (sint ?n) = 4 + n"
    proof -
      have "sint ?n = int (4 + n)" using \<open>n \<le> 96\<close> by (simp add: signed_of_nat signed_take_bit_int_eq_self del: of_nat_add)
      then show ?thesis by simp
    qed
    have IH: "decodestr (rle ?s @ 0 # r) = Some ?s"
      using "2.IH"(1) [OF True n_def] "2.prems" by (auto dest: in_set_dropD)
    have run: "take n (drop 3 s) = replicate n c"
    proof -
      have "n \<le> length (takeWhile (\<lambda>x. x = c) (drop 3 s))" by (simp add: n_def)
      then have "take n (drop 3 s) = take n (takeWhile (\<lambda>x. x = c) (drop 3 s))" by (metis takeWhile_eq_take take_take min_absorb1)
      also have "\<dots> = replicate n c" by (rule replicate_eqI) (auto simp: n_def dest!: in_set_takeD set_takeWhileD)
      finally show ?thesis .
    qed
    have "s = take 3 s @ take n (drop 3 s) @ drop n (drop 3 s)" by (metis append_take_drop_id)
    also have "\<dots> = [c, c, c] @ replicate n c @ ?s" using True run by (simp add: add.commute)
    finally have "c # s = replicate (4 + n) c @ ?s" by (simp add: numeral_eq_Suc)
    moreover have "decodestr ([1, c, ?n] @ (rle ?s @ 0 # r)) = Some (replicate (4 + n) c @ ?s)"
      using c nz sn IH by (subst decodestr.simps) simp
    moreover have "rle (c # s) = [1, c, ?n] @ rle ?s" using True by (simp add: rle.simps(2) n_def Let_def)
    ultimately show ?thesis by simp
  qed
qed

text \<open>Claim C35: a line of a menu background without the control character 1 is encoded in place, inside its buffer,
  and what is shown later is the line itself.\<close>

theorem encode_decode:
  assumes "terminated b" and "1 \<notin> set (cstr b)"
  shows "\<exists>b'. encodestr b = Some b' \<and> length b' = length b \<and> decodestr b' = Some (cstr b)"
proof -
  let ?s = "cstr b"
  have "drop 0 b = ?s @ 0 # drop (Suc (length ?s)) b" using terminated_split [OF assms(1)] by simp
  from encode_loop_spec [OF this] obtain b' where b': "encode_loop b 0 0 = Some b'" "length b' = length b" "take (length (rle ?s) + 1) b' = rle ?s @ [0]"
    by auto
  have "b' = (rle ?s @ [0]) @ drop (length (rle ?s) + 1) b'" using append_take_drop_id [of "length (rle ?s) + 1" b'] b'(3) by argo
  then have "b' = rle ?s @ 0 # drop (length (rle ?s) + 1) b'" by simp
  then have "decodestr b' = Some ?s" using decode_rle [of ?s] assms(2) cstr_no_nul by metis
  then show ?thesis using b' by (simp add: encodestr_def)
qed

theorem encode_decode_witness:
  "\<exists>b'. encodestr [61, 61, 61, 61, 61, 65, 0] = Some b' \<and> decodestr b' = Some [61, 61, 61, 61, 61, 65]"
  using encode_decode [of "[61, 61, 61, 61, 61, 65, 0]"] by auto

section \<open>The image\<close>

lemma sysconf_eval_alt:
  "sysconf_eval key conf =
     map_option (\<lambda>v. case v of Some n \<Rightarrow> n | None \<Rightarrow> to_int (strtol_prefix key)) (map_option (map_option sd_val) (find_var conf key (cf_var conf)))"
  by (cases "find_var conf key (cf_var conf)") (auto simp: sysconf_eval_def split: option.splits)

text \<open>Claim C36: an image loaded anywhere within reach of an \<open>int\<close> holds the strings it was built with: what
  the name, the description, the argument and the handler of every item point to, and every key with its string.\<close>

theorem image_strings:
  assumes "- (2 ^ 31) \<le> base - im_buf im" and "base - im_buf im < 2 ^ 31" and "alloc_ok h (image_size im)"
    and "conf = \<lparr>cf_base = im_buf im, cf_buf = im_bytes im, cf_item = im_item im, cf_var = im_var im, cf_len = length (im_bytes im)\<rparr>"
  shows "\<exists>sys'. sysconf_load_image h base (Some im) sys = (0, sys')
    \<and> map (\<lambda>m. map (string_at sys') [mi_name m, mi_desc m, mi_arg m, mi_func m]) (cf_item sys')
      = map (\<lambda>m. map (string_at conf) [mi_name m, mi_desc m, mi_arg m, mi_func m]) (cf_item conf)
    \<and> map (\<lambda>v. (string_at sys' (sd_key v), string_at sys' (sd_str v), sd_val v)) (cf_var sys')
      = map (\<lambda>v. (string_at conf (sd_key v), string_at conf (sd_str v), sd_val v)) (cf_var conf)
    \<and> sysconf_eval key sys' = sysconf_eval key conf"
proof -
  let ?sys = "relocate base im"
  have diff: "to_int (base - im_buf im) = base - im_buf im" using assms(1,2) by (simp add: to_int_id)
  have at: "string_at ?sys (p + (base - im_buf im)) = string_at conf p" for p
    by (simp add: string_at_def relocate_def Let_def assms(4) algebra_simps)
  have find: "map_option (map_option sd_val) (find_var ?sys key (map (\<lambda>v. v\<lparr>sd_key := sd_key v + (base - im_buf im), sd_str := sd_str v + (base - im_buf im)\<rparr>) vs))
    = map_option (map_option sd_val) (find_var conf key vs)" for vs
    by (induction vs) (auto simp: at split: option.splits Option.bind_splits)
  have "sysconf_eval key ?sys = sysconf_eval key conf"
    unfolding sysconf_eval_alt using find [of "im_var im"] by (simp add: relocate_def Let_def diff assms(4))
  moreover have "sysconf_load_image h base (Some im) sys = (0, ?sys)" using assms(3) by (simp add: sysconf_load_image_def)
  moreover have "cf_item ?sys = map (\<lambda>m. m\<lparr>mi_name := mi_name m + (base - im_buf im), mi_desc := mi_desc m + (base - im_buf im),
      mi_arg := mi_arg m + (base - im_buf im), mi_func := mi_func m + (base - im_buf im)\<rparr>) (im_item im)"
    and "cf_var ?sys = map (\<lambda>v. v\<lparr>sd_key := sd_key v + (base - im_buf im), sd_str := sd_str v + (base - im_buf im)\<rparr>) (im_var im)"
    by (simp_all add: relocate_def Let_def diff)
  moreover have "cf_item conf = im_item im" "cf_var conf = im_var im" by (simp_all add: assms(4))
  ultimately show ?thesis by (intro exI [of _ ?sys]) (simp add: at)
qed

theorem image_strings_witness:
  "\<exists>sys'. sysconf_load_image heap_total 5000 (Some \<lparr>im_buf = 9000, im_item = [], im_var = [\<lparr>sd_key = 9000, sd_str = 9002, sd_val = 7\<rparr>],
        im_bytes = [65, 0, 66, 0]\<rparr>)
      \<lparr>cf_base = 0, cf_buf = [], cf_item = [], cf_var = [], cf_len = 0\<rparr> = (0, sys')
    \<and> sysconf_eval [65, 0] sys' = Some 7"
  using image_strings [of 5000 "\<lparr>im_buf = 9000, im_item = [], im_var = [\<lparr>sd_key = 9000, sd_str = 9002, sd_val = 7\<rparr>], im_bytes = [65, 0, 66, 0]\<rparr>" heap_total _
    "\<lparr>cf_base = 0, cf_buf = [], cf_item = [], cf_var = [], cf_len = 0\<rparr>" "[65, 0]", OF _ _ _ refl]
  by (auto simp: heap_total_def sysconf_eval_def string_at_def)

end
