(* ===== verification/FB_MenuDict.thy ===== *)
theory FB_MenuDict
  imports FB_MenuText
begin

text \<open>
  The keys of the configuration as a dictionary: a list of keys with their strings and values, where the first entry of a
  key counts.
\<close>

definition conf_ok :: "sysconf_t \<Rightarrow> bool" where
  "conf_ok conf \<longleftrightarrow>
     length (cf_buf conf) = SC_BUFSIZE \<and> 0 < cf_len conf \<and> cf_len conf \<le> SC_BUFSIZE \<and> cf_buf conf ! (cf_len conf - 1) = 0 \<and>
     (\<forall>v \<in> set (cf_var conf). sd_key v \<in> {cf_base conf..<cf_base conf + int (cf_len conf)} \<and> sd_str v \<in> {cf_base conf..<cf_base conf + int (cf_len conf)})"

text \<open>The string at an offset of the buffer.\<close>

definition text_at :: "sysconf_t \<Rightarrow> int \<Rightarrow> buf" where
  "text_at conf p = cstr (drop (nat (p - cf_base conf)) (cf_buf conf))"

definition keys_of :: "sysconf_t \<Rightarrow> (buf \<times> buf \<times> int) list" where
  "keys_of conf = map (\<lambda>v. (text_at conf (sd_key v), text_at conf (sd_str v), sd_val v)) (cf_var conf)"

lemma split_used:
  assumes "i < n" and "n \<le> length b" and "b ! (n - 1) = 0"
  shows "terminated (take (n - i) (drop i b))"
proof -
  have "take (n - i) (drop i b) ! (n - 1 - i) = b ! (n - 1)" using assms(1,2) by simp
  moreover have "n - 1 - i < length (take (n - i) (drop i b))" using assms(1,2) by simp
  ultimately show ?thesis using assms(3) by (metis nth_mem)
qed

lemma string_at_used:
  assumes "conf_ok conf" and "p \<in> {cf_base conf..<cf_base conf + int (cf_len conf)}"
  shows "string_at conf p = Some (text_at conf p)"
proof -
  have "terminated (take (cf_len conf - nat (p - cf_base conf)) (drop (nat (p - cf_base conf)) (cf_buf conf)))"
    using assms by (intro split_used) (auto simp: conf_ok_def)
  then have "terminated (drop (nat (p - cf_base conf)) (cf_buf conf))" by (meson in_set_takeD)
  then show ?thesis using assms(2) by (simp add: string_at_def text_at_def strlen_terminated takeWhile_eq_take [symmetric])
qed

text \<open>What follows the used part of the buffer does not change its strings.\<close>

lemma text_at_keep:
  assumes "conf_ok conf" and "p \<in> {cf_base conf..<cf_base conf + int (cf_len conf)}"
    and "take (cf_len conf) (cf_buf conf') = take (cf_len conf) (cf_buf conf)" and "cf_base conf' = cf_base conf"
  shows "text_at conf' p = text_at conf p"
proof -
  let ?i = "nat (p - cf_base conf)" and ?n = "cf_len conf"
  have t: "terminated (take (?n - ?i) (drop ?i (cf_buf conf)))"
    using assms(1,2) by (intro split_used) (auto simp: conf_ok_def)
  have eq: "take (?n - ?i) (drop ?i (cf_buf conf')) = take (?n - ?i) (drop ?i (cf_buf conf))"
    using arg_cong [OF assms(3), of "drop ?i"] by (simp add: drop_take)
  have cut: "cstr b = cstr (take m b)" if "terminated (take m b)" for m and b :: buf
    using takeWhile_append1 [of 0 "take m b" "\<lambda>c. c \<noteq> 0" "drop m b"] that by simp
  have "terminated (take (?n - ?i) (drop ?i (cf_buf conf')))" unfolding eq by (rule t)
  from cut [OF this] have "cstr (drop ?i (cf_buf conf')) = cstr (drop ?i (cf_buf conf))" unfolding eq cut [OF t, symmetric] .
  then show ?thesis by (simp add: text_at_def assms(4))
qed

text \<open>A string that fits is put behind the used part.\<close>

lemma addstr_fits:
  assumes "length (cf_buf conf) = SC_BUFSIZE" and "terminated s" and "cf_len conf + length (cstr s) + 1 \<le> SC_BUFSIZE"
  shows "\<exists>b. sysconf_addstr s conf = Some (cf_base conf + int (cf_len conf), conf\<lparr>cf_buf := b, cf_len := cf_len conf + length (cstr s) + 1\<rparr>)
    \<and> length b = SC_BUFSIZE \<and> take (cf_len conf) b = take (cf_len conf) (cf_buf conf)
    \<and> drop (cf_len conf) b = cstr s @ 0 # drop (cf_len conf + length (cstr s) + 1) (cf_buf conf)"
proof -
  let ?b = "take (cf_len conf) (cf_buf conf) @ cstr s @ 0 # drop (cf_len conf + length (cstr s) + 1) (cf_buf conf)"
  have "store_at s conf = Some (cstr s @ 0 # drop (cf_len conf + length (cstr s) + 1) (cf_buf conf), length (cstr s))"
    using strlcpy_value [of s "SC_BUFSIZE - cf_len conf" "drop (cf_len conf) (cf_buf conf)"] assms
    by (simp add: store_at_def Let_def add.commute)
  then have "sysconf_addstr s conf = Some (cf_base conf + int (cf_len conf), conf\<lparr>cf_buf := ?b, cf_len := cf_len conf + length (cstr s) + 1\<rparr>)"
    using assms(3) by (simp add: sysconf_addstr_def)
  then show ?thesis using assms by (intro exI [of _ ?b]) auto
qed

lemma addstr_ok:
  assumes "conf_ok conf" and "terminated s" and "cf_len conf + length (cstr s) + 1 \<le> SC_BUFSIZE"
  shows "\<exists>conf'. sysconf_addstr s conf = Some (cf_base conf + int (cf_len conf), conf')
    \<and> conf_ok conf' \<and> cf_base conf' = cf_base conf \<and> cf_var conf' = cf_var conf
    \<and> cf_len conf' = cf_len conf + length (cstr s) + 1
    \<and> text_at conf' (cf_base conf + int (cf_len conf)) = cstr s
    \<and> (\<forall>p \<in> {cf_base conf..<cf_base conf + int (cf_len conf)}. text_at conf' p = text_at conf p)"
proof -
  let ?n = "cf_len conf" and ?s = "cstr s"
  have len: "length (cf_buf conf) = SC_BUFSIZE" using assms(1) by (simp add: conf_ok_def)
  obtain b where b: "sysconf_addstr s conf = Some (cf_base conf + int ?n, conf\<lparr>cf_buf := b, cf_len := ?n + length ?s + 1\<rparr>)"
      "length b = SC_BUFSIZE" "take ?n b = take ?n (cf_buf conf)" "drop ?n b = ?s @ 0 # drop (?n + length ?s + 1) (cf_buf conf)"
    using addstr_fits [OF len assms(2,3)] by blast
  let ?c = "conf\<lparr>cf_buf := b, cf_len := ?n + length ?s + 1\<rparr>"
  have "b ! (?n + length ?s) = drop ?n b ! length ?s" using b(2) assms(3) by simp
  then have "b ! (?n + length ?s) = 0" using b(4) by simp
  then have "conf_ok ?c" using assms(1,3) b(2) by (auto simp: conf_ok_def)
  moreover have "\<forall>p \<in> {cf_base conf..<cf_base conf + int ?n}. text_at ?c p = text_at conf p"
    using text_at_keep [OF assms(1), of _ ?c] b(3) by simp
  moreover have "text_at ?c (cf_base conf + int ?n) = ?s" using b(4) by (simp add: text_at_def)
  ultimately show ?thesis using b(1) by (intro exI [of _ ?c]) simp
qed

lemma find_var_spec:
  assumes "conf_ok conf" and "set vs \<subseteq> set (cf_var conf)"
  shows "map_option (map_option sd_val) (find_var conf key vs)
    = Some (map_option snd (map_of (map (\<lambda>v. (text_at conf (sd_key v), text_at conf (sd_str v), sd_val v)) vs) (cstr key)))"
  using assms(2)
proof (induction vs)
  case (Cons v vs)
  have "string_at conf (sd_key v) = Some (text_at conf (sd_key v))"
    using Cons.prems assms(1) by (intro string_at_used) (auto simp: conf_ok_def)
  then show ?case using Cons by auto
qed simp

lemma sysconf_eval_spec:
  assumes "conf_ok conf"
  shows "sysconf_eval key conf = Some (case map_of (keys_of conf) (cstr key) of Some (_, v) \<Rightarrow> v | None \<Rightarrow> to_int (strtol_prefix key))"
  using find_var_spec [OF assms order_refl, of key] by (auto simp: sysconf_eval_alt keys_of_def split: option.splits)

text \<open>Claim C14: with room for a key and its strings, adding the key adds its entry to the dictionary, at the end, and
  leaves every other entry as it is; looking a key up finds its first entry, and takes the key for a number when it has
  none.\<close>

theorem addkey_lookup:
  assumes "conf_ok conf" and "terminated key" and "\<And>s. str = Some s \<Longrightarrow> terminated s"
    and "length (cf_var conf) < SC_KEYSIZE"
    and "cf_len conf + (case str of None \<Rightarrow> 0 | Some s \<Rightarrow> length (cstr s) + 1) + length (cstr key) + 1 \<le> SC_BUFSIZE"
    and "d = keys_of conf @ [(cstr key, case str of None \<Rightarrow> text_at conf (cf_base conf) | Some s \<Rightarrow> cstr s, val)]"
  shows "\<exists>conf'. sysconf_addkey key str val conf = Some conf' \<and> conf_ok conf' \<and> keys_of conf' = d
    \<and> (\<forall>k. sysconf_eval k conf' = Some (case map_of d (cstr k) of Some (_, v) \<Rightarrow> v | None \<Rightarrow> to_int (strtol_prefix k)))"
proof -
  define p where "p = (case str of None \<Rightarrow> cf_base conf | Some s \<Rightarrow> cf_base conf + int (cf_len conf))"
  let ?t = "case str of None \<Rightarrow> text_at conf (cf_base conf) | Some s \<Rightarrow> cstr s"
  have "\<exists>c1. (case str of None \<Rightarrow> Some (cf_base conf, conf) | Some s \<Rightarrow> sysconf_addstr s conf) = Some (p, c1)
    \<and> conf_ok c1 \<and> cf_base c1 = cf_base conf \<and> cf_var c1 = cf_var conf
    \<and> cf_len c1 = cf_len conf + (case str of None \<Rightarrow> 0 | Some s \<Rightarrow> length (cstr s) + 1)
    \<and> text_at c1 p = ?t \<and> p < cf_base conf + int (cf_len c1) \<and> p \<ge> cf_base conf
    \<and> (\<forall>p \<in> {cf_base conf..<cf_base conf + int (cf_len conf)}. text_at c1 p = text_at conf p)"
  proof (cases str)
    case None
    then show ?thesis using assms(1) by (auto simp: p_def conf_ok_def)
  next
    case (Some s)
    then show ?thesis using addstr_ok [OF assms(1) assms(3) [OF Some]] assms(5) by (auto simp: p_def)
  qed
  then obtain c1 where c1: "(case str of None \<Rightarrow> Some (cf_base conf, conf) | Some s \<Rightarrow> sysconf_addstr s conf) = Some (p, c1)"
      "conf_ok c1" "cf_base c1 = cf_base conf" "cf_var c1 = cf_var conf"
      "cf_len c1 = cf_len conf + (case str of None \<Rightarrow> 0 | Some s \<Rightarrow> length (cstr s) + 1)" "text_at c1 p = ?t"
      "p < cf_base conf + int (cf_len c1)" "p \<ge> cf_base conf"
      "\<forall>p \<in> {cf_base conf..<cf_base conf + int (cf_len conf)}. text_at c1 p = text_at conf p"
    by blast
  obtain c2 where c2: "sysconf_addstr key c1 = Some (cf_base conf + int (cf_len c1), c2)" "conf_ok c2" "cf_base c2 = cf_base conf"
      "cf_var c2 = cf_var conf" "cf_len c2 = cf_len c1 + length (cstr key) + 1" "text_at c2 (cf_base conf + int (cf_len c1)) = cstr key"
      "\<forall>p \<in> {cf_base conf..<cf_base conf + int (cf_len c1)}. text_at c2 p = text_at c1 p"
    using addstr_ok [OF c1(2) assms(2)] assms(5) c1(3-5) by auto
  define c3 where "c3 = c2\<lparr>cf_var := cf_var c2 @ [\<lparr>sd_key = cf_base conf + int (cf_len c1), sd_str = p, sd_val = val\<rparr>]\<rparr>"
  have at: "text_at c3 q = text_at c2 q" for q by (simp add: c3_def text_at_def)
  have "conf_ok c3" using c2(2,3,5) c1(7,8) by (auto simp: c3_def conf_ok_def)
  moreover have "keys_of c3 = d"
  proof -
    have "text_at c2 q = text_at conf q" if "q \<in> {cf_base conf..<cf_base conf + int (cf_len conf)}" for q
      using that c1(5,9) c2(7) by (auto split: option.splits)
    moreover have "\<forall>v \<in> set (cf_var conf). sd_key v \<in> {cf_base conf..<cf_base conf + int (cf_len conf)} \<and> sd_str v \<in> {cf_base conf..<cf_base conf + int (cf_len conf)}"
      using assms(1) by (simp add: conf_ok_def)
    moreover have "cf_var c3 = cf_var conf @ [\<lparr>sd_key = cf_base conf + int (cf_len c1), sd_str = p, sd_val = val\<rparr>]"
      using c2(4) by (simp add: c3_def)
    moreover have "text_at c2 p = ?t" using c2(7) c1(6-8) by simp
    ultimately show ?thesis using c2(6) by (simp add: keys_of_def at assms(6))
  qed
  moreover have "sysconf_addkey key str val conf = Some c3"
    using c1(1) c2(1) assms(4) by (simp add: sysconf_addkey_def c3_def)
  ultimately show ?thesis using sysconf_eval_spec by metis
qed

definition empty_conf :: sysconf_t where
  "empty_conf = \<lparr>cf_base = 100, cf_buf = replicate SC_BUFSIZE 0, cf_item = [], cf_var = [], cf_len = 1\<rparr>"

theorem addkey_lookup_witness:
  "\<exists>conf'. sysconf_addkey [65, 0] (Some [66, 0]) 5 empty_conf = Some conf' \<and> sysconf_eval [65, 0] conf' = Some 5"
proof -
  have "conf_ok empty_conf" by (simp add: conf_ok_def empty_conf_def SC_BUFSIZE_def)
  then have "\<exists>conf'. sysconf_addkey [65, 0] (Some [66, 0]) 5 empty_conf = Some conf' \<and> conf_ok conf' \<and> keys_of conf' = [([65], [66], 5)]
      \<and> (\<forall>k. sysconf_eval k conf' = Some (case map_of [([65], [66 :: byte], 5)] (cstr k) of Some (_, v) \<Rightarrow> v | None \<Rightarrow> to_int (strtol_prefix k)))"
    by (rule addkey_lookup) (auto simp: empty_conf_def keys_of_def SC_BUFSIZE_def SC_KEYSIZE_def)
  then show ?thesis by force
qed

end
