(* ===== verification/FB_MenuKeys.thy ===== *)
theory FB_MenuKeys
  imports FB_MenuText
begin

text \<open>
  A menu in use: drawing it again changes nothing, and the keys that move the cursor find the item they should.
\<close>

section \<open>Drawing again\<close>

lemma strings_keep:
  "string_at (conf\<lparr>cf_item := xs\<rparr>) p = string_at conf p"
  by (simp add: string_at_def)

lemma find_keep: "find_var (conf\<lparr>cf_item := xs\<rparr>) key vs = find_var conf key vs"
  by (induction vs) (simp_all add: strings_keep cong: if_cong)

lemma property_keep: "draw_property (conf\<lparr>cf_item := xs\<rparr>) m = draw_property conf m"
  by (simp add: draw_property_def strings_keep sysconf_str_def find_keep cong: if_cong option.case_cong)

lemma draw_keep: "draw_loop (conf\<lparr>cf_item := xs\<rparr>) perm line col num ms = draw_loop conf perm line col num ms"
  by (induction ms arbitrary: line col num) (simp_all add: property_keep strings_keep Let_def split del: if_split cong: if_cong)

text \<open>Once drawn, every item stands where it is, whatever position the drawing starts from.\<close>

lemma draw_loop_again:
  assumes "draw_loop conf perm line col num ms = Some (n, ms', out)" and "line > 0"
  shows "draw_loop conf perm line' col' num ms' = Some (n, ms', out)"
  using assms
proof (induction ms arbitrary: line col num ms' out line' col')
  case (Cons m ms)
  show ?case
  proof (cases "mi_level m = -1 \<or> mi_level m = -2")
    case True
    show ?thesis
    proof (cases "mi_level m = -1")
      case False
      then obtain p ms1 out1 where p: "draw_property conf m = Some p" and r: "draw_loop conf perm line col (num + 1) ms = Some (n, ms1, out1)"
        and eq: "ms' = m # ms1" "out = p @ out1"
        using True Cons.prems(1) by (auto simp: Option.bind_eq_Some_conv)
      show ?thesis using Cons.IH [OF r Cons.prems(2), of line' col'] p eq True False by simp
    qed (use Cons.prems(1) in auto)
  next
    case other: False
    show ?thesis
    proof (cases "mi_line m \<ge> 0 \<and> perm (mi_level m)")
      case True
      define m1 where "m1 = (if mi_line m = 0 then m\<lparr>mi_line := line, mi_col := col\<rparr> else m)"
      have m1: "mi_line m1 > 0" "mi_level m1 = mi_level m" "mi_desc m1 = mi_desc m" using True Cons.prems(2) by (auto simp: m1_def)
      obtain desc ms1 out1 where d: "string_at conf (mi_desc m) = Some desc" and
          r: "draw_loop conf perm (mi_line m1 + 1) (mi_col m1) (num + 1) ms = Some (n, ms1, out1)" and
          eq: "ms' = m1 # ms1" "out = Draw_item (mi_line m1) (mi_col m1) desc # out1"
        using Cons.prems(1) other True by (auto simp: m1_def Option.bind_eq_Some_conv split: if_splits)
      have "draw_loop conf perm (mi_line m1 + 1) (mi_col m1) (num + 1) ms1 = Some (n, ms1, out1)"
        using Cons.IH [OF r] m1(1) by simp
      then show ?thesis using eq m1 d other True by simp
    next
      case False
      define p where "p = (if mi_line m > 0 then (mi_line m, mi_col m) else (line, col))"
      obtain ms1 where r: "draw_loop conf perm (fst p) (snd p) (num + 1) ms = Some (n, ms1, out)" and eq: "ms' = m\<lparr>mi_line := -1\<rparr> # ms1"
        using Cons.prems(1) other False by (auto simp: p_def Option.bind_eq_Some_conv split: if_splits)
      have "fst p > 0" using Cons.prems(2) by (simp add: p_def)
      then show ?thesis using Cons.IH [OF r, of line' col'] eq other by simp
    qed
  qed
qed simp

text \<open>Drawing a menu once more, for the same user, puts the same things in the same places and leaves the
  items as they are.\<close>

theorem draw_menu_again:
  assumes "draw_menu perm off conf = Some (n, conf', out)"
  shows "draw_menu perm off conf' = Some (n, conf', out)"
proof -
  obtain ms where d: "draw_loop conf perm 3 0 0 (drop off (cf_item conf)) = Some (n, ms, out)"
    and c: "conf' = conf\<lparr>cf_item := take off (cf_item conf) @ ms\<rparr>"
    using assms by (auto simp: draw_menu_def Option.bind_eq_Some_conv)
  have "drop off (cf_item conf) \<noteq> []" using d by (metis draw_loop.simps(1) option.distinct(1))
  then have "off < length (cf_item conf)" by simp
  then have "drop off (cf_item conf') = ms" "take off (cf_item conf') = take off (cf_item conf)" by (simp_all add: c)
  moreover have "draw_loop conf' perm 3 0 0 ms = Some (n, ms, out)" using draw_loop_again [OF d] by (simp add: c draw_keep)
  ultimately show ?thesis by (simp add: draw_menu_def c)
qed

definition item_at :: "int \<Rightarrow> int \<Rightarrow> menuitem_t" where
  "item_at line level = \<lparr>mi_line = line, mi_col = 0, mi_level = level, mi_name = 0, mi_desc = 0, mi_arg = 0, mi_func = 0\<rparr>"

definition menu_conf :: "menuitem_t list \<Rightarrow> sysconf_t" where
  "menu_conf items = \<lparr>cf_base = 0, cf_buf = [65, 0], cf_item = items, cf_var = [], cf_len = 2\<rparr>"

theorem draw_menu_again_witness:
  "draw_menu (\<lambda>p. p = 0) 0 (menu_conf [item_at 7 0, item_at (-1) 5, item_at 8 0, item_at 0 (-1)])
     = Some (3, menu_conf [item_at 7 0, item_at (-1) 5, item_at 8 0, item_at 0 (-1)], [Draw_item 7 0 [65], Draw_item 8 0 [65]])"
  by (rule draw_menu_again [of _ _ "menu_conf [item_at 7 0, item_at 9 5, item_at 8 0, item_at 0 (-1)]"])
     (simp add: draw_menu_def menu_conf_def item_at_def string_at_def)

section \<open>Moving the cursor\<close>

text \<open>A menu of \<open>n\<close> items at \<open>off\<close>, one of which can be chosen.\<close>

definition menu_ok :: "(int \<Rightarrow> bool) \<Rightarrow> menuitem_t list \<Rightarrow> nat \<Rightarrow> nat \<Rightarrow> bool" where
  "menu_ok perm items off n \<longleftrightarrow>
     off + n < length items \<and> mi_level (items ! (off + n)) = -1 \<and> (\<exists>i < n. selectable perm (items ! (off + i)))"

text \<open>The order in which a key looks at the items.\<close>

definition key_order :: "int \<Rightarrow> nat \<Rightarrow> nat \<Rightarrow> nat list" where
  "key_order ch now n =
     (if ch = KEY_DOWN then [Suc now..<n] @ [0..<n]
      else if ch = KEY_UP then rev [0..<now] @ rev [0..<n]
      else if ch = KEY_PGUP then [0..<n]
      else rev [0..<n])"

abbreviation choice :: "(int \<Rightarrow> bool) \<Rightarrow> menuitem_t list \<Rightarrow> nat \<Rightarrow> nat list \<Rightarrow> nat option" where
  "choice perm items off ks \<equiv> List.find (\<lambda>k. selectable perm (items ! (off + k))) ks"

lemma item_read: "off + k < length items \<Longrightarrow> rdi items (int off + int k) = Some (items ! (off + k))"
  by (simp add: rdi_def rd_def nat_add_distrib)

lemma settle_here:
  "off + k < length items \<Longrightarrow> selectable perm (items ! (off + k)) \<Longrightarrow> settle perm items (int off) sz (int k) = Some (int k)"
  by (subst settle.simps) (simp add: item_read)

lemma last_not_selectable: "mi_level m = -1 \<Longrightarrow> \<not> selectable perm m"
  by (simp add: selectable_def)

lemma settle_from:
  assumes "menu_ok perm items off n" and "now \<le> n"
  shows "settle perm items (int off) (int n) (int now)
    = (case choice perm items off [now..<n] of Some k \<Rightarrow> Some (int k) | None \<Rightarrow> settle perm items (int off) (int n) 0)"
  using assms(2)
proof (induction rule: inc_induct)
  case base
  have "\<not> selectable perm (items ! (off + n))" "off + n < length items" using assms(1) by (auto simp: menu_ok_def last_not_selectable)
  then show ?case by (subst settle.simps) (simp add: item_read)
next
  case (step now)
  have len: "off + now < length items" using assms(1) step.hyps by (simp add: menu_ok_def)
  show ?case
  proof (cases "selectable perm (items ! (off + now))")
    case True
    then show ?thesis using settle_here [OF len True] step.hyps by (simp add: upt_conv_Cons)
  next
    case False
    then have "settle perm items (int off) (int n) (int now) = settle perm items (int off) (int n) (if Suc now \<ge> n then 0 else int (Suc now))"
      using len by (subst settle.simps) (auto simp: item_read add.commute)
    then show ?thesis using False step by (auto simp: upt_conv_Cons)
  qed
qed

lemma choose_some: "menu_ok perm items off n \<Longrightarrow> set ks = {0..<n} \<Longrightarrow> choice perm items off ks \<noteq> None"
  by (auto simp: menu_ok_def find_None_iff)

lemma find_append: "List.find P (xs @ ys) = (case List.find P xs of Some x \<Rightarrow> Some x | None \<Rightarrow> List.find P ys)"
  by (induction xs) auto

lemma settle_spec:
  assumes "menu_ok perm items off n" and "now \<le> n"
  shows "settle perm items (int off) (int n) (int now) = map_option int (choice perm items off ([now..<n] @ [0..<n]))"
  using settle_from [OF assms] settle_from [OF assms(1), of 0] choose_some [OF assms(1), of "[0..<n]"]
  by (auto simp: find_append split: option.splits)

lemma up_from:
  assumes "menu_ok perm items off n" and "now < n"
  shows "up_loop perm items (int off) (int n) (int now)
    = (case choice perm items off (rev [0..<Suc now]) of Some k \<Rightarrow> Some (int k) | None \<Rightarrow> up_loop perm items (int off) (int n) (int n - 1))"
  using assms(2)
proof (induction now)
  case 0
  have "off < length items" using assms(1) by (simp add: menu_ok_def)
  then show ?case using item_read [of off 0 items] by (subst up_loop.simps) simp
next
  case (Suc now)
  have "off + Suc now < length items" using assms(1) Suc.prems by (simp add: menu_ok_def)
  then show ?case using Suc item_read [of off "Suc now" items] by (subst up_loop.simps) simp
qed

lemma up_spec:
  assumes "menu_ok perm items off n" and "now \<le> n" and "now = 0 \<Longrightarrow> 0 < off \<and> mi_level (items ! (off - 1)) < 0"
  shows "up_loop perm items (int off) (int n) (int now - 1) = map_option int (choice perm items off (rev [0..<now] @ rev [0..<n]))"
proof -
  have "0 < n" using assms(1) by (auto simp: menu_ok_def)
  then have top: "up_loop perm items (int off) (int n) (int n - 1) = map_option int (choice perm items off (rev [0..<n]))"
    using up_from [OF assms(1), of "n - 1"] choose_some [OF assms(1), of "rev [0..<n]"] by (auto simp: of_nat_diff split: option.splits)
  show ?thesis
  proof (cases now)
    case 0
    have "rdi items (int off - 1) = Some (items ! (off - 1))" "\<not> selectable perm (items ! (off - 1))"
      using assms(1) assms(3) [OF 0] item_read [of 0 "off - 1" items] by (auto simp: menu_ok_def selectable_def of_nat_diff)
    then have "up_loop perm items (int off) (int n) (int now - 1) = up_loop perm items (int off) (int n) (int n - 1)"
      using 0 by (subst up_loop.simps) simp
    then show ?thesis using top 0 by simp
  next
    case (Suc k)
    then show ?thesis using up_from [OF assms(1), of k] assms(2) top by (auto simp: find_append split: option.splits)
  qed
qed

lemma end_spec:
  assumes "now \<le> n" and "off + n < length items" and "choice perm items off (rev [0..<now]) \<noteq> None"
  shows "end_loop perm items (int off) (int now - 1) = map_option int (choice perm items off (rev [0..<now]))"
  using assms
proof (induction now)
  case (Suc k)
  have "off + k < length items" using Suc.prems by simp
  then show ?case using Suc item_read [of off k items] by (subst end_loop.simps) (auto split: if_splits)
qed simp

lemma choose_range:
  "choice perm items off ks = Some k \<Longrightarrow> k \<in> set ks \<and> selectable perm (items ! (off + k))"
  by (auto simp: find_Some_iff)



text \<open>In the menu at the start of the array there is no entry before the first item.\<close>

lemma key_up_first_menu: "menu_key conf perm topmenu refscreen 0 (int n) KEY_UP 0 = None"
  by (simp add: menu_key_def KEY_UP_def KEY_RIGHT_def KEY_LEFT_def KEY_DOWN_def) (subst up_loop.simps, simp add: rdi_def Option.bind_eq_None_conv)

end
