(* ===== verification/FB_Mention.thy ===== *)
theory FB_Mention
  imports FB_Edit FB_Markup FB_ReadMark
begin

text \<open>
  Users mentioned in a post (\<open>lib/post.c\<close>): a name behind an at sign, in the lines that are not quoted, before the
  signature.  Positions are offsets in the text; the caller's handler is a function on its state.
\<close>

definition IDLEN :: nat where "IDLEN = 12"
definition POST_MENTION_LIMIT :: nat where "POST_MENTION_LIMIT = 10"

section \<open>The scanner\<close>

text \<open>\<open>at\<close> is the start of the name that is being read; the loop runs over the \<open>n\<close> bytes up to the end.\<close>

fun mention_loop :: "buf \<Rightarrow> buf \<Rightarrow> nat option \<Rightarrow> nat \<Rightarrow> nat \<Rightarrow> (nat \<times> buf) option" where
  "mention_loop b user_name at p 0 = Some (p, user_name)"
| "mention_loop b user_name at p (Suc n) = do {
     c \<leftarrow> rd b p;
     (case at of
        Some a \<Rightarrow>
          if isalpha (sint c) then mention_loop b user_name at (Suc p) n
          else if c \<noteq> 46 \<and> p - a \<ge> 2 \<and> p - a < length user_name then do {
            (user_name, _) \<leftarrow> strlcpy user_name (drop a b) (p - a + 1);
            Some (p, user_name)
          } else mention_loop b user_name (if c = 64 then Some (Suc p) else None) (Suc p) n
      | None \<Rightarrow> mention_loop b user_name (if c = 64 then Some (Suc p) else None) (Suc p) n)
   }"

definition next_mention :: "buf \<Rightarrow> nat \<Rightarrow> nat \<Rightarrow> buf \<Rightarrow> (nat \<times> buf) option" where
  "next_mention b s e user_name = do { user_name \<leftarrow> wr user_name 0 0; mention_loop b user_name None s (e - s) }"

text \<open>A name is looked for among the \<open>n\<close> names that were found; the array of names ends at the limit.\<close>

fun seen_loop :: "buf list \<Rightarrow> buf \<Rightarrow> nat \<Rightarrow> nat \<Rightarrow> bool option" where
  "seen_loop user_names u i 0 = Some False"
| "seen_loop user_names u i (Suc n) = do {
     v \<leftarrow> rd user_names i;
     (if strcaseeq u v then Some True else seen_loop user_names u (Suc i) n)
   }"

record 's mentions =
  mt_count :: nat
  mt_names :: "buf list"
  mt_state :: 's

definition process_mention :: "(buf \<Rightarrow> 's \<Rightarrow> 's) \<Rightarrow> buf \<Rightarrow> 's mentions \<Rightarrow> 's mentions option" where
  "process_mention handler u m = do {
     seen \<leftarrow> seen_loop (mt_names m) u 0 (mt_count m);
     (if seen then Some m
      else if mt_count m < POST_MENTION_LIMIT then do {
        v \<leftarrow> rd (mt_names m) (mt_count m);
        (v, _) \<leftarrow> strlcpy v u (IDLEN + 1);
        Some (m\<lparr>mt_count := mt_count m + 1, mt_names := (mt_names m)[mt_count m := v], mt_state := handler (cstr u) (mt_state m)\<rparr>)
      } else Some (m\<lparr>mt_count := mt_count m + 1\<rparr>))
   }"

text \<open>\<open>u\<close> is what the array for a name holds before.\<close>

partial_function (option) mention_line :: "(buf \<Rightarrow> 's \<Rightarrow> 's) \<Rightarrow> buf \<Rightarrow> buf \<Rightarrow> nat \<Rightarrow> nat \<Rightarrow> 's mentions \<Rightarrow> 's mentions option" where
  "mention_line handler u b p e m =
     (if p < e then do {
        (p, user_name) \<leftarrow> next_mention b p e u;
        c \<leftarrow> rd user_name 0;
        m \<leftarrow> (if c \<noteq> 0 then process_mention handler user_name m else Some m);
        mention_line handler u b p e m
      } else Some m)"

definition is_quoted :: "buf \<Rightarrow> nat \<Rightarrow> nat \<Rightarrow> bool option" where
  "is_quoted b p e =
     (if e \<ge> p + 2 then do { c \<leftarrow> rd b p; (if c = 58 then do { d \<leftarrow> rd b (p + 1); Some (d = 32) } else Some False) } else Some False)"

partial_function (option) scan_lines :: "(buf \<Rightarrow> 's \<Rightarrow> 's) \<Rightarrow> buf \<Rightarrow> buf \<Rightarrow> nat \<Rightarrow> nat \<Rightarrow> 's mentions \<Rightarrow> 's mentions option" where
  "scan_lines handler u b p e m =
     (if p < e then do {
        le \<leftarrow> line_end b p e;
        (if le \<le> e then do {
           q \<leftarrow> is_quoted b p le;
           m \<leftarrow> (if q then Some m else mention_line handler u b p le m);
           scan_lines handler u b le e m
         } else Some m)
      } else Some m)"

definition post_scan_for_mentions :: "(buf \<Rightarrow> 's \<Rightarrow> 's) \<Rightarrow> buf \<Rightarrow> buf \<Rightarrow> buf \<Rightarrow> 's \<Rightarrow> (nat \<times> 's) option" where
  "post_scan_for_mentions handler u title content s = do {
     n \<leftarrow> strlen content;
     (case (if strneq title (lit ''Re: '' @ [0]) 4 then strstr (take n content) [10, 10] else Some 0) of
        None \<Rightarrow> Some (0, s)
      | Some p \<Rightarrow> do {
          let e = (case strstr (drop p (take n content)) [10, 45, 45, 10] of Some i \<Rightarrow> p + i + 1 | None \<Rightarrow> n);
          m \<leftarrow> scan_lines handler u content p e
            \<lparr>mt_count = 0, mt_names = replicate POST_MENTION_LIMIT (replicate (IDLEN + 1) 0), mt_state = s\<rparr>;
          Some (mt_count m, mt_state m)
        })
   }"

section \<open>What it should find\<close>

text \<open>The names in a text: letters behind an at sign, at least two and at most twelve, and behind them a character that is
  no letter and no dot.\<close>

fun names_in :: "buf option \<Rightarrow> buf \<Rightarrow> buf list" where
  "names_in at [] = []"
| "names_in at (c # s) =
     (case at of
        Some w \<Rightarrow>
          if isalpha (sint c) then names_in (Some (w @ [c])) s
          else if c \<noteq> 46 \<and> 2 \<le> length w \<and> length w \<le> IDLEN then w # names_in (if c = 64 then Some [] else None) s
          else names_in (if c = 64 then Some [] else None) s
      | None \<Rightarrow> names_in (if c = 64 then Some [] else None) s)"

text \<open>Each name once, in the order of its first occurrence; case does not matter.\<close>

fun first_names :: "buf list \<Rightarrow> buf list \<Rightarrow> buf list" where
  "first_names seen [] = seen"
| "first_names seen (w # ws) =
     (if map lower w \<in> set (map (map lower) seen) then first_names seen ws else first_names (seen @ [w]) ws)"

function text_lines :: "buf \<Rightarrow> buf list" where
  "text_lines s = (if s = [] then [] else take (get_line_end s) s # text_lines (drop (get_line_end s) s))"
  by pat_completeness auto
termination
proof (relation "measure length")
  fix s :: buf
  assume "s \<noteq> []"
  then show "(drop (get_line_end s) s, s) \<in> measure length" by (cases s) auto
qed simp

declare text_lines.simps [simp del]

definition mentioned :: "buf \<Rightarrow> buf list" where
  "mentioned s = concat (map (names_in None) (filter (\<lambda>l. take 2 l \<noteq> [58, 32]) (text_lines s)))"

text \<open>The part of a post that counts: a reply without its header, without the signature.\<close>

definition scanned :: "buf \<Rightarrow> buf \<Rightarrow> buf" where
  "scanned title s =
     (case (if take 4 (cstr title) = lit ''Re: '' then strstr s [10, 10] else Some 0) of
        None \<Rightarrow> []
      | Some p \<Rightarrow> (case strstr (drop p s) [10, 45, 45, 10] of Some i \<Rightarrow> take (i + 1) (drop p s) | None \<Rightarrow> drop p s))"

end
