(* ===== verification/FB_MentionScan.thy ===== *)
theory FB_MentionScan
  imports FB_Mention
begin

text \<open>
  The users found in a post are exactly the ones that are mentioned, each once, as long as there are no more than ten.
\<close>

lemma drop_more: "drop p b = s @ r \<Longrightarrow> i \<le> length s \<Longrightarrow> drop (p + i) b = drop i s @ r"
  by (metis add.commute append_eq_conv_conj drop_append drop_drop diff_is_0_eq' drop_0)

section \<open>One name\<close>

text \<open>The name that is being read, as a position and as a text.\<close>

definition reading :: "buf \<Rightarrow> nat \<Rightarrow> nat option \<Rightarrow> buf option \<Rightarrow> bool" where
  "reading b p at w \<longleftrightarrow>
     (case (at, w) of
        (None, None) \<Rightarrow> True
      | (Some a, Some w) \<Rightarrow> a + length w = p \<and> drop a b = w @ drop p b \<and> (\<forall>c \<in> set w. isalpha (sint c))
      | _ \<Rightarrow> False)"

lemma reading_start: "reading b (Suc p) (if c = 64 then Some (Suc p) else None) (if c = 64 then Some [] else None)"
  by (simp add: reading_def)

lemma reading_more:
  assumes "reading b p (Some a) (Some w)" and "drop p b = c # s" and "isalpha (sint c)"
  shows "reading b (Suc p) (Some a) (Some (w @ [c]))"
  using assms drop_step [OF assms(2)] by (auto simp: reading_def)

lemma alpha_not_nul: "isalpha (sint (c :: byte)) \<Longrightarrow> c \<noteq> 0"
  by (auto simp: isalpha_def isupper_def islower_def)

lemma copy_name:
  assumes "reading b p (Some a) (Some w)" and "terminated (drop p b)" and "length w < length u"
  shows "strlcpy u (drop a b) (p - a + 1) = Some (w @ 0 # drop (Suc (length w)) u, length (cstr (drop a b)))"
proof -
  have a: "p - a = length w" "drop a b = w @ drop p b" "0 \<notin> set w"
    using assms(1) alpha_not_nul by (auto simp: reading_def)
  have "terminated (drop a b)" using a(2) assms(2) by simp
  moreover have "take (length w) (cstr (drop a b)) = w" 
    unfolding a(2) using a(3) by (subst takeWhile_append2) auto
  ultimately show ?thesis using strlcpy_value [of "drop a b" "p - a + 1" u] assms(3) by (simp add: a(1) Let_def)
qed

lemma mention_loop_spec:
  assumes "drop p b = s @ r" and "terminated r" and "reading b p at aw" and "length u = IDLEN + 1"
  shows "(names_in aw s = [] \<and> mention_loop b u at p (length s) = Some (p + length s, u)) \<or>
    (\<exists>i w. i < length s \<and> names_in aw s = w # names_in None (drop i s) \<and> w \<noteq> [] \<and> length w \<le> IDLEN \<and> 0 \<notin> set w \<and>
       mention_loop b u at p (length s) = Some (p + i, w @ 0 # drop (Suc (length w)) u))"
  using assms(1,3)
proof (induction s arbitrary: p at aw)
  case (Cons c s)
  have d: "drop p b = c # s @ r" using Cons.prems(1) by simp
  have d1: "drop (Suc p) b = s @ r" by (rule drop_step [OF d])
  have step: ?case if "mention_loop b u at p (length (c # s)) = mention_loop b u at' (Suc p) (length s)"
      "names_in aw (c # s) = names_in aw' s" "reading b (Suc p) at' aw'" for at' aw'
    using Cons.IH [OF d1 that(3)]
  proof (elim disjE exE conjE)
    fix i w
    assume "i < length s" "names_in aw' s = w # names_in None (drop i s)" "w \<noteq> []" "length w \<le> IDLEN" "0 \<notin> set w"
      "mention_loop b u at' (Suc p) (length s) = Some (Suc p + i, w @ 0 # drop (Suc (length w)) u)"
    then show ?case unfolding that(1,2) by (intro disjI2 exI [of _ "Suc i"] exI [of _ w]) simp
  next
    assume "names_in aw' s = []" "mention_loop b u at' (Suc p) (length s) = Some (Suc p + length s, u)"
    then show ?case unfolding that(1,2) by (intro disjI1) simp
  qed
  show ?case
  proof (cases at)
    case None
    then have "aw = None" using Cons.prems(2) by (cases aw) (simp_all add: reading_def)
    then show ?thesis using None rd_drop [OF d] by (intro step [OF _ _ reading_start [of b p c]]) simp_all
  next
    case (Some a)
    then obtain w where w: "aw = Some w" using Cons.prems(2) by (cases aw) (simp_all add: reading_def)
    have rw: "reading b p (Some a) (Some w)" using Cons.prems(2) Some w by simp
    then have pa: "p - a = length w" "0 \<notin> set w" using alpha_not_nul by (auto simp: reading_def)
    show ?thesis
    proof (cases "isalpha (sint c)")
      case True
      then show ?thesis using Some w rd_drop [OF d] by (intro step [OF _ _ reading_more [OF rw d True]]) simp_all
    next
      case False
      show ?thesis
      proof (cases "c \<noteq> 46 \<and> 2 \<le> length w \<and> length w \<le> IDLEN")
        case True
        have "terminated (drop p b)" using d assms(2) by simp
        then have "mention_loop b u at p (length (c # s)) = Some (p, w @ 0 # drop (Suc (length w)) u)"
          using copy_name [OF rw] True False rd_drop [OF d] Some pa assms(4) by simp
        moreover have "names_in aw (c # s) = w # names_in None (drop 0 (c # s))" using True False w by simp
        ultimately show ?thesis using True pa(2) by (intro disjI2 exI [of _ 0] exI [of _ w]) auto
      next
        case no: False
        then show ?thesis using Some w rd_drop [OF d] False pa(1) assms(4) by (intro step [OF _ _ reading_start [of b p c]]) auto
      qed
    qed
  qed
qed simp

lemma next_mention_spec:
  assumes "drop p b = s @ r" and "terminated r" and "length u = IDLEN + 1"
  shows "(names_in None s = [] \<and> (\<exists>u'. next_mention b p (p + length s) u = Some (p + length s, 0 # u'))) \<or>
    (\<exists>i w u'. 0 < i \<and> i < length s \<and> names_in None s = w # names_in None (drop i s) \<and> w \<noteq> [] \<and> length w \<le> IDLEN \<and> 0 \<notin> set w \<and>
       next_mention b p (p + length s) u = Some (p + i, w @ 0 # u'))"
proof -
  let ?u = "u[0 := 0]"
  have u: "wr u 0 0 = Some ?u" "length ?u = IDLEN + 1" using assms(3) by (simp_all add: wr_Some)
  have hd0: "?u = 0 # tl ?u" using assms(3) by (cases u) simp_all
  have nm: "next_mention b p (p + length s) u = mention_loop b ?u None p (length s)" using u(1) by (simp add: next_mention_def)
  have "reading b p None None" by (simp add: reading_def)
  from mention_loop_spec [OF assms(1,2) this u(2)] show ?thesis
  proof (elim disjE exE conjE)
    assume "names_in None s = []" "mention_loop b ?u None p (length s) = Some (p + length s, ?u)"
    then show ?thesis using hd0 nm by metis
  next
    fix i w
    assume h: "i < length s" "names_in None s = w # names_in None (drop i s)" "w \<noteq> []" "length w \<le> IDLEN" "0 \<notin> set w"
      "mention_loop b ?u None p (length s) = Some (p + i, w @ 0 # drop (Suc (length w)) ?u)"
    have "0 < i"
    proof (rule ccontr)
      assume "\<not> 0 < i"
      then show False using arg_cong [OF h(2), of length] by simp
    qed
    then show ?thesis using h nm by metis
  qed
qed

section \<open>All names\<close>

lemma first_names_append: "first_names seen (ws @ vs) = first_names (first_names seen ws) vs"
  by (induction ws arbitrary: seen) simp_all

lemma first_names_mono: "length seen \<le> length (first_names seen ws)"
  by (induction ws arbitrary: seen) (simp_all, metis Suc_leD length_append_singleton)

definition found :: "(buf \<Rightarrow> 's \<Rightarrow> 's) \<Rightarrow> 's \<Rightarrow> buf list \<Rightarrow> 's mentions \<Rightarrow> bool" where
  "found handler s0 seen m \<longleftrightarrow>
     mt_count m = length seen \<and> length seen \<le> POST_MENTION_LIMIT \<and> length (mt_names m) = POST_MENTION_LIMIT \<and>
     (\<forall>v \<in> set (mt_names m). length v = IDLEN + 1) \<and> (\<forall>i < length seen. cstr (mt_names m ! i) = seen ! i) \<and>
     mt_state m = fold handler seen s0"

lemma seen_loop_spec:
  assumes "i + n \<le> length names" and "\<forall>j < i + n. cstr (names ! j) = seen ! j" and "length seen = i + n"
  shows "seen_loop names u i n = Some (map lower (cstr u) \<in> set (map (map lower) (drop i seen)))"
  using assms
proof (induction n arbitrary: i)
  case (Suc n)
  have "drop i seen = seen ! i # drop (Suc i) seen" using Suc.prems(3) by (simp add: Cons_nth_drop_Suc)
  then show ?case using Suc.IH [of "Suc i"] Suc.prems by (simp add: rd_def strcaseeq_def)
qed simp

lemma process_mention_spec:
  assumes "found handler s0 seen m" and "0 \<notin> set w" and "length w \<le> IDLEN" and "length (first_names seen [w]) \<le> POST_MENTION_LIMIT"
  shows "\<exists>m'. process_mention handler (w @ 0 # u) m = Some m' \<and> found handler s0 (first_names seen [w]) m'"
proof -
  have cs: "cstr (w @ 0 # u) = w" using assms(2) by simp
  have seen: "seen_loop (mt_names m) (w @ 0 # u) 0 (mt_count m) = Some (map lower w \<in> set (map (map lower) seen))"
    using seen_loop_spec [of 0 "length seen" "mt_names m" seen "w @ 0 # u"] assms(1) unfolding cs by (simp add: found_def)
  show ?thesis
  proof (cases "map lower w \<in> set (map (map lower) seen)")
    case True
    then show ?thesis using seen assms(1) by (auto simp: process_mention_def)
  next
    case False
    let ?n = "length seen" and ?v = "w @ 0 # drop (Suc (length w)) (mt_names m ! length seen)"
    have n: "?n < POST_MENTION_LIMIT" "mt_count m = ?n" "?n < length (mt_names m)" using assms(1,4) False by (auto simp: found_def)
    have "length (mt_names m ! ?n) = IDLEN + 1" using assms(1) n(3) by (auto simp: found_def)
    then have cp: "strlcpy (mt_names m ! ?n) (w @ 0 # u) (IDLEN + 1) = Some (?v, length w)" and lv: "length ?v = IDLEN + 1"
      using strlcpy_value [of "w @ 0 # u" "IDLEN + 1" "mt_names m ! ?n"] assms(2,3) by (simp_all add: Let_def)
    let ?m = "m\<lparr>mt_count := ?n + 1, mt_names := (mt_names m)[?n := ?v], mt_state := handler w (mt_state m)\<rparr>"
    have "process_mention handler (w @ 0 # u) m = Some ?m"
      using seen False n cp cs by (simp add: process_mention_def rd_def)
    moreover have "found handler s0 (seen @ [w]) ?m"
      using assms(1,2) n lv by (auto simp: found_def nth_append nth_list_update less_Suc_eq dest!: set_update_subset_insert [THEN subsetD])
    ultimately show ?thesis using False by auto
  qed
qed

lemma mention_line_spec:
  assumes "drop p b = s @ r" and "terminated r" and "length u = IDLEN + 1" and "found handler s0 seen m"
    and "length (first_names seen (names_in None s)) \<le> POST_MENTION_LIMIT"
  shows "\<exists>m'. mention_line handler u b p (p + length s) m = Some m' \<and> found handler s0 (first_names seen (names_in None s)) m'"
  using assms(1,4,5)
proof (induction "length s" arbitrary: p s seen m rule: less_induct)
  case less
  have stop: "mention_line handler u b q q m' = Some m'" for q and m' :: "'a mentions" by (subst mention_line.simps) simp
  show ?case
  proof (cases "s = []")
    case True
    then show ?thesis using less.prems(2) stop by simp
  next
    case False
    from next_mention_spec [OF less.prems(1) assms(2,3)] show ?thesis
    proof (elim disjE exE conjE)
      fix u'
      assume h: "names_in None s = []" "next_mention b p (p + length s) u = Some (p + length s, 0 # u')"
      have "mention_line handler u b p (p + length s) m = Some m"
        using False h(2) stop by (subst mention_line.simps) (simp add: rd_def)
      then show ?thesis using h(1) less.prems(2) by simp
    next
      fix i w u'
      assume h: "0 < i" "i < length s" "names_in None s = w # names_in None (drop i s)" "w \<noteq> []" "length w \<le> IDLEN" "0 \<notin> set w"
        "next_mention b p (p + length s) u = Some (p + i, w @ 0 # u')"
      have fn: "first_names seen (names_in None s) = first_names (first_names seen [w]) (names_in None (drop i s))"
        unfolding h(3) first_names_append [symmetric] by simp
      have le: "length (first_names seen [w]) \<le> POST_MENTION_LIMIT" using less.prems(3) first_names_mono le_trans unfolding fn by blast
      obtain m1 where m1: "process_mention handler (w @ 0 # u') m = Some m1" "found handler s0 (first_names seen [w]) m1"
        using process_mention_spec [OF less.prems(2) h(6,5) le] by blast
      have "hd w \<noteq> 0" using h(4,6) by (metis hd_in_set)
      then have "rd (w @ 0 # u') 0 = Some (hd w)" using h(4) by (simp add: rd_def nth_append hd_conv_nth)
      then have "mention_line handler u b p (p + length s) m = mention_line handler u b (p + i) (p + length s) m1"
        using False h(7) m1(1) \<open>hd w \<noteq> 0\<close> by (subst mention_line.simps) simp
      moreover have "length (drop i s) < length s" using h(1,2) by simp
      from less.hyps [OF this drop_more [OF less.prems(1) less_imp_le [OF h(2)]] m1(2) less.prems(3) [unfolded fn]]
      have "\<exists>m'. mention_line handler u b (p + i) (p + length s) m1 = Some m' \<and> found handler s0 (first_names (first_names seen [w]) (names_in None (drop i s))) m'"
        using h(2) by simp
      ultimately show ?thesis unfolding fn by simp
    qed
  qed
qed

section \<open>All lines\<close>

lemma get_line_end_pos: "s \<noteq> [] \<Longrightarrow> 0 < get_line_end s \<and> get_line_end s \<le> length s"
proof -
  have "get_line_end s \<le> length s" by (induction s) auto
  then show "s \<noteq> [] \<Longrightarrow> 0 < get_line_end s \<and> get_line_end s \<le> length s" by (cases s) auto
qed

lemma line_end_spec:
  assumes "drop p b = s @ r"
  shows "line_end b p (p + length s) = Some (p + get_line_end s)"
  using assms
proof (induction s arbitrary: p)
  case Nil
  then show ?case by (simp add: line_end.simps)
next
  case (Cons c s)
  have d: "drop p b = c # s @ r" using Cons.prems by simp
  show ?case using Cons.IH [OF drop_step [OF d]] rd_drop [OF d] by (subst line_end.simps) simp
qed

lemma is_quoted_spec:
  assumes "drop p b = l @ r"
  shows "is_quoted b p (p + length l) = Some (take 2 l = [58, 32])"
proof (cases l)
  case l1: (Cons x l1)
  show ?thesis
  proof (cases l1)
    case (Cons y l2)
    have "rd b p = Some x" "rd b (p + 1) = Some y"
      using assms l1 Cons rd_drop drop_step [of p b x] by (auto intro: rd_drop)
    then show ?thesis using l1 Cons by (simp add: is_quoted_def)
  qed (use l1 in \<open>simp add: is_quoted_def\<close>)
qed (simp add: is_quoted_def)

lemma scan_lines_spec:
  assumes "drop p b = s @ r" and "terminated r" and "length u = IDLEN + 1" and "found handler s0 seen m"
    and "length (first_names seen (mentioned s)) \<le> POST_MENTION_LIMIT"
  shows "\<exists>m'. scan_lines handler u b p (p + length s) m = Some m' \<and> found handler s0 (first_names seen (mentioned s)) m'"
  using assms(1,4,5)
proof (induction s arbitrary: p seen m rule: text_lines.induct)
  case (1 s)
  show ?case
  proof (cases "s = []")
    case True
    then show ?thesis using "1.prems"(2) by (subst scan_lines.simps) (simp add: mentioned_def text_lines.simps)
  next
    case False
    define k where "k = get_line_end s"
    define ws where "ws = (if take 2 (take k s) = [58, 32] then [] else names_in None (take k s))"
    have k: "0 < k" "k \<le> length s" using get_line_end_pos [OF False] by (simp_all add: k_def)
    have ms: "mentioned s = ws @ mentioned (drop k s)"
      using False text_lines.simps [of s] by (simp add: mentioned_def ws_def k_def)
    have fn: "first_names seen (mentioned s) = first_names (first_names seen ws) (mentioned (drop k s))"
      by (simp add: ms first_names_append)
    have le: "length (first_names seen ws) \<le> POST_MENTION_LIMIT" using "1.prems"(3) first_names_mono le_trans unfolding fn by blast
    have d: "drop p b = take k s @ drop k s @ r" using "1.prems"(1) by (metis append_assoc append_take_drop_id)
    have lk: "p + length (take k s) = p + k" using k by simp
    have "\<exists>m1. (if take 2 (take k s) = [58, 32] then Some m else mention_line handler u b p (p + k) m) = Some m1 \<and> found handler s0 (first_names seen ws) m1"
      using mention_line_spec [OF d _ assms(3) "1.prems"(2)] assms(2) "1.prems"(2) le lk by (auto simp: ws_def)
    then obtain m1 where m1: "(if take 2 (take k s) = [58, 32] then Some m else mention_line handler u b p (p + k) m) = Some m1"
        "found handler s0 (first_names seen ws) m1" by blast
    have "scan_lines handler u b p (p + length s) m = scan_lines handler u b (p + k) (p + length s) m1"
      using False line_end_spec [OF "1.prems"(1)] is_quoted_spec [OF d] k m1(1) unfolding lk
      by (subst scan_lines.simps) (simp add: k_def [symmetric])
    moreover from "1.IH" [OF False, folded k_def, OF drop_more [OF "1.prems"(1) k(2)] m1(2) "1.prems"(3) [unfolded fn]]
    have "\<exists>m'. scan_lines handler u b (p + k) (p + length s) m1 = Some m' \<and> found handler s0 (first_names (first_names seen ws) (mentioned (drop k s))) m'"
      using k by simp
    ultimately show ?thesis unfolding fn by simp
  qed
qed

section \<open>A post\<close>

lemma strstr_range: "strstr s pat = Some i \<Longrightarrow> i + length pat \<le> length s"
  by (induction s arbitrary: i) (auto split: if_splits dest: arg_cong [where f = length])

text \<open>Claim C16: the users that a post mentions, outside quoted lines and before the signature, are handed to the
  handler, each once however its name is written, in the order of their first occurrence, and counted, as long as there are
  at most ten of them.\<close>

theorem post_mentions_found:
  assumes "terminated content" and "length u = IDLEN + 1"
    and "names = first_names [] (mentioned (scanned title (cstr content)))" and "length names \<le> POST_MENTION_LIMIT"
  shows "post_scan_for_mentions handler u title content s = Some (length names, fold handler names s)"
proof -
  let ?x = "cstr content" and ?m = "\<lparr>mt_count = 0, mt_names = replicate POST_MENTION_LIMIT (replicate (IDLEN + 1) 0), mt_state = s\<rparr>"
  define start where "start = (if strneq title (lit ''Re: '' @ [0]) 4 then strstr ?x [10, 10] else Some 0)"
  have start: "start = (if take 4 (cstr title) = lit ''Re: '' then strstr ?x [10, 10] else Some 0)"
  proof -
    have "take 4 (cstr (lit ''Re: '' @ [0])) = lit ''Re: ''" by code_simp
    then show ?thesis by (simp add: start_def strneq_def)
  qed
  have init: "found handler s [] ?m" by (simp add: found_def)
  have len: "strlen content = Some (length ?x)" "take (length ?x) content = ?x"
    using strlen_terminated [OF assms(1)] takeWhile_eq_take [of _ content] by auto
  have run: "post_scan_for_mentions handler u title content s = (case start of None \<Rightarrow> Some (0, s)
      | Some p \<Rightarrow> do {
          m \<leftarrow> scan_lines handler u content p (case strstr (drop p ?x) [10, 45, 45, 10] of Some i \<Rightarrow> p + i + 1 | None \<Rightarrow> length ?x) ?m;
          Some (mt_count m, mt_state m)
        })"
    by (simp only: post_scan_for_mentions_def start_def len Option.bind.simps Let_def)
  show ?thesis
  proof (cases start)
    case None
    then have "names = []" using assms(3) start by (simp add: scanned_def mentioned_def text_lines.simps)
    then show ?thesis using None run by simp
  next
    case (Some p)
    define t where "t = scanned title ?x"
    have p: "p \<le> length ?x" using Some strstr_range [of ?x "[10, 10]" p] start by (auto split: if_splits)
    have t: "t = (case strstr (drop p ?x) [10, 45, 45, 10] of Some i \<Rightarrow> take (i + 1) (drop p ?x) | None \<Rightarrow> drop p ?x)"
      using Some start by (simp add: t_def scanned_def)
    have e: "(case strstr (drop p ?x) [10, 45, 45, 10] of Some i \<Rightarrow> p + i + 1 | None \<Rightarrow> length ?x) = p + length t"
      using t p strstr_range [of "drop p ?x" "[10, 45, 45, 10]"] by (force split: option.splits)
    obtain y where y: "drop p ?x = t @ y" using t by (cases "strstr (drop p ?x) [10, 45, 45, 10]") (auto, metis append_take_drop_id)
    have "drop p content = drop p (?x @ 0 # drop (Suc (length ?x)) content)" using terminated_split [OF assms(1)] by simp
    then have d: "drop p content = t @ (y @ 0 # drop (Suc (length ?x)) content)" using p y by simp
    obtain m where m: "scan_lines handler u content p (p + length t) ?m = Some m" "found handler s names m"
      using scan_lines_spec [OF d _ assms(2) init] assms(3,4) by (auto simp: t_def)
    have "post_scan_for_mentions handler u title content s = Some (mt_count m, mt_state m)"
      using run unfolding Some option.case e m(1) by simp
    then show ?thesis using m(2) by (simp add: found_def)
  qed
qed

theorem post_mentions_found_witness:
  "post_scan_for_mentions (\<lambda>u us. us @ [u]) (replicate 13 0) [65, 0] (lit ''Hi @Bob, @eve! @bob.'' @ [10, 58, 32] @ lit ''@joe '' @ [10, 0]) []
     = Some (2, [lit ''Bob'', lit ''eve''])"
proof -
  let ?c = "lit ''Hi @Bob, @eve! @bob.'' @ [10, 58, 32] @ lit ''@joe '' @ [10, 0]"
  have "first_names [] (mentioned (scanned [65, 0] (cstr ?c))) = [lit ''Bob'', lit ''eve'']" by code_simp
  then show ?thesis
    using post_mentions_found [of ?c "replicate 13 0" "[lit ''Bob'', lit ''eve'']" "[65, 0]" "\<lambda>u us. us @ [u]" "[]"]
    by (simp add: IDLEN_def POST_MENTION_LIMIT_def)
qed

text \<open>The names beyond the tenth are counted as well, and the eleventh makes the search for the next one read behind the
  array.\<close>

lemma seen_loop_overrun:
  "length names < i + n \<Longrightarrow> i \<le> length names \<Longrightarrow> \<forall>v \<in> set names. \<not> strcaseeq u v \<Longrightarrow> seen_loop names u i n = None"
  by (induction n arbitrary: i) (auto simp: rd_def)

lemma mention_overrun:
  "length (mt_names m) = POST_MENTION_LIMIT \<Longrightarrow> POST_MENTION_LIMIT < mt_count m \<Longrightarrow> \<forall>v \<in> set (mt_names m). \<not> strcaseeq u v \<Longrightarrow>
   process_mention handler u m = None"
  using seen_loop_overrun [of "mt_names m" 0 "mt_count m" u] by (simp add: process_mention_def)

end
