(* ===== verification/FB_Quote.thy ===== *)
theory FB_Quote
  imports FB_Utf8 FB_Helper "HOL-Library.Sublist"
begin

text \<open>
  Quoting a post in a reply (\<open>lib/post.c\<close>).  Positions are offsets in the text; the output goes through a filter,
  a function on what is written.
\<close>

definition MAX_QUOTED_LINES :: nat where "MAX_QUOTED_LINES = 5"
definition TRUNCATE_WIDTH :: int where "TRUNCATE_WIDTH = 76"

datatype post_quote_e = QUOTE_NOTHING | QUOTE_AUTO | QUOTE_LONG | QUOTE_SOURCE | QUOTE_ALL | QUOTE_PACK | QUOTE_PACK_COMPACT

section \<open>Lines\<close>

text \<open>The characters of a colour code.  The length passed to \<open>memchr\<close> is the size of a pointer less one, so only the
  first seven of \<open>[0123456789;\<close> count.\<close>

definition ansi_code :: "byte \<Rightarrow> bool" where
  "ansi_code c \<longleftrightarrow> c \<in> set (take 7 (lit ''[0123456789;''))"

text \<open>What a byte outside the ASCII range does: the position of its last byte and the width left, or the end of the line.\<close>

definition wide_step :: "buf \<Rightarrow> nat \<Rightarrow> bool \<Rightarrow> int \<Rightarrow> nat \<Rightarrow> (nat \<times> int) option option" where
  "wide_step b e u8 width s =
     (if u8 then do {
        (wc, n) \<leftarrow> next_wchar (drop s b) (Some (e - s));
        (if wc = WEOF \<or> wc = 0 then Some (Some (s + 1, width))
         else do {
           w \<leftarrow> fb_wcwidth wc;
           Some (if width - w < 0 then None else Some (s + n - 1, width - w))
         })
      } else Some (if width - 2 < 0 then None else Some (s + 1, width - 2)))"

partial_function (option) truncate_loop :: "buf \<Rightarrow> nat \<Rightarrow> bool \<Rightarrow> bool \<Rightarrow> int \<Rightarrow> nat \<Rightarrow> nat option" where
  "truncate_loop b e u8 ansi width s =
     (if s < e then do {
        c \<leftarrow> rd b s;
        (if c = 10 then Some (s + 1)
         else if c = 27 then truncate_loop b e u8 True width (s + 1)
         else if ansi then truncate_loop b e u8 (ansi_code c) width (s + 1)
         else if c AND 0x80 \<noteq> 0 then do {
           r \<leftarrow> wide_step b e u8 width s;
           (case r of
              None \<Rightarrow> Some s
            | Some (s', width') \<Rightarrow>
                if width' = 0 then Some (if s' + 1 > e then e else s' + 1)
                else truncate_loop b e u8 False width' (s' + 1))
         } else if width - 1 = 0 then Some (s + 1)
         else truncate_loop b e u8 False (width - 1) (s + 1))
      } else Some e)"

definition get_truncated_line :: "buf \<Rightarrow> nat \<Rightarrow> nat \<Rightarrow> bool \<Rightarrow> nat option" where
  "get_truncated_line b s e u8 = do {
     q \<leftarrow> (if e - s \<ge> 2 then do { c \<leftarrow> rd b s; d \<leftarrow> rd b (s + 1); Some (c = 58 \<and> d = 32) } else Some False);
     truncate_loop b e u8 False (if q then TRUNCATE_WIDTH + 2 else TRUNCATE_WIDTH) s
   }"

definition quote_mark :: "buf \<Rightarrow> nat \<Rightarrow> nat \<Rightarrow> bool option" where
  "quote_mark b s e =
     (if e - s > 2 then do { c \<leftarrow> rd b s; d \<leftarrow> rd b (s + 1); Some ((c = 58 \<or> c = 62) \<and> d = 32) } else Some False)"

text \<open>The first byte in a range that is no blank; the number is the length of the range.\<close>

fun skip_blanks :: "buf \<Rightarrow> nat \<Rightarrow> nat \<Rightarrow> nat option" where
  "skip_blanks b s 0 = Some s"
| "skip_blanks b s (Suc n) = do { c \<leftarrow> rd b s; (if c = 32 \<or> c = 9 \<or> c = 13 then skip_blanks b (Suc s) n else Some s) }"

definition not_blank :: "buf \<Rightarrow> nat \<Rightarrow> nat \<Rightarrow> bool option" where
  "not_blank b s e = do {
     s \<leftarrow> skip_blanks b s (e - s);
     (if s < e then do { c \<leftarrow> rd b s; Some (c \<noteq> 10) } else Some False)
   }"

definition qualify_quotation :: "buf \<Rightarrow> nat \<Rightarrow> nat \<Rightarrow> bool option" where
  "qualify_quotation b s e = do {
     one \<leftarrow> quote_mark b s e;
     (if one then do {
        two \<leftarrow> quote_mark b (s + 2) e;
        (if two then Some False else not_blank b (s + 2) e)
      } else not_blank b s e)
   }"

fun newline_loop :: "buf \<Rightarrow> nat \<Rightarrow> nat \<Rightarrow> nat option" where
  "newline_loop b s 0 = Some s"
| "newline_loop b s (Suc n) = do { c \<leftarrow> rd b s; (if c = 10 then Some (Suc s) else newline_loop b (Suc s) n) }"

definition get_newline :: "buf \<Rightarrow> nat \<Rightarrow> nat \<Rightarrow> nat option" where
  "get_newline b s e = newline_loop b s (e - s)"

section \<open>The author\<close>

fun after_space :: "buf \<Rightarrow> nat \<Rightarrow> nat \<Rightarrow> nat option" where
  "after_space b s 0 = Some s"
| "after_space b s (Suc n) = do { c \<leftarrow> rd b s; (if c = 32 then Some (Suc s) else after_space b (Suc s) n) }"

text \<open>Behind the last closing parenthesis, or the start.\<close>

fun behind_paren :: "buf \<Rightarrow> nat \<Rightarrow> nat \<Rightarrow> nat option" where
  "behind_paren b s 0 = Some s"
| "behind_paren b s (Suc n) = do { c \<leftarrow> rd b (s + n); (if c = 41 then Some (s + n + 1) else behind_paren b s n) }"

text \<open>What goes through the filter from a range of the text, if the range is not empty.\<close>

definition write_range :: "(buf \<Rightarrow> buf) \<Rightarrow> buf \<Rightarrow> nat \<Rightarrow> nat \<Rightarrow> buf option" where
  "write_range filt b s e = (if e > s then do { bs \<leftarrow> mem_read b s (e - s); Some (filt bs) } else Some [])"

definition quote_author :: "(buf \<Rightarrow> buf) \<Rightarrow> buf \<Rightarrow> nat \<Rightarrow> nat \<Rightarrow> bool \<Rightarrow> bool \<Rightarrow> buf option" where
  "quote_author filt b s lend mail u8 = do {
     quser \<leftarrow> after_space b s (lend - s);
     ptr \<leftarrow> behind_paren b s (lend - s);
     user \<leftarrow> write_range filt b quser ptr;
     Some (filt (if u8 then [0x0a, 0xe3, 0x80, 0x90, 0x20, 0xe5, 0x9c, 0xa8, 0x20]
                 else [0x0a, 0xa1, 0xbe, 0x20, 0xd4, 0xda, 0x20]) @ user @
       filt (if u8 then [0x20, 0xe7, 0x9a, 0x84] else [0x20, 0xb5, 0xc4]) @
       filt (if mail then if u8 then [0xe6, 0x9d, 0xa5, 0xe4, 0xbf, 0xa1] else [0xc0, 0xb4, 0xd0, 0xc5]
             else if u8 then [0xe5, 0xa4, 0xa7, 0xe4, 0xbd, 0x9c] else [0xb4, 0xf3, 0xd7, 0xf7]) @
       filt (if u8 then [0xe4, 0xb8, 0xad, 0xe6, 0x8f, 0x90, 0xe5, 0x88, 0xb0, 0x3a, 0x20, 0xe3, 0x80, 0x91, 0x0a]
             else [0xd6, 0xd0, 0xcc, 0xe1, 0xb5, 0xbd, 0x3a, 0x20, 0xa1, 0xbf, 0x0a]))
   }"

fun find_char :: "buf \<Rightarrow> nat \<Rightarrow> nat \<Rightarrow> byte \<Rightarrow> nat option option" where
  "find_char b s 0 c = Some None"
| "find_char b s (Suc n) c = do { d \<leftarrow> rd b s; (if d = c then Some (Some s) else find_char b (Suc s) n c) }"

fun reverse_find_char :: "buf \<Rightarrow> nat \<Rightarrow> nat \<Rightarrow> byte \<Rightarrow> nat option option" where
  "reverse_find_char b s 0 c = Some None"
| "reverse_find_char b s (Suc n) c = do { d \<leftarrow> rd b (s + n); (if d = c then Some (Some (s + n)) else reverse_find_char b s n c) }"

definition quote_author_pack :: "(buf \<Rightarrow> buf) \<Rightarrow> buf \<Rightarrow> nat \<Rightarrow> nat \<Rightarrow> buf option" where
  "quote_author_pack filt b s e = do {
     lend \<leftarrow> get_newline b s e;
     user_end \<leftarrow> reverse_find_char b s (lend - s) 44;
     s2 \<leftarrow> get_newline b lend e;
     lend2 \<leftarrow> get_newline b s2 e;
     date_begin \<leftarrow> find_char b s2 (lend2 - s2) 40;
     date_end \<leftarrow> find_char b s2 (lend2 - s2) 41;
     user \<leftarrow> (case user_end of Some ue \<Rightarrow> write_range filt b (s + 11) ue | None \<Rightarrow> Some []);
     date \<leftarrow> (case (date_begin, date_end) of (Some d, Some de) \<Rightarrow> write_range filt b (d + 1) de | _ \<Rightarrow> Some []);
     Some (filt [0x20, 0x20, 0x20, 0x20, 0x1b, 0x5b, 0x30, 0x3b, 0x31, 0x3b, 0x33, 0x32, 0x6d] @ user @
       filt [0x20, 0xe4, 0xba, 0x8e, 0x20, 0x1b, 0x5b, 0x31, 0x3b, 0x33, 0x36, 0x6d] @ date @
       filt [0x1b, 0x5b, 0x30, 0x3b, 0x31, 0x6d, 0x20, 0xe6, 0x8f, 0x90, 0xe5, 0x88, 0xb0, 0xef, 0xbc, 0x9a, 0x1b, 0x5b, 0x30, 0x6d, 0x0a, 0x0a])
   }"

section \<open>The text\<close>

definition GBK_SOURCE :: buf where "GBK_SOURCE = [0xa1, 0xf9, 0x20, 0xc0, 0xb4, 0xd4, 0xb4, 0x3a, 0xa1, 0xa4]"
definition UTF8_SOURCE :: buf where "UTF8_SOURCE = [0xe2, 0x80, 0xbb, 0x20, 0xe6, 0x9d, 0xa5, 0xe6, 0xba, 0x90, 0x3a, 0xc2, 0xb7]"

text \<open>The comparison includes the NUL byte behind the constant.\<close>

definition is_source :: "post_quote_e \<Rightarrow> bool \<Rightarrow> buf \<Rightarrow> nat \<Rightarrow> nat \<Rightarrow> bool option" where
  "is_source mode u8 b ptr lend =
     (let src = (if u8 then UTF8_SOURCE else GBK_SOURCE) @ [0] in
      if mode = QUOTE_SOURCE \<and> lend - ptr > 10 + length src then do { bs \<leftarrow> mem_read b (ptr + 10) (length src); Some (bs = src) }
      else Some False)"

definition omitted :: "bool \<Rightarrow> buf" where
  "omitted u8 = lit '': .................'' @
     (if u8 then [0xef, 0xbc, 0x88, 0xe4, 0xbb, 0xa5, 0xe4, 0xb8, 0x8b, 0xe7, 0x9c, 0x81, 0xe7, 0x95, 0xa5, 0xef, 0xbc, 0x89]
      else [0xa3, 0xa8, 0xd2, 0xd4, 0xcf, 0xc2, 0xca, 0xa1, 0xc2, 0xd4, 0xa3, 0xa9])"

definition is_pack :: "post_quote_e \<Rightarrow> bool" where
  "is_pack mode \<longleftrightarrow> mode = QUOTE_PACK \<or> mode = QUOTE_PACK_COMPACT"

definition is_short :: "post_quote_e \<Rightarrow> bool" where
  "is_short mode \<longleftrightarrow> mode = QUOTE_LONG \<or> mode = QUOTE_AUTO"

definition is_signature :: "buf \<Rightarrow> nat \<Rightarrow> nat \<Rightarrow> bool option" where
  "is_signature b ptr lend = (if lend = ptr + 3 then do { bs \<leftarrow> mem_read b ptr 3; Some (bs = [45, 45, 10]) } else Some False)"

text \<open>A line as it is written.\<close>

definition quoted :: "post_quote_e \<Rightarrow> (buf \<Rightarrow> buf) \<Rightarrow> buf \<Rightarrow> buf" where
  "quoted mode filt l =
     (if mode = QUOTE_SOURCE \<or> is_pack mode then [] else filt [58, 32]) @ filt l @ (if last l \<noteq> 10 then filt [10] else [])"

text \<open>A turn of the loop: it stops with its output, or goes on with a line.\<close>

datatype quote_result = Stop buf | Go bool nat buf nat

definition quote_line :: "post_quote_e \<Rightarrow> bool \<Rightarrow> (buf \<Rightarrow> buf) \<Rightarrow> buf \<Rightarrow> nat \<Rightarrow> bool \<Rightarrow> nat \<Rightarrow> buf \<Rightarrow> nat \<Rightarrow> nat \<Rightarrow> quote_result option" where
  "quote_line mode u8 filt b e header lines out ptr lend = do {
     q \<leftarrow> (if is_short mode then qualify_quotation b ptr lend else Some True);
     c \<leftarrow> rd b (lend - 1);
     (if \<not> q then do {
        lend \<leftarrow> (if c \<noteq> 10 then get_newline b lend e else Some lend);
        Some (Go header lines out lend)
      } else do {
        src \<leftarrow> is_source mode u8 b ptr lend;
        (if src then Some (Stop out)
         else if mode = QUOTE_AUTO \<and> lines + 1 > MAX_QUOTED_LINES then Some (Stop (out @ filt (omitted u8)))
         else do {
           bs \<leftarrow> mem_read b ptr (lend - ptr);
           Some (Go header (if mode = QUOTE_AUTO then lines + 1 else lines) (out @ quoted mode filt bs) lend)
         })
      })
   }"

definition quote_turn :: "post_quote_e \<Rightarrow> bool \<Rightarrow> (buf \<Rightarrow> buf) \<Rightarrow> buf \<Rightarrow> nat \<Rightarrow> bool \<Rightarrow> nat \<Rightarrow> buf \<Rightarrow> nat \<Rightarrow> quote_result option" where
  "quote_turn mode u8 filt b e header lines out ptr = do {
     lend \<leftarrow> (if is_pack mode then get_newline b ptr e else get_truncated_line b ptr e u8);
     c \<leftarrow> rd b ptr;
     (if header \<and> c = 10 then Some (Go False lines out lend)
      else do {
        sig \<leftarrow> is_signature b ptr lend;
        (if sig \<and> (is_short mode \<or> is_pack mode) then Some (Stop out)
         else if header \<and> mode \<noteq> QUOTE_ALL then Some (Go header lines out lend)
         else quote_line mode u8 filt b e header lines out ptr lend)
      })
   }"

partial_function (option) quote_loop :: "post_quote_e \<Rightarrow> bool \<Rightarrow> (buf \<Rightarrow> buf) \<Rightarrow> buf \<Rightarrow> nat \<Rightarrow> bool \<Rightarrow> nat \<Rightarrow> buf \<Rightarrow> nat \<Rightarrow> buf option" where
  "quote_loop mode u8 filt b e header lines out ptr =
     (if ptr \<ge> e then Some out
      else do {
        r \<leftarrow> quote_turn mode u8 filt b e header lines out ptr;
        (case r of
           Stop out' \<Rightarrow> Some out'
         | Go header' lines' out' lend \<Rightarrow> quote_loop mode u8 filt b e header' lines' out' lend)
      })"

text \<open>Without a filter the text is written as it is.\<close>

definition quote_string :: "buf \<Rightarrow> nat \<Rightarrow> post_quote_e \<Rightarrow> bool \<Rightarrow> bool \<Rightarrow> (buf \<Rightarrow> buf) option \<Rightarrow> buf option" where
  "quote_string str sz mode mail u8 filter' = do {
     let filt = (case filter' of None \<Rightarrow> (\<lambda>bs. bs) | Some filt \<Rightarrow> filt);
     lend \<leftarrow> get_newline str 0 sz;
     out \<leftarrow> (if is_pack mode then quote_author_pack filt str 0 sz else quote_author filt str 0 lend mail u8);
     quote_loop mode u8 filt str sz True 0 out lend
   }"

text \<open>\<open>orig\<close> is what could be mapped of the original; the output file, if it can be opened, is empty without it.\<close>

definition quote_file :: "buf option \<Rightarrow> bool \<Rightarrow> buf option \<Rightarrow> post_quote_e \<Rightarrow> bool \<Rightarrow> bool \<Rightarrow> (buf \<Rightarrow> buf) option \<Rightarrow> buf option option" where
  "quote_file orig writable output mode mail u8 filter' =
     (if mode \<noteq> QUOTE_NOTHING \<and> writable then
        case orig of
          None \<Rightarrow> Some (Some [])
        | Some str \<Rightarrow> map_option Some (quote_string str (length str) mode mail u8 filter')
      else Some output)"

end
