(* ===== verification/FB_QuoteText.thy ===== *)
theory FB_QuoteText
  imports FB_Quote
begin

text \<open>
  A quotation is made from whole pieces of the text, in order; quoting always ends and reads nothing but the text.
\<close>

section \<open>Lines\<close>

lemma next_wchar_total:
  assumes "0 < n" and "n \<le> length s"
  shows "\<exists>wc k. next_wchar s (Some n) = Some (wc, k) \<and> (wc \<noteq> WEOF \<longrightarrow> wc \<noteq> 0 \<longrightarrow> 1 \<le> k \<and> k \<le> n)"
proof -
  have r: "rd s 0 = Some (s ! 0)" using assms by (cases s) (simp_all add: rd_def)
  have c: "i < n \<Longrightarrow> cont_at s i = Some (is_cont (s ! i))" for i using assms(2) by (simp add: cont_at_def rd_def)
  define two where "two \<longleftrightarrow> s ! 0 AND 0xe0 = 0xc0 \<and> n > 1 \<and> is_cont (s ! 1)"
  define three where "three \<longleftrightarrow> s ! 0 AND 0xf0 = 0xe0 \<and> n > 2 \<and> is_cont (s ! 1) \<and> is_cont (s ! 2)"
  define four where "four \<longleftrightarrow> s ! 0 AND 0xf8 = 0xf0 \<and> n > 3 \<and> is_cont (s ! 1) \<and> is_cont (s ! 2) \<and> is_cont (s ! 3)"
  have t: "(if s ! 0 AND 0xe0 = 0xc0 \<and> n > 1 then cont_at s 1 else Some False) = Some two"
    "(if s ! 0 AND 0xf0 = 0xe0 \<and> n > 2 then and_then (cont_at s 1) (cont_at s 2) else Some False) = Some three"
    "(if s ! 0 AND 0xf8 = 0xf0 \<and> n > 3 then and_then (cont_at s 1) (and_then (cont_at s 2) (cont_at s 3)) else Some False) = Some four"
    using c [of 1] c [of 2] c [of 3] by (auto simp: two_def three_def four_def and_then_def)
  have n: "two \<Longrightarrow> 2 \<le> n" "three \<Longrightarrow> 3 \<le> n" "four \<Longrightarrow> 4 \<le> n" by (simp_all add: two_def three_def four_def)
  show ?thesis
    unfolding next_wchar_def Let_def option.case r Option.bind.simps t
    using assms(1) n by (cases "s ! 0 = 0"; cases "s ! 0 < 0x80"; cases two; cases three; cases four) simp_all
qed

lemma wide_step_total:
  assumes "s < e" and "e \<le> length b" and "0 < width"
  shows "\<exists>r. wide_step b e u8 width s = Some r \<and>
    (case r of None \<Rightarrow> width < 2 | Some (s', width') \<Rightarrow> s \<le> s' \<and> 0 \<le> width')"
proof (cases u8)
  case True
  obtain wc k where k: "next_wchar (drop s b) (Some (e - s)) = Some (wc, k)" "wc \<noteq> WEOF \<longrightarrow> wc \<noteq> 0 \<longrightarrow> 1 \<le> k \<and> k \<le> e - s"
    using next_wchar_total [of "e - s" "drop s b"] assms(1) diff_le_mono [OF assms(2), of s] by auto
  obtain w where w: "fb_wcwidth wc = Some w" "- 1 \<le> w" "w \<le> 2" using fb_wcwidth_total [of wc] by blast
  show ?thesis using True k w assms(3) by (auto simp: wide_step_def)
qed (use assms(3) in \<open>auto simp: wide_step_def\<close>)

lemma truncate_loop_spec:
  assumes "e \<le> length b" and "p < e" and "p \<le> s" and "0 < width" and "s = p \<Longrightarrow> 2 \<le> width"
  shows "\<exists>k. truncate_loop b e u8 ansi width s = Some k \<and> p < k \<and> k \<le> e"
  using assms(3-5)
proof (induction "e - s" arbitrary: s ansi width rule: less_induct)
  case less
  show ?case
  proof (cases "s < e")
    case False
    then show ?thesis using assms(2) by (subst truncate_loop.simps) simp
  next
    case True
    have c: "rd b s = Some (b ! s)" using True assms(1) by (simp add: rd_def)
    have next': "\<exists>k. truncate_loop b e u8 ansi' width' (s' + 1) = Some k \<and> p < k \<and> k \<le> e" if "s \<le> s'" "0 < width'" for ansi' width' s'
      using less.hyps [of "s' + 1"] that less.prems(1) True by auto
    obtain r where r: "wide_step b e u8 width s = Some r" "case r of None \<Rightarrow> width < 2 | Some (s', width') \<Rightarrow> s \<le> s' \<and> 0 \<le> width'"
      using wide_step_total [OF True assms(1) less.prems(2)] by blast
    consider "b ! s = 10" | "b ! s \<noteq> 10" "b ! s = 27 \<or> ansi" | "b ! s \<noteq> 10" "b ! s \<noteq> 27" "\<not> ansi" "b ! s AND 0x80 \<noteq> 0" "r = None"
      | s' w' where "b ! s \<noteq> 10" "b ! s \<noteq> 27" "\<not> ansi" "b ! s AND 0x80 \<noteq> 0" "r = Some (s', w')"
      | "b ! s \<noteq> 10" "b ! s \<noteq> 27" "\<not> ansi" "b ! s AND 0x80 = 0" by (cases r) auto
    then show ?thesis
    proof cases
      case 1
      then show ?thesis using True c less.prems(1) by (subst truncate_loop.simps) simp
    next
      case 2
      then show ?thesis using True c next' [OF order_refl less.prems(2)] by (subst truncate_loop.simps) auto
    next
      case 3
      then have "p < s" using r(2) less.prems(1,3) by (cases "s = p") auto
      then show ?thesis using 3 True c r(1) by (subst truncate_loop.simps) simp
    next
      case 4
      then have "s \<le> s'" "0 \<le> w'" using r(2) by simp_all
      then show ?thesis using 4 True c r(1) less.prems(1) assms(2) next' [of s' w' False] by (subst truncate_loop.simps) auto
    next
      case 5
      then show ?thesis using True c less.prems(1,2) next' [of s "width - 1" False] by (subst truncate_loop.simps) auto
    qed
  qed
qed

lemma truncated_line_spec:
  assumes "s < e" and "e \<le> length b"
  shows "\<exists>k. get_truncated_line b s e u8 = Some k \<and> s < k \<and> k \<le> e \<and> (b ! s = 10 \<longrightarrow> k = s + 1)"
proof -
  have "\<exists>q. (if e - s \<ge> 2 then do { c \<leftarrow> rd b s; d \<leftarrow> rd b (s + 1); Some (c = 58 \<and> d = 32) } else Some False) = Some q"
  proof (cases "2 \<le> e - s")
    case True
    then have "s < length b" "s + 1 < length b" using assms by linarith+
    then show ?thesis using True by (simp add: rd_def)
  qed (simp, metis)
  then obtain q where q: "(if e - s \<ge> 2 then do { c \<leftarrow> rd b s; d \<leftarrow> rd b (s + 1); Some (c = 58 \<and> d = 32) } else Some False) = Some q" ..
  let ?w = "if q then TRUNCATE_WIDTH + 2 else TRUNCATE_WIDTH"
  have w: "2 \<le> ?w" by (simp add: TRUNCATE_WIDTH_def)
  obtain k where k: "truncate_loop b e u8 False ?w s = Some k" "s < k" "k \<le> e"
    using truncate_loop_spec [OF assms(2,1) order_refl, of ?w u8 False] w by auto
  have "get_truncated_line b s e u8 = Some k" unfolding get_truncated_line_def q using k(1) by simp
  moreover have "k = s + 1" if "b ! s = 10"
    using k(1) that assms by (subst (asm) truncate_loop.simps) (simp add: rd_def)
  ultimately show ?thesis using k by blast
qed

lemma newline_spec:
  assumes "s \<le> e" and "e \<le> length b"
  shows "\<exists>k. get_newline b s e = Some k \<and> s \<le> k \<and> k \<le> e \<and> (s < e \<longrightarrow> s < k)"
proof -
  have "s + n \<le> length b \<Longrightarrow> \<exists>k. newline_loop b s n = Some k \<and> s \<le> k \<and> k \<le> s + n \<and> (0 < n \<longrightarrow> s < k)" for n
  proof (induction n arbitrary: s)
    case (Suc n)
    then show ?case using Suc.IH [of "Suc s"] by (auto simp: rd_def)
  qed simp
  from this [of "e - s"] show ?thesis using assms by (auto simp: get_newline_def)
qed

section \<open>What is worth quoting\<close>

definition marked_line :: "buf \<Rightarrow> bool" where
  "marked_line l \<longleftrightarrow> length l > 2 \<and> (l ! 0 = 58 \<or> l ! 0 = 62) \<and> l ! 1 = 32"

definition has_text :: "buf \<Rightarrow> bool" where
  "has_text l \<longleftrightarrow> (case dropWhile (\<lambda>c. c = 32 \<or> c = 9 \<or> c = 13) l of [] \<Rightarrow> False | c # _ \<Rightarrow> c \<noteq> 10)"

text \<open>No quotation of a quotation, and not blank.\<close>

definition worth_quoting :: "buf \<Rightarrow> bool" where
  "worth_quoting l \<longleftrightarrow> (if marked_line l then \<not> marked_line (drop 2 l) \<and> has_text (drop 2 l) else has_text l)"

abbreviation piece_of :: "buf \<Rightarrow> nat \<Rightarrow> nat \<Rightarrow> buf" where
  "piece_of b s e \<equiv> take (e - s) (drop s b)"

lemma quote_mark_spec: "e \<le> length b \<Longrightarrow> quote_mark b s e = Some (marked_line (piece_of b s e))"
  by (auto simp: quote_mark_def marked_line_def rd_def)

lemma not_blank_spec:
  assumes "e \<le> length b"
  shows "not_blank b s e = Some (has_text (piece_of b s e))"
proof -
  have "s + n = e \<Longrightarrow> (do { s \<leftarrow> skip_blanks b s n; (if s < e then do { c \<leftarrow> rd b s; Some (c \<noteq> 10) } else Some False) }) = Some (has_text (take n (drop s b)))" for n
  proof (induction n arbitrary: s)
    case (Suc n)
    have "drop s b = b ! s # drop (Suc s) b" using Suc.prems assms by (simp add: Cons_nth_drop_Suc)
    then show ?case using Suc.IH [of "Suc s"] Suc.prems assms by (simp add: rd_def has_text_def)
  qed (simp add: has_text_def)
  from this [of "e - s"] show ?thesis using assms by (cases "s \<le> e") (simp_all add: not_blank_def has_text_def)
qed

lemma qualify_spec: "e \<le> length b \<Longrightarrow> qualify_quotation b s e = Some (worth_quoting (piece_of b s e))"
  by (simp add: qualify_quotation_def quote_mark_spec not_blank_spec worth_quoting_def drop_take add.commute)

section \<open>The loop\<close>

text \<open>The quoted lines \<open>ls\<close> and what ends the quotation, against the text that is quoted.\<close>

definition quote_ok :: "post_quote_e \<Rightarrow> buf \<Rightarrow> bool \<Rightarrow> nat \<Rightarrow> buf \<Rightarrow> buf list \<Rightarrow> buf \<Rightarrow> bool" where
  "quote_ok mode dots header lines t ls tail \<longleftrightarrow>
     (\<forall>l \<in> set ls. l \<noteq> [] \<and> (is_short mode \<longrightarrow> worth_quoting l)) \<and>
     (mode = QUOTE_AUTO \<longrightarrow> lines + length ls \<le> MAX_QUOTED_LINES) \<and>
     (tail = [] \<or> mode = QUOTE_AUTO \<and> lines + length ls = MAX_QUOTED_LINES \<and> tail = dots) \<and>
     subseq (concat ls) t \<and>
     (mode = QUOTE_ALL \<longrightarrow> concat ls = t \<or> header \<and> (\<exists>x y. t = x @ 10 # y \<and> concat ls = x @ y))"

lemma quote_ok_stop: "mode = QUOTE_ALL \<longrightarrow> t = [] \<Longrightarrow> mode = QUOTE_AUTO \<longrightarrow> lines \<le> MAX_QUOTED_LINES \<Longrightarrow> quote_ok mode dots header lines t [] []"
  by (simp add: quote_ok_def)

lemma quote_ok_dots: "mode = QUOTE_AUTO \<Longrightarrow> quote_ok mode dots header MAX_QUOTED_LINES t [] dots"
  by (simp add: quote_ok_def)

lemma quote_ok_skip:
  assumes "quote_ok mode dots header' lines t ls tail" and "mode = QUOTE_ALL \<longrightarrow> header \<and> \<not> header' \<and> l = [10]"
  shows "quote_ok mode dots header lines (l @ t) ls tail"
proof -
  have "subseq (concat ls) (l @ t)" using assms(1) by (simp add: quote_ok_def list_emb_append2)
  moreover have "header \<and> (\<exists>x y. l @ t = x @ 10 # y \<and> concat ls = x @ y)" if "mode = QUOTE_ALL"
  proof -
    have "concat ls = t" using assms that by (auto simp: quote_ok_def)
    then show ?thesis using assms(2) that by (intro conjI exI [of _ "[]"] exI [of _ t]) simp_all
  qed
  ultimately show ?thesis using assms(1) by (auto simp: quote_ok_def)
qed

lemma quote_ok_line:
  assumes "quote_ok mode dots header lines' t ls tail" and "l \<noteq> []" and "is_short mode \<longrightarrow> worth_quoting l"
    and "lines' = (if mode = QUOTE_AUTO then lines + 1 else lines)"
  shows "quote_ok mode dots header lines (l @ t) (l # ls) tail"
proof -
  have "header \<and> (\<exists>x y. l @ t = x @ 10 # y \<and> concat (l # ls) = x @ y)" if ne: "concat ls \<noteq> t" and all: "mode = QUOTE_ALL"
  proof -
    obtain x y where "header" "t = x @ 10 # y" "concat ls = x @ y" using assms(1) ne all unfolding quote_ok_def by blast
    then show ?thesis by (intro conjI exI [of _ "l @ x"] exI [of _ y]) simp_all
  qed
  then show ?thesis using assms by (auto simp: quote_ok_def list_emb_append_mono)
qed

lemma is_source_total:
  assumes "lend \<le> length b"
  shows "\<exists>src. is_source mode u8 b ptr lend = Some src \<and> (src \<longrightarrow> mode = QUOTE_SOURCE)"
proof -
  define k where "k = (if u8 then UTF8_SOURCE else GBK_SOURCE) @ [0]"
  have "mem_read b (ptr + 10) (length k) = Some (take (length k) (drop (ptr + 10) b))" if "lend - ptr > 10 + length k"
    using that assms by (simp add: mem_read_def)
  then show ?thesis unfolding is_source_def Let_def k_def [symmetric]
    by (cases "mode = QUOTE_SOURCE \<and> lend - ptr > 10 + length k") auto
qed

lemma quote_turn_spec:
  assumes "ptr < e" and "e \<le> length b" and "mode = QUOTE_AUTO \<longrightarrow> lines \<le> MAX_QUOTED_LINES"
  shows "(\<exists>lend. ptr < lend \<and> lend \<le> e \<and>
      ((\<exists>header'. quote_turn mode u8 filt b e header lines out ptr = Some (Go header' lines out lend) \<and>
          (mode = QUOTE_ALL \<longrightarrow> header \<and> \<not> header' \<and> piece_of b ptr lend = [10])) \<or>
       (quote_turn mode u8 filt b e header lines out ptr = Some (Go header (if mode = QUOTE_AUTO then lines + 1 else lines)
            (out @ quoted mode filt (piece_of b ptr lend)) lend) \<and>
          (is_short mode \<longrightarrow> worth_quoting (piece_of b ptr lend)) \<and> (mode = QUOTE_AUTO \<longrightarrow> lines < MAX_QUOTED_LINES)))) \<or>
    (quote_turn mode u8 filt b e header lines out ptr = Some (Stop out) \<and> mode \<noteq> QUOTE_ALL) \<or>
    (quote_turn mode u8 filt b e header lines out ptr = Some (Stop (out @ filt (omitted u8))) \<and> mode = QUOTE_AUTO \<and> lines = MAX_QUOTED_LINES)"
    (is "?R mode")
proof -
  have "\<exists>lend. (if is_pack mode then get_newline b ptr e else get_truncated_line b ptr e u8) = Some lend \<and> ptr < lend \<and> lend \<le> e
      \<and> (\<not> is_pack mode \<longrightarrow> b ! ptr = 10 \<longrightarrow> lend = ptr + 1)"
    using newline_spec [of ptr e b] truncated_line_spec [OF assms(1,2), of u8] assms(1,2) by auto
  then obtain lend where lend: "(if is_pack mode then get_newline b ptr e else get_truncated_line b ptr e u8) = Some lend"
      "ptr < lend" "lend \<le> e" "\<not> is_pack mode \<longrightarrow> b ! ptr = 10 \<longrightarrow> lend = ptr + 1" by blast
  have c: "rd b ptr = Some (b ! ptr)" "rd b (lend - 1) = Some (b ! (lend - 1))" using assms(1,2) lend(2,3) by (auto simp: rd_def)
  obtain sig where sig: "is_signature b ptr lend = Some sig" using lend(2,3) assms(2) by (cases "lend = ptr + 3") (auto simp: is_signature_def mem_read_def)
  obtain src where src: "is_source mode u8 b ptr lend = Some src" "src \<longrightarrow> mode = QUOTE_SOURCE"
    using is_source_total [of lend b mode u8 ptr] lend(3) assms(2) by auto
  obtain nl where nl: "get_newline b lend e = Some nl" "lend \<le> nl" "nl \<le> e" using newline_spec [OF lend(3) assms(2)] by blast
  have mr: "mem_read b ptr (lend - ptr) = Some (piece_of b ptr lend)" using lend assms(2) by (simp add: mem_read_def)
  define q where "q \<longleftrightarrow> (is_short mode \<longrightarrow> worth_quoting (piece_of b ptr lend))"
  have qq: "(if is_short mode then qualify_quotation b ptr lend else Some True) = Some q"
    using qualify_spec [of lend b ptr] lend assms(2) by (simp add: q_def)
  have line: "quote_line mode u8 filt b e header lines out ptr lend =
     (if \<not> q then Some (Go header lines out (if b ! (lend - 1) \<noteq> 10 then nl else lend))
      else if src then Some (Stop out)
      else if mode = QUOTE_AUTO \<and> lines + 1 > MAX_QUOTED_LINES then Some (Stop (out @ filt (omitted u8)))
      else Some (Go header (if mode = QUOTE_AUTO then lines + 1 else lines) (out @ quoted mode filt (piece_of b ptr lend)) lend))"
    unfolding quote_line_def qq c(2) src(1) nl(1) mr by simp
  have turn: "quote_turn mode u8 filt b e header lines out ptr =
     (if header \<and> b ! ptr = 10 then Some (Go False lines out lend)
      else if sig \<and> (is_short mode \<or> is_pack mode) then Some (Stop out)
      else if header \<and> mode \<noteq> QUOTE_ALL then Some (Go header lines out lend)
      else quote_line mode u8 filt b e header lines out ptr lend)"
    unfolding quote_turn_def lend(1) c(1) Option.bind.simps sig by simp
  have all: "\<not> is_pack mode \<and> \<not> is_short mode \<and> \<not> src \<and> q" if "mode = QUOTE_ALL"
    using that src(2) by (auto simp: is_pack_def is_short_def q_def)
  have one: "piece_of b ptr lend = [10]" if "mode = QUOTE_ALL" "b ! ptr = 10"
    using lend(2-4) all [OF that(1)] that(2) assms(2) by (simp add: take_Suc_conv_app_nth)
  consider "header \<and> b ! ptr = 10" | "\<not> (header \<and> b ! ptr = 10)" "sig \<and> (is_short mode \<or> is_pack mode)"
    | "\<not> (header \<and> b ! ptr = 10)" "\<not> (sig \<and> (is_short mode \<or> is_pack mode))" "header \<and> mode \<noteq> QUOTE_ALL"
    | "\<not> (header \<and> b ! ptr = 10)" "\<not> (sig \<and> (is_short mode \<or> is_pack mode))" "\<not> (header \<and> mode \<noteq> QUOTE_ALL)" by blast
  then show ?thesis
  proof cases
    case 1
    then have "quote_turn mode u8 filt b e header lines out ptr = Some (Go False lines out lend)" unfolding turn by simp
    then show ?thesis using 1 lend(2,3) one by blast
  next
    case 2
    then have "quote_turn mode u8 filt b e header lines out ptr = Some (Stop out)" unfolding turn by auto
    then show ?thesis using all 2(2) by blast
  next
    case 3
    then have "quote_turn mode u8 filt b e header lines out ptr = Some (Go header lines out lend)" unfolding turn by simp
    then show ?thesis using 3(3) lend(2,3) by blast
  next
    case 4
    then have go: "quote_turn mode u8 filt b e header lines out ptr = quote_line mode u8 filt b e header lines out ptr lend"
      unfolding turn by auto
    consider "\<not> q" | "q" "src" | "q" "\<not> src" "mode = QUOTE_AUTO" "lines = MAX_QUOTED_LINES"
      | "q" "\<not> src" "mode = QUOTE_AUTO \<longrightarrow> lines < MAX_QUOTED_LINES" using assms(3) by fastforce
    then show ?thesis
    proof cases
      case 1
      define k where "k = (if b ! (lend - 1) \<noteq> 10 then nl else lend)"
      have "quote_turn mode u8 filt b e header lines out ptr = Some (Go header lines out k)" unfolding go line using 1 by (simp add: k_def)
      moreover have "ptr < k" "k \<le> e" using lend(2,3) nl(2,3) by (simp_all add: k_def)
      ultimately show ?thesis using 1 all by blast
    next
      case 2
      then have "quote_turn mode u8 filt b e header lines out ptr = Some (Stop out)" unfolding go line by simp
      then show ?thesis using 2 all by blast
    next
      case 3
      then have "quote_turn mode u8 filt b e header lines out ptr = Some (Stop (out @ filt (omitted u8)))" unfolding go line by simp
      then show ?thesis using 3 by blast
    next
      case 4
      then have "quote_turn mode u8 filt b e header lines out ptr
          = Some (Go header (if mode = QUOTE_AUTO then lines + 1 else lines) (out @ quoted mode filt (piece_of b ptr lend)) lend)"
        unfolding go line by auto
      then show ?thesis using lend(2,3) 4 unfolding q_def by blast
    qed
  qed
qed

text \<open>The loop, for every text behind the first line.\<close>

lemma quote_loop_spec:
  assumes "ptr \<le> e" and "e \<le> length b" and "mode = QUOTE_AUTO \<longrightarrow> lines \<le> MAX_QUOTED_LINES"
  shows "\<exists>ls tail. quote_loop mode u8 filt b e header lines out ptr = Some (out @ concat (map (quoted mode filt) ls) @ tail) \<and>
    quote_ok mode (filt (omitted u8)) header lines (piece_of b ptr e) ls tail"
  using assms(1,3)
proof (induction "e - ptr" arbitrary: header lines out ptr rule: less_induct)
  case less
  show ?case
  proof (cases "ptr < e")
    case False
    then show ?thesis using quote_ok_stop [of mode "piece_of b ptr e"] less.prems
      by (intro exI [of _ "[]"]) (subst quote_loop.simps, simp)
  next
    case True
    have split: "piece_of b ptr e = piece_of b ptr lend @ piece_of b lend e" "piece_of b ptr lend \<noteq> []" if "ptr < lend" "lend \<le> e" for lend
    proof -
      have "e - ptr = (lend - ptr) + (e - lend)" "drop (lend - ptr) (drop ptr b) = drop lend b" using that by simp_all
      then show "piece_of b ptr e = piece_of b ptr lend @ piece_of b lend e" by (metis take_add)
      show "piece_of b ptr lend \<noteq> []" using that assms(2) by simp
    qed
    from quote_turn_spec [OF True assms(2) less.prems(2), of u8 filt header out] show ?thesis
    proof (elim disjE exE conjE)
      fix lend header'
      assume h: "ptr < lend" "lend \<le> e" "quote_turn mode u8 filt b e header lines out ptr = Some (Go header' lines out lend)"
        "mode = QUOTE_ALL \<longrightarrow> header \<and> \<not> header' \<and> piece_of b ptr lend = [10]"
      obtain ls tail where i: "quote_loop mode u8 filt b e header' lines out lend = Some (out @ concat (map (quoted mode filt) ls) @ tail)"
          "quote_ok mode (filt (omitted u8)) header' lines (piece_of b lend e) ls tail"
        using less.hyps [OF _ h(2) less.prems(2), of header' out] h(1) True by force
      have "quote_loop mode u8 filt b e header lines out ptr = Some (out @ concat (map (quoted mode filt) ls) @ tail)"
        using True h(3) i(1) by (subst quote_loop.simps) simp
      then show ?thesis using quote_ok_skip [OF i(2) h(4)] split(1) [OF h(1,2)] by metis
    next
      fix lend
      let ?l = "piece_of b ptr lend" and ?n = "if mode = QUOTE_AUTO then lines + 1 else lines"
      assume h: "ptr < lend" "lend \<le> e"
        "quote_turn mode u8 filt b e header lines out ptr = Some (Go header ?n (out @ quoted mode filt ?l) lend)"
        "is_short mode \<longrightarrow> worth_quoting ?l" "mode = QUOTE_AUTO \<longrightarrow> lines < MAX_QUOTED_LINES"
      obtain ls tail where i: "quote_loop mode u8 filt b e header ?n (out @ quoted mode filt ?l) lend
            = Some ((out @ quoted mode filt ?l) @ concat (map (quoted mode filt) ls) @ tail)"
          "quote_ok mode (filt (omitted u8)) header ?n (piece_of b lend e) ls tail"
        using less.hyps [OF _ h(2), of ?n header "out @ quoted mode filt ?l"] h(1,5) True by force
      have "quote_loop mode u8 filt b e header lines out ptr = Some (out @ concat (map (quoted mode filt) (?l # ls)) @ tail)"
        using True h(3) i(1) by (subst quote_loop.simps) simp
      then show ?thesis using quote_ok_line [OF i(2) split(2) [OF h(1,2)] h(4) refl] split(1) [OF h(1,2)] by metis
    next
      assume "quote_turn mode u8 filt b e header lines out ptr = Some (Stop out)" "mode \<noteq> QUOTE_ALL"
      then show ?thesis using True quote_ok_stop [of mode] less.prems(2) by (intro exI [of _ "[]"]) (subst quote_loop.simps, simp)
    next
      assume "quote_turn mode u8 filt b e header lines out ptr = Some (Stop (out @ filt (omitted u8)))" "mode = QUOTE_AUTO" "lines = MAX_QUOTED_LINES"
      then show ?thesis using True quote_ok_dots [of mode "filt (omitted u8)"]
        by (intro exI [of _ "[]"] exI [of _ "filt (omitted u8)"]) (subst quote_loop.simps, simp)
    qed
  qed
qed

section \<open>A quotation\<close>

lemma write_range_total: "e \<le> length b \<Longrightarrow> \<exists>bs. write_range filt b s e = Some bs"
  by (simp add: write_range_def mem_read_def)

lemma scan_total:
  assumes "s + n \<le> length b"
  shows "\<exists>k. after_space b s n = Some k" "\<exists>k \<le> s + n. behind_paren b s n = Some k"
    "\<exists>k. find_char b s n c = Some k \<and> (\<forall>i. k = Some i \<longrightarrow> i < s + n)" "\<exists>k. reverse_find_char b s n c = Some k \<and> (\<forall>i. k = Some i \<longrightarrow> i < s + n)"
proof -
  show "\<exists>k. after_space b s n = Some k" using assms
  proof (induction n arbitrary: s)
    case (Suc n)
    then show ?case using Suc.IH [of "Suc s"] by (auto simp: rd_def)
  qed simp
  show "\<exists>k. find_char b s n c = Some k \<and> (\<forall>i. k = Some i \<longrightarrow> i < s + n)" using assms
  proof (induction n arbitrary: s)
    case (Suc n)
    then show ?case using Suc.IH [of "Suc s"] by (auto simp: rd_def)
  qed simp
  show "\<exists>k \<le> s + n. behind_paren b s n = Some k" using assms
  proof (induction n)
    case (Suc n)
    then show ?case by (auto simp: rd_def intro: le_SucI)
  qed simp
  show "\<exists>k. reverse_find_char b s n c = Some k \<and> (\<forall>i. k = Some i \<longrightarrow> i < s + n)" using assms
  proof (induction n)
    case (Suc n)
    then show ?case by (auto simp: rd_def)
  qed simp
qed

lemma author_total:
  assumes "lend \<le> length b"
  shows "\<exists>a. quote_author filt b 0 lend mail u8 = Some a"
proof -
  obtain q where "after_space b 0 lend = Some q" using scan_total(1) [of 0 lend b] assms by auto
  moreover obtain p where "behind_paren b 0 lend = Some p" "p \<le> lend" using scan_total(2) [of 0 lend b] assms by auto
  moreover obtain w where "write_range filt b q p = Some w" using write_range_total [of p b filt q] assms calculation by auto
  ultimately show ?thesis by (simp add: quote_author_def)
qed

lemma author_pack_total:
  assumes "e \<le> length b"
  shows "\<exists>a. quote_author_pack filt b 0 e = Some a"
proof -
  obtain l where l: "get_newline b 0 e = Some l" "l \<le> e" using newline_spec [of 0 e b] assms by auto
  obtain s2 where s2: "get_newline b l e = Some s2" "s2 \<le> e" using newline_spec [OF l(2) assms] by auto
  obtain l2 where l2: "get_newline b s2 e = Some l2" "s2 \<le> l2" "l2 \<le> e" using newline_spec [OF s2(2) assms] by auto
  have r: "0 + l \<le> length b" "s2 + (l2 - s2) \<le> length b" using l(2) l2 assms by simp_all
  obtain ue where ue: "reverse_find_char b 0 l 44 = Some ue" "\<forall>i. ue = Some i \<longrightarrow> i < l" using scan_total(4) [OF r(1), of 44] by auto
  obtain d where d: "find_char b s2 (l2 - s2) 40 = Some d" using scan_total(3) [OF r(2), of 40] by auto
  obtain de where de: "find_char b s2 (l2 - s2) 41 = Some de" "\<forall>i. de = Some i \<longrightarrow> i < l2" using scan_total(3) [OF r(2), of 41] l2(2) by auto
  have "\<exists>w. (case ue of Some u \<Rightarrow> write_range filt b (0 + 11) u | None \<Rightarrow> Some []) = Some w"
    using ue(2) l(2) assms write_range_total [of _ b filt] by (cases ue) auto
  moreover have "\<exists>w. (case (d, de) of (Some d, Some de) \<Rightarrow> write_range filt b (d + 1) de | _ \<Rightarrow> Some []) = Some w"
    using de(2) l2(3) assms write_range_total [of _ b filt] by (cases d; cases de) auto
  ultimately show ?thesis using l(1) s2(1) l2(1) ue(1) d de(1) by (auto simp: quote_author_pack_def)
qed



text \<open>Colour codes with a digit above five or a semicolon end early; the source line is never found.\<close>

lemma ansi_code_cut: "ansi_code 53 \<and> \<not> ansi_code 54 \<and> \<not> ansi_code 59"
  by code_simp

lemma source_never_found:
  assumes "0 \<notin> set b"
  shows "is_source mode u8 b ptr lend \<noteq> Some True"
proof -
  have "take n (drop i b) \<noteq> k @ [0]" for n i k
    using assms by (metis in_set_conv_decomp in_set_dropD in_set_takeD)
  then show ?thesis by (simp add: is_source_def Let_def mem_read_def)
qed

end
