(* ===== verification/FB_Post.thy ===== *)
theory FB_Post
  imports FB_Record FB_ReadMark
begin

text \<open>
  Records of posts (\<open>lib/post.c\<close>, \<open>include/fbbs/post.h\<close>): how they are shown, matched, marked and read.
\<close>

record post_record_t =
  pr_id :: int
  pr_reply_id :: int
  pr_thread_id :: int
  pr_user_id :: int
  pr_user_id_replied :: int
  pr_board_id :: int
  pr_flag :: int
  pr_user_name :: buf
  pr_board_name :: buf
  pr_utf8_title :: buf

record post_record_extended_t =
  pre_basic :: post_record_t
  pre_junk :: bool
  pre_bm_visible :: bool
  pre_eraser_id :: int
  pre_stamp :: u32
  pre_eraser_name :: buf

record post_info_t =
  pi_id :: int
  pi_reply_id :: int
  pi_thread_id :: int
  pi_delete_stamp :: u32
  pi_flag :: int
  pi_user_id :: int
  pi_user_id_replied :: int
  pi_board_id :: int
  pi_user_name :: buf
  pi_eraser_name :: buf
  pi_board_name :: buf
  pi_utf8_title :: buf

definition post_record_cmp :: "post_record_t \<Rightarrow> post_record_t \<Rightarrow> int" where
  "post_record_cmp r1 r2 = (if pr_id r1 > pr_id r2 then 1 else if pr_id r1 = pr_id r2 then 0 else -1)"

definition post_record_compare :: "post_record_t \<Rightarrow> post_record_t \<Rightarrow> int" where
  "post_record_compare p1 p2 = (if pr_id p1 > pr_id p2 then 1 else if pr_id p1 = pr_id p2 then 0 else -1)"

definition post_sticky_compare :: "post_record_t \<Rightarrow> post_record_t \<Rightarrow> int" where
  "post_sticky_compare p1 p2 = - post_record_compare p1 p2"

section \<open>Conversion\<close>

text \<open>The sizes given to \<open>strlcpy\<close> are those of the arrays.\<close>

definition record_to_info :: "post_record_t \<Rightarrow> post_info_t \<Rightarrow> post_info_t option" where
  "record_to_info pr pi = do {
     (user, _) \<leftarrow> strlcpy (pi_user_name pi) (pr_user_name pr) (length (pi_user_name pi));
     eraser \<leftarrow> wr (pi_eraser_name pi) 0 0;
     (board, _) \<leftarrow> strlcpy (pi_board_name pi) (pr_board_name pr) (length (pi_board_name pi));
     (title, _) \<leftarrow> strlcpy (pi_utf8_title pi) (pr_utf8_title pr) (length (pi_utf8_title pi));
     Some \<lparr>pi_id = pr_id pr, pi_reply_id = pr_reply_id pr, pi_thread_id = pr_thread_id pr, pi_delete_stamp = 0, pi_flag = pr_flag pr,
       pi_user_id = pr_user_id pr, pi_user_id_replied = pr_user_id_replied pr, pi_board_id = pr_board_id pr,
       pi_user_name = user, pi_eraser_name = eraser, pi_board_name = board, pi_utf8_title = title\<rparr>
   }"

fun to_info_loop :: "post_record_t list \<Rightarrow> post_info_t list \<Rightarrow> nat \<Rightarrow> nat \<Rightarrow> post_info_t list option" where
  "to_info_loop pr pi i 0 = Some pi"
| "to_info_loop pr pi i (Suc n) = do {
     r \<leftarrow> rd pr i;
     x \<leftarrow> rd pi i;
     x \<leftarrow> record_to_info r x;
     to_info_loop pr (pi[i := x]) (Suc i) n
   }"

definition post_record_to_info :: "post_record_t list \<Rightarrow> post_info_t list \<Rightarrow> int \<Rightarrow> post_info_t list option" where
  "post_record_to_info pr pi cnt = to_info_loop pr pi 0 (nat cnt)"

text \<open>The name of the one who deleted the post is taken from the first record.\<close>

fun extended_loop :: "post_record_extended_t list \<Rightarrow> post_info_t list \<Rightarrow> nat \<Rightarrow> nat \<Rightarrow> post_info_t list option" where
  "extended_loop pre pi i 0 = Some pi"
| "extended_loop pre pi i (Suc n) = do {
     r \<leftarrow> rd pre i;
     x \<leftarrow> rd pi i;
     x \<leftarrow> record_to_info (pre_basic r) x;
     first \<leftarrow> rd pre 0;
     (eraser, _) \<leftarrow> strlcpy (pi_eraser_name x) (pre_eraser_name first) (length (pi_eraser_name x));
     extended_loop pre (pi[i := x\<lparr>pi_delete_stamp := pre_stamp r, pi_eraser_name := eraser\<rparr>]) (Suc i) n
   }"

definition post_record_extended_to_info :: "post_record_extended_t list \<Rightarrow> post_info_t list \<Rightarrow> int \<Rightarrow> post_info_t list option" where
  "post_record_extended_to_info pre pi cnt = extended_loop pre pi 0 (nat cnt)"

section \<open>Reading\<close>

definition POST_BOARD_BUF_SIZE :: nat where "POST_BOARD_BUF_SIZE = 50"
definition POST_TRASH_BUF_SIZE :: nat where "POST_TRASH_BUF_SIZE = 50"

datatype post_list_type_e =
  POST_LIST_NORMAL | POST_LIST_THREAD | POST_LIST_MARKED | POST_LIST_DIGEST | POST_LIST_TOPIC | POST_LIST_AUTHOR
| POST_LIST_KEYWORD | POST_LIST_TRASH | POST_LIST_JUNK | POST_LIST_FORUM | POST_LIST_REPLY

definition is_deleted :: "post_list_type_e \<Rightarrow> bool" where
  "is_deleted type \<longleftrightarrow> type = POST_LIST_TRASH \<or> type = POST_LIST_JUNK"

text \<open>Records are read in blocks into an array of \<open>bufsize\<close> records and converted from there; \<open>dec\<close> reads the
  fields of a record from its bytes.  The target of the conversion is the start of the caller's array every time.\<close>

partial_function (option) read_helper ::
    "os \<Rightarrow> record_t \<Rightarrow> nat \<Rightarrow> (buf \<Rightarrow> 'r) \<Rightarrow> ('r list \<Rightarrow> post_info_t list \<Rightarrow> int \<Rightarrow> post_info_t list option) \<Rightarrow> buf \<Rightarrow> post_info_t list \<Rightarrow>
     int \<Rightarrow> int \<Rightarrow> ofile \<Rightarrow> (int \<times> post_info_t list \<times> ofile) option" where
  "read_helper os r bufsize dec converter read_buf buf' sz records f =
     (if sz > 0 then do {
        (cnt, rb, f) \<leftarrow> record_read os (Some r) (Some read_buf) (min (int bufsize) sz) f;
        rb \<leftarrow> rb;
        (if cnt \<le> 0 then Some (records, buf', f)
         else do {
           buf' \<leftarrow> converter (map dec (chunks (rlen r) rb bufsize)) buf' cnt;
           read_helper os r bufsize dec converter rb buf' (sz - min (int bufsize) sz) (records + cnt) f
         })
      } else Some (records, buf', f))"

definition post_record_read ::
    "os \<Rightarrow> (buf \<Rightarrow> post_record_t) \<Rightarrow> (buf \<Rightarrow> post_record_extended_t) \<Rightarrow> buf \<Rightarrow> record_t \<Rightarrow> int \<Rightarrow> post_info_t list \<Rightarrow> int \<Rightarrow>
     post_list_type_e \<Rightarrow> ofile \<Rightarrow> (int \<times> post_info_t list \<times> ofile) option" where
  "post_record_read os dec dece read_buf r base buf' sz type f = do {
     (o', f) \<leftarrow> record_seek os (Some r) base RECORD_SET f;
     (if o' < 0 then Some (0, buf', f)
      else if is_deleted type then read_helper os r POST_TRASH_BUF_SIZE dece post_record_extended_to_info read_buf buf' sz 0 f
      else read_helper os r POST_BOARD_BUF_SIZE dec post_record_to_info read_buf buf' sz 0 f)
   }"

section \<open>Filters, marks and identifiers\<close>

record post_filter_t =
  pf_type :: post_list_type_e
  pf_bid :: int
  pf_flag :: int
  pf_uid :: int
  pf_min :: int
  pf_max :: int
  pf_tid :: int
  pf_offset_min :: int
  pf_offset_max :: int
  pf_archive :: bool
  pf_utf8_keyword :: buf

text \<open>\<open>strcasestr\<close>.\<close>

fun strcasestr :: "buf \<Rightarrow> buf \<Rightarrow> bool" where
  "strcasestr [] pat \<longleftrightarrow> pat = []"
| "strcasestr (c # s) pat \<longleftrightarrow> map lower (take (length pat) (c # s)) = map lower pat \<or> strcasestr s pat"

definition post_match_filter :: "post_record_t \<Rightarrow> post_filter_t \<Rightarrow> int \<Rightarrow> bool option" where
  "post_match_filter pr filter' offset = do {
     let match = (pf_uid filter' \<noteq> 0 \<longrightarrow> pr_user_id pr = pf_uid filter');
     let match = (match \<and> (pf_min filter' \<noteq> 0 \<longrightarrow> pr_id pr \<ge> pf_min filter'));
     let match = (match \<and> (pf_max filter' \<noteq> 0 \<longrightarrow> pr_id pr \<le> pf_max filter'));
     let match = (match \<and> (pf_tid filter' \<noteq> 0 \<longrightarrow> pr_thread_id pr = pf_tid filter'));
     let match = (match \<and> (pf_flag filter' \<noteq> 0 \<longrightarrow> (pr_flag pr AND pf_flag filter') = pf_flag filter'));
     let match = (match \<and> (pf_offset_min filter' \<noteq> 0 \<longrightarrow> offset \<ge> pf_offset_min filter' - 1));
     let match = (match \<and> (pf_offset_max filter' \<noteq> 0 \<longrightarrow> offset < pf_offset_max filter'));
     let match = (match \<and> (pf_type filter' = POST_LIST_TOPIC \<longrightarrow> pr_id pr = pr_thread_id pr));
     c \<leftarrow> rd (pf_utf8_keyword filter') 0;
     (if c \<noteq> 0 then do {
        k \<leftarrow> strlen (pf_utf8_keyword filter');
        t \<leftarrow> strlen (pr_utf8_title pr);
        Some (match \<and> strcasestr (take t (pr_utf8_title pr)) (take k (pf_utf8_keyword filter')))
      } else Some match)
   }"

definition POST_FLAG_DIGEST :: int where "POST_FLAG_DIGEST = 1"
definition POST_FLAG_MARKED :: int where "POST_FLAG_MARKED = 2"
definition POST_FLAG_WATER :: int where "POST_FLAG_WATER = 32"

text \<open>\<open>plus_sign\<close>: the user has asked for a plus_sign sign instead of a capital N.\<close>

definition post_mark_raw :: "bool \<Rightarrow> brc_t \<Rightarrow> u32 \<Rightarrow> int \<Rightarrow> int option" where
  "post_mark_raw plus_sign brc stamp flag = do {
     let mark = (if flag AND POST_FLAG_DIGEST \<noteq> 0 then if flag AND POST_FLAG_MARKED \<noteq> 0 then 98 else 103
                 else if flag AND POST_FLAG_MARKED \<noteq> 0 then 109 else 32);
     let mark = (if mark = 32 \<and> flag AND POST_FLAG_WATER \<noteq> 0 then 119 else mark);
     unread \<leftarrow> brc_unread stamp brc;
     Some (if unread then if mark = 32 then if plus_sign then 43 else 78 else toupper mark else mark)
   }"

text \<open>An identifier holds its time in milliseconds above the low 21 bits; times have 32 bits and are multiplied as such.\<close>

definition post_stamp :: "int \<Rightarrow> u32" where
  "post_stamp pid = word_of_int (c_div (pid div 2 ^ 21) 1000)"

definition post_mark :: "bool \<Rightarrow> brc_t \<Rightarrow> post_info_t \<Rightarrow> int option" where
  "post_mark plus_sign brc p = post_mark_raw plus_sign brc (post_stamp (pi_id p)) (pi_flag p)"

definition post_id_from_stamp :: "u32 \<Rightarrow> int" where
  "post_id_from_stamp stamp = uint (stamp * 1000) * 2 ^ 21"

end
