(* ===== verification/FB_PostRead.thy ===== *)
theory FB_PostRead
  imports FB_Post
begin

text \<open>
  Reading the records of a board, and the time in the identifier of a post.
\<close>

section \<open>Conversion\<close>

text \<open>What a bounded copy leaves in an array.\<close>

definition fit :: "buf \<Rightarrow> buf \<Rightarrow> buf" where
  "fit dst src = (let xs = take (length dst - 1) (cstr src) in xs @ 0 # drop (Suc (length xs)) dst)"

definition info_of :: "post_record_t \<Rightarrow> post_info_t \<Rightarrow> post_info_t" where
  "info_of pr pi =
     \<lparr>pi_id = pr_id pr, pi_reply_id = pr_reply_id pr, pi_thread_id = pr_thread_id pr, pi_delete_stamp = 0, pi_flag = pr_flag pr,
      pi_user_id = pr_user_id pr, pi_user_id_replied = pr_user_id_replied pr, pi_board_id = pr_board_id pr,
      pi_user_name = fit (pi_user_name pi) (pr_user_name pr), pi_eraser_name = (pi_eraser_name pi)[0 := 0],
      pi_board_name = fit (pi_board_name pi) (pr_board_name pr), pi_utf8_title = fit (pi_utf8_title pi) (pr_utf8_title pr)\<rparr>"

definition info_ok :: "post_info_t \<Rightarrow> bool" where
  "info_ok pi \<longleftrightarrow> pi_user_name pi \<noteq> [] \<and> pi_eraser_name pi \<noteq> [] \<and> pi_board_name pi \<noteq> [] \<and> pi_utf8_title pi \<noteq> []"

definition rec_ok :: "post_record_t \<Rightarrow> bool" where
  "rec_ok pr \<longleftrightarrow> terminated (pr_user_name pr) \<and> terminated (pr_board_name pr) \<and> terminated (pr_utf8_title pr)"

lemma strlcpy_fit: "terminated src \<Longrightarrow> dst \<noteq> [] \<Longrightarrow> strlcpy dst src (length dst) = Some (fit dst src, length (cstr src))"
  using strlcpy_value [of src "length dst" dst] by (simp add: fit_def)

lemma record_to_info_value: "rec_ok pr \<Longrightarrow> info_ok pi \<Longrightarrow> record_to_info pr pi = Some (info_of pr pi) \<and> info_ok (info_of pr pi)"
  by (simp add: rec_ok_def info_ok_def record_to_info_def strlcpy_fit wr_Some info_of_def fit_def Let_def)

lemma to_info_loop_value:
  assumes "i + n \<le> length pr" and "i + n \<le> length pi" and "\<forall>j < i + n. rec_ok (pr ! j)" and "\<forall>x \<in> set pi. info_ok x"
  shows "to_info_loop pr pi i n = Some (take i pi @ map2 info_of (take n (drop i pr)) (take n (drop i pi)) @ drop (i + n) pi)"
  using assms
proof (induction n arbitrary: i pi)
  case (Suc n)
  let ?x = "info_of (pr ! i) (pi ! i)"
  have i: "i < length pr" "i < length pi" using Suc.prems(1,2) by simp_all
  have x: "record_to_info (pr ! i) (pi ! i) = Some ?x" "info_ok ?x" using Suc.prems(3,4) i record_to_info_value by auto
  have "\<forall>y \<in> set (pi[i := ?x]). info_ok y" using Suc.prems(4) x(2) set_update_subset_insert [of pi i ?x] by auto
  then have "to_info_loop pr (pi[i := ?x]) (Suc i) n = Some (take (Suc i) (pi[i := ?x]) @
      map2 info_of (take n (drop (Suc i) pr)) (take n (drop (Suc i) (pi[i := ?x]))) @ drop (Suc i + n) (pi[i := ?x]))"
    using Suc.IH [of "Suc i" "pi[i := ?x]"] Suc.prems by simp
  moreover have "take (Suc i) (pi[i := ?x]) = take i pi @ [?x]" using i(2) by (simp add: take_snoc_update)
  moreover have "drop i pr = pr ! i # drop (Suc i) pr" "drop i pi = pi ! i # drop (Suc i) pi" using i by (simp_all add: Cons_nth_drop_Suc)
  ultimately show ?case using i x(1) by (simp add: rd_def)
qed simp

section \<open>Reading\<close>

lemma decode_block:
  assumes "records_ok (rlen r) ys" and "length ys \<le> n" and "length b = n * rlen r"
  shows "take (length ys) (map dec (chunks (rlen r) (concat ys @ drop (length (concat ys)) b) n)) = map dec ys"
proof -
  have len: "length (concat ys) = length ys * rlen r" by (rule length_concat_records [OF assms(1)])
  obtain m where m: "n = length ys + m" using assms(2) le_Suc_ex by blast
  have "chunks (rlen r) (concat ys @ drop (length (concat ys)) b) n
      = chunks (rlen r) (concat ys) (length ys) @ chunks (rlen r) (drop (length (concat ys)) b) m"
    unfolding m by (rule chunks_append [OF len])
  moreover have "chunks (rlen r) (concat ys) (length ys) = ys" using assms(1) by (intro chunks_concat) (auto simp: records_ok_def)
  ultimately show ?thesis by simp
qed

lemma read_helper_spec:
  assumes "record_file r f rs" and "retry (os_read os)" and "pos f = k * rlen r" and "length rb = 50 * rlen r" and "50 * rlen r < 2 ^ 31"
    and "\<forall>y \<in> set rs. rec_ok (dec y)" and "\<forall>x \<in> set buf'. info_ok x" and "min 50 n \<le> length buf'"
  shows "\<exists>buf2 f'. read_helper os r 50 dec post_record_to_info rb buf' (int n) c f = Some (c + int (length (take n (drop k rs))), buf2, f')
    \<and> drop 50 buf2 = drop 50 buf'
    \<and> (n \<le> 50 \<longrightarrow> buf2 = map2 info_of (map dec (take n (drop k rs))) (take (length (take n (drop k rs))) buf') @ drop (length (take n (drop k rs))) buf')"
  using assms(1,3,4,7,8)
proof (induction n arbitrary: f k rb buf' c rule: less_induct)
  case (less n)
  show ?case
  proof (cases "n = 0")
    case True
    then show ?thesis by (subst read_helper.simps) simp
  next
    case False
    define m where "m = min 50 n"
    define ys where "ys = take m (drop k rs)"
    define rb2 where "rb2 = concat ys @ drop (length (concat ys)) rb"
    define buf1 where "buf1 = map2 info_of (map dec ys) (take (length ys) buf') @ drop (length ys) buf'"
    have m: "0 < m" "m \<le> n" "m \<le> 50" "int m = min (int 50) (int n)" "int n - int m = int (n - m)" using False by (auto simp: m_def)
    have mr: "m * rlen r \<le> 50 * rlen r" using m(3) by (rule mult_le_mono1)
    have rd: "record_read os (Some r) (Some rb) (int m) f = Some (int (length ys), Some rb2, f\<lparr>pos := (k + length ys) * rlen r\<rparr>)"
      unfolding ys_def rb2_def 
      by (intro record_read_any less.prems(1,2) assms(2)) (use mr less.prems(3) le_less_trans [OF mr assms(5)] in simp_all)
    have ok: "records_ok (rlen r) ys" using less.prems(1) unfolding ys_def record_file_def by (intro records_ok_take records_ok_drop) simp
    have ly: "length ys \<le> 50" "length ys \<le> length buf'" using m(3) less.prems(5) by (auto simp: ys_def m_def)
    have sub: "a \<in> set ys \<Longrightarrow> rec_ok (dec a)" for a using assms(6) by (auto simp: ys_def dest: in_set_takeD in_set_dropD)
    let ?pr = "map dec (chunks (rlen r) rb2 50)"
    have block: "take (length ys) ?pr = map dec ys" unfolding rb2_def by (rule decode_block [OF ok ly(1) less.prems(3)])
    have "\<forall>j < length ys. rec_ok (?pr ! j)"
    proof (intro allI impI)
      fix j assume "j < length ys"
      then have "?pr ! j = dec (ys ! j)" using arg_cong [OF block, of "\<lambda>l. l ! j"] by (simp del: nth_chunks)
      then show "rec_ok (?pr ! j)" using sub \<open>j < length ys\<close> by simp
    qed
    then have conv: "post_record_to_info (map dec (chunks (rlen r) rb2 50)) buf' (int (length ys)) = Some buf1"
      using to_info_loop_value [of 0 "length ys" ?pr buf'] ly less.prems(4) block by (simp add: post_record_to_info_def buf1_def)
    have total: "length (take n (drop k rs)) = length ys + length (take (n - m) (drop (k + length ys) rs))"
      using m(2) by (auto simp: ys_def min_def)
    have step: "read_helper os r 50 dec post_record_to_info rb buf' (int n) c f =
       (if ys = [] then Some (c, buf', f\<lparr>pos := (k + length ys) * rlen r\<rparr>)
        else read_helper os r 50 dec post_record_to_info rb2 buf1 (int (n - m)) (c + int (length ys)) (f\<lparr>pos := (k + length ys) * rlen r\<rparr>))"
      using False rd conv m(4,5) by (subst read_helper.simps) auto
    show ?thesis
    proof (cases "ys = []")
      case True
      then have "drop k rs = []" using m(1) by (simp add: ys_def)
      then show ?thesis using step True by simp
    next
      case ne: False
      have l1: "length buf1 = length buf'" "drop 50 buf1 = drop 50 buf'" using ly by (simp_all add: buf1_def)
      have "\<forall>x \<in> set buf1. info_ok x"
      proof -
        have io: "info_ok (info_of (dec a) b)" if "a \<in> set ys" "b \<in> set buf'" for a b
          using that less.prems(4) record_to_info_value [OF sub] by blast
        have "info_ok x" if x: "x \<in> set (map2 info_of (map dec ys) (take (length ys) buf'))" for x
        proof -
          obtain a b where "x = info_of (dec a) b" "(a, b) \<in> set (zip ys (take (length ys) buf'))" using x by (auto simp: zip_map1)
          then show ?thesis using io [of a b] by (meson in_set_takeD set_zip_leftD set_zip_rightD)
        qed
        then show ?thesis using less.prems(4) by (auto simp: buf1_def simp del: set_map dest: in_set_dropD)
      qed
      moreover have "record_file r (f\<lparr>pos := (k + length ys) * rlen r\<rparr>) rs" using less.prems(1) by (simp add: record_file_def)
      moreover have "length rb2 = 50 * rlen r"
        using less.prems(3) length_concat_records [OF ok] mult_le_mono1 [OF ly(1), of "rlen r"] by (simp add: rb2_def)
      moreover have "min 50 (n - m) \<le> length buf1" using l1(1) less.prems(5) by auto
      ultimately obtain buf2 f' where i:
          "read_helper os r 50 dec post_record_to_info rb2 buf1 (int (n - m)) (c + int (length ys)) (f\<lparr>pos := (k + length ys) * rlen r\<rparr>)
             = Some (c + int (length ys) + int (length (take (n - m) (drop (k + length ys) rs))), buf2, f')"
          "drop 50 buf2 = drop 50 buf1" "n - m = 0 \<Longrightarrow> buf2 = buf1"
        using less.IH [of "n - m" "f\<lparr>pos := (k + length ys) * rlen r\<rparr>" "k + length ys" rb2 buf1 "c + int (length ys)"] m(1) False
        by force
      have "read_helper os r 50 dec post_record_to_info rb buf' (int n) c f = Some (c + int (length (take n (drop k rs))), buf2, f')"
        using step ne i(1) unfolding total by simp
      moreover have "buf2 = map2 info_of (map dec (take n (drop k rs))) (take (length (take n (drop k rs))) buf') @ drop (length (take n (drop k rs))) buf'"
        if "n \<le> 50"
      proof -
        have "m = n" using that by (simp add: m_def)
        then have "buf2 = buf1" "ys = take n (drop k rs)" using i(3) by (simp_all add: ys_def)
        then show ?thesis using buf1_def by simp
      qed
      ultimately show ?thesis using i(2) l1(2) by metis
    qed
  qed
qed

text \<open>Claim C38: a list of at most fifty posts is read into the caller's array completely and in order, and the rest of the
  array stays as it is.  Of a longer list every record is counted, but no entry behind the fiftieth is written: each block
  goes to the start of the array.\<close>

theorem post_record_read_correct:
  assumes "record_file r f rs" and "retry (os_read os)" and "can_seek os" and "base \<le> length rs" and "\<not> is_deleted type"
    and "length rb = POST_BOARD_BUF_SIZE * rlen r" and "POST_BOARD_BUF_SIZE * rlen r < 2 ^ 31" and "n \<le> length buf'"
    and "\<forall>y \<in> set rs. rec_ok (dec y)" and "\<forall>x \<in> set buf'. info_ok x" and "ys = take n (drop base rs)"
  shows "\<exists>buf2 f'. post_record_read os dec dece rb r (int base) buf' (int n) type f = Some (int (length ys), buf2, f')
    \<and> (n \<le> POST_BOARD_BUF_SIZE \<longrightarrow> buf2 = map2 info_of (map dec ys) (take (length ys) buf') @ drop (length ys) buf')
    \<and> drop POST_BOARD_BUF_SIZE buf2 = drop POST_BOARD_BUF_SIZE buf'"
proof -
  let ?f = "f\<lparr>pos := base * rlen r\<rparr>"
  have "record_file r ?f rs" using assms(1) by (simp add: record_file_def)
  moreover have "min 50 n \<le> length buf'" using assms(8) by simp
  ultimately obtain buf2 f' where "read_helper os r 50 dec post_record_to_info rb buf' (int n) 0 ?f = Some (0 + int (length ys), buf2, f')"
      "drop 50 buf2 = drop 50 buf'"
      "n \<le> 50 \<longrightarrow> buf2 = map2 info_of (map dec ys) (take (length ys) buf') @ drop (length ys) buf'"
    using read_helper_spec [of r ?f rs os base rb dec buf' n 0] assms(2,6-11) unfolding POST_BOARD_BUF_SIZE_def by auto
  moreover have "record_seek os (Some r) (int base) RECORD_SET f = Some (int base, ?f)" by (rule record_seek_file [OF assms(1,3,4)])
  ultimately show ?thesis using assms(5) by (simp add: post_record_read_def POST_BOARD_BUF_SIZE_def)
qed

definition no_info :: post_info_t where
  "no_info = \<lparr>pi_id = 0, pi_reply_id = 0, pi_thread_id = 0, pi_delete_stamp = 0, pi_flag = 0, pi_user_id = 0, pi_user_id_replied = 0,
     pi_board_id = 0, pi_user_name = [0], pi_eraser_name = [0], pi_board_name = [0], pi_utf8_title = [0]\<rparr>"

text \<open>A record of one byte, its identifier.\<close>

definition tiny_record :: "buf \<Rightarrow> post_record_t" where
  "tiny_record b = \<lparr>pr_id = uint (b ! 0), pr_reply_id = 0, pr_thread_id = 0, pr_user_id = 0, pr_user_id_replied = 0, pr_board_id = 0,
     pr_flag = 0, pr_user_name = [0], pr_board_name = [0], pr_utf8_title = [0]\<rparr>"

definition tiny_extended :: "buf \<Rightarrow> post_record_extended_t" where
  "tiny_extended b = \<lparr>pre_basic = tiny_record b, pre_junk = False, pre_bm_visible = True, pre_eraser_id = 0, pre_stamp = 0, pre_eraser_name = [0]\<rparr>"

theorem post_record_read_correct_witness:
  "\<exists>buf2 f'. post_record_read os_fine tiny_record tiny_extended (replicate 50 0) \<lparr>rlen = 1, cmp = (\<lambda>_ _. 0)\<rparr> 0 [no_info] 1 POST_LIST_NORMAL \<lparr>bytes = [7], pos = 0\<rparr>
     = Some (1, buf2, f') \<and> buf2 = [no_info\<lparr>pi_id := 7\<rparr>]"
proof -
  let ?r = "\<lparr>rlen = 1, cmp = (\<lambda>_ _. 0)\<rparr>" and ?f = "\<lparr>bytes = [7], pos = 0\<rparr>"
  have "record_file ?r ?f [[7]]" by (simp add: record_file_def records_ok_def)
  then have "\<exists>buf2 f'. post_record_read os_fine tiny_record tiny_extended (replicate 50 0) ?r (int 0) [no_info] (int 1) POST_LIST_NORMAL ?f
      = Some (int (length [[7 :: byte]]), buf2, f')
    \<and> (1 \<le> POST_BOARD_BUF_SIZE \<longrightarrow> buf2 = map2 info_of (map tiny_record [[7]]) (take (length [[7 :: byte]]) [no_info]) @ drop (length [[7 :: byte]]) [no_info])
    \<and> drop POST_BOARD_BUF_SIZE buf2 = drop POST_BOARD_BUF_SIZE [no_info]"
    by (rule post_record_read_correct)
      (simp_all add: os_fine_def is_deleted_def POST_BOARD_BUF_SIZE_def rec_ok_def tiny_record_def info_ok_def no_info_def)
  then show ?thesis by (auto simp: POST_BOARD_BUF_SIZE_def info_of_def tiny_record_def no_info_def fit_def)
qed

section \<open>Identifiers\<close>

text \<open>Claim C39: the time of a post is found again in its identifier exactly for times below 4294968 seconds; the
  multiplication by a thousand is done with 32 bits and wraps around for every later time.\<close>

theorem post_stamp_round_trip: "post_stamp (post_id_from_stamp t) = t \<longleftrightarrow> unat t < 4294968"
proof -
  have u: "uint (t * 1000) = (uint t * 1000) mod 2 ^ 32" by (simp add: uint_word_ariths)
  have "post_stamp (post_id_from_stamp t) = word_of_int (uint (t * 1000) div 1000)"
    by (simp add: post_stamp_def post_id_from_stamp_def c_div_nonneg)
  moreover have "uint (t * 1000) div 1000 < 2 ^ 32" "0 \<le> uint (t * 1000) div 1000" unfolding u by simp_all
  then have "uint (word_of_int (uint (t * 1000) div 1000) :: u32) = uint (t * 1000) div 1000" by (simp add: uint_word_of_int)
  ultimately have eq: "post_stamp (post_id_from_stamp t) = t \<longleftrightarrow> uint (t * 1000) div 1000 = uint t"
    by (metis word_of_int_uint)
  have tu: "uint t = int (unat t)" by simp
  show ?thesis
  proof (cases "unat t < 4294968")
    case True
    then have "uint t * 1000 \<le> 4294967000" unfolding tu by linarith
    then have "uint t * 1000 < 2 ^ 32" by simp
    then show ?thesis using True eq by (simp add: u)
  next
    case False
    then have "uint t \<ge> 4294968" unfolding tu by linarith
    moreover have "uint (t * 1000) div 1000 \<le> 4294967" unfolding u by simp
    ultimately show ?thesis using False eq by linarith
  qed
qed

end
