(* ===== verification/Spec2Isabelle.thy ===== *)
theory Spec2Isabelle
  imports FB_Vector FB_Hash FB_RecordSearch FB_MarkStore FB_ScreenPrint FB_Keys FB_Redraw FB_MarkupXml FB_MineStart FB_MineRank FB_Pstring FB_EditCursor FB_MenuDict FB_MenuKeys FB_MentionScan FB_QuoteText FB_PostRead
begin

text \<open>
  A verification of the core libraries of \<open>fbbs\<close>, a bulletin board system in C.  Users reach it over telnet
  (\<open>src/\<close>), over the web (\<open>fcgi/\<close>) and through games and tools; a backend process owns the posts
  (\<open>backend/\<close>).  All of them share \<open>lib/\<close>.  This development follows the data from the disk to the client:
  growable arrays and messages, strings and character sets, files and record files, the line files and read marks built
  on them, the terminal with its screen buffer and its keyboard, the text
  editor, the web page of a post, and one of the games.

  \<^bold>\<open>Conventions.\<close>  A buffer is a list of bytes (\<^typ>\<open>8 word\<close>), a C string is a buffer with a NUL; an
  array access goes through \<^theory_text>\<open>rd\<close>, \<^theory_text>\<open>wr\<close>, \<^theory_text>\<open>mem_read\<close>,
  \<^theory_text>\<open>mem_write\<close> and \<^theory_text>\<open>mem_move\<close>, which give \<^const>\<open>None\<close> out of range.
  So the outer \<^const>\<open>None\<close> of an operation is undefined behaviour, or a loop that does not end; NULL results
  and error codes of the source are ordinary values.  Unsigned integers of the source are words of their width where
  they can wrap; signed ones are \<^typ>\<open>int\<close> with the conversions written out.  What lies outside the sources is an
  argument: the allocator (\<^theory_text>\<open>heap\<close>), the answers of the operating system (\<^theory_text>\<open>os\<close>,
  \<^theory_text>\<open>fs_answers\<close>), the character tables of iconv (\<^theory_text>\<open>charset\<close>), the packets of the client
  (\<^theory_text>\<open>input_event\<close>), callbacks with their own state.

  \<^bold>\<open>Theories.\<close>

  \<^item> \<open>FB_Prelude\<close>: memory access, C strings, character classes, integer conversions and the rewrite rules
    for memory access.
  \<^item> \<open>FB_Vector\<close> (\<open>lib/vector.c\<close>), \<open>FB_Parcel\<close> (\<open>lib/parcel.c\<close>),
    \<open>FB_Hash\<close> (\<open>lib/hash.c\<close>): containers and messages.  Vectors grow and erase as lists do, with the one
    exception that erasing from a full vector runs over its end; every list of fields comes back from a parcel; a hash
    table is a finite map through any history of operations.
  \<^item> \<open>FB_String\<close> and \<open>FB_Utf8\<close> (\<open>lib/string.c\<close>), \<open>FB_Convert\<close>
    (\<open>lib/convert.c\<close>): bounded copies, trimming, GBK and ANSI filters, decoding and column widths of UTF-8,
    conversion in pieces.  The lemmas compare each loop with a specification on whole strings.
  \<^item> \<open>FB_Pool\<close> (\<open>lib/pool.c\<close>) and \<open>FB_Pstring\<close> (\<open>lib/string.c\<close>): pools of
    memory whose pieces never overlap, and strings that grow on them.
  \<^item> \<open>FB_File\<close> (\<open>lib/fileio.c\<close>, \<open>lib/mmap.c\<close>): reads, writes, copies and mappings over the
    bytes of a file.  \<open>FB_Record\<close> and \<open>FB_RecordSearch\<close> (\<open>lib/record.c\<close>): files of
    fixed-length records, where deleting, updating, visiting, merging and searching refine filter, map, fold, merge and
    find on lists of records.
  \<^item> \<open>FB_Helper\<close> (\<open>lib/helper.c\<close>): paths, line files, address masking.
  \<^item> \<open>FB_ReadMark\<close> and \<open>FB_MarkStore\<close> (\<open>lib/boardrc.c\<close>): which posts a user has read.
    The first theory has the operations on the current board and its invariant, the second the packed form of all
    boards: entering a board, merging and saving keep every other board's marks, and a later session finds them.
  \<^item> \<open>FB_Terminal\<close> and \<open>FB_Input\<close> (\<open>src/terminal.c\<close>): output through the buffer as a
    stream; bytes, telnet options and escape sequences from the client.  \<open>FB_Keys\<close>: the keys that were typed are
    decoded whatever the packets; window size reports.
  \<^item> \<open>FB_Screen\<close> and \<open>FB_ScreenPrint\<close> (\<open>src/screen.c\<close>): the lines, the cursor, clearing,
    scrolling, flushing and formatted output.  \<open>FB_ScreenText\<close>: text put on the screen appears at the cursor.
    \<open>FB_Client\<close>: an ANSI terminal, and \<open>FB_Redraw\<close>: redrawing makes it show the buffer.
  \<^item> \<open>FB_Edit\<close> and \<open>FB_EditKeys\<close> (\<open>src/edit.c\<close>): the text editor, a doubly linked list of
    lines in an explicit store of allocated lines, with its blocks, keys and files.  \<open>FB_EditText\<close>: the chain of
    lines as a list of texts, and splitting, typing and erasing on it; \<open>FB_EditFile\<close>: a file that is loaded and
    saved comes out unchanged; \<open>FB_EditJoin\<close>: joining lines, keys that undo each other, and where joining goes
    wrong; \<open>FB_EditCursor\<close>: the cursor keys.
  \<^item> \<open>FB_Menu\<close> (\<open>lib/sysconf.c\<close>, \<open>src/comm_lists.c\<close>): the menu file and its image, drawing
    a menu and its keys; pointers are addresses, the base of each buffer is a parameter.  \<open>FB_MenuText\<close>: the
    encoding of backgrounds and the relocation of an image; \<open>FB_MenuDict\<close>: the keys as a dictionary;
    \<open>FB_MenuKeys\<close>: drawing again, and where the cursor goes.
  \<^item> \<open>FB_Quote\<close>, \<open>FB_Mention\<close>, \<open>FB_Post\<close> (\<open>lib/post.c\<close>): quoting a post, the users it
    mentions, and the records of posts; \<open>FB_QuoteText\<close>, \<open>FB_MentionScan\<close> and \<open>FB_PostRead\<close> show
    what a quotation is made of, who is found, and what a list of posts holds.
  \<^item> \<open>FB_Time\<close> (\<open>lib/time.c\<close>): formats of dates, and the check of dates against a closed calendar formula.
    \<open>FB_Markup\<close> (\<open>fcgi/parse.c\<close>): the printer of posts as XML with its header parser, colours, links and
    quotes.  \<open>FB_MarkupXml\<close>: a reader of XML, and that every post is printed balanced and escaped.
  \<^item> \<open>FB_Mine\<close> and \<open>FB_MineRank\<close> (\<open>game/winmine.c\<close>): the mine field and its table of best times.
    \<open>FB_MineField\<close>: a dig opens exactly the area that spreads from a square; \<open>FB_MineStart\<close>: the first dig
    never loses.

  \<^bold>\<open>Interfaces.\<close>  Locales state what one part needs of another: \<open>hash_function\<close> and \<open>store\<close> for
  the hash table (a function of the key alone; a container that answers like a finite map), \<open>codec\<close> for the parcel
  (a writer and a reader that agree on an encoding), with one interpretation per kind of field, \<open>page\<close> for the
  web page (escaping that yields plain text), interpreted for pages in UTF-8, \<open>arena\<close> for the pools (pieces in
  use stay in use and apart).

  \<^bold>\<open>Loops.\<close>  Loops with a bound are recursive functions with a termination proof, so a result in
  \<^const>\<open>Some\<close> says that the code returns.  Doubling loops that may wrap are partial functions, and the theorems
  say when they return; so are digging, whose recursion ends because every call opens a square, and the laying of
  mines, which ends when the random numbers are fair, and the walks along the linked lines of the editor, which end
  because the lines form a chain, and the loops of the menus; the parser of the menu file does not end on a file that
  includes itself.  No fuel is used.

  \<^bold>\<open>Not modelled.\<close>  System calls as such (locks between processes, sockets, signals, shared memory), the SQL
  interface and everything that only builds queries, the vendored SSH library, the web templates, and the screens of
  the telnet program, which call the modelled parts and print text.  Releasing memory is modelled only where it matters
  (the entries that a destroyed hash table gives back).
\<close>

end
